(* ===== verification/EdgePrelude.thy ===== *)
theory EdgePrelude
  imports Main "HOL-Library.Word" "HOL-Library.Multiset"
begin

text \<open>
  Shared vocabulary of the development: the machine integers of the Rust sources as
  fixed-width words, big-endian byte access, the few iterator methods the sources use, and
  the generic facts on words and lists the component theories share. A word of width
  \<open>w\<close> wraps exactly as \<open>wrapping_add\<close> and \<open>wrapping_sub\<close> do; \<open>usize\<close> indices
  are \<open>nat\<close>.
\<close>

unbundle bit_operations_syntax

type_synonym u8 = "8 word"
type_synonym u16 = "16 word"
type_synonym u32 = "32 word"
type_synonym u64 = "64 word"
type_synonym bytes = "u8 list"

named_theorems seq_simps \<open>arithmetic of 16-bit sequence numbers, moved to the naturals\<close>
named_theorems byte_simps \<open>big-endian bytes and byte-wise access\<close>

section \<open>Sequence-number arithmetic\<close>

lemma unat_u16_lt [simp]: "unat (x :: u16) < 65536"
  using unsigned_less [of x] by simp

lemma unat_diff_u16 [seq_simps]:
  "unat ((a :: u16) - b) = (if unat b \<le> unat a then unat a - unat b else 65536 + unat a - unat b)"
  using unat_sub_if' [of a b] unat_u16_lt [of b] by (auto simp: not_le)

lemma unat_diff_swap:
  "unat ((a :: u16) - b) = (if a = b then 0 else 65536 - unat (b - a))"
proof -
  have "unat a < 65536" "unat b < 65536" by (rule unat_u16_lt)+
  then show ?thesis by (auto simp: unat_diff_u16 word_unat_eq_iff simp del: unat_u16_lt)
qed

lemma unat_add_u16 [seq_simps]:
  "unat ((a :: u16) + b) =
     (if unat a + unat b < 65536 then unat a + unat b else unat a + unat b - 65536)"
  using unat_plus_if' [of a b] by auto

lemma unat_of_nat_u16 [seq_simps]: "n < 65536 \<Longrightarrow> unat (of_nat n :: u16) = n"
  by (simp add: unat_of_nat)

lemma u16_diff_cancel [simp]: "(a :: u16) - (a - b) = b"
  by simp

lemma u16_add_of_nat_diff:
  fixes a b :: u16
  shows "a + of_nat (unat (b - a)) = b"
  by simp

lemma u16_eq_iff_unat: "(a :: u16) = b \<longleftrightarrow> unat a = unat b"
  by (rule word_unat_eq_iff)

text \<open>Two sequence numbers reached from one base by offsets below \<open>2\<^sup>1\<^sup>6\<close> are equal only
  when the offsets are.\<close>

lemma u16_offset_inj:
  fixes base :: u16
  assumes "i < 65536" "j < 65536" "base + of_nat i = base + of_nat j"
  shows "i = j"
proof -
  from assms(3) have "of_nat i = (of_nat j :: u16)" by simp
  then have "unat (of_nat i :: u16) = unat (of_nat j :: u16)" by simp
  with assms(1,2) show ?thesis by (simp add: unat_of_nat_u16)
qed

lemma u16_offset_diff [simp]:
  fixes base :: u16
  assumes "i < 65536"
  shows "unat (base + of_nat i - base) = i"
  using assms by (simp add: unat_of_nat_u16)

section \<open>Big-endian bytes\<close>

definition be16 :: "u8 \<Rightarrow> u8 \<Rightarrow> u16" where
  "be16 a b = push_bit 8 (ucast a) OR ucast b"

definition be32 :: "u8 \<Rightarrow> u8 \<Rightarrow> u8 \<Rightarrow> u8 \<Rightarrow> u32" where
  "be32 a b c d =
     push_bit 24 (ucast a) OR push_bit 16 (ucast b) OR push_bit 8 (ucast c) OR ucast d"

definition hi8 :: "u16 \<Rightarrow> u8" where
  "hi8 w = ucast (drop_bit 8 w)"

definition lo8 :: "u16 \<Rightarrow> u8" where
  "lo8 w = ucast w"

text \<open>\<open>(w >> (8 * k)) as u8\<close> of a 32-bit word.\<close>

definition byte32 :: "nat \<Rightarrow> u32 \<Rightarrow> u8" where
  "byte32 k w = ucast (drop_bit (8 * k) w)"

lemma be16_hi8_lo8 [simp, byte_simps]: "be16 (hi8 w) (lo8 w) = w"
  by (rule bit_word_eqI)
     (auto simp: be16_def hi8_def lo8_def bit_or_iff bit_push_bit_iff bit_ucast_iff
        bit_drop_bit_eq)

lemma hi8_be16 [simp, byte_simps]: "hi8 (be16 a b) = a"
  by (rule bit_word_eqI)
     (auto simp: be16_def hi8_def bit_or_iff bit_push_bit_iff bit_ucast_iff
        bit_drop_bit_eq dest: bit_imp_le_length)

lemma lo8_be16 [simp, byte_simps]: "lo8 (be16 a b) = b"
  by (rule bit_word_eqI)
     (auto simp: be16_def lo8_def bit_or_iff bit_push_bit_iff bit_ucast_iff
        dest: bit_imp_le_length)

lemma be32_byte32 [simp, byte_simps]:
  "be32 (byte32 3 w) (byte32 2 w) (byte32 1 w) (byte32 0 w) = w"
proof (rule bit_word_eqI)
  fix n assume n: "n < LENGTH(32)"
  consider "n < 8" | "8 \<le> n \<and> n < 16" | "16 \<le> n \<and> n < 24" | "24 \<le> n" by linarith
  then show "bit (be32 (byte32 3 w) (byte32 2 w) (byte32 1 w) (byte32 0 w)) n = bit w n"
    using n
    by cases (auto simp: be32_def byte32_def bit_or_iff bit_push_bit_iff bit_ucast_iff
        bit_drop_bit_eq)
qed

section \<open>Byte strings read past their end as zero\<close>

definition byte_at :: "bytes \<Rightarrow> nat \<Rightarrow> u8" where
  "byte_at xs i = (if i < length xs then xs ! i else 0)"

lemma byte_at_Nil [simp]: "byte_at [] i = 0"
  by (simp add: byte_at_def)

lemma bytes_eqI:
  assumes "length xs = length ys" and "\<And>i. byte_at xs i = byte_at ys i"
  shows "xs = ys"
proof (rule nth_equalityI)
  fix i assume "i < length xs"
  then show "xs ! i = ys ! i" using assms(1) assms(2) [of i] by (simp add: byte_at_def)
qed (rule assms(1))

section \<open>Iterator methods of the sources\<close>

text \<open>\<open>Iterator::rposition\<close>: the index of the last element that satisfies the predicate.\<close>

fun rposition :: "('a \<Rightarrow> bool) \<Rightarrow> 'a list \<Rightarrow> nat option" where
  "rposition P [] = None"
| "rposition P (x # xs) =
     (case rposition P xs of
        Some i \<Rightarrow> Some (Suc i)
      | None \<Rightarrow> if P x then Some 0 else None)"

lemma rposition_None: "rposition P xs = None \<longleftrightarrow> (\<forall>x\<in>set xs. \<not> P x)"
  by (induction xs) (auto split: option.splits)

lemma rposition_Some_last:
  "rposition P xs = Some i \<Longrightarrow> j < length xs \<Longrightarrow> P (xs ! j) \<Longrightarrow> j \<le> i"
proof (induction xs arbitrary: i j)
  case (Cons x xs)
  then show ?case
    by (cases j) (auto simp: rposition_None split: option.splits if_splits)
qed simp

lemma list_update_None_nth: "xs[i := None] ! j = Some v \<Longrightarrow> xs ! j = Some v"
  by (cases "i < length xs \<and> j = i") (auto simp: nth_list_update_neq not_less list_update_beyond)

text \<open>The payloads of the cells that are filled, in the order of the positions.\<close>

lemma map_filter_update_other:
  "p \<notin> set ps \<Longrightarrow> List.map_filter (\<lambda>q. xs[p := v] ! q) ps = List.map_filter (\<lambda>q. xs ! q) ps"
  by (induction ps) (auto simp: map_filter_simps split: option.splits)

lemma mset_map_filter_update:
  assumes "p \<in> set ps" "distinct ps" "p < length xs" "xs ! p = None"
  shows "mset (List.map_filter (\<lambda>q. xs[p := Some v] ! q) ps) =
         add_mset v (mset (List.map_filter (\<lambda>q. xs ! q) ps))"
  using assms
proof (induction ps)
  case (Cons q ps)
  show ?case
  proof (cases "p = q")
    case True
    with Cons.prems have "p \<notin> set ps" by simp
    with True Cons.prems show ?thesis
      by (simp add: map_filter_simps map_filter_update_other)
  next
    case False
    with Cons show ?thesis
      by (auto simp: map_filter_simps split: option.splits)
  qed
qed simp

lemma length_map_filter_le: "length (List.map_filter f ps) \<le> length ps"
  by (induction ps) (auto simp: map_filter_simps split: option.splits)

lemma length_map_filter_eq_iff:
  "length (List.map_filter f ps) = length ps \<longleftrightarrow> (\<forall>p\<in>set ps. f p \<noteq> None)"
proof (induction ps)
  case (Cons q ps)
  show ?case using Cons.IH length_map_filter_le [of f ps]
    by (auto simp: map_filter_simps split: option.splits)
qed (simp add: map_filter_simps)

lemma map_filter_all_Some:
  "\<forall>p\<in>set ps. f p = Some (g p) \<Longrightarrow> List.map_filter f ps = map g ps"
  by (induction ps) (auto simp: map_filter_simps)

end
