(* ===== verification/FecMatrix.thy ===== *)
theory FecMatrix
  imports EdgePrelude
begin

text \<open>
  The SMPTE 2022-1 parity matrix of \<open>src/src/fec/matrix.rs\<close>, shared by the encoder and the
  decoder: the padded XOR of payloads, the matrix record with its running parities and
  counts, the placement rule, and the bounds \<open>validate_fec\<close> puts on its shape. The
  interface locale \<open>fec_group\<close> states what a protected group (a column or a row) promises;
  its two interpretations carry the recovery facts both directions use.
\<close>

section \<open>The padded XOR of payloads\<close>

text \<open>\<open>FecMatrix::xor_accumulate\<close>: grow the target with zeros, then XOR over the zip.\<close>

definition xor_accumulate :: "bytes \<Rightarrow> bytes \<Rightarrow> bytes" where
  "xor_accumulate target source =
     (let t = (if length target < length source
               then target @ replicate (length source - length target) 0 else target)
      in map2 (XOR) t source @ drop (length source) t)"

lemma length_xor_accumulate [simp]:
  "length (xor_accumulate t s) = max (length t) (length s)"
  by (auto simp: xor_accumulate_def Let_def)

lemma byte_at_xor_accumulate [simp]:
  "byte_at (xor_accumulate t s) i = byte_at t i XOR byte_at s i"
  by (auto simp: xor_accumulate_def Let_def byte_at_def nth_append)

lemma xor_accumulate_commute: "xor_accumulate a b = xor_accumulate b a"
  by (rule bytes_eqI) (simp_all add: max.commute xor.commute)

lemma xor_accumulate_assoc:
  "xor_accumulate (xor_accumulate a b) c = xor_accumulate a (xor_accumulate b c)"
  by (rule bytes_eqI) (simp_all add: max.assoc xor.assoc)

lemma xor_accumulate_left_commute:
  "xor_accumulate a (xor_accumulate b c) = xor_accumulate b (xor_accumulate a c)"
  by (metis xor_accumulate_assoc xor_accumulate_commute)

lemmas xor_ac = xor_accumulate_assoc xor_accumulate_commute xor_accumulate_left_commute

lemma xor_accumulate_Nil [simp]: "xor_accumulate a [] = a" "xor_accumulate [] a = a"
  by (rule bytes_eqI; simp)+

text \<open>XOR is its own inverse as long as the padding does not outgrow the original.\<close>

lemma xor_accumulate_cancel:
  assumes "length b \<le> length a"
  shows "xor_accumulate (xor_accumulate a b) b = a"
  by (rule bytes_eqI) (use assms in \<open>simp_all add: xor.assoc\<close>)

text \<open>The parity of a collection of payloads; its order does not matter.\<close>

definition xor_all :: "bytes list \<Rightarrow> bytes" where
  "xor_all bs = foldr xor_accumulate bs []"

lemma xor_all_simps [simp]:
  "xor_all [] = []" "xor_all (b # bs) = xor_accumulate b (xor_all bs)"
  by (simp_all add: xor_all_def)

lemma xor_all_append: "xor_all (as @ bs) = xor_accumulate (xor_all as) (xor_all bs)"
  by (induction as) (simp_all add: xor_accumulate_assoc)

lemma xor_all_mset:
  assumes "mset as = mset bs"
  shows "xor_all as = xor_all bs"
  using assms
proof (induction as arbitrary: bs)
  case (Cons a as)
  then have "a \<in> set bs" by (metis list.set_intros(1) mset_eq_setD)
  then obtain us vs where bs: "bs = us @ a # vs" by (meson split_list)
  with Cons.prems have "mset as = mset (us @ vs)" by simp
  then have "xor_all as = xor_all (us @ vs)" by (rule Cons.IH)
  then show ?case by (simp add: bs xor_all_append xor_accumulate_left_commute)
qed simp

lemma length_xor_all_le: "\<forall>b\<in>set bs. length b \<le> n \<Longrightarrow> length (xor_all bs) \<le> n"
  by (induction bs) auto

section \<open>The matrix\<close>

datatype placement = Cell nat | Late u16 | Past | Moved

record fec_matrix =
  mx_columns :: nat
  mx_rows :: nat
  mx_cells :: "bytes option list"
  mx_col_parity :: "bytes list"
  mx_row_parity :: "bytes list"
  mx_col_count :: "nat list"
  mx_row_count :: "nat list"
  mx_max_payload_len :: nat

definition matrix_new :: "nat \<Rightarrow> nat \<Rightarrow> fec_matrix" where
  "matrix_new columns rows =
     \<lparr>mx_columns = columns, mx_rows = rows,
      mx_cells = replicate (columns * rows) None,
      mx_col_parity = replicate columns [], mx_row_parity = replicate rows [],
      mx_col_count = replicate columns 0, mx_row_count = replicate rows 0,
      mx_max_payload_len = 0\<rparr>"

definition matrix_size :: "fec_matrix \<Rightarrow> nat" where
  "matrix_size m = mx_columns m * mx_rows m"

definition has_cell :: "fec_matrix \<Rightarrow> nat \<Rightarrow> bool" where
  "has_cell m position \<longleftrightarrow> position < matrix_size m \<and> mx_cells m ! position \<noteq> None"

definition cell :: "fec_matrix \<Rightarrow> nat \<Rightarrow> bytes option" where
  "cell m position =
     (if position < length (mx_cells m) then mx_cells m ! position else None)"

text \<open>\<open>position_to_col_row\<close>, with the \<open>as u8\<close> casts of the source.\<close>

definition position_to_col_row :: "fec_matrix \<Rightarrow> nat \<Rightarrow> nat \<times> nat" where
  "position_to_col_row m position =
     (position mod mx_columns m mod 256, position div mx_columns m mod 256)"

definition insert_media :: "fec_matrix \<Rightarrow> nat \<Rightarrow> bytes \<Rightarrow> (nat \<times> nat) \<times> fec_matrix" where
  "insert_media m position payload =
     (let (col, row) = position_to_col_row m position in
      ((col, row),
       if position < matrix_size m \<and> mx_cells m ! position = None
       then m\<lparr>mx_cells := (mx_cells m)[position := Some payload],
              mx_max_payload_len :=
                (if length payload > mx_max_payload_len m then length payload
                 else mx_max_payload_len m),
              mx_col_parity := (mx_col_parity m)
                [col := xor_accumulate (mx_col_parity m ! col) payload],
              mx_col_count := (mx_col_count m)[col := mx_col_count m ! col + 1],
              mx_row_parity := (mx_row_parity m)
                [row := xor_accumulate (mx_row_parity m ! row) payload],
              mx_row_count := (mx_row_count m)[row := mx_row_count m ! row + 1]\<rparr>
       else m))"

definition place :: "fec_matrix \<Rightarrow> u16 \<Rightarrow> u16 \<Rightarrow> placement" where
  "place m base seq =
     (let size = (of_nat (matrix_size m) :: u16); ahead = seq - base in
      if ahead < size then Cell (unat ahead)
      else if ahead < 0x8000 then Past
      else let behind = base - seq in
           if behind < size then Late behind else Moved)"

definition can_move_back :: "fec_matrix \<Rightarrow> u16 \<Rightarrow> u16 \<Rightarrow> u16 option \<Rightarrow> bool" where
  "can_move_back m seq behind floor \<longleftrightarrow>
     (case floor of None \<Rightarrow> True | Some f \<Rightarrow> seq - f < 0x8000) \<and>
     (case rposition (\<lambda>c. c \<noteq> None) (mx_cells m) of
        None \<Rightarrow> True | Some i \<Rightarrow> i + unat behind + 1 < matrix_size m)"

definition matrix_reset :: "fec_matrix \<Rightarrow> fec_matrix" where
  "matrix_reset m =
     m\<lparr>mx_cells := map (\<lambda>_. None) (mx_cells m),
       mx_col_parity := map (\<lambda>_. []) (mx_col_parity m),
       mx_row_parity := map (\<lambda>_. []) (mx_row_parity m),
       mx_col_count := map (\<lambda>_. 0) (mx_col_count m),
       mx_row_count := map (\<lambda>_. 0) (mx_row_count m),
       mx_max_payload_len := 0\<rparr>"

definition generate_col_fec :: "fec_matrix \<Rightarrow> nat \<Rightarrow> bytes option" where
  "generate_col_fec m col =
     (if mx_col_count m ! col = mx_rows m then Some (mx_col_parity m ! col) else None)"

definition generate_row_fec :: "fec_matrix \<Rightarrow> nat \<Rightarrow> bytes option" where
  "generate_row_fec m row =
     (if mx_row_count m ! row = mx_columns m then Some (mx_row_parity m ! row) else None)"

definition col_count :: "fec_matrix \<Rightarrow> nat \<Rightarrow> nat" where
  "col_count m col = mx_col_count m ! col"

definition row_count :: "fec_matrix \<Rightarrow> nat \<Rightarrow> nat" where
  "row_count m row = mx_row_count m ! row"

definition col_parity :: "fec_matrix \<Rightarrow> nat \<Rightarrow> bytes" where
  "col_parity m col = mx_col_parity m ! col"

definition row_parity :: "fec_matrix \<Rightarrow> nat \<Rightarrow> bytes" where
  "row_parity m row = mx_row_parity m ! row"

text \<open>\<open>validate_fec\<close> of \<open>src/src/config/validation.rs\<close>: the shapes a configuration admits.\<close>

datatype fec_config_error = BadColumns nat | BadRows nat

definition validate_fec :: "nat \<Rightarrow> nat \<Rightarrow> fec_config_error + unit" where
  "validate_fec columns rows =
     (if columns < 1 \<or> columns > 20 then Inl (BadColumns columns)
      else if rows < 4 \<or> rows > 20 then Inl (BadRows rows)
      else Inr ())"

section \<open>Groups of cells\<close>

definition col_positions :: "fec_matrix \<Rightarrow> nat \<Rightarrow> nat list" where
  "col_positions m c = map (\<lambda>r. r * mx_columns m + c) [0..<mx_rows m]"

definition row_positions :: "fec_matrix \<Rightarrow> nat \<Rightarrow> nat list" where
  "row_positions m r = map (\<lambda>c. r * mx_columns m + c) [0..<mx_columns m]"

definition payloads :: "fec_matrix \<Rightarrow> nat list \<Rightarrow> bytes list" where
  "payloads m ps = List.map_filter (\<lambda>p. mx_cells m ! p) ps"

definition matrix_shape :: "fec_matrix \<Rightarrow> bool" where
  "matrix_shape m \<longleftrightarrow>
     0 < mx_columns m \<and> mx_columns m < 256 \<and> 0 < mx_rows m \<and> mx_rows m < 256 \<and>
     length (mx_cells m) = matrix_size m \<and>
     length (mx_col_parity m) = mx_columns m \<and> length (mx_col_count m) = mx_columns m \<and>
     length (mx_row_parity m) = mx_rows m \<and> length (mx_row_count m) = mx_rows m"

definition matrix_inv :: "fec_matrix \<Rightarrow> bool" where
  "matrix_inv m \<longleftrightarrow> matrix_shape m \<and>
     (\<forall>c < mx_columns m. mx_col_count m ! c = length (payloads m (col_positions m c)) \<and>
        mx_col_parity m ! c = xor_all (payloads m (col_positions m c))) \<and>
     (\<forall>r < mx_rows m. mx_row_count m ! r = length (payloads m (row_positions m r)) \<and>
        mx_row_parity m ! r = xor_all (payloads m (row_positions m r))) \<and>
     (\<forall>p < matrix_size m. \<forall>b. mx_cells m ! p = Some b \<longrightarrow> length b \<le> mx_max_payload_len m)"

lemmas matrix_defs = matrix_size_def matrix_shape_def

lemma matrix_shapeD:
  assumes "matrix_shape m"
  shows "0 < mx_columns m" "mx_columns m < 256" "0 < mx_rows m" "mx_rows m < 256"
    "length (mx_cells m) = matrix_size m" "matrix_size m < 65536"
proof -
  show "matrix_size m < 65536"
  proof -
    from assms have "mx_columns m \<le> 255" "mx_rows m \<le> 255" by (auto simp: matrix_shape_def)
    then have "mx_columns m * mx_rows m \<le> 255 * 255" by (rule mult_le_mono)
    then show ?thesis by (simp add: matrix_size_def)
  qed
qed (use assms in \<open>auto simp: matrix_shape_def\<close>)

lemma matrix_inv_shape [simp]: "matrix_inv m \<Longrightarrow> matrix_shape m"
  by (simp add: matrix_inv_def)

lemma cell_eq: "matrix_shape m \<Longrightarrow> p < matrix_size m \<Longrightarrow> cell m p = mx_cells m ! p"
  by (simp add: cell_def matrix_shapeD)

lemma cell_out_of_range: "matrix_shape m \<Longrightarrow> matrix_size m \<le> p \<Longrightarrow> cell m p = None"
  by (simp add: cell_def matrix_shapeD)

lemma has_cell_iff: "matrix_shape m \<Longrightarrow> has_cell m p \<longleftrightarrow> cell m p \<noteq> None"
  by (auto simp: has_cell_def cell_def matrix_shapeD)

text \<open>A position lies in exactly one column and one row.\<close>

lemma set_col_positions:
  assumes "0 < mx_columns m" "c < mx_columns m"
  shows "set (col_positions m c) = {p. p < matrix_size m \<and> p mod mx_columns m = c}"
proof (intro set_eqI iffI)
  fix p assume "p \<in> set (col_positions m c)"
  then obtain r where r: "r < mx_rows m" "p = r * mx_columns m + c"
    by (auto simp: col_positions_def)
  have "p < Suc r * mx_columns m" using r(2) assms(2) by simp
  also have "\<dots> \<le> mx_rows m * mx_columns m" using r(1) by (intro mult_le_mono1) simp
  finally show "p \<in> {p. p < matrix_size m \<and> p mod mx_columns m = c}"
    using r assms by (simp add: matrix_size_def mult.commute)
next
  fix p assume p: "p \<in> {p. p < matrix_size m \<and> p mod mx_columns m = c}"
  then have "p div mx_columns m < mx_rows m"
    using assms by (simp add: matrix_size_def less_mult_imp_div_less mult.commute)
  moreover have "p = p div mx_columns m * mx_columns m + c"
    using p div_mult_mod_eq [of p "mx_columns m"] by simp
  ultimately show "p \<in> set (col_positions m c)" by (auto simp: col_positions_def)
qed

lemma set_row_positions:
  assumes "0 < mx_columns m" "r < mx_rows m"
  shows "set (row_positions m r) = {p. p < matrix_size m \<and> p div mx_columns m = r}"
proof (intro set_eqI iffI)
  fix p assume "p \<in> set (row_positions m r)"
  then obtain c where c: "c < mx_columns m" "p = r * mx_columns m + c"
    unfolding row_positions_def set_map set_upt by (meson atLeastLessThan_iff imageE)
  have "p < Suc r * mx_columns m" using c by simp
  also have "\<dots> \<le> mx_rows m * mx_columns m" using assms(2) by (intro mult_le_mono1) simp
  finally show "p \<in> {p. p < matrix_size m \<and> p div mx_columns m = r}"
    using c assms by (simp add: matrix_size_def mult.commute)
next
  fix p assume p: "p \<in> {p. p < matrix_size m \<and> p div mx_columns m = r}"
  then have "p = r * mx_columns m + p mod mx_columns m"
    using div_mult_mod_eq [of p "mx_columns m"] by simp
  moreover have "p mod mx_columns m < mx_columns m" using assms by simp
  ultimately show "p \<in> set (row_positions m r)"
    unfolding row_positions_def set_map set_upt
    by (intro image_eqI [where x = "p mod mx_columns m"]) simp_all
qed

lemma distinct_col_positions: "0 < mx_columns m \<Longrightarrow> distinct (col_positions m c)"
  by (auto simp: col_positions_def distinct_map inj_on_def)

lemma distinct_row_positions: "distinct (row_positions m r)"
  by (auto simp: row_positions_def distinct_map inj_on_def)

lemma length_positions [simp]:
  "length (col_positions m c) = mx_rows m" "length (row_positions m r) = mx_columns m"
  by (simp_all add: col_positions_def row_positions_def)

lemma positions_cong:
  "mx_columns m' = mx_columns m \<Longrightarrow> mx_rows m' = mx_rows m \<Longrightarrow>
     col_positions m' = col_positions m \<and> row_positions m' = row_positions m \<and>
     matrix_size m' = matrix_size m"
  by (auto simp: col_positions_def row_positions_def matrix_size_def)

section \<open>Every operation keeps the invariant\<close>

lemma payloads_all_None:
  "\<forall>p\<in>set ps. mx_cells m ! p = None \<Longrightarrow> payloads m ps = []"
  by (induction ps) (auto simp: payloads_def map_filter_simps)

lemma matrix_inv_empty:
  assumes "matrix_shape m" "\<forall>p < matrix_size m. mx_cells m ! p = None"
    and "\<forall>c < mx_columns m. mx_col_count m ! c = 0 \<and> mx_col_parity m ! c = []"
    and "\<forall>r < mx_rows m. mx_row_count m ! r = 0 \<and> mx_row_parity m ! r = []"
  shows "matrix_inv m"
proof -
  from assms(1) have L: "0 < mx_columns m" by (rule matrix_shapeD)
  have "payloads m (col_positions m c) = []" if "c < mx_columns m" for c
    using that assms(2) set_col_positions [OF L that] by (intro payloads_all_None) auto
  moreover have "payloads m (row_positions m r) = []" if "r < mx_rows m" for r
    using that assms(2) set_row_positions [OF L that] by (intro payloads_all_None) auto
  ultimately show ?thesis using assms by (simp add: matrix_inv_def)
qed

lemma matrix_inv_new:
  assumes "0 < l" "l < 256" "0 < d" "d < 256"
  shows "matrix_inv (matrix_new l d)"
  by (rule matrix_inv_empty) (use assms in \<open>auto simp: matrix_new_def matrix_defs\<close>)

lemma matrix_inv_reset:
  assumes "matrix_shape m"
  shows "matrix_inv (matrix_reset m)"
  by (rule matrix_inv_empty)
     (use assms in \<open>auto simp: matrix_reset_def matrix_defs\<close>)

lemma matrix_reset_shape [simp]:
  "mx_columns (matrix_reset m) = mx_columns m" "mx_rows (matrix_reset m) = mx_rows m"
  "matrix_size (matrix_reset m) = matrix_size m"
  by (simp_all add: matrix_reset_def matrix_size_def)

lemma cell_reset [simp]: "cell (matrix_reset m) p = None"
  by (simp add: cell_def matrix_reset_def)

lemma matrix_new_shape [simp]:
  "mx_columns (matrix_new l d) = l" "mx_rows (matrix_new l d) = d"
  "matrix_size (matrix_new l d) = l * d"
  by (simp_all add: matrix_new_def matrix_size_def)

lemma cell_new [simp]: "cell (matrix_new l d) p = None"
  by (simp add: cell_def matrix_new_def)

lemma insert_media_shape [simp]:
  "mx_columns (snd (insert_media m p b)) = mx_columns m"
  "mx_rows (snd (insert_media m p b)) = mx_rows m"
  "matrix_size (snd (insert_media m p b)) = matrix_size m"
  by (auto simp: insert_media_def matrix_size_def Let_def split: prod.splits)

lemma cell_insert_media:
  "matrix_shape m \<Longrightarrow>
     cell (snd (insert_media m p b)) q =
       (if q = p \<and> p < matrix_size m \<and> cell m p = None then Some b else cell m q)"
  by (auto simp: insert_media_def cell_def matrix_shapeD Let_def split: prod.splits)

lemma position_to_col_row_in:
  assumes "matrix_shape m" "p < matrix_size m"
  shows "position_to_col_row m p = (p mod mx_columns m, p div mx_columns m)"
    "p mod mx_columns m < mx_columns m" "p div mx_columns m < mx_rows m"
proof -
  note sh = matrix_shapeD [OF assms(1)]
  show c: "p mod mx_columns m < mx_columns m" using sh(1) by simp
  show r: "p div mx_columns m < mx_rows m"
    using assms(2) by (simp add: matrix_size_def less_mult_imp_div_less mult.commute)
  show "position_to_col_row m p = (p mod mx_columns m, p div mx_columns m)"
    using less_trans [OF c sh(2)] less_trans [OF r sh(4)]
    by (simp add: position_to_col_row_def)
qed

lemma payloads_cong: "mx_cells m' = mx_cells m \<Longrightarrow> payloads m' ps = payloads m ps"
  by (simp add: payloads_def)

text \<open>What filling one empty cell does to a group's payloads, count and parity.\<close>

lemma payloads_insert:
  assumes cells: "mx_cells m' = (mx_cells m)[p := Some b]"
    and ps: "distinct ps" and p: "p < length (mx_cells m)" "mx_cells m ! p = None"
  shows "mset (payloads m' ps) =
      (if p \<in> set ps then add_mset b (mset (payloads m ps)) else mset (payloads m ps))"
    and "length (payloads m' ps) =
      (if p \<in> set ps then length (payloads m ps) + 1 else length (payloads m ps))"
    and "xor_all (payloads m' ps) =
      (if p \<in> set ps then xor_accumulate (xor_all (payloads m ps)) b
       else xor_all (payloads m ps))"
proof -
  show ms: "mset (payloads m' ps) =
      (if p \<in> set ps then add_mset b (mset (payloads m ps)) else mset (payloads m ps))"
    using ps p by (simp add: payloads_def cells mset_map_filter_update map_filter_update_other)
  from arg_cong [OF ms, of size]
  show "length (payloads m' ps) =
      (if p \<in> set ps then length (payloads m ps) + 1 else length (payloads m ps))"
    by (auto split: if_splits)
  show "xor_all (payloads m' ps) =
      (if p \<in> set ps then xor_accumulate (xor_all (payloads m ps)) b
       else xor_all (payloads m ps))"
    using ms xor_all_mset [of "payloads m' ps" "b # payloads m ps"]
      xor_all_mset [of "payloads m' ps" "payloads m ps"]
    by (auto simp: xor_accumulate_commute [of b] split: if_splits)
qed

lemma insert_media_fills:
  assumes "matrix_shape m" "p < matrix_size m" "mx_cells m ! p = None"
  shows "mx_cells (snd (insert_media m p b)) = (mx_cells m)[p := Some b]"
    and "mx_max_payload_len (snd (insert_media m p b)) = max (length b) (mx_max_payload_len m)"
    and "mx_col_parity (snd (insert_media m p b)) = (mx_col_parity m)
        [p mod mx_columns m := xor_accumulate (mx_col_parity m ! (p mod mx_columns m)) b]"
    and "mx_col_count (snd (insert_media m p b)) = (mx_col_count m)
        [p mod mx_columns m := mx_col_count m ! (p mod mx_columns m) + 1]"
    and "mx_row_parity (snd (insert_media m p b)) = (mx_row_parity m)
        [p div mx_columns m := xor_accumulate (mx_row_parity m ! (p div mx_columns m)) b]"
    and "mx_row_count (snd (insert_media m p b)) = (mx_row_count m)
        [p div mx_columns m := mx_row_count m ! (p div mx_columns m) + 1]"
  using assms position_to_col_row_in [OF assms(1,2)]
  by (simp_all add: insert_media_def max_def)

lemma insert_media_ignored:
  "\<not> (p < matrix_size m \<and> mx_cells m ! p = None) \<Longrightarrow> snd (insert_media m p b) = m"
  by (auto simp: insert_media_def Let_def split: prod.splits)

lemma matrix_inv_insert_media:
  assumes inv: "matrix_inv m"
  shows "matrix_inv (snd (insert_media m p b))"
proof (cases "p < matrix_size m \<and> mx_cells m ! p = None")
  case False
  then show ?thesis using inv by (simp add: insert_media_ignored)
next
  case True
  from inv have sh: "matrix_shape m" by simp
  note L = matrix_shapeD(1) [OF sh] and pc = position_to_col_row_in [OF sh conjunct1 [OF True]]
  define m' where "m' = snd (insert_media m p b)"
  note m' = insert_media_fills [OF sh conjunct1 [OF True] conjunct2 [OF True], of b, folded m'_def]
  have dims: "mx_columns m' = mx_columns m" "mx_rows m' = mx_rows m"
    by (simp_all add: m'_def)
  note pos = positions_cong [OF dims]
  have "p < length (mx_cells m)" using True matrix_shapeD(5) [OF sh] by simp
  note sums = payloads_insert(2,3) [of m' m p b, OF _ _ this conjunct2 [OF True]]
  have sh': "matrix_shape m'" using sh by (simp add: matrix_defs m' dims)
  have cols: "mx_col_count m' ! c = length (payloads m' (col_positions m' c)) \<and>
      mx_col_parity m' ! c = xor_all (payloads m' (col_positions m' c))"
    if c: "c < mx_columns m" for c
    using c inv sh pc(2) True set_col_positions [OF L c] sums [OF m'(1) distinct_col_positions [OF L]]
    by (auto simp: pos m' nth_list_update matrix_inv_def matrix_shape_def)
  have rows: "mx_row_count m' ! r = length (payloads m' (row_positions m' r)) \<and>
      mx_row_parity m' ! r = xor_all (payloads m' (row_positions m' r))"
    if r: "r < mx_rows m" for r
    using r inv sh pc(3) True set_row_positions [OF L r] sums [OF m'(1) distinct_row_positions]
    by (auto simp: pos m' nth_list_update matrix_inv_def matrix_shape_def)
  have lens: "length v \<le> mx_max_payload_len m'"
    if "q < matrix_size m'" "mx_cells m' ! q = Some v" for q v
    using that inv matrix_shapeD(5) [OF sh]
    by (cases "q = p") (auto simp: m' pos matrix_inv_def le_max_iff_disj)
  show ?thesis
    using sh' cols rows lens dims by (simp add: matrix_inv_def m'_def [symmetric])
qed

section \<open>How many cells are filled\<close>

definition filled :: "fec_matrix \<Rightarrow> nat" where
  "filled m = length (payloads m [0..<matrix_size m])"

lemma filled_le_size: "filled m \<le> matrix_size m"
  using length_map_filter_le [of "\<lambda>p. mx_cells m ! p" "[0..<matrix_size m]"]
  by (simp add: filled_def payloads_def)

lemma filled_full_iff:
  "matrix_shape m \<Longrightarrow> filled m = matrix_size m \<longleftrightarrow> (\<forall>p < matrix_size m. cell m p \<noteq> None)"
  using length_map_filter_eq_iff [of "\<lambda>p. mx_cells m ! p" "[0..<matrix_size m]"]
  by (auto simp: filled_def payloads_def cell_eq)

lemma filled_empty: "matrix_shape m \<Longrightarrow> \<forall>p. cell m p = None \<Longrightarrow> filled m = 0"
  by (auto simp: filled_def cell_eq [symmetric] intro!: payloads_all_None)

lemma filled_insert_media:
  assumes "matrix_shape m"
  shows "filled (snd (insert_media m p b)) =
     (if p < matrix_size m \<and> cell m p = None then filled m + 1 else filled m)"
proof (cases "p < matrix_size m \<and> mx_cells m ! p = None")
  case True
  with assms show ?thesis
    using payloads_insert(2) [OF insert_media_fills(1) [OF assms], of p "[0..<matrix_size m]" b]
    by (simp add: filled_def cell_eq matrix_shapeD)
next
  case False
  with assms show ?thesis by (auto simp: insert_media_ignored cell_eq)
qed

section \<open>Protected groups\<close>

text \<open>
  What a client of the matrix may rely on of a family of protected groups: group \<open>i\<close> covers
  \<open>width\<close> distinct cells, and the matrix keeps the number of them that are filled and the XOR
  of what they hold.
\<close>

locale fec_group =
  fixes positions :: "fec_matrix \<Rightarrow> nat \<Rightarrow> nat list"
    and groups :: "fec_matrix \<Rightarrow> nat"
    and width :: "fec_matrix \<Rightarrow> nat"
    and gcount :: "fec_matrix \<Rightarrow> nat \<Rightarrow> nat"
    and gparity :: "fec_matrix \<Rightarrow> nat \<Rightarrow> bytes"
  assumes positions_length: "length (positions m i) = width m"
    and positions_distinct: "matrix_inv m \<Longrightarrow> distinct (positions m i)"
    and positions_bound:
      "matrix_inv m \<Longrightarrow> i < groups m \<Longrightarrow> p \<in> set (positions m i) \<Longrightarrow> p < matrix_size m"
    and width_pos: "matrix_inv m \<Longrightarrow> 0 < width m"
    and count_payloads:
      "matrix_inv m \<Longrightarrow> i < groups m \<Longrightarrow> gcount m i = length (payloads m (positions m i))"
    and parity_payloads:
      "matrix_inv m \<Longrightarrow> i < groups m \<Longrightarrow> gparity m i = xor_all (payloads m (positions m i))"
begin

lemma count_le_width: "matrix_inv m \<Longrightarrow> i < groups m \<Longrightarrow> gcount m i \<le> width m"
  using length_map_filter_le [of "\<lambda>p. mx_cells m ! p" "positions m i"]
  by (simp add: count_payloads payloads_def positions_length)

lemma complete_iff:
  assumes "matrix_inv m" "i < groups m"
  shows "gcount m i = width m \<longleftrightarrow> (\<forall>p\<in>set (positions m i). cell m p \<noteq> None)"
  using assms positions_bound [OF assms]
    length_map_filter_eq_iff [of "\<lambda>p. mx_cells m ! p" "positions m i"]
  by (auto simp: count_payloads payloads_def positions_length cell_eq)

lemma complete_parity:
  assumes "matrix_inv m" "i < groups m" "gcount m i = width m"
    and "\<And>p b. p \<in> set (positions m i) \<Longrightarrow> cell m p = Some b \<Longrightarrow> b = f p"
  shows "gparity m i = xor_all (map f (positions m i))"
proof -
  have "\<forall>p\<in>set (positions m i). mx_cells m ! p = Some (f p)"
    using assms complete_iff [OF assms(1,2)] positions_bound [OF assms(1,2)]
    by (metis cell_eq matrix_inv_shape not_None_eq)
  from map_filter_all_Some [OF this] show ?thesis
    using assms(1,2) by (simp add: parity_payloads payloads_def)
qed

text \<open>One short of complete: the search finds a cell, and it is the only empty one.\<close>

lemma find_missing_Some:
  assumes "matrix_inv m" "i < groups m" "gcount m i + 1 = width m"
  obtains q where "find (\<lambda>p. \<not> has_cell m p) (positions m i) = Some q"
proof -
  have "\<not> (\<forall>p\<in>set (positions m i). cell m p \<noteq> None)"
    using complete_iff [OF assms(1,2)] assms(3) by simp
  then have "find (\<lambda>p. \<not> has_cell m p) (positions m i) \<noteq> None"
    using has_cell_iff [OF matrix_inv_shape [OF assms(1)]] by (auto simp: find_None_iff)
  then show ?thesis using that by blast
qed

lemma found_missing:
  assumes inv: "matrix_inv m" "i < groups m"
    and q: "find (\<lambda>p. \<not> has_cell m p) (positions m i) = Some q"
  shows "q \<in> set (positions m i)" "q < matrix_size m" "cell m q = None"
proof -
  from q have "q \<in> set (positions m i) \<and> \<not> has_cell m q"
    by (auto simp: find_Some_iff in_set_conv_nth)
  then show "q \<in> set (positions m i)" "cell m q = None" "q < matrix_size m"
    using inv positions_bound [OF inv] by (auto simp: has_cell_iff)
qed

lemma one_missing_rest:
  assumes inv: "matrix_inv m" "i < groups m" and c: "gcount m i + 1 = width m"
    and q: "q \<in> set (positions m i)" "cell m q = None"
    and p: "p \<in> set (positions m i)" "p \<noteq> q"
  shows "cell m p \<noteq> None"
proof -
  let ?ps = "positions m i" and ?c = "\<lambda>p. mx_cells m ! p"
  have cl: "cell m p = ?c p" if "p \<in> set ?ps" for p
    using cell_eq [OF matrix_inv_shape positions_bound] inv that by metis
  from q obtain us vs where ps: "?ps = us @ q # vs" by (meson split_list)
  have "length (List.map_filter ?c (us @ vs)) = length (us @ vs)"
    using c q cl [of q] inv positions_length [of m i]
    by (simp add: count_payloads payloads_def ps map_filter_def)
  then have "\<forall>p\<in>set (us @ vs). ?c p \<noteq> None"
    by (simp only: length_map_filter_eq_iff)
  then show ?thesis using p cl [of p] ps by auto
qed

lemma one_missing_count:
  assumes inv: "matrix_inv m" "i < groups m"
    and q: "q \<in> set (positions m i)" "cell m q = None"
    and rest: "\<And>p. p \<in> set (positions m i) \<Longrightarrow> p \<noteq> q \<Longrightarrow> cell m p \<noteq> None"
  shows "gcount m i = width m - 1"
proof -
  let ?ps = "positions m i" and ?c = "\<lambda>p. mx_cells m ! p"
  have cl: "cell m p = ?c p" if "p \<in> set ?ps" for p
    using cell_eq [OF matrix_inv_shape positions_bound] inv that by metis
  from q obtain us vs where ps: "?ps = us @ q # vs" by (meson split_list)
  have "q \<notin> set (us @ vs)" using positions_distinct [OF inv(1), of i] ps by auto
  then have "\<forall>p\<in>set (us @ vs). ?c p \<noteq> None" using rest cl ps by fastforce
  then have "length (List.map_filter ?c (us @ vs)) = length (us @ vs)"
    by (simp only: length_map_filter_eq_iff)
  then show ?thesis
    using q cl [of q] inv positions_length [of m i]
    by (simp add: count_payloads payloads_def ps map_filter_def)
qed

lemma one_missing_mset:
  assumes inv: "matrix_inv m" "i < groups m" and c: "gcount m i + 1 = width m"
    and q: "q \<in> set (positions m i)" "cell m q = None"
    and f: "\<And>p b. p \<in> set (positions m i) \<Longrightarrow> cell m p = Some b \<Longrightarrow> b = f p"
  shows "mset (map f (positions m i)) = mset (f q # payloads m (positions m i))"
proof -
  let ?ps = "positions m i" and ?c = "\<lambda>p. mx_cells m ! p"
  have cl: "cell m p = ?c p" if "p \<in> set ?ps" for p
    using cell_eq [OF matrix_inv_shape positions_bound] inv that by metis
  from q obtain us vs where ps: "?ps = us @ q # vs" by (meson split_list)
  have "q \<notin> set (us @ vs)" using positions_distinct [OF inv(1), of i] ps by auto
  then have "?c p = Some (f p)" if "p \<in> set (us @ vs)" for p
    using one_missing_rest [OF inv c q, of p] f [of p] cl [of p] ps that by fastforce
  then have "\<forall>p\<in>set (us @ vs). ?c p = Some (f p)" by blast
  from map_filter_all_Some [OF this] show ?thesis
    using q cl [of q] by (simp add: payloads_def ps map_filter_def)
qed

text \<open>The recovery theorem both directions rest on: XORing the group's parity packet with the
  running parity of the cells that came rebuilds the missing payload exactly, when the
  parity packet covers payloads of one length.\<close>

lemma recover_exact:
  assumes inv: "matrix_inv m" "i < groups m" and c: "gcount m i + 1 = width m"
    and sent: "\<And>p b. p \<in> set (positions m i) \<Longrightarrow> cell m p = Some b \<Longrightarrow> b = f p"
    and len: "\<And>p. p \<in> set (positions m i) \<Longrightarrow> length (f p) = n"
    and fec: "fec = xor_all (map f (positions m i))"
    and q: "find (\<lambda>p. \<not> has_cell m p) (positions m i) = Some q"
  shows "xor_accumulate fec (gparity m i) = f q"
proof -
  let ?rest = "payloads m (positions m i)"
  note q' = found_missing [OF inv q]
  have ms: "mset (map f (positions m i)) = mset (f q # ?rest)"
    using q' sent by (intro one_missing_mset [OF inv c]) auto
  have "\<forall>b\<in>set ?rest. length b \<le> n"
  proof
    fix b assume "b \<in> set ?rest"
    then have "b \<in> f ` set (positions m i)" using mset_eq_setD [OF ms] by simp
    then show "length b \<le> n" using len by auto
  qed
  then have "length (xor_all ?rest) \<le> length (f q)"
    using len [OF q'(1)] by (simp add: length_xor_all_le)
  then show ?thesis
    using xor_all_mset [OF ms] inv
    by (simp add: fec parity_payloads xor_accumulate_cancel)
qed

end

interpretation cols: fec_group col_positions mx_columns mx_rows col_count col_parity
proof unfold_locales
  fix m i p assume "matrix_inv m" "i < mx_columns m" "p \<in> set (col_positions m i)"
  then show "p < matrix_size m" by (auto simp: set_col_positions matrix_shapeD(1))
qed (auto simp: distinct_col_positions matrix_shapeD(1) matrix_shapeD(3)
      col_count_def col_parity_def matrix_inv_def)

interpretation rows: fec_group row_positions mx_rows mx_columns row_count row_parity
proof unfold_locales
  fix m i p assume "matrix_inv m" "i < mx_rows m" "p \<in> set (row_positions m i)"
  then show "p < matrix_size m" by (auto simp: set_row_positions matrix_shapeD(1))
qed (auto simp: distinct_row_positions matrix_shapeD(1)
      row_count_def row_parity_def matrix_inv_def)

section \<open>Placement\<close>

lemma place_simps [seq_simps]:
  assumes "matrix_shape m"
  shows "place m base seq =
     (if unat (seq - base) < matrix_size m then Cell (unat (seq - base))
      else if unat (seq - base) < 0x8000 then Past
      else if unat (base - seq) < matrix_size m then Late (base - seq) else Moved)"
  using matrix_shapeD(6) [OF assms]
  by (simp add: place_def word_less_nat_alt unat_of_nat_u16 Let_def)

lemma place_Cell:
  assumes "matrix_shape m" "place m base seq = Cell p"
  shows "p < matrix_size m" "seq = base + of_nat p"
  using assms by (auto simp: place_simps split: if_splits)

lemma validate_fec_shape:
  "validate_fec l d = Inr () \<Longrightarrow> 0 < l \<and> l \<le> 20 \<and> 4 \<le> d \<and> d \<le> 20"
  by (auto simp: validate_fec_def split: if_splits)

end
