(* ===== verification/FecEncoder.thy ===== *)
theory FecEncoder
  imports FecMatrix
begin

text \<open>
  The FEC sender of \<open>src/src/fec/encoder.rs\<close> and the framing constants of
  \<open>src/src/fec/mod.rs\<close>: \<open>FecEncoder::process\<close> files each media packet by the shared
  placement rule and returns the parity packets it completes. The lemmas say what a parity
  packet on the wire stands for: the XOR of one complete group of equal-length payloads at
  the sequence numbers its header names, none of which was sent again with other bytes
  while the matrix was open.
\<close>

section \<open>Framing\<close>

definition FEC_MAGIC :: bytes where
  "FEC_MAGIC = [0x42, 0x43, 0x46, 0x45]"

definition FEC_HEADER_LEN :: nat where
  "FEC_HEADER_LEN = 10"

definition FEC_INDEXED_GROUPS :: nat where
  "FEC_INDEXED_GROUPS = 8"

definition build_fec_header :: "u16 \<Rightarrow> nat \<Rightarrow> nat \<Rightarrow> bool \<Rightarrow> bytes" where
  "build_fec_header sn_base index offset is_column =
     FEC_MAGIC @
     (replicate FEC_HEADER_LEN 0)
       [0 := hi8 sn_base, 1 := lo8 sn_base,
        8 := (if is_column then 0x40 else 0x00) OR (of_nat index AND 0x07),
        9 := of_nat offset]"

section \<open>The encoder\<close>

record fec_encoder =
  en_matrix :: fec_matrix
  en_matrix_size :: u16
  en_base_seq :: u16
  en_unprotected_cols :: u32
  en_unprotected_rows :: u32
  en_stats_fec_sent :: u64
  en_initialized :: bool

definition encoder_new :: "nat \<Rightarrow> nat \<Rightarrow> fec_encoder" where
  "encoder_new columns rows =
     \<lparr>en_matrix = matrix_new columns rows,
      en_matrix_size = of_nat columns * of_nat rows,
      en_base_seq = 0, en_unprotected_cols = 0, en_unprotected_rows = 0,
      en_stats_fec_sent = 0, en_initialized = False\<rparr>"

definition encoder_start_matrix :: "fec_encoder \<Rightarrow> u16 \<Rightarrow> fec_encoder" where
  "encoder_start_matrix e seq =
     e\<lparr>en_matrix := matrix_reset (en_matrix e), en_unprotected_cols := 0,
       en_unprotected_rows := 0, en_base_seq := seq, en_initialized := True\<rparr>"

fun group_is_uniform :: "fec_matrix \<Rightarrow> nat list \<Rightarrow> bool" where
  "group_is_uniform m [] = True"
| "group_is_uniform m (first # ps) =
     list_all (\<lambda>p. map_option length (cell m p) = map_option length (cell m first)) ps"

definition encoder_col_fec :: "fec_encoder \<Rightarrow> nat \<Rightarrow> bytes list" where
  "encoder_col_fec e col =
     (let m = en_matrix e in
      if col < FEC_INDEXED_GROUPS \<and> col_count m col = mx_rows m
         \<and> en_unprotected_cols e AND push_bit col 1 = 0
         \<and> group_is_uniform m (col_positions m col)
      then (case generate_col_fec m col of
              None \<Rightarrow> []
            | Some p \<Rightarrow> [build_fec_header (en_base_seq e) col (mx_columns m) True @ p])
      else [])"

definition encoder_row_fec :: "fec_encoder \<Rightarrow> nat \<Rightarrow> bytes list" where
  "encoder_row_fec e r =
     (let m = en_matrix e in
      if row_count m r = mx_columns m
         \<and> en_unprotected_rows e AND push_bit r 1 = 0
         \<and> group_is_uniform m (row_positions m r)
      then (case generate_row_fec m r of
              None \<Rightarrow> []
            | Some p \<Rightarrow> [build_fec_header (en_base_seq e) r 1 False @ p])
      else [])"

text \<open>The part of \<open>process\<close> after the position is known.\<close>

definition encoder_file :: "fec_encoder \<Rightarrow> nat \<Rightarrow> bytes \<Rightarrow> bytes list \<times> fec_encoder" where
  "encoder_file e position payload =
     (let m = en_matrix e; (col, row) = position_to_col_row m position in
      if has_cell m position then
        ([], if cell m position \<noteq> Some payload
             then e\<lparr>en_unprotected_cols := en_unprotected_cols e OR push_bit col 1,
                    en_unprotected_rows := en_unprotected_rows e OR push_bit row 1\<rparr>
             else e)
      else
        let e = e\<lparr>en_matrix := snd (insert_media m position payload)\<rparr>;
            col_fec = encoder_col_fec e col;
            row_fec =
              (if position + 1 = unat (en_matrix_size e) \<and> mx_columns m > 1
               then concat (map (encoder_row_fec e) [0..<min (mx_rows m) FEC_INDEXED_GROUPS])
               else []);
            fec_packets = col_fec @ row_fec
        in (fec_packets,
            e\<lparr>en_stats_fec_sent := en_stats_fec_sent e + of_nat (length fec_packets)\<rparr>))"

definition encoder_process :: "fec_encoder \<Rightarrow> u16 \<Rightarrow> bytes \<Rightarrow> bytes list \<times> fec_encoder" where
  "encoder_process e seq payload =
     (case (if en_initialized e then Some (place (en_matrix e) (en_base_seq e) seq) else None) of
        Some (Cell position) \<Rightarrow> encoder_file e position payload
      | Some (Late _) \<Rightarrow> ([], e)
      | _ \<Rightarrow> encoder_file (encoder_start_matrix e seq) 0 payload)"

section \<open>The invariant\<close>

definition encoder_inv :: "fec_encoder \<Rightarrow> bool" where
  "encoder_inv e \<longleftrightarrow> matrix_inv (en_matrix e) \<and>
     mx_columns (en_matrix e) \<le> 20 \<and> mx_rows (en_matrix e) \<le> 20 \<and>
     unat (en_matrix_size e) = matrix_size (en_matrix e)"

lemma encoder_inv_new:
  assumes "validate_fec l d = Inr ()"
  shows "encoder_inv (encoder_new l d)"
proof -
  note b = validate_fec_shape [OF assms]
  have "l * d \<le> 20 * 20" using b by (intro mult_le_mono) auto
  then have "unat (of_nat (l * d) :: u16) = l * d" by (intro unat_of_nat_u16) simp
  then show ?thesis
    using b by (simp add: encoder_inv_def encoder_new_def matrix_inv_new)
qed

lemma encoder_inv_start: "encoder_inv e \<Longrightarrow> encoder_inv (encoder_start_matrix e seq)"
  by (simp add: encoder_inv_def encoder_start_matrix_def matrix_inv_reset)

lemma encoder_inv_file: "encoder_inv e \<Longrightarrow> encoder_inv (snd (encoder_file e p b))"
  by (auto simp: encoder_inv_def encoder_file_def Let_def matrix_inv_insert_media
      split: prod.splits)

lemma encoder_inv_process: "encoder_inv e \<Longrightarrow> encoder_inv (snd (encoder_process e seq b))"
  by (auto simp: encoder_process_def encoder_inv_file encoder_inv_start
      split: option.splits placement.splits)

text \<open>The bookkeeping of one packet, in the terms of the placement rule.\<close>

lemma encoder_file_matrix:
  "en_matrix (snd (encoder_file e p b)) =
     (if has_cell (en_matrix e) p then en_matrix e else snd (insert_media (en_matrix e) p b))"
  "en_base_seq (snd (encoder_file e p b)) = en_base_seq e"
  "en_initialized (snd (encoder_file e p b)) = en_initialized e"
  by (auto simp: encoder_file_def Let_def split: prod.splits)

section \<open>Uniform groups\<close>

lemma group_is_uniform_iff:
  "group_is_uniform m ps \<longleftrightarrow>
     (\<forall>p\<in>set ps. \<forall>q\<in>set ps. map_option length (cell m p) = map_option length (cell m q))"
proof (cases ps)
  case (Cons p ps')
  then show ?thesis by (auto simp: list_all_iff)
qed simp

lemma mask_bit_u32:
  "c < 32 \<Longrightarrow> (w :: u32) AND push_bit c 1 = 0 \<longleftrightarrow> \<not> bit w c"
  by (simp add: and_exp_eq_0_iff_not_bit)

section \<open>What an emitted parity packet stands for\<close>

text \<open>
  \<open>fec_covers l d f base pkt\<close>: the bytes \<open>pkt\<close> are a parity packet of an L by D matrix at
  \<open>base\<close>, for a column or row the three-bit index can name, over cells that hold \<open>f p\<close>, all
  of one length.
\<close>

definition fec_covers ::
  "nat \<Rightarrow> nat \<Rightarrow> (nat \<Rightarrow> bytes) \<Rightarrow> u16 \<Rightarrow> nat list \<Rightarrow> bytes \<Rightarrow> bool" where
  "fec_covers l d f base ps pkt \<longleftrightarrow>
     (\<exists>index off is_column n.
        index < FEC_INDEXED_GROUPS \<and> index < (if is_column then l else d) \<and>
        ps = (if is_column then col_positions (matrix_new l d) index
              else row_positions (matrix_new l d) index) \<and>
        (\<forall>p\<in>set ps. length (f p) = n) \<and>
        pkt = build_fec_header base index off is_column @ xor_all (map f ps))"

lemma positions_new:
  "mx_columns m = l \<Longrightarrow> mx_rows m = d \<Longrightarrow>
     col_positions (matrix_new l d) = col_positions m \<and>
     row_positions (matrix_new l d) = row_positions m"
  by (auto simp: col_positions_def row_positions_def matrix_new_def)

lemma uniform_length:
  assumes "group_is_uniform m ps" "\<forall>p\<in>set ps. cell m p = Some (f p)"
  obtains n where "\<forall>p\<in>set ps. length (f p) = n"
proof (rule that)
  have eq: "length (f p) = length (f q)" if "p \<in> set ps" "q \<in> set ps" for p q
  proof -
    have "map_option length (cell m p) = map_option length (cell m q)"
      using assms(1) that unfolding group_is_uniform_iff by blast
    then show ?thesis using assms(2) that by simp
  qed
  show "\<forall>p\<in>set ps. length (f p) = length (f (hd ps))"
    using eq [OF _ list.set_sel(1)] by fastforce
qed

lemma fec_coversI:
  assumes "index < FEC_INDEXED_GROUPS" "index < (if is_column then mx_columns m else mx_rows m)"
    and "ps = (if is_column then col_positions m index else row_positions m index)"
    and "\<forall>p\<in>set ps. length (f p) = n"
    and "pkt = build_fec_header base index off is_column @ xor_all (map f ps)"
  shows "fec_covers (mx_columns m) (mx_rows m) f base ps pkt"
  unfolding fec_covers_def using assms positions_new [of m]
  by (intro exI [of _ index] exI [of _ off] exI [of _ is_column] exI [of _ n]) auto

lemma encoder_col_fec_covers:
  assumes inv: "encoder_inv e" and col: "col < mx_columns (en_matrix e)"
    and pkt: "pkt \<in> set (encoder_col_fec e col)"
  shows "\<not> bit (en_unprotected_cols e) col"
    and "\<forall>p\<in>set (col_positions (en_matrix e) col). cell (en_matrix e) p \<noteq> None"
    and "fec_covers (mx_columns (en_matrix e)) (mx_rows (en_matrix e))
           (\<lambda>p. the (cell (en_matrix e) p)) (en_base_seq e)
           (col_positions (en_matrix e) col) pkt"
proof -
  let ?m = "en_matrix e"
  have mi: "matrix_inv ?m" and c32: "col < 32" using inv col by (auto simp: encoder_inv_def)
  from pkt have *: "col < FEC_INDEXED_GROUPS" "col_count ?m col = mx_rows ?m"
      "en_unprotected_cols e AND push_bit col 1 = 0" "group_is_uniform ?m (col_positions ?m col)"
    and p: "pkt = build_fec_header (en_base_seq e) col (mx_columns ?m) True @ col_parity ?m col"
    unfolding encoder_col_fec_def Let_def generate_col_fec_def col_parity_def
    by (simp_all only: split: if_splits option.splits) (simp_all add: col_count_def)
  show "\<not> bit (en_unprotected_cols e) col" using *(3) c32 mask_bit_u32 by blast
  show full: "\<forall>p\<in>set (col_positions ?m col). cell ?m p \<noteq> None"
    using cols.complete_iff [OF mi col] *(2) by simp
  then have f: "\<forall>p\<in>set (col_positions ?m col). cell ?m p = Some (the (cell ?m p))" by auto
  obtain n where "\<forall>p\<in>set (col_positions ?m col). length (the (cell ?m p)) = n"
    using uniform_length [OF *(4) f] .
  moreover have "col_parity ?m col = xor_all (map (\<lambda>p. the (cell ?m p)) (col_positions ?m col))"
    by (rule cols.complete_parity [OF mi col *(2)]) simp
  ultimately show "fec_covers (mx_columns ?m) (mx_rows ?m) (\<lambda>p. the (cell ?m p))
      (en_base_seq e) (col_positions ?m col) pkt"
    using *(1) col p by (intro fec_coversI [where is_column = True and n = n]) simp_all
qed

lemma encoder_row_fec_covers:
  assumes inv: "encoder_inv e" and r: "r < mx_rows (en_matrix e)" "r < FEC_INDEXED_GROUPS"
    and pkt: "pkt \<in> set (encoder_row_fec e r)"
  shows "\<not> bit (en_unprotected_rows e) r"
    and "\<forall>p\<in>set (row_positions (en_matrix e) r). cell (en_matrix e) p \<noteq> None"
    and "fec_covers (mx_columns (en_matrix e)) (mx_rows (en_matrix e))
           (\<lambda>p. the (cell (en_matrix e) p)) (en_base_seq e)
           (row_positions (en_matrix e) r) pkt"
proof -
  let ?m = "en_matrix e"
  have mi: "matrix_inv ?m" and r32: "r < 32" using inv r by (auto simp: encoder_inv_def)
  from pkt have *: "row_count ?m r = mx_columns ?m"
      "en_unprotected_rows e AND push_bit r 1 = 0" "group_is_uniform ?m (row_positions ?m r)"
    and p: "pkt = build_fec_header (en_base_seq e) r 1 False @ row_parity ?m r"
    unfolding encoder_row_fec_def Let_def generate_row_fec_def row_parity_def
    by (simp_all only: split: if_splits option.splits) (simp_all add: row_count_def)
  show "\<not> bit (en_unprotected_rows e) r" using *(2) r32 mask_bit_u32 by blast
  show full: "\<forall>p\<in>set (row_positions ?m r). cell ?m p \<noteq> None"
    using rows.complete_iff [OF mi r(1)] *(1) by simp
  then have f: "\<forall>p\<in>set (row_positions ?m r). cell ?m p = Some (the (cell ?m p))" by auto
  obtain n where "\<forall>p\<in>set (row_positions ?m r). length (the (cell ?m p)) = n"
    using uniform_length [OF *(3) f] .
  moreover have "row_parity ?m r = xor_all (map (\<lambda>p. the (cell ?m p)) (row_positions ?m r))"
    by (rule rows.complete_parity [OF mi r(1) *(1)]) simp
  ultimately show "fec_covers (mx_columns ?m) (mx_rows ?m) (\<lambda>p. the (cell ?m p))
      (en_base_seq e) (row_positions ?m r) pkt"
    using r p by (intro fec_coversI [where is_column = False and n = n]) simp_all
qed

text \<open>
  One group's worth of protection, as the encoder state after the packet shows it: the packet
  covers a complete group, and the group's own mask bit is clear.
\<close>

definition protects :: "fec_encoder \<Rightarrow> nat list \<Rightarrow> bytes \<Rightarrow> bool" where
  "protects e ps pkt \<longleftrightarrow>
     fec_covers (mx_columns (en_matrix e)) (mx_rows (en_matrix e))
       (\<lambda>q. the (cell (en_matrix e) q)) (en_base_seq e) ps pkt \<and>
     (\<forall>q\<in>set ps. q < matrix_size (en_matrix e) \<and> cell (en_matrix e) q \<noteq> None \<and>
        (\<not> bit (en_unprotected_cols e) (q mod mx_columns (en_matrix e)) \<or>
         \<not> bit (en_unprotected_rows e) (q div mx_columns (en_matrix e))))"

lemma encoder_col_fec_protects:
  assumes "encoder_inv e" "col < mx_columns (en_matrix e)" "pkt \<in> set (encoder_col_fec e col)"
  shows "protects e (col_positions (en_matrix e) col) pkt"
proof -
  have "matrix_inv (en_matrix e)" "0 < mx_columns (en_matrix e)"
    using assms by (auto simp: encoder_inv_def matrix_shapeD)
  then show ?thesis
    using encoder_col_fec_covers [OF assms] set_col_positions [of "en_matrix e" col] assms(2)
    by (auto simp: protects_def)
qed

lemma encoder_row_fec_protects:
  assumes "encoder_inv e" "r < mx_rows (en_matrix e)" "r < FEC_INDEXED_GROUPS"
    "pkt \<in> set (encoder_row_fec e r)"
  shows "protects e (row_positions (en_matrix e) r) pkt"
proof -
  have "0 < mx_columns (en_matrix e)" using assms by (auto simp: encoder_inv_def matrix_shapeD)
  then show ?thesis
    using encoder_row_fec_covers [OF assms] set_row_positions [of "en_matrix e" r] assms(2)
    by (auto simp: protects_def)
qed

lemma protects_stats [simp]: "protects (e\<lparr>en_stats_fec_sent := s\<rparr>) ps pkt = protects e ps pkt"
  by (simp add: protects_def)

lemma encoder_file_emits:
  assumes inv: "encoder_inv e" and p: "p < matrix_size (en_matrix e)"
    and pkt: "pkt \<in> set (fst (encoder_file e p b))"
  shows "\<exists>ps. protects (snd (encoder_file e p b)) ps pkt"
proof -
  let ?m = "en_matrix e"
  have mi: "matrix_inv ?m" using inv by (simp add: encoder_inv_def)
  define e1 where "e1 = e\<lparr>en_matrix := snd (insert_media ?m p b)\<rparr>"
  have inv1: "encoder_inv e1"
    using inv by (auto simp: e1_def encoder_inv_def matrix_inv_insert_media)
  note pc = position_to_col_row_in [OF matrix_inv_shape [OF mi] p]
  from pkt have fresh: "\<not> has_cell ?m p"
    by (auto simp: encoder_file_def Let_def split: if_splits prod.splits)
  let ?rows = "if p + 1 = unat (en_matrix_size e) \<and> mx_columns ?m > 1
    then concat (map (encoder_row_fec e1) [0..<min (mx_rows ?m) FEC_INDEXED_GROUPS]) else []"
  have eq: "encoder_file e p b =
      (encoder_col_fec e1 (p mod mx_columns ?m) @ ?rows,
       e1\<lparr>en_stats_fec_sent := en_stats_fec_sent e1 +
         of_nat (length (encoder_col_fec e1 (p mod mx_columns ?m) @ ?rows))\<rparr>)"
    using fresh pc(1) by (simp add: encoder_file_def Let_def e1_def)
  have "\<exists>ps. protects e1 ps pkt"
  proof (cases "pkt \<in> set (encoder_col_fec e1 (p mod mx_columns ?m))")
    case True
    then show ?thesis
      using encoder_col_fec_protects [OF inv1 _ True] pc(2) by (auto simp: e1_def)
  next
    case False
    then have "pkt \<in> set ?rows" using pkt unfolding eq by auto
    then obtain r where "r < mx_rows ?m" "r < FEC_INDEXED_GROUPS" "pkt \<in> set (encoder_row_fec e1 r)"
      by (auto split: if_splits)
    then show ?thesis
      using encoder_row_fec_protects [OF inv1, of r pkt] by (auto simp: e1_def)
  qed
  then show ?thesis unfolding eq by auto
qed

section \<open>The history of an open matrix\<close>

text \<open>
  What the sender has sent under the open matrix: a ghost list of (cell, payload) pairs,
  cleared where \<open>process\<close> starts the next matrix. Repeats are kept, which is the point: a
  receiver may hold either copy.
\<close>

definition encoder_hist ::
  "fec_encoder \<Rightarrow> (nat \<times> bytes) list \<Rightarrow> u16 \<Rightarrow> bytes \<Rightarrow> (nat \<times> bytes) list" where
  "encoder_hist e h seq payload =
     (case (if en_initialized e then Some (place (en_matrix e) (en_base_seq e) seq) else None) of
        Some (Cell position) \<Rightarrow> (position, payload) # h
      | Some (Late _) \<Rightarrow> h
      | _ \<Rightarrow> [(0, payload)])"

inductive encoder_reach :: "nat \<Rightarrow> nat \<Rightarrow> fec_encoder \<Rightarrow> (nat \<times> bytes) list \<Rightarrow> bool"
  for l d where
  start: "encoder_reach l d (encoder_new l d) []"
| packet: "encoder_reach l d e h \<Longrightarrow>
    encoder_reach l d (snd (encoder_process e seq payload)) (encoder_hist e h seq payload)"

definition hist_inv :: "fec_encoder \<Rightarrow> (nat \<times> bytes) list \<Rightarrow> bool" where
  "hist_inv e h \<longleftrightarrow> encoder_inv e \<and>
     (\<forall>(p, b)\<in>set h. \<exists>b'. cell (en_matrix e) p = Some b' \<and> (b \<noteq> b' \<longrightarrow>
        bit (en_unprotected_cols e) (p mod mx_columns (en_matrix e)) \<and>
        bit (en_unprotected_rows e) (p div mx_columns (en_matrix e)))) \<and>
     (\<forall>p b. cell (en_matrix e) p = Some b \<longrightarrow> (p, b) \<in> set h)"

lemma hist_inv_empty:
  "encoder_inv e \<Longrightarrow> \<forall>p. cell (en_matrix e) p = None \<Longrightarrow> hist_inv e []"
  by (simp add: hist_inv_def)

lemma encoder_col_row_lt_32:
  assumes "encoder_inv e" "p < matrix_size (en_matrix e)"
  shows "p mod mx_columns (en_matrix e) < 32" "p div mx_columns (en_matrix e) < 32"
  using assms position_to_col_row_in [of "en_matrix e" p] by (auto simp: encoder_inv_def)

lemma bit_or_mask: "c < 32 \<Longrightarrow> bit ((w :: u32) OR push_bit c 1) n \<longleftrightarrow> bit w n \<or> n = c"
  by (auto simp: bit_or_iff bit_exp_iff)

lemma hist_inv_file:
  assumes h: "hist_inv e h" and p: "p < matrix_size (en_matrix e)"
  shows "hist_inv (snd (encoder_file e p b)) ((p, b) # h)"
proof -
  let ?m = "en_matrix e"
  have inv: "encoder_inv e" and sh: "matrix_shape ?m"
    using h by (auto simp: hist_inv_def encoder_inv_def)
  note inv' = encoder_inv_file [OF inv, of p b] and pc = position_to_col_row_in [OF sh p]
  show ?thesis
  proof (cases "has_cell ?m p")
    case True
    then obtain b' where "cell ?m p = Some b'" using has_cell_iff [OF sh] by blast
    then show ?thesis
      using h True inv' pc encoder_col_row_lt_32 [OF inv p]
      by (auto simp: hist_inv_def encoder_file_def Let_def bit_or_mask simp del: push_bit_of_1)
  next
    case False
    then have "cell ?m p = None" using has_cell_iff [OF sh] by blast
    then show ?thesis
      using h False inv' pc p
      by (fastforce simp: hist_inv_def encoder_file_def Let_def cell_insert_media [OF sh])
  qed
qed

lemma hist_inv_process:
  assumes "hist_inv e h"
  shows "hist_inv (snd (encoder_process e seq b)) (encoder_hist e h seq b)"
proof -
  have inv: "encoder_inv e" and sh: "matrix_shape (en_matrix e)"
    using assms by (auto simp: hist_inv_def encoder_inv_def)
  have "hist_inv (encoder_start_matrix e seq) []"
    using encoder_inv_start [OF inv] by (intro hist_inv_empty) (auto simp: encoder_start_matrix_def)
  then have "hist_inv (snd (encoder_file (encoder_start_matrix e seq) 0 b)) [(0, b)]"
    using hist_inv_file [of "encoder_start_matrix e seq" "[]" 0 b] matrix_shapeD(1,3) [OF sh]
    by (simp add: encoder_start_matrix_def matrix_size_def)
  then show ?thesis
    using assms hist_inv_file [OF assms] place_Cell(1) [OF sh]
    by (auto simp: encoder_process_def encoder_hist_def split: option.splits placement.splits)
qed

lemma encoder_process_emits:
  assumes inv: "encoder_inv e" and pkt: "pkt \<in> set (fst (encoder_process e seq b))"
  shows "\<exists>ps. protects (snd (encoder_process e seq b)) ps pkt"
proof -
  have sh: "matrix_shape (en_matrix e)" using inv by (simp add: encoder_inv_def)
  have st: "encoder_inv (encoder_start_matrix e seq)"
      "0 < matrix_size (en_matrix (encoder_start_matrix e seq))"
    using encoder_inv_start [OF inv] matrix_shapeD(1,3) [OF sh]
    by (auto simp: encoder_start_matrix_def matrix_size_def)
  show ?thesis
    using pkt encoder_file_emits [OF inv, of _ pkt b] place_Cell(1) [OF sh]
      encoder_file_emits [OF st, of pkt b]
    by (auto simp: encoder_process_def split: option.splits placement.splits if_splits)
qed

lemma encoder_reach_inv:
  assumes "encoder_reach l d e h" "validate_fec l d = Inr ()"
  shows "hist_inv e h"
  using assms
proof (induction rule: encoder_reach.induct)
  case start
  then show ?case
    using encoder_inv_new by (intro hist_inv_empty) (simp_all add: encoder_new_def)
next
  case (packet e h seq payload)
  then show ?case by (simp add: hist_inv_process)
qed

lemma encoder_file_dims [simp]:
  "mx_columns (en_matrix (snd (encoder_file e p b))) = mx_columns (en_matrix e)"
  "mx_rows (en_matrix (snd (encoder_file e p b))) = mx_rows (en_matrix e)"
  by (simp_all add: encoder_file_matrix)

lemma encoder_process_dims [simp]:
  "mx_columns (en_matrix (snd (encoder_process e seq b))) = mx_columns (en_matrix e)"
  "mx_rows (en_matrix (snd (encoder_process e seq b))) = mx_rows (en_matrix e)"
  by (auto simp: encoder_process_def encoder_start_matrix_def
      split: option.splits placement.splits)

lemma encoder_reach_dims:
  "encoder_reach l d e h \<Longrightarrow> mx_columns (en_matrix e) = l \<and> mx_rows (en_matrix e) = d"
  by (induction rule: encoder_reach.induct) (simp_all add: encoder_new_def)

end
