(* ===== verification/RtpParse.thy ===== *)
theory RtpParse
  imports EdgePrelude
begin

text \<open>
  The RTP header accessors of \<open>src/src/util/rtp_parse.rs\<close>. The byte reads are guarded by the
  length test of the source, so no read is out of range.
\<close>

definition RTP_HEADER_MIN_SIZE :: nat where
  "RTP_HEADER_MIN_SIZE = 12"

definition parse_rtp_sequence_number :: "bytes \<Rightarrow> u16 option" where
  "parse_rtp_sequence_number data =
     (if length data < RTP_HEADER_MIN_SIZE then None else Some (be16 (data ! 2) (data ! 3)))"

definition parse_rtp_timestamp :: "bytes \<Rightarrow> u32 option" where
  "parse_rtp_timestamp data =
     (if length data < RTP_HEADER_MIN_SIZE then None
      else Some (be32 (data ! 4) (data ! 5) (data ! 6) (data ! 7)))"

definition is_likely_rtp :: "bytes \<Rightarrow> bool" where
  "is_likely_rtp data =
     (if length data < RTP_HEADER_MIN_SIZE then False
      else (let version = (drop_bit 6 (data ! 0)) AND 0x03 in version = 2))"

section \<open>Packets of the flow\<close>

text \<open>The packet that flows through the broadcast channels, \<open>src/src/engine/packet.rs\<close>.\<close>

record rtp_packet =
  pk_data :: bytes
  pk_sequence_number :: u16
  pk_rtp_timestamp :: u32
  pk_recv_time_us :: u64
  pk_is_raw_ts :: bool
  pk_upstream_seq :: "u16 option"
  pk_upstream_leg_id :: "u8 option"
  pk_sender_timestamp_us :: "int option"

end
