(* ===== verification/FecDecoder.thy ===== *)
theory FecDecoder
  imports FecEncoder RtpParse
begin

text \<open>
  The FEC receiver of \<open>src/src/fec/decoder.rs\<close>: filing of media packets, realignment to the
  SNBase a parity packet names, and the bounded recovery sweep. The clock reading
  \<open>now_us()\<close> that stamps the packets of one call is the argument \<open>now\<close>.
\<close>

section \<open>Packets and headers\<close>

definition RTP_HEADER_LEN :: nat where
  "RTP_HEADER_LEN = 12"

record fec_header =
  fh_sn_base :: u16
  fh_is_column :: bool
  fh_index :: nat
  fh_offset :: u8

definition fec_header_parse :: "bytes \<Rightarrow> fec_header option" where
  "fec_header_parse body =
     (if length body < FEC_HEADER_LEN then None
      else Some \<lparr>fh_sn_base = be16 (body ! 0) (body ! 1),
                 fh_is_column = (body ! 8 AND 0x40 \<noteq> 0),
                 fh_index = unat (body ! 8 AND 0x07),
                 fh_offset = body ! 9\<rparr>)"

definition is_fec_packet :: "bytes \<Rightarrow> bool" where
  "is_fec_packet data \<longleftrightarrow>
     length data \<ge> length FEC_MAGIC + FEC_HEADER_LEN \<and>
     take (length FEC_MAGIC) data = FEC_MAGIC"

definition rtp_ssrc :: "bytes \<Rightarrow> u32 option" where
  "rtp_ssrc data =
     (if length data < RTP_HEADER_LEN then None
      else Some (be32 (data ! 8) (data ! 9) (data ! 10) (data ! 11)))"

definition xor_with_slice :: "bytes \<Rightarrow> bytes \<Rightarrow> bytes" where
  "xor_with_slice target source =
     (let t = (if length source > length target
               then target @ replicate (length source - length target) 0 else target)
      in map2 (XOR) t source @ drop (length source) t)"

section \<open>The decoder\<close>

record fec_decoder =
  de_matrix :: fec_matrix
  de_columns :: nat
  de_rows :: nat
  de_matrix_size :: u16
  de_base_seq :: u16
  de_media_count :: nat
  de_initialized :: bool
  de_floor :: "u16 option"
  de_base_settled :: bool
  de_closed :: bool
  de_opened_at :: u16
  de_ssrc :: "u32 option"
  de_last_rtp_header :: "bytes option"
  de_last_rtp_timestamp :: u32
  de_col_fec :: "bytes option list"
  de_row_fec :: "bytes option list"
  de_recovered_count :: u64

definition decoder_new :: "nat \<Rightarrow> nat \<Rightarrow> fec_decoder" where
  "decoder_new columns rows =
     \<lparr>de_matrix = matrix_new columns rows, de_columns = columns, de_rows = rows,
      de_matrix_size = of_nat columns * of_nat rows,
      de_base_seq = 0, de_media_count = 0, de_initialized = False, de_floor = None,
      de_base_settled = False, de_closed = False, de_opened_at = 0, de_ssrc = None,
      de_last_rtp_header = None, de_last_rtp_timestamp = 0,
      de_col_fec = replicate columns None, de_row_fec = replicate rows None,
      de_recovered_count = 0\<rparr>"

definition is_new_sender :: "fec_decoder \<Rightarrow> bytes \<Rightarrow> bool" where
  "is_new_sender d data \<longleftrightarrow>
     (case (de_ssrc d, rtp_ssrc data) of
        (Some ours, Some theirs) \<Rightarrow> ours \<noteq> theirs | _ \<Rightarrow> False)"

definition holds_payload :: "fec_decoder \<Rightarrow> u16 \<Rightarrow> bytes \<Rightarrow> bool" where
  "holds_payload d seq data \<longleftrightarrow>
     (if \<not> de_initialized d \<or> length data \<le> RTP_HEADER_LEN \<or> is_new_sender d data then False
      else let diff = seq - de_base_seq d in
           diff < de_matrix_size d \<and>
           cell (de_matrix d) (unat diff) = Some (drop RTP_HEADER_LEN data))"

definition reset_cycle :: "fec_decoder \<Rightarrow> fec_decoder" where
  "reset_cycle d =
     d\<lparr>de_matrix := matrix_reset (de_matrix d), de_media_count := 0,
       de_col_fec := map (\<lambda>_. None) (de_col_fec d),
       de_row_fec := map (\<lambda>_. None) (de_row_fec d)\<rparr>"

definition decoder_start_matrix :: "fec_decoder \<Rightarrow> u16 \<Rightarrow> u16 option \<Rightarrow> fec_decoder" where
  "decoder_start_matrix d seq floor =
     (reset_cycle d)\<lparr>de_base_seq := seq, de_opened_at := seq, de_initialized := True,
       de_floor := floor, de_base_settled := False, de_closed := False\<rparr>"

text \<open>\<open>align_base_to\<close>: snapshot the cells by sequence number, empty the matrix, refile what
  still lands inside the window at the new base.\<close>

definition snapshot :: "fec_decoder \<Rightarrow> (u16 \<times> bytes) list" where
  "snapshot d =
     List.map_filter (\<lambda>pos. map_option (\<lambda>payload. (de_base_seq d + of_nat pos, payload))
       (cell (de_matrix d) pos)) [0..<matrix_size (de_matrix d)]"

fun refile :: "u16 \<Rightarrow> (u16 \<times> bytes) list \<Rightarrow> fec_decoder \<Rightarrow> fec_decoder" where
  "refile new_base [] d = d"
| "refile new_base ((seq, payload) # rest) d =
     (let diff = seq - new_base in
      if unat diff < matrix_size (de_matrix d)
      then refile new_base rest
             (d\<lparr>de_matrix := snd (insert_media (de_matrix d) (unat diff) payload),
                de_media_count := de_media_count d + 1\<rparr>)
      else refile new_base rest d)"

definition align_base_to :: "fec_decoder \<Rightarrow> u16 \<Rightarrow> bool \<times> fec_decoder" where
  "align_base_to d new_base =
     (let shift = new_base - de_base_seq d; backward = de_base_seq d - new_base in
      if \<not> (unat shift < matrix_size (de_matrix d) \<or> unat backward < matrix_size (de_matrix d))
      then (False, d)
      else (True, refile new_base (snapshot d) ((reset_cycle d)\<lparr>de_base_seq := new_base\<rparr>)))"

definition take_late :: "fec_decoder \<Rightarrow> u16 \<Rightarrow> u16 \<Rightarrow> bool \<times> fec_decoder" where
  "take_late d seq behind =
     (if de_base_settled d
      then (False, d\<lparr>de_col_fec := map (\<lambda>_. None) (de_col_fec d),
                     de_row_fec := map (\<lambda>_. None) (de_row_fec d)\<rparr>)
      else if de_opened_at d - seq + 1 \<ge> of_nat (de_columns d)
           \<or> \<not> can_move_back (de_matrix d) seq behind (de_floor d)
      then (False, d)
      else align_base_to d seq)"

definition store_fec :: "fec_decoder \<Rightarrow> fec_header \<Rightarrow> bytes \<Rightarrow> fec_decoder" where
  "store_fec d hdr payload =
     (if fh_is_column hdr
      then (if fh_index hdr < length (de_col_fec d)
            then d\<lparr>de_col_fec := (de_col_fec d)[fh_index hdr := Some payload]\<rparr> else d)
      else if fh_index hdr < length (de_row_fec d)
           then d\<lparr>de_row_fec := (de_row_fec d)[fh_index hdr := Some payload]\<rparr> else d)"

definition find_missing_in_column :: "fec_decoder \<Rightarrow> nat \<Rightarrow> nat option" where
  "find_missing_in_column d col =
     find (\<lambda>pos. \<not> has_cell (de_matrix d) pos)
       (map (\<lambda>row. row * de_columns d + col) [0..<de_rows d])"

definition find_missing_in_row :: "fec_decoder \<Rightarrow> nat \<Rightarrow> nat option" where
  "find_missing_in_row d row =
     find (\<lambda>pos. \<not> has_cell (de_matrix d) pos)
       (map (\<lambda>col. row * de_columns d + col) [0..<de_columns d])"

definition wrap_recovered :: "fec_decoder \<Rightarrow> u64 \<Rightarrow> u16 \<Rightarrow> bytes \<Rightarrow> bytes \<Rightarrow> rtp_packet" where
  "wrap_recovered d now seq template payload =
     \<lparr>pk_data =
        template[2 := hi8 seq, 3 := lo8 seq,
                 4 := byte32 3 (de_last_rtp_timestamp d), 5 := byte32 2 (de_last_rtp_timestamp d),
                 6 := byte32 1 (de_last_rtp_timestamp d), 7 := byte32 0 (de_last_rtp_timestamp d)]
        @ payload,
      pk_sequence_number = seq, pk_rtp_timestamp = de_last_rtp_timestamp d,
      pk_recv_time_us = now, pk_is_raw_ts = False, pk_upstream_seq = Some seq,
      pk_upstream_leg_id = None, pk_sender_timestamp_us = None\<rparr>"

text \<open>The common tail of \<open>recover_column\<close> and \<open>recover_row\<close>: file the rebuilt payload and
  wrap it.\<close>

definition file_recovered ::
  "fec_decoder \<Rightarrow> u64 \<Rightarrow> bytes \<Rightarrow> nat \<Rightarrow> bytes \<Rightarrow> rtp_packet option \<times> fec_decoder" where
  "file_recovered d now template missing_position recovered =
     (let missing_seq = de_base_seq d + of_nat missing_position;
          d = d\<lparr>de_matrix := snd (insert_media (de_matrix d) missing_position recovered),
                de_media_count := de_media_count d + 1,
                de_recovered_count := de_recovered_count d + 1\<rparr>
      in (Some (wrap_recovered d now missing_seq template recovered), d))"

definition recover_column ::
  "fec_decoder \<Rightarrow> u64 \<Rightarrow> bytes \<Rightarrow> nat \<Rightarrow> rtp_packet option \<times> fec_decoder" where
  "recover_column d now template col =
     (case de_col_fec d ! col of
        None \<Rightarrow> (None, d)
      | Some fec_payload \<Rightarrow>
          let d = d\<lparr>de_col_fec := (de_col_fec d)[col := None]\<rparr> in
          (case find_missing_in_column d col of
             None \<Rightarrow> (None, d)
           | Some missing_position \<Rightarrow>
               file_recovered d now template missing_position
                 (xor_with_slice fec_payload (col_parity (de_matrix d) col))))"

definition recover_row ::
  "fec_decoder \<Rightarrow> u64 \<Rightarrow> bytes \<Rightarrow> nat \<Rightarrow> rtp_packet option \<times> fec_decoder" where
  "recover_row d now template row =
     (case de_row_fec d ! row of
        None \<Rightarrow> (None, d)
      | Some fec_payload \<Rightarrow>
          let d = d\<lparr>de_row_fec := (de_row_fec d)[row := None]\<rparr> in
          (case find_missing_in_row d row of
             None \<Rightarrow> (None, d)
           | Some missing_position \<Rightarrow>
               file_recovered d now template missing_position
                 (xor_with_slice fec_payload (row_parity (de_matrix d) row))))"

text \<open>One pass of the sweep over the columns, then the rows; the flag says whether anything was
  rebuilt.\<close>

fun sweep_columns ::
  "u64 \<Rightarrow> bytes \<Rightarrow> nat list \<Rightarrow> fec_decoder \<Rightarrow> rtp_packet list \<times> bool \<times> fec_decoder" where
  "sweep_columns now template [] d = ([], False, d)"
| "sweep_columns now template (c # cs) d =
     (if de_col_fec d ! c \<noteq> None \<and> col_count (de_matrix d) c = de_rows d - 1
      then (case recover_column d now template c of
              (Some pkt, d') \<Rightarrow>
                let (out, _, d'') = sweep_columns now template cs d' in (pkt # out, True, d'')
            | (None, d') \<Rightarrow> sweep_columns now template cs d')
      else sweep_columns now template cs d)"

fun sweep_rows ::
  "u64 \<Rightarrow> bytes \<Rightarrow> nat list \<Rightarrow> fec_decoder \<Rightarrow> rtp_packet list \<times> bool \<times> fec_decoder" where
  "sweep_rows now template [] d = ([], False, d)"
| "sweep_rows now template (r # rs) d =
     (if de_row_fec d ! r \<noteq> None \<and> row_count (de_matrix d) r = de_columns d - 1
      then (case recover_row d now template r of
              (Some pkt, d') \<Rightarrow>
                let (out, _, d'') = sweep_rows now template rs d' in (pkt # out, True, d'')
            | (None, d') \<Rightarrow> sweep_rows now template rs d')
      else sweep_rows now template rs d)"

fun recovery_loop ::
  "u64 \<Rightarrow> bytes \<Rightarrow> nat \<Rightarrow> fec_decoder \<Rightarrow> rtp_packet list \<times> fec_decoder" where
  "recovery_loop now template 0 d = ([], d)"
| "recovery_loop now template (Suc iters) d =
     (let (out1, progressed1, d1) = sweep_columns now template [0..<de_columns d] d;
          (out2, progressed2, d2) = sweep_rows now template [0..<de_rows d1] d1
      in if progressed1 \<or> progressed2
         then (let (out3, d3) = recovery_loop now template iters d2 in (out1 @ out2 @ out3, d3))
         else (out1 @ out2, d2))"

text \<open>The bound \<open>matrix_size.saturating_mul(2).max(8)\<close> of the source.\<close>

definition max_iters :: "fec_decoder \<Rightarrow> nat" where
  "max_iters d = max (unat (de_matrix_size d) * 2) 8"

definition attempt_recovery :: "u64 \<Rightarrow> fec_decoder \<Rightarrow> rtp_packet list \<times> fec_decoder" where
  "attempt_recovery now d =
     (case de_last_rtp_header d of
        None \<Rightarrow> ([], d)
      | Some template \<Rightarrow> recovery_loop now template (max_iters d) d)"

text \<open>Where a media packet goes: \<open>None\<close> leaves it out of the matrix.\<close>

definition media_position :: "fec_decoder \<Rightarrow> u16 \<Rightarrow> bool \<Rightarrow> nat option \<times> fec_decoder" where
  "media_position d seq new_sender =
     (if \<not> de_initialized d \<or> new_sender then
        (let d = (if new_sender then d\<lparr>de_last_rtp_header := None\<rparr> else d)
         in (Some 0, decoder_start_matrix d seq None))
      else
        (case place (de_matrix d) (de_base_seq d) seq of
           Cell position \<Rightarrow> (if de_closed d then None else Some position, d)
         | Late behind \<Rightarrow>
             (if de_opened_at d - seq \<ge> de_matrix_size d
              then (Some 0, decoder_start_matrix d seq None)
              else let (took, d') = take_late d seq behind in
                   (if took then Some 0 else None, d'))
         | Past \<Rightarrow>
             (Some 0, decoder_start_matrix d seq (Some (de_base_seq d + de_matrix_size d)))
         | Moved \<Rightarrow> (Some 0, decoder_start_matrix d seq None)))"

definition file_media :: "fec_decoder \<Rightarrow> nat option \<Rightarrow> u32 \<Rightarrow> bytes \<Rightarrow> fec_decoder" where
  "file_media d position ts data =
     (case position of
        None \<Rightarrow> d
      | Some position \<Rightarrow>
          if \<not> has_cell (de_matrix d) position \<and> length data > RTP_HEADER_LEN
          then d\<lparr>de_matrix :=
                   snd (insert_media (de_matrix d) position (drop RTP_HEADER_LEN data)),
                 de_media_count := de_media_count d + 1,
                 de_last_rtp_header := Some (take RTP_HEADER_LEN data),
                 de_last_rtp_timestamp := ts\<rparr>
          else d)"

definition media_packet :: "u64 \<Rightarrow> u16 \<Rightarrow> u32 \<Rightarrow> bytes \<Rightarrow> rtp_packet" where
  "media_packet now seq ts data =
     \<lparr>pk_data = data, pk_sequence_number = seq, pk_rtp_timestamp = ts,
      pk_recv_time_us = now, pk_is_raw_ts = False, pk_upstream_seq = Some seq,
      pk_upstream_leg_id = None, pk_sender_timestamp_us = None\<rparr>"

definition close_if_full :: "fec_decoder \<Rightarrow> fec_decoder" where
  "close_if_full d =
     (if de_media_count d \<ge> unat (de_matrix_size d)
      then (reset_cycle d)\<lparr>de_base_settled := True, de_closed := True\<rparr> else d)"

definition process_media ::
  "fec_decoder \<Rightarrow> u64 \<Rightarrow> u16 \<Rightarrow> u32 \<Rightarrow> bytes \<Rightarrow> rtp_packet list \<times> fec_decoder" where
  "process_media d now seq ts data =
     (let new_sender = is_new_sender d data;
          d = (case rtp_ssrc data of None \<Rightarrow> d | Some ssrc \<Rightarrow> d\<lparr>de_ssrc := Some ssrc\<rparr>);
          (position, d) = media_position d seq new_sender;
          d = file_media d position ts data;
          (recovered, d) = attempt_recovery now d
      in (media_packet now seq ts data # recovered, close_if_full d))"

text \<open>The SNBase reconciliation of \<open>process_fec\<close>: \<open>None\<close> where the source returns early.\<close>

definition fec_align :: "fec_decoder \<Rightarrow> u16 \<Rightarrow> fec_decoder option" where
  "fec_align d sn_base =
     (if sn_base \<noteq> de_base_seq d
      then (let (ok, d') = align_base_to d sn_base in
            if ok then Some (d'\<lparr>de_closed := False\<rparr>) else None)
      else if de_closed d then None else Some d)"

definition settle_base :: "fec_decoder \<Rightarrow> fec_decoder" where
  "settle_base d = d\<lparr>de_base_settled := True, de_opened_at := de_base_seq d\<rparr>"

definition process_fec :: "fec_decoder \<Rightarrow> u64 \<Rightarrow> bytes \<Rightarrow> rtp_packet list \<times> fec_decoder" where
  "process_fec d now data =
     (if length data < length FEC_MAGIC + FEC_HEADER_LEN
         \<or> take (length FEC_MAGIC) data \<noteq> FEC_MAGIC then ([], d)
      else
        (case fec_header_parse (drop (length FEC_MAGIC) data) of
           None \<Rightarrow> ([], d)
         | Some hdr \<Rightarrow>
             let payload = drop (length FEC_MAGIC + FEC_HEADER_LEN) data in
             if \<not> de_initialized d then ([], d)
             else
               (case fec_align d (fh_sn_base hdr) of
                  None \<Rightarrow> ([], d)
                | Some d \<Rightarrow> attempt_recovery now (settle_base (store_fec d hdr payload)))))"

lemma xor_with_slice_eq: "xor_with_slice t s = xor_accumulate t s"
  by (simp add: xor_with_slice_def xor_accumulate_def)

end
