(* ===== verification/FecRecovery.thy ===== *)
theory FecRecovery
  imports FecDecoder
begin

text \<open>
  The recovery sweep of \<open>src/src/fec/decoder.rs\<close>. Columns and rows are two instances of one
  contract, the locale \<open>recovery_side\<close>, so every fact of the sweep is proved once: it only
  fills empty cells, counts what it fills, keeps the decoder's invariant, and every packet
  it returns carries the payload that was sent. The iteration bound of the source is shown
  never to cut a cascade short.
\<close>

section \<open>The decoder's invariant\<close>

definition decoder_inv :: "fec_decoder \<Rightarrow> bool" where
  "decoder_inv d \<longleftrightarrow>
     matrix_inv (de_matrix d) \<and> de_columns d = mx_columns (de_matrix d) \<and>
     de_rows d = mx_rows (de_matrix d) \<and>
     unat (de_matrix_size d) = matrix_size (de_matrix d) \<and>
     de_media_count d = filled (de_matrix d) \<and>
     length (de_col_fec d) = mx_columns (de_matrix d) \<and>
     length (de_row_fec d) = mx_rows (de_matrix d) \<and>
     (\<forall>h. de_last_rtp_header d = Some h \<longrightarrow> length h = RTP_HEADER_LEN)"

lemma decoder_invD:
  assumes "decoder_inv d"
  shows "matrix_inv (de_matrix d)" "matrix_shape (de_matrix d)"
    "de_columns d = mx_columns (de_matrix d)" "de_rows d = mx_rows (de_matrix d)"
    "unat (de_matrix_size d) = matrix_size (de_matrix d)"
    "de_media_count d = filled (de_matrix d)"
    "length (de_col_fec d) = mx_columns (de_matrix d)"
    "length (de_row_fec d) = mx_rows (de_matrix d)"
    "de_last_rtp_header d = Some h \<Longrightarrow> length h = RTP_HEADER_LEN"
  using assms by (auto simp: decoder_inv_def)

text \<open>
  The decoder agrees with what the sender sent: \<open>sent s\<close> is the payload that went out under
  sequence number \<open>s\<close>. Every cell holds it, and every held parity covers one group of it,
  of one length.
\<close>

definition group_parity :: "(u16 \<Rightarrow> bytes) \<Rightarrow> u16 \<Rightarrow> nat list \<Rightarrow> bytes \<Rightarrow> bool" where
  "group_parity sent base ps fec \<longleftrightarrow>
     (\<exists>n. \<forall>p\<in>set ps. length (sent (base + of_nat p)) = n) \<and>
     fec = xor_all (map (\<lambda>p. sent (base + of_nat p)) ps)"

definition agrees :: "(u16 \<Rightarrow> bytes) \<Rightarrow> fec_decoder \<Rightarrow> bool" where
  "agrees sent d \<longleftrightarrow>
     (\<forall>p b. cell (de_matrix d) p = Some b \<longrightarrow> b = sent (de_base_seq d + of_nat p)) \<and>
     (\<forall>c fec. c < length (de_col_fec d) \<longrightarrow> de_col_fec d ! c = Some fec \<longrightarrow>
        group_parity sent (de_base_seq d) (col_positions (de_matrix d) c) fec) \<and>
     (\<forall>r fec. r < length (de_row_fec d) \<longrightarrow> de_row_fec d ! r = Some fec \<longrightarrow>
        group_parity sent (de_base_seq d) (row_positions (de_matrix d) r) fec)"

section \<open>What one stretch of recovery may do\<close>

text \<open>The packet \<open>pkt\<close> was rebuilt between \<open>d\<close> and \<open>d'\<close>: its cell was empty before and holds its
  payload after.\<close>

definition rebuilt :: "fec_decoder \<Rightarrow> bytes \<Rightarrow> fec_decoder \<Rightarrow> rtp_packet \<Rightarrow> bool" where
  "rebuilt d template d' pkt \<longleftrightarrow>
     (\<exists>q b. q < matrix_size (de_matrix d) \<and> cell (de_matrix d) q = None \<and>
        cell (de_matrix d') q = Some b \<and>
        pkt = wrap_recovered d (pk_recv_time_us pkt) (de_base_seq d + of_nat q) template b)"

definition same_frame :: "fec_decoder \<Rightarrow> fec_decoder \<Rightarrow> bool" where
  "same_frame d d' \<longleftrightarrow>
     de_columns d' = de_columns d \<and> de_rows d' = de_rows d \<and>
     de_matrix_size d' = de_matrix_size d \<and> de_base_seq d' = de_base_seq d \<and>
     de_last_rtp_header d' = de_last_rtp_header d \<and>
     de_last_rtp_timestamp d' = de_last_rtp_timestamp d \<and>
     de_initialized d' = de_initialized d \<and> de_closed d' = de_closed d \<and>
     de_ssrc d' = de_ssrc d \<and> de_base_settled d' = de_base_settled d \<and>
     de_opened_at d' = de_opened_at d \<and> de_floor d' = de_floor d"

text \<open>A pending parity is given up only for a complete group; while \<open>q\<close> is about to be filled, for
  a group complete but for \<open>q\<close>.\<close>

definition slots_kept :: "nat set \<Rightarrow> fec_decoder \<Rightarrow> fec_decoder \<Rightarrow> bool" where
  "slots_kept Q d d' \<longleftrightarrow>
     (\<forall>c fec. c < mx_columns (de_matrix d) \<longrightarrow> de_col_fec d ! c = Some fec \<longrightarrow>
        de_col_fec d' ! c = Some fec \<or>
        (\<forall>p\<in>set (col_positions (de_matrix d) c). p \<in> Q \<or> cell (de_matrix d') p \<noteq> None)) \<and>
     (\<forall>r fec. r < mx_rows (de_matrix d) \<longrightarrow> de_row_fec d ! r = Some fec \<longrightarrow>
        de_row_fec d' ! r = Some fec \<or>
        (\<forall>p\<in>set (row_positions (de_matrix d) r). p \<in> Q \<or> cell (de_matrix d') p \<noteq> None))"

definition recovers :: "fec_decoder \<Rightarrow> bytes \<Rightarrow> rtp_packet list \<Rightarrow> fec_decoder \<Rightarrow> bool" where
  "recovers d template out d' \<longleftrightarrow>
     decoder_inv d' \<and> same_frame d d' \<and>
     mx_columns (de_matrix d') = mx_columns (de_matrix d) \<and>
     mx_rows (de_matrix d') = mx_rows (de_matrix d) \<and>
     filled (de_matrix d') = filled (de_matrix d) + length out \<and>
     (\<forall>p b. cell (de_matrix d) p = Some b \<longrightarrow> cell (de_matrix d') p = Some b) \<and>
     (\<forall>pkt\<in>set out. rebuilt d template d' pkt) \<and>
     (\<forall>p. cell (de_matrix d) p = None \<longrightarrow> cell (de_matrix d') p \<noteq> None \<longrightarrow>
        (\<exists>pkt\<in>set out. pk_sequence_number pkt = de_base_seq d + of_nat p)) \<and>
     slots_kept {} d d' \<and>
     (\<forall>sent. agrees sent d \<longrightarrow> agrees sent d')"

lemma same_frame_refl [simp]: "same_frame d d"
  by (simp add: same_frame_def)

lemma same_frame_trans: "same_frame a b \<Longrightarrow> same_frame b c \<Longrightarrow> same_frame a c"
  by (simp add: same_frame_def)

lemma recoversD:
  assumes "recovers d template out d'"
  shows "decoder_inv d'" "same_frame d d'"
    "mx_columns (de_matrix d') = mx_columns (de_matrix d)"
    "mx_rows (de_matrix d') = mx_rows (de_matrix d)"
    "filled (de_matrix d') = filled (de_matrix d) + length out"
    "cell (de_matrix d) p = Some b \<Longrightarrow> cell (de_matrix d') p = Some b"
    "pkt \<in> set out \<Longrightarrow> rebuilt d template d' pkt"
    "agrees sent d \<Longrightarrow> agrees sent d'"
    "slots_kept {} d d'"
    "cell (de_matrix d) p = None \<Longrightarrow> cell (de_matrix d') p \<noteq> None \<Longrightarrow>
       \<exists>pkt\<in>set out. pk_sequence_number pkt = de_base_seq d + of_nat p"
  using assms unfolding recovers_def by simp_all

lemma slots_kept_refl [simp]: "slots_kept Q d d"
  by (simp add: slots_kept_def)

lemma recovers_refl: "decoder_inv d \<Longrightarrow> recovers d template [] d"
  by (simp add: recovers_def)

lemma rebuilt_trans:
  assumes "recovers a t out1 b" "recovers b t out2 c" "pkt \<in> set (out1 @ out2)"
  shows "rebuilt a t c pkt"
proof -
  note ab = recoversD [OF assms(1)] and bc = recoversD [OF assms(2)]
  have size: "matrix_size (de_matrix b) = matrix_size (de_matrix a)"
    using ab(3,4) by (simp add: matrix_size_def)
  have wrap: "wrap_recovered b = wrap_recovered a"
    using ab(2) by (simp add: fun_eq_iff wrap_recovered_def same_frame_def)
  have none: "cell (de_matrix a) q = None" if "cell (de_matrix b) q = None" for q
    using that ab(6) by (metis not_None_eq)
  consider "pkt \<in> set out1" | "pkt \<in> set out2" using assms(3) by auto
  then show ?thesis
  proof cases
    case 1
    then show ?thesis using ab(7) bc(6) unfolding rebuilt_def by blast
  next
    case 2
    then have "rebuilt b t c pkt" by (rule bc(7))
    moreover have "de_base_seq b = de_base_seq a" using ab(2) by (simp add: same_frame_def)
    ultimately show ?thesis using none unfolding rebuilt_def size wrap by metis
  qed
qed

lemma slots_kept_trans:
  assumes "recovers a t out1 b" "recovers b t out2 c"
  shows "slots_kept {} a c"
proof -
  note ab = recoversD [OF assms(1)] and bc = recoversD [OF assms(2)]
  have pos: "col_positions (de_matrix b) = col_positions (de_matrix a)"
      "row_positions (de_matrix b) = row_positions (de_matrix a)"
    using positions_cong [of "de_matrix b" "de_matrix a"] ab(3,4) by auto
  have ext: "cell (de_matrix b) p \<noteq> None \<Longrightarrow> cell (de_matrix c) p \<noteq> None" for p
    using bc(6) by blast
  show ?thesis
    using ab(9) bc(9) ext unfolding slots_kept_def pos ab(3,4) by (metis empty_iff)
qed

lemma recovers_trans:
  assumes "recovers a t out1 b" "recovers b t out2 c"
  shows "recovers a t (out1 @ out2) c"
proof -
  note ab = recoversD [OF assms(1)] and bc = recoversD [OF assms(2)]
  have base: "de_base_seq b = de_base_seq a" using ab(2) by (simp add: same_frame_def)
  have "\<forall>pkt\<in>set (out1 @ out2). rebuilt a t c pkt" using rebuilt_trans [OF assms] by blast
  moreover have "\<exists>pkt\<in>set (out1 @ out2). pk_sequence_number pkt = de_base_seq a + of_nat p"
    if "cell (de_matrix a) p = None" "cell (de_matrix c) p \<noteq> None" for p
    using that ab(10) [of p] bc(10) [of p] base by (cases "cell (de_matrix b) p = None") auto
  ultimately show ?thesis
    using ab bc same_frame_trans [of a b c] slots_kept_trans [OF assms]
    by (simp add: recovers_def)
qed

section \<open>Filing one rebuilt payload\<close>

lemma agrees_insert:
  assumes "agrees sent d" "decoder_inv d" "d' = d\<lparr>de_matrix := snd (insert_media (de_matrix d) q b),
      de_media_count := k, de_recovered_count := rc\<rparr>" "b = sent (de_base_seq d + of_nat q)"
  shows "agrees sent d'"
  using assms positions_cong [of "snd (insert_media (de_matrix d) q b)" "de_matrix d"]
  by (auto simp: agrees_def cell_insert_media decoder_invD(2))

text \<open>What taking the parity of one group out of its slot leaves as it was.\<close>

definition took_slot :: "fec_decoder \<Rightarrow> fec_decoder \<Rightarrow> bool" where
  "took_slot d0 d \<longleftrightarrow> decoder_inv d \<and> same_frame d0 d \<and> de_matrix d = de_matrix d0 \<and>
     (\<forall>sent. agrees sent d0 \<longrightarrow> agrees sent d)"

text \<open>The decoder \<open>d\<close> has just taken the parity out of \<open>d0\<close>'s slot, so only \<open>d0\<close> still says what
  the rebuilt payload \<open>b\<close> is.\<close>

lemma file_recovered_recovers:
  assumes r0: "took_slot d0 d" "slots_kept {q} d0 d"
    and q: "q < matrix_size (de_matrix d)" "cell (de_matrix d) q = None"
    and b: "\<And>sent. agrees sent d0 \<Longrightarrow> b = sent (de_base_seq d + of_nat q)"
  obtains pkt d' where "file_recovered d now t q b = (Some pkt, d')" "recovers d0 t [pkt] d'"
proof -
  have inv: "decoder_inv d" and fr: "same_frame d0 d" and m: "de_matrix d = de_matrix d0"
    and ag: "\<And>sent. agrees sent d0 \<Longrightarrow> agrees sent d"
    using r0 by (auto simp: took_slot_def)
  define d' where "d' = d\<lparr>de_matrix := snd (insert_media (de_matrix d) q b),
      de_media_count := de_media_count d + 1, de_recovered_count := de_recovered_count d + 1\<rparr>"
  define pkt where "pkt = wrap_recovered d' now (de_base_seq d + of_nat q) t b"
  have sh: "matrix_shape (de_matrix d)" using inv by (simp add: decoder_invD)
  have cells: "cell (de_matrix d') p = (if p = q then Some b else cell (de_matrix d0) p)" for p
    using q sh m by (simp add: d'_def cell_insert_media)
  have "decoder_inv d'"
    using inv q by (simp add: decoder_inv_def d'_def matrix_inv_insert_media filled_insert_media)
  moreover have "rebuilt d0 t d' pkt"
    using q m fr cells
    by (auto simp: rebuilt_def pkt_def d'_def wrap_recovered_def same_frame_def)
  moreover have "agrees sent d'" if "agrees sent d0" for sent
    using agrees_insert [OF ag [OF that] inv d'_def b [OF that]] .
  moreover have "slots_kept {} d0 d'"
    using r0(2) cells m unfolding slots_kept_def by (auto simp: d'_def) metis+
  moreover have "same_frame d0 d'" using fr by (simp add: same_frame_def d'_def)
  ultimately have "recovers d0 t [pkt] d'"
    using q sh m fr cells unfolding recovers_def
    by (auto simp: d'_def filled_insert_media pkt_def wrap_recovered_def same_frame_def)
  moreover have "file_recovered d now t q b = (Some pkt, d')"
    by (simp add: file_recovered_def Let_def d'_def pkt_def)
  ultimately show ?thesis using that by blast
qed

section \<open>One contract for columns and rows\<close>

text \<open>
  A side of the sweep: a family of protected groups with a slot per group for its pending
  parity, \<open>recover\<close> for one group and \<open>sweep\<close> for one pass over a list of groups.
  \<open>clear d i\<close> is the decoder with slot \<open>i\<close> taken.
\<close>

locale recovery_side = fec_group positions groups width gcount gparity
  for positions groups width gcount gparity +
  fixes slots :: "fec_decoder \<Rightarrow> bytes option list"
    and clear :: "fec_decoder \<Rightarrow> nat \<Rightarrow> fec_decoder"
    and recover :: "fec_decoder \<Rightarrow> u64 \<Rightarrow> bytes \<Rightarrow> nat \<Rightarrow> rtp_packet option \<times> fec_decoder"
    and sweep ::
      "u64 \<Rightarrow> bytes \<Rightarrow> nat list \<Rightarrow> fec_decoder \<Rightarrow> rtp_packet list \<times> bool \<times> fec_decoder"
  assumes slots_length: "decoder_inv d \<Longrightarrow> length (slots d) = groups (de_matrix d)"
    and groups_cong: "mx_columns m = mx_columns m' \<Longrightarrow> mx_rows m = mx_rows m' \<Longrightarrow> groups m = groups m'"
    and clear_took: "decoder_inv d \<Longrightarrow> took_slot d (clear d i)"
    and clear_kept: "decoder_inv d \<Longrightarrow>
      (\<And>p. p \<in> set (positions (de_matrix d) i) \<Longrightarrow> p \<noteq> q \<Longrightarrow> cell (de_matrix d) p \<noteq> None) \<Longrightarrow>
      slots_kept {q} d (clear d i)"
    and agrees_slot: "agrees sent d \<Longrightarrow> i < length (slots d) \<Longrightarrow> slots d ! i = Some fec \<Longrightarrow>
      group_parity sent (de_base_seq d) (positions (de_matrix d) i) fec"
    and recover_Some: "decoder_inv d \<Longrightarrow> slots d ! i = Some fec \<Longrightarrow>
      find (\<lambda>p. \<not> has_cell (de_matrix d) p) (positions (de_matrix d) i) = Some q \<Longrightarrow>
      recover d now t i =
        file_recovered (clear d i) now t q (xor_accumulate fec (gparity (de_matrix d) i))"
    and sweep_Nil: "sweep now t [] d = ([], False, d)"
    and sweep_Cons: "decoder_inv d \<Longrightarrow> sweep now t (i # is) d =
      (if slots d ! i \<noteq> None \<and> gcount (de_matrix d) i = width (de_matrix d) - 1
       then (case recover d now t i of
               (Some pkt, d') \<Rightarrow> let (out, _, d'') = sweep now t is d' in (pkt # out, True, d'')
             | (None, d') \<Rightarrow> sweep now t is d')
       else sweep now t is d)"
begin

lemma recover_recovers:
  assumes inv: "decoder_inv d" and i: "i < groups (de_matrix d)"
    and fec: "slots d ! i = Some fec" and c: "gcount (de_matrix d) i = width (de_matrix d) - 1"
  obtains pkt d' where "recover d now t i = (Some pkt, d')" "recovers d t [pkt] d'"
proof -
  let ?m = "de_matrix d"
  have mi: "matrix_inv ?m" using inv by (simp add: decoder_invD)
  have c1: "gcount ?m i + 1 = width ?m" using c width_pos [OF mi] by simp
  obtain q where q: "find (\<lambda>p. \<not> has_cell ?m p) (positions ?m i) = Some q"
    using find_missing_Some [OF mi i c1] .
  note q' = found_missing [OF mi i q]
  note cr = clear_took [OF inv, of i]
  have base: "de_base_seq (clear d i) = de_base_seq d" and m: "de_matrix (clear d i) = ?m"
    using cr by (auto simp: took_slot_def same_frame_def)
  have kept: "slots_kept {q} d (clear d i)"
    using one_missing_rest [OF mi i c1 q'(1,3)] by (intro clear_kept [OF inv])
  let ?b = "xor_accumulate fec (gparity ?m i)"
  have exact: "?b = sent (de_base_seq (clear d i) + of_nat q)" if ag: "agrees sent d" for sent
  proof -
    let ?f = "\<lambda>p. sent (de_base_seq d + of_nat p)"
    have "group_parity sent (de_base_seq d) (positions ?m i) fec"
      using agrees_slot [OF ag _ fec] i slots_length [OF inv] by simp
    then obtain n where n: "\<And>p. p \<in> set (positions ?m i) \<Longrightarrow> length (?f p) = n"
      and f: "fec = xor_all (map ?f (positions ?m i))" by (auto simp: group_parity_def)
    have "b = ?f p" if "cell ?m p = Some b" for p b using ag that by (simp add: agrees_def)
    then show ?thesis using recover_exact [OF mi i c1 _ n f q] base by simp
  qed
  obtain pkt d' where "file_recovered (clear d i) now t q ?b = (Some pkt, d')"
      "recovers d t [pkt] d'"
    by (rule file_recovered_recovers [OF cr kept, of ?b now t])
       (use q'(2,3) exact m in \<open>auto simp: base\<close>)
  then show ?thesis using that recover_Some [OF inv fec q] by simp
qed

text \<open>One pass: it recovers, it says truly whether it rebuilt anything, and a pass that rebuilt
  nothing changed nothing and found no group it could have rebuilt.\<close>

definition pending :: "fec_decoder \<Rightarrow> nat \<Rightarrow> bool" where
  "pending d i \<longleftrightarrow> slots d ! i \<noteq> None \<and> gcount (de_matrix d) i = width (de_matrix d) - 1"

lemma sweep_recovers:
  assumes "decoder_inv d" "\<forall>i\<in>set is. i < groups (de_matrix d)"
    and "sweep now t is d = (out, progressed, d')"
  shows "recovers d t out d'" "progressed \<longleftrightarrow> out \<noteq> []"
    "\<not> progressed \<Longrightarrow> d' = d \<and> (\<forall>i\<in>set is. \<not> pending d i)"
proof -
  have "recovers d t out d' \<and> (progressed \<longleftrightarrow> out \<noteq> []) \<and>
      (\<not> progressed \<longrightarrow> d' = d \<and> (\<forall>i\<in>set is. \<not> pending d i))"
    using assms
  proof (induction "is" arbitrary: d out progressed)
    case Nil
    then show ?case by (simp add: sweep_Nil recovers_refl)
  next
    case (Cons i "is")
    show ?case
    proof (cases "pending d i")
      case False
      then have "sweep now t is d = (out, progressed, d')"
        using Cons.prems sweep_Cons [OF Cons.prems(1), of now t i "is"]
        by (simp add: pending_def del: not_None_eq split: if_splits)
      then show ?thesis using Cons.IH [OF Cons.prems(1)] Cons.prems(2) False by simp
    next
      case True
      then obtain fec where fec: "slots d ! i = Some fec"
        and c: "gcount (de_matrix d) i = width (de_matrix d) - 1" by (auto simp: pending_def)
      have i: "i < groups (de_matrix d)" using Cons.prems(2) by simp
      obtain pkt d1 where r: "recover d now t i = (Some pkt, d1)" "recovers d t [pkt] d1"
        by (rule recover_recovers [OF Cons.prems(1) i fec c])
      obtain out2 p2 where s2: "sweep now t is d1 = (out2, p2, d')"
          and out: "out = pkt # out2" "progressed"
        using Cons.prems(3) sweep_Cons [OF Cons.prems(1), of now t i "is"] fec c r(1)
        by (auto split: prod.splits)
      have "\<forall>j\<in>set is. j < groups (de_matrix d1)"
        using Cons.prems(2) groups_cong [OF recoversD(3,4) [OF r(2)]] by simp
      then have "recovers d1 t out2 d'"
        using Cons.IH [OF recoversD(1) [OF r(2)] _ s2] by blast
      then show ?thesis using recovers_trans [OF r(2)] out by force
    qed
  qed
  then show "recovers d t out d'" "progressed \<longleftrightarrow> out \<noteq> []"
    "\<not> progressed \<Longrightarrow> d' = d \<and> (\<forall>i\<in>set is. \<not> pending d i)" by auto
qed

end

interpretation col_side: recovery_side col_positions mx_columns mx_rows col_count col_parity
  de_col_fec "\<lambda>d i. d\<lparr>de_col_fec := (de_col_fec d)[i := None]\<rparr>" recover_column sweep_columns
proof unfold_locales
  fix d i assume "decoder_inv d"
  then show "took_slot d (d\<lparr>de_col_fec := (de_col_fec d)[i := None]\<rparr>)"
    by (auto simp: took_slot_def decoder_inv_def same_frame_def agrees_def
        dest!: list_update_None_nth)
next
  fix d :: fec_decoder and i q assume rest:
    "\<And>p. p \<in> set (col_positions (de_matrix d) i) \<Longrightarrow> p \<noteq> q \<Longrightarrow> cell (de_matrix d) p \<noteq> None"
  have "(de_col_fec d)[i := None] ! j = Some fec \<or> j = i" if "de_col_fec d ! j = Some fec" for j fec
    using that by (cases "j = i") auto
  with rest show "slots_kept {q} d (d\<lparr>de_col_fec := (de_col_fec d)[i := None]\<rparr>)"
    unfolding slots_kept_def by force
next
  fix d now t i fec q
  assume "decoder_inv d" "de_col_fec d ! i = Some fec"
    "find (\<lambda>p. \<not> has_cell (de_matrix d) p) (col_positions (de_matrix d) i) = Some q"
  then show "recover_column d now t i = file_recovered (d\<lparr>de_col_fec := (de_col_fec d)[i := None]\<rparr>)
      now t q (xor_accumulate fec (col_parity (de_matrix d) i))"
    by (simp add: recover_column_def find_missing_in_column_def col_positions_def decoder_invD
        xor_with_slice_eq Let_def)
qed (auto simp: decoder_invD agrees_def)

interpretation row_side: recovery_side row_positions mx_rows mx_columns row_count row_parity
  de_row_fec "\<lambda>d i. d\<lparr>de_row_fec := (de_row_fec d)[i := None]\<rparr>" recover_row sweep_rows
proof unfold_locales
  fix d i assume "decoder_inv d"
  then show "took_slot d (d\<lparr>de_row_fec := (de_row_fec d)[i := None]\<rparr>)"
    by (auto simp: took_slot_def decoder_inv_def same_frame_def agrees_def
        dest!: list_update_None_nth)
next
  fix d :: fec_decoder and i q assume rest:
    "\<And>p. p \<in> set (row_positions (de_matrix d) i) \<Longrightarrow> p \<noteq> q \<Longrightarrow> cell (de_matrix d) p \<noteq> None"
  have "(de_row_fec d)[i := None] ! j = Some fec \<or> j = i" if "de_row_fec d ! j = Some fec" for j fec
    using that by (cases "j = i") auto
  with rest show "slots_kept {q} d (d\<lparr>de_row_fec := (de_row_fec d)[i := None]\<rparr>)"
    unfolding slots_kept_def by force
next
  fix d now t i fec q
  assume "decoder_inv d" "de_row_fec d ! i = Some fec"
    "find (\<lambda>p. \<not> has_cell (de_matrix d) p) (row_positions (de_matrix d) i) = Some q"
  then show "recover_row d now t i = file_recovered (d\<lparr>de_row_fec := (de_row_fec d)[i := None]\<rparr>)
      now t q (xor_accumulate fec (row_parity (de_matrix d) i))"
    by (simp add: recover_row_def find_missing_in_row_def row_positions_def decoder_invD
        xor_with_slice_eq Let_def)
qed (auto simp: decoder_invD agrees_def)

section \<open>The bounded loop\<close>

text \<open>No group the decoder could still rebuild: the fixpoint of the cascade.\<close>

definition exhausted :: "fec_decoder \<Rightarrow> bool" where
  "exhausted d \<longleftrightarrow>
     (\<forall>c < de_columns d. de_col_fec d ! c \<noteq> None \<longrightarrow>
        col_count (de_matrix d) c \<noteq> de_rows d - 1) \<and>
     (\<forall>r < de_rows d. de_row_fec d ! r \<noteq> None \<longrightarrow>
        row_count (de_matrix d) r \<noteq> de_columns d - 1)"

lemma one_round:
  assumes inv: "decoder_inv d"
    and s1: "sweep_columns now t [0..<de_columns d] d = (out1, p1, d1)"
    and s2: "sweep_rows now t [0..<de_rows d1] d1 = (out2, p2, d2)"
  shows "recovers d t (out1 @ out2) d2" "p1 \<or> p2 \<longleftrightarrow> out1 @ out2 \<noteq> []"
    "\<not> (p1 \<or> p2) \<Longrightarrow> d2 = d \<and> exhausted d"
proof -
  have r1: "recovers d t out1 d1" "p1 \<longleftrightarrow> out1 \<noteq> []"
      "\<not> p1 \<Longrightarrow> d1 = d \<and> (\<forall>i\<in>set [0..<de_columns d]. \<not> col_side.pending d i)"
    using col_side.sweep_recovers [OF inv _ s1] by (simp_all add: decoder_invD(3) [OF inv])
  note inv1 = recoversD(1) [OF r1(1)]
  have r2: "recovers d1 t out2 d2" "p2 \<longleftrightarrow> out2 \<noteq> []"
      "\<not> p2 \<Longrightarrow> d2 = d1 \<and> (\<forall>i\<in>set [0..<de_rows d1]. \<not> row_side.pending d1 i)"
    using row_side.sweep_recovers [OF inv1 _ s2] by (simp_all add: decoder_invD(4) [OF inv1])
  show "recovers d t (out1 @ out2) d2" by (rule recovers_trans [OF r1(1) r2(1)])
  show "p1 \<or> p2 \<longleftrightarrow> out1 @ out2 \<noteq> []" using r1(2) r2(2) by auto
  show "d2 = d \<and> exhausted d" if "\<not> (p1 \<or> p2)"
    using that r1(3) r2(3) inv
    by (auto simp: exhausted_def col_side.pending_def row_side.pending_def decoder_invD
        Ball_def)
qed

lemma recovery_loop_recovers:
  assumes "decoder_inv d" "recovery_loop now t k d = (out, d')"
  shows "recovers d t out d'"
  using assms
proof (induction k arbitrary: d out d')
  case 0
  then show ?case by (simp add: recovers_refl)
next
  case (Suc k)
  obtain out1 p1 d1 out2 p2 d2
    where s: "sweep_columns now t [0..<de_columns d] d = (out1, p1, d1)"
      "sweep_rows now t [0..<de_rows d1] d1 = (out2, p2, d2)" by (metis prod_cases3)
  note r = one_round [OF Suc.prems(1) s]
  show ?case
  proof (cases "p1 \<or> p2")
    case True
    then obtain out3 where l: "recovery_loop now t k d2 = (out3, d')" "out = (out1 @ out2) @ out3"
      using Suc.prems(2) s by (auto split: prod.splits)
    show ?thesis
      unfolding l(2) by (rule recovers_trans [OF r(1) Suc.IH [OF recoversD(1) [OF r(1)] l(1)]])
  next
    case False
    then show ?thesis using Suc.prems(2) s r(1) by auto
  qed
qed

text \<open>A round that rebuilt something filled a cell, so a bound past the empty cells is never the
  reason the loop stops.\<close>

lemma recovery_loop_exhausts:
  assumes "decoder_inv d" "matrix_size (de_matrix d) - filled (de_matrix d) < k"
    "recovery_loop now t k d = (out, d')"
  shows "exhausted d'"
  using assms
proof (induction k arbitrary: d out d')
  case 0
  then show ?case by simp
next
  case (Suc k)
  obtain out1 p1 d1 out2 p2 d2
    where s: "sweep_columns now t [0..<de_columns d] d = (out1, p1, d1)"
      "sweep_rows now t [0..<de_rows d1] d1 = (out2, p2, d2)" by (metis prod_cases3)
  note r = one_round [OF Suc.prems(1) s] and rd = recoversD [OF one_round(1) [OF Suc.prems(1) s]]
  show ?case
  proof (cases "p1 \<or> p2")
    case True
    have "filled (de_matrix d) < filled (de_matrix d2)"
      using True r(2) rd(5) by (cases "out1 @ out2") auto
    moreover have "matrix_size (de_matrix d2) = matrix_size (de_matrix d)"
      using rd(3,4) by (simp add: matrix_size_def)
    ultimately have "matrix_size (de_matrix d2) - filled (de_matrix d2) < k"
      using Suc.prems(2) filled_le_size [of "de_matrix d2"] by simp
    then show ?thesis
      using Suc.IH [OF rd(1)] True Suc.prems(3) s by (auto split: prod.splits)
  next
    case False
    then show ?thesis using Suc.prems(3) s r(3) by auto
  qed
qed

lemma attempt_recovery_recovers:
  assumes inv: "decoder_inv d" and res: "attempt_recovery now d = (out, d')"
  shows "de_last_rtp_header d = Some t \<Longrightarrow> recovers d t out d'"
    and "de_last_rtp_header d = None \<Longrightarrow> out = [] \<and> d' = d"
    and "de_last_rtp_header d \<noteq> None \<Longrightarrow> exhausted d'"
proof -
  show "recovers d t out d'" if "de_last_rtp_header d = Some t"
    using recovery_loop_recovers [OF inv] that res by (simp add: attempt_recovery_def)
  show "de_last_rtp_header d = None \<Longrightarrow> out = [] \<and> d' = d"
    using res by (simp add: attempt_recovery_def)
  have "0 < matrix_size (de_matrix d)"
    using matrix_shapeD(1,3) [OF decoder_invD(2) [OF inv]] by (simp add: matrix_size_def)
  then have "matrix_size (de_matrix d) - filled (de_matrix d) < max_iters d"
    using decoder_invD(5) [OF inv] by (simp add: max_iters_def)
  then show "exhausted d'" if "de_last_rtp_header d \<noteq> None"
    using that recovery_loop_exhausts [OF inv _] res by (auto simp: attempt_recovery_def)
qed

end
