(* ===== verification/FecLink.thy ===== *)
theory FecLink
  imports FecRecovery RtpParse
begin

text \<open>
  The two handlers of \<open>src/src/fec/decoder.rs\<close> (\<open>process_media\<close>, \<open>process_fec\<close>) and the link
  between a sender and a receiver: every state a receiver reaches keeps the invariant, and
  on a link that loses, repeats and reorders datagrams as it likes the receiver never
  returns bytes the sender did not send under that sequence number.
\<close>

section \<open>Starting and realigning a matrix\<close>

lemma decoder_inv_new:
  assumes "validate_fec l d = Inr ()"
  shows "decoder_inv (decoder_new l d)"
proof -
  note b = validate_fec_shape [OF assms]
  have "l * d \<le> 20 * 20" using b by (intro mult_le_mono) auto
  then have "unat (of_nat (l * d) :: u16) = l * d" by (intro unat_of_nat_u16) simp
  moreover have "filled (matrix_new l d) = 0"
    using b matrix_inv_new [of l d] by (intro filled_empty) auto
  ultimately show ?thesis
    using b by (simp add: decoder_inv_def decoder_new_def matrix_inv_new)
qed

lemma reset_cycle_fields [simp]:
  "de_matrix (reset_cycle d) = matrix_reset (de_matrix d)"
  "de_base_seq (reset_cycle d) = de_base_seq d"
  "length (de_col_fec (reset_cycle d)) = length (de_col_fec d)"
  "length (de_row_fec (reset_cycle d)) = length (de_row_fec d)"
  "de_last_rtp_header (reset_cycle d) = de_last_rtp_header d"
  "de_columns (reset_cycle d) = de_columns d" "de_rows (reset_cycle d) = de_rows d"
  "de_matrix_size (reset_cycle d) = de_matrix_size d"
  "de_media_count (reset_cycle d) = 0" "de_ssrc (reset_cycle d) = de_ssrc d"
  "c < length (de_col_fec d) \<Longrightarrow> de_col_fec (reset_cycle d) ! c = None"
  "r < length (de_row_fec d) \<Longrightarrow> de_row_fec (reset_cycle d) ! r = None"
  "de_initialized (reset_cycle d) = de_initialized d"
  "de_closed (reset_cycle d) = de_closed d"
  by (simp_all add: reset_cycle_def)

lemma decoder_inv_reset: "decoder_inv d \<Longrightarrow> decoder_inv (reset_cycle d)"
  using filled_empty [of "matrix_reset (de_matrix d)"]
  by (simp add: decoder_inv_def matrix_inv_reset)

lemma agrees_reset: "agrees sent (reset_cycle d)"
  by (simp add: agrees_def)

lemma agrees_frame:
  "agrees sent d \<Longrightarrow> de_matrix d' = de_matrix d \<Longrightarrow> de_base_seq d' = de_base_seq d \<Longrightarrow>
   de_col_fec d' = de_col_fec d \<Longrightarrow> de_row_fec d' = de_row_fec d \<Longrightarrow> agrees sent d'"
  by (simp add: agrees_def)

lemma decoder_inv_start: "decoder_inv d \<Longrightarrow> decoder_inv (decoder_start_matrix d seq fl)"
  using decoder_inv_reset [of d] by (simp add: decoder_start_matrix_def decoder_inv_def)

lemma agrees_start: "agrees sent (decoder_start_matrix d seq fl)"
  by (simp add: agrees_def decoder_start_matrix_def)

subsection \<open>The snapshot and the refiling\<close>

lemma snapshot_iff:
  "(s, b) \<in> set (snapshot d) \<longleftrightarrow>
     (\<exists>p < matrix_size (de_matrix d). cell (de_matrix d) p = Some b \<and> s = de_base_seq d + of_nat p)"
  by (auto simp: snapshot_def map_filter_def image_iff)

lemma map_fst_map_filter_Pair:
  "map fst (List.map_filter (\<lambda>p. map_option (\<lambda>v. (g p, v)) (c p)) ps) =
     map g (filter (\<lambda>p. c p \<noteq> None) ps)"
  by (induction ps) (auto simp: map_filter_simps split: option.splits)

lemma distinct_snapshot:
  assumes "matrix_shape (de_matrix d)"
  shows "distinct (map fst (snapshot d))"
proof -
  have "inj_on (\<lambda>p. de_base_seq d + of_nat p) (set [0..<matrix_size (de_matrix d)])"
    using matrix_shapeD(6) [OF assms] u16_offset_inj [of _ _ "de_base_seq d"]
    by (force simp: inj_on_def)
  then show ?thesis
    unfolding snapshot_def map_fst_map_filter_Pair distinct_map
    by (auto intro: inj_on_subset)
qed

text \<open>Filing one payload in an empty cell.\<close>

lemma decoder_insert:
  assumes inv: "decoder_inv d" and p: "p < matrix_size (de_matrix d)" "cell (de_matrix d) p = None"
    and d1: "d1 = d\<lparr>de_matrix := snd (insert_media (de_matrix d) p b),
                     de_media_count := de_media_count d + 1\<rparr>"
  shows "decoder_inv d1" "same_frame d d1"
    "mx_columns (de_matrix d1) = mx_columns (de_matrix d)"
    "mx_rows (de_matrix d1) = mx_rows (de_matrix d)"
    "matrix_size (de_matrix d1) = matrix_size (de_matrix d)"
    "de_col_fec d1 = de_col_fec d" "de_row_fec d1 = de_row_fec d"
    "cell (de_matrix d1) q = (if q = p then Some b else cell (de_matrix d) q)"
  using assms decoder_invD(2) [OF inv]
  by (simp_all add: decoder_inv_def same_frame_def matrix_inv_insert_media filled_insert_media
      cell_insert_media)

text \<open>Refiling keeps the invariant, and fills exactly the cells the listed packets belong in.\<close>

definition refiled :: "u16 \<Rightarrow> (u16 \<times> bytes) list \<Rightarrow> fec_decoder \<Rightarrow> fec_decoder \<Rightarrow> bool" where
  "refiled nb xs d d' \<longleftrightarrow> decoder_inv d' \<and> same_frame d d' \<and>
     mx_columns (de_matrix d') = mx_columns (de_matrix d) \<and>
     mx_rows (de_matrix d') = mx_rows (de_matrix d) \<and>
     de_col_fec d' = de_col_fec d \<and> de_row_fec d' = de_row_fec d \<and>
     (\<forall>p b. cell (de_matrix d') p = Some b \<longleftrightarrow> cell (de_matrix d) p = Some b \<or>
        (\<exists>s. (s, b) \<in> set xs \<and> p = unat (s - nb) \<and> p < matrix_size (de_matrix d)))"

lemma refile_result:
  assumes "decoder_inv d" "distinct (map fst xs)"
    and "\<And>s. s \<in> set (map fst xs) \<Longrightarrow> cell (de_matrix d) (unat (s - nb)) = None"
  shows "refiled nb xs d (refile nb xs d)"
  using assms
proof (induction xs arbitrary: d)
  case Nil
  then show ?case by (simp add: refiled_def)
next
  case (Cons x xs)
  obtain s b where x: "x = (s, b)" by force
  let ?p = "unat (s - nb)"
  show ?case
  proof (cases "?p < matrix_size (de_matrix d)")
    case False
    then have "refile nb (x # xs) d = refile nb xs d" by (simp add: x Let_def)
    moreover have "refiled nb xs d (refile nb xs d)"
      using Cons.IH [OF Cons.prems(1)] Cons.prems(2,3) by simp
    ultimately show ?thesis using False by (auto simp: refiled_def x)
  next
    case True
    define d1 where "d1 = d\<lparr>de_matrix := snd (insert_media (de_matrix d) ?p b),
        de_media_count := de_media_count d + 1\<rparr>"
    have none: "cell (de_matrix d) ?p = None" using Cons.prems(3) [of s] x by simp
    note i = decoder_insert [OF Cons.prems(1) True none d1_def]
    have "cell (de_matrix d1) (unat (s' - nb)) = None" if "s' \<in> set (map fst xs)" for s'
    proof -
      have "s' \<noteq> s" using Cons.prems(2) that x by auto
      then have "unat (s' - nb) \<noteq> ?p" by (simp add: word_unat_eq_iff [symmetric])
      then show ?thesis using Cons.prems(3) [of s'] that by (simp add: i(8))
    qed
    then have "refiled nb xs d1 (refile nb xs d1)"
      using Cons.IH [OF i(1)] Cons.prems(2) by simp
    moreover have "refile nb (x # xs) d = refile nb xs d1"
      using True by (simp add: x d1_def Let_def)
    ultimately show ?thesis
      using i same_frame_trans [OF i(2)] True none by (auto simp: refiled_def x split: if_splits)
  qed
qed

subsection \<open>Realignment\<close>

text \<open>A cell of the realigned matrix, addressed by sequence number.\<close>

lemma align_base_to_result:
  assumes inv: "decoder_inv d" and al: "align_base_to d nb = (True, d')"
  shows "decoder_inv d'" "de_base_seq d' = nb"
    "same_frame d (d'\<lparr>de_base_seq := de_base_seq d\<rparr>)"
    "mx_columns (de_matrix d') = mx_columns (de_matrix d)"
    "mx_rows (de_matrix d') = mx_rows (de_matrix d)"
    "c < mx_columns (de_matrix d) \<Longrightarrow> de_col_fec d' ! c = None"
    "r < mx_rows (de_matrix d) \<Longrightarrow> de_row_fec d' ! r = None"
    "cell (de_matrix d') p = Some b \<longleftrightarrow>
       (\<exists>q < matrix_size (de_matrix d). cell (de_matrix d) q = Some b \<and>
          p = unat (de_base_seq d + of_nat q - nb) \<and> p < matrix_size (de_matrix d))"
proof -
  let ?e = "(reset_cycle d)\<lparr>de_base_seq := nb\<rparr>"
  have "decoder_inv ?e" using decoder_inv_reset [OF inv] by (simp add: decoder_inv_def)
  then have r: "refiled nb (snapshot d) ?e (refile nb (snapshot d) ?e)"
    using distinct_snapshot [OF decoder_invD(2) [OF inv]] by (intro refile_result) simp_all
  have d': "d' = refile nb (snapshot d) ?e"
    using al by (auto simp: align_base_to_def Let_def split: if_splits)
  show "decoder_inv d'" "de_base_seq d' = nb" "same_frame d (d'\<lparr>de_base_seq := de_base_seq d\<rparr>)"
    "mx_columns (de_matrix d') = mx_columns (de_matrix d)"
    "mx_rows (de_matrix d') = mx_rows (de_matrix d)"
    "c < mx_columns (de_matrix d) \<Longrightarrow> de_col_fec d' ! c = None"
    "r < mx_rows (de_matrix d) \<Longrightarrow> de_row_fec d' ! r = None"
    using r decoder_invD(7,8) [OF inv]
    by (auto simp: d' refiled_def same_frame_def reset_cycle_def)
  show "cell (de_matrix d') p = Some b \<longleftrightarrow>
       (\<exists>q < matrix_size (de_matrix d). cell (de_matrix d) q = Some b \<and>
          p = unat (de_base_seq d + of_nat q - nb) \<and> p < matrix_size (de_matrix d))"
    using r by (auto simp: d' refiled_def snapshot_iff)
qed

lemma align_base_to_False: "align_base_to d nb = (False, d') \<Longrightarrow> d' = d"
  by (auto simp: align_base_to_def Let_def split: if_splits)

lemma align_base_to_agrees:
  assumes inv: "decoder_inv d" and al: "align_base_to d nb = (True, d')" and ag: "agrees sent d"
  shows "agrees sent d'"
proof -
  note r = align_base_to_result [OF inv al]
  have "b = sent (nb + of_nat p)" if c: "cell (de_matrix d') p = Some b" for p b
  proof -
    obtain q where q: "cell (de_matrix d) q = Some b" "p = unat (de_base_seq d + of_nat q - nb)"
      using r(8) [of p b] c by blast
    have "nb + of_nat p = de_base_seq d + of_nat q" unfolding q(2) by (rule u16_add_of_nat_diff)
    then show ?thesis using q(1) ag by (simp add: agrees_def)
  qed
  then show ?thesis
    using r(2,4,5,6,7) decoder_invD(7,8) [OF r(1)] by (simp add: agrees_def)
qed

lemma take_late_result:
  assumes inv: "decoder_inv d" and tl: "take_late d seq behind = (took, d')"
  shows "decoder_inv d'" "took \<Longrightarrow> de_base_seq d' = seq" "agrees sent d \<Longrightarrow> agrees sent d'"
    "matrix_size (de_matrix d') = matrix_size (de_matrix d)"
    "de_ssrc d' = de_ssrc d" "de_initialized d' = de_initialized d"
    "de_columns d' = de_columns d" "de_rows d' = de_rows d"
proof -
  obtain ok d1 where al: "align_base_to d seq = (ok, d1)" by force
  have "\<not> took \<and> d' = d\<lparr>de_col_fec := map (\<lambda>_. None) (de_col_fec d),
        de_row_fec := map (\<lambda>_. None) (de_row_fec d)\<rparr> \<or> \<not> took \<and> d' = d \<or> took \<and> ok \<and> d' = d1"
    using tl al align_base_to_False [of d seq d1]
    unfolding take_late_def by (cases ok) (simp_all split: if_splits)
  then have "decoder_inv d' \<and> (took \<longrightarrow> de_base_seq d' = seq) \<and>
      (agrees sent d \<longrightarrow> agrees sent d') \<and>
      matrix_size (de_matrix d') = matrix_size (de_matrix d) \<and>
      de_ssrc d' = de_ssrc d \<and> de_initialized d' = de_initialized d \<and>
      de_columns d' = de_columns d \<and> de_rows d' = de_rows d"
  proof (elim disjE conjE)
    assume "took" "ok" "d' = d1"
    then show ?thesis
      using al align_base_to_result [OF inv, of seq d1] align_base_to_agrees [OF inv, of seq d1]
      by (simp add: matrix_size_def same_frame_def)
  qed (use inv in \<open>auto simp: decoder_inv_def agrees_def\<close>)
  then show "decoder_inv d'" "took \<Longrightarrow> de_base_seq d' = seq" "agrees sent d \<Longrightarrow> agrees sent d'"
    "matrix_size (de_matrix d') = matrix_size (de_matrix d)"
    "de_ssrc d' = de_ssrc d" "de_initialized d' = de_initialized d"
    "de_columns d' = de_columns d" "de_rows d' = de_rows d" by auto
qed

section \<open>The media handler\<close>

text \<open>Where the handler may put a packet: at cell 0 of a matrix it has just started, at its cell
  of the open matrix, or where \<open>take_late\<close> leaves it.\<close>

lemma media_position_cases:
  assumes inv: "decoder_inv d" and mp: "media_position d seq new_sender = (position, d')"
  obtains (start) d0 fl where "decoder_inv d0" "de_ssrc d0 = de_ssrc d" "position = Some 0"
      "d' = decoder_start_matrix d0 seq fl" "de_columns d0 = de_columns d" "de_rows d0 = de_rows d"
    | (at) q where "de_initialized d" "\<not> new_sender" "d' = d"
        "position = None \<or> position = Some q"
        "q < matrix_size (de_matrix d)" "seq = de_base_seq d + of_nat q"
    | (late) behind took where "de_initialized d" "\<not> new_sender"
        "take_late d seq behind = (took, d')" "position = (if took then Some 0 else None)"
proof (cases "\<not> de_initialized d \<or> new_sender")
  case True
  define d0 where "d0 = (if new_sender then d\<lparr>de_last_rtp_header := None\<rparr> else d)"
  have "decoder_inv d0" "de_ssrc d0 = de_ssrc d" "de_columns d0 = de_columns d"
      "de_rows d0 = de_rows d"
    using inv by (auto simp: d0_def decoder_inv_def)
  moreover have "position = Some 0" "d' = decoder_start_matrix d0 seq None"
    using mp True by (auto simp: media_position_def Let_def d0_def)
  ultimately show ?thesis using start by blast
next
  case False
  show ?thesis
  proof (cases "place (de_matrix d) (de_base_seq d) seq")
    case (Cell q)
    then show ?thesis
      using at [of q] mp False place_Cell [OF decoder_invD(2) [OF inv] Cell]
      by (auto simp: media_position_def)
  next
    case (Late behind)
    obtain took d1 where "take_late d seq behind = (took, d1)" by force
    then show ?thesis
      using late [of behind took] start [of d None] mp False inv Late
      by (auto simp: media_position_def split: if_splits)
  next
    case Past
    then show ?thesis using start [of d] mp False inv by (auto simp: media_position_def)
  next
    case Moved
    then show ?thesis using start [of d] mp False inv by (auto simp: media_position_def)
  qed
qed

lemma decoder_start_fields [simp]:
  "de_base_seq (decoder_start_matrix d seq fl) = seq"
  "de_ssrc (decoder_start_matrix d seq fl) = de_ssrc d"
  "de_initialized (decoder_start_matrix d seq fl)"
  "de_columns (decoder_start_matrix d seq fl) = de_columns d"
  "de_rows (decoder_start_matrix d seq fl) = de_rows d"
  "matrix_size (de_matrix (decoder_start_matrix d seq fl)) = matrix_size (de_matrix d)"
  by (simp_all add: decoder_start_matrix_def)

lemma decoder_size_pos: "decoder_inv d \<Longrightarrow> 0 < matrix_size (de_matrix d)"
  using matrix_shapeD(1,3) [OF decoder_invD(2)] by (simp add: matrix_size_def)

lemma media_position_result:
  assumes inv: "decoder_inv d" and mp: "media_position d seq new_sender = (position, d')"
  shows "decoder_inv d'" "de_initialized d'" "de_ssrc d' = de_ssrc d"
    "position = Some p \<Longrightarrow> p < matrix_size (de_matrix d') \<and> seq = de_base_seq d' + of_nat p"
    "new_sender \<or> \<not> de_initialized d \<or> agrees sent d \<Longrightarrow> agrees sent d'"
    "de_columns d' = de_columns d" "de_rows d' = de_rows d"
proof -
  have "decoder_inv d' \<and> de_initialized d' \<and> de_ssrc d' = de_ssrc d \<and>
      (position = Some p \<longrightarrow> p < matrix_size (de_matrix d') \<and> seq = de_base_seq d' + of_nat p) \<and>
      (new_sender \<or> \<not> de_initialized d \<or> agrees sent d \<longrightarrow> agrees sent d') \<and>
      de_columns d' = de_columns d \<and> de_rows d' = de_rows d"
    using inv mp
  proof (cases rule: media_position_cases)
    case (start d0 fl)
    then show ?thesis by (auto simp: decoder_inv_start agrees_start decoder_size_pos)
  next
    case (at q)
    then show ?thesis using inv by auto
  next
    case (late behind took)
    then show ?thesis using take_late_result [OF inv late(3)] decoder_size_pos [OF inv] by auto
  qed
  then show "decoder_inv d'" "de_initialized d'" "de_ssrc d' = de_ssrc d"
    "position = Some p \<Longrightarrow> p < matrix_size (de_matrix d') \<and> seq = de_base_seq d' + of_nat p"
    "new_sender \<or> \<not> de_initialized d \<or> agrees sent d \<Longrightarrow> agrees sent d'"
    "de_columns d' = de_columns d" "de_rows d' = de_rows d" by auto
qed

lemma file_media_result:
  assumes inv: "decoder_inv d"
    and pos: "\<And>p. position = Some p \<Longrightarrow> p < matrix_size (de_matrix d) \<and> seq = de_base_seq d + of_nat p"
  shows "decoder_inv (file_media d position ts data)"
    and "de_ssrc (file_media d position ts data) = de_ssrc d"
    and "de_initialized (file_media d position ts data) = de_initialized d"
    and "de_columns (file_media d position ts data) = de_columns d"
    and "de_rows (file_media d position ts data) = de_rows d"
    and "agrees sent d \<Longrightarrow> (RTP_HEADER_LEN < length data \<Longrightarrow> drop RTP_HEADER_LEN data = sent seq) \<Longrightarrow>
         agrees sent (file_media d position ts data)"
proof -
  have sh: "matrix_shape (de_matrix d)" using inv by (simp add: decoder_invD)
  show "decoder_inv (file_media d position ts data)"
    using inv pos
    by (auto simp: file_media_def decoder_inv_def matrix_inv_insert_media filled_insert_media
        has_cell_iff [OF sh] split: option.splits)
  show "de_ssrc (file_media d position ts data) = de_ssrc d"
    "de_initialized (file_media d position ts data) = de_initialized d"
    "de_columns (file_media d position ts data) = de_columns d"
    "de_rows (file_media d position ts data) = de_rows d"
    by (simp_all add: file_media_def split: option.splits)
  show "agrees sent (file_media d position ts data)"
    if "agrees sent d" "RTP_HEADER_LEN < length data \<Longrightarrow> drop RTP_HEADER_LEN data = sent seq"
    using that pos positions_cong [of "snd (insert_media (de_matrix d) _ _)" "de_matrix d"]
    by (auto simp: file_media_def agrees_def cell_insert_media [OF sh] split: option.splits)
qed

text \<open>What a recovery call returns, as far as a caller can see.\<close>

lemma wrap_recovered_payload:
  "length template = RTP_HEADER_LEN \<Longrightarrow>
     drop RTP_HEADER_LEN (pk_data (wrap_recovered d now seq template b)) = b \<and>
     pk_sequence_number (wrap_recovered d now seq template b) = seq"
  by (simp add: wrap_recovered_def)

lemma attempt_recovery_result:
  assumes inv: "decoder_inv d" and res: "attempt_recovery now d = (out, d')"
  shows "decoder_inv d'" "same_frame d d'" "agrees sent d \<Longrightarrow> agrees sent d'"
    "agrees sent d \<Longrightarrow> pkt \<in> set out \<Longrightarrow>
       drop RTP_HEADER_LEN (pk_data pkt) = sent (pk_sequence_number pkt)"
proof -
  have "decoder_inv d' \<and> same_frame d d' \<and> (agrees sent d \<longrightarrow> agrees sent d' \<and>
      (pkt \<in> set out \<longrightarrow> drop RTP_HEADER_LEN (pk_data pkt) = sent (pk_sequence_number pkt)))"
  proof (cases "de_last_rtp_header d")
    case None
    then show ?thesis using attempt_recovery_recovers(2) [OF inv res] inv by simp
  next
    case (Some t)
    note r = recoversD [OF attempt_recovery_recovers(1) [OF inv res Some]]
    have "drop RTP_HEADER_LEN (pk_data pkt) = sent (pk_sequence_number pkt)"
      if ag: "agrees sent d" and pkt: "pkt \<in> set out"
    proof -
      obtain q b where "cell (de_matrix d') q = Some b"
        and w: "pkt = wrap_recovered d (pk_recv_time_us pkt) (de_base_seq d + of_nat q) t b"
        using r(7) [OF pkt] unfolding rebuilt_def by blast
      then have "b = sent (de_base_seq d + of_nat q)"
        using r(8) [OF ag] r(2) by (simp add: agrees_def same_frame_def)
      then show ?thesis
        using wrap_recovered_payload [OF decoder_invD(9) [OF inv Some]] w by metis
    qed
    then show ?thesis using r(1,2,8) by blast
  qed
  then show "decoder_inv d'" "same_frame d d'" "agrees sent d \<Longrightarrow> agrees sent d'"
    "agrees sent d \<Longrightarrow> pkt \<in> set out \<Longrightarrow>
       drop RTP_HEADER_LEN (pk_data pkt) = sent (pk_sequence_number pkt)" by auto
qed

lemma close_if_full_result:
  assumes "decoder_inv d"
  shows "decoder_inv (close_if_full d)" "agrees sent d \<Longrightarrow> agrees sent (close_if_full d)"
    "de_initialized (close_if_full d) = de_initialized d" "de_ssrc (close_if_full d) = de_ssrc d"
    "de_columns (close_if_full d) = de_columns d" "de_rows (close_if_full d) = de_rows d"
  using decoder_inv_reset [OF assms] assms
  by (auto simp: close_if_full_def decoder_inv_def agrees_def)

lemma process_media_result:
  assumes inv: "decoder_inv d" and res: "process_media d now seq ts data = (out, d')"
    and ag: "is_new_sender d data \<or> \<not> de_initialized d \<or> agrees sent d"
    and data: "RTP_HEADER_LEN < length data \<Longrightarrow> drop RTP_HEADER_LEN data = sent seq"
  shows "decoder_inv d'" "de_initialized d'" "agrees sent d'"
    "de_columns d' = de_columns d" "de_rows d' = de_rows d"
    "\<exists>recovered. out = media_packet now seq ts data # recovered \<and>
       (\<forall>pkt\<in>set recovered. drop RTP_HEADER_LEN (pk_data pkt) = sent (pk_sequence_number pkt))"
proof -
  define d1 where
    "d1 = (case rtp_ssrc data of None \<Rightarrow> d | Some ssrc \<Rightarrow> d\<lparr>de_ssrc := Some ssrc\<rparr>)"
  have d1: "decoder_inv d1" "de_initialized d1 = de_initialized d"
      "agrees sent d \<Longrightarrow> agrees sent d1" "de_columns d1 = de_columns d" "de_rows d1 = de_rows d"
    using inv by (auto simp: d1_def decoder_inv_def agrees_def split: option.splits)
  obtain position d2 where mp: "media_position d1 seq (is_new_sender d data) = (position, d2)"
    by force
  note d2 = media_position_result [OF d1(1) mp]
  define d3 where "d3 = file_media d2 position ts data"
  have "agrees sent d2" using ag d1 by (intro d2(5)) auto
  then have d3: "decoder_inv d3" "de_initialized d3" "agrees sent d3"
      "de_columns d3 = de_columns d" "de_rows d3 = de_rows d"
    using file_media_result [OF d2(1) d2(4)] d2(2,6,7) d1(4,5) data by (simp_all add: d3_def)
  obtain recovered d4 where ar: "attempt_recovery now d3 = (recovered, d4)" by force
  note d4 = attempt_recovery_result [OF d3(1) ar]
  have out: "out = media_packet now seq ts data # recovered" "d' = close_if_full d4"
    using res mp ar by (auto simp: process_media_def Let_def d1_def d3_def split: prod.splits)
  show "decoder_inv d'" "de_initialized d'" "agrees sent d'"
    "de_columns d' = de_columns d" "de_rows d' = de_rows d"
    using close_if_full_result [OF d4(1)] d4(2,3) d3 out by (auto simp: same_frame_def)
  show "\<exists>recovered. out = media_packet now seq ts data # recovered \<and>
      (\<forall>pkt\<in>set recovered. drop RTP_HEADER_LEN (pk_data pkt) = sent (pk_sequence_number pkt))"
    using out(1) d4(4) [OF d3(3)] by blast
qed

section \<open>The parity handler\<close>

lemma fec_header_roundtrip:
  assumes "index < FEC_INDEXED_GROUPS"
  shows "is_fec_packet (build_fec_header base index off is_column @ payload)"
    and "fec_header_parse (drop (length FEC_MAGIC)
           (build_fec_header base index off is_column @ payload)) =
         Some \<lparr>fh_sn_base = base, fh_is_column = is_column, fh_index = index,
               fh_offset = of_nat off\<rparr>"
    and "drop (length FEC_MAGIC + FEC_HEADER_LEN)
           (build_fec_header base index off is_column @ payload) = payload"
proof -
  have i: "index \<in> {0, 1, 2, 3, 4, 5, 6, 7}" using assms by (auto simp: FEC_INDEXED_GROUPS_def)
  show "is_fec_packet (build_fec_header base index off is_column @ payload)"
    "drop (length FEC_MAGIC + FEC_HEADER_LEN)
       (build_fec_header base index off is_column @ payload) = payload"
    by (simp_all add: is_fec_packet_def build_fec_header_def FEC_MAGIC_def FEC_HEADER_LEN_def)
  show "fec_header_parse (drop (length FEC_MAGIC)
           (build_fec_header base index off is_column @ payload)) =
         Some \<lparr>fh_sn_base = base, fh_is_column = is_column, fh_index = index,
               fh_offset = of_nat off\<rparr>"
    using i by (auto simp: fec_header_parse_def build_fec_header_def FEC_MAGIC_def
        FEC_HEADER_LEN_def nth_append)
qed

text \<open>A parity packet genuine for \<open>sent\<close>, arriving at a decoder of the same shape.\<close>

definition genuine :: "nat \<Rightarrow> nat \<Rightarrow> (u16 \<Rightarrow> bytes) \<Rightarrow> bytes \<Rightarrow> bool" where
  "genuine l d sent pkt \<longleftrightarrow>
     (\<exists>base ps. fec_covers l d (\<lambda>p. sent (base + of_nat p)) base ps pkt)"

lemma store_fec_result:
  assumes inv: "decoder_inv d" and ag: "agrees sent d" and base: "de_base_seq d = base"
    and cov: "group_parity sent base
      (if is_column then col_positions (de_matrix d) index else row_positions (de_matrix d) index) fec"
    and hdr: "hdr = \<lparr>fh_sn_base = base, fh_is_column = is_column, fh_index = index, fh_offset = off\<rparr>"
  shows "decoder_inv (store_fec d hdr fec)" "agrees sent (store_fec d hdr fec)"
    "de_matrix (store_fec d hdr fec) = de_matrix d"
    "de_base_seq (store_fec d hdr fec) = base"
  using assms
  by (auto simp: store_fec_def decoder_inv_def agrees_def nth_list_update split: if_splits)

lemma fec_coversE:
  assumes "fec_covers (mx_columns m) (mx_rows m) f base ps pkt"
  obtains index off is_column n where
    "index < FEC_INDEXED_GROUPS" "index < (if is_column then mx_columns m else mx_rows m)"
    "ps = (if is_column then col_positions m index else row_positions m index)"
    "\<And>p. p \<in> set ps \<Longrightarrow> length (f p) = n"
    "pkt = build_fec_header base index off is_column @ xor_all (map f ps)"
  using assms positions_new [of m] unfolding fec_covers_def by force

lemma process_fec_built:
  assumes "index < FEC_INDEXED_GROUPS" "de_initialized d"
  shows "process_fec d now (build_fec_header base index off is_column @ fec) =
    (case fec_align d base of
       None \<Rightarrow> ([], d)
     | Some d1 \<Rightarrow> attempt_recovery now (settle_base (store_fec d1
         \<lparr>fh_sn_base = base, fh_is_column = is_column, fh_index = index,
          fh_offset = of_nat off\<rparr> fec)))"
  using fec_header_roundtrip [OF assms(1), of base off is_column fec] assms(2)
  unfolding process_fec_def is_fec_packet_def by (simp only: not_less) simp

lemma fec_align_result:
  assumes inv: "decoder_inv d" and al: "fec_align d base = Some d1"
  shows "decoder_inv d1" "de_base_seq d1 = base" "agrees sent d \<Longrightarrow> agrees sent d1"
    "de_initialized d1 = de_initialized d" "de_last_rtp_header d1 = de_last_rtp_header d"
    "mx_columns (de_matrix d1) = mx_columns (de_matrix d)"
    "mx_rows (de_matrix d1) = mx_rows (de_matrix d)"
    "base = de_base_seq d \<Longrightarrow> d1 = d"
    "de_columns d1 = de_columns d" "de_rows d1 = de_rows d"
proof -
  obtain ok d2 where a: "align_base_to d base = (ok, d2)" by force
  have "base \<noteq> de_base_seq d \<and> ok \<and> d1 = d2\<lparr>de_closed := False\<rparr> \<or> base = de_base_seq d \<and> d1 = d"
    using al a by (simp add: fec_align_def split: if_splits)
  then have "decoder_inv d1 \<and> de_base_seq d1 = base \<and> (agrees sent d \<longrightarrow> agrees sent d1) \<and>
      de_initialized d1 = de_initialized d \<and> de_last_rtp_header d1 = de_last_rtp_header d \<and>
      mx_columns (de_matrix d1) = mx_columns (de_matrix d) \<and>
      mx_rows (de_matrix d1) = mx_rows (de_matrix d) \<and> (base = de_base_seq d \<longrightarrow> d1 = d) \<and>
      de_columns d1 = de_columns d \<and> de_rows d1 = de_rows d"
  proof (elim disjE conjE)
    assume ok: "ok" and "base \<noteq> de_base_seq d" "d1 = d2\<lparr>de_closed := False\<rparr>"
    then show ?thesis
      using a align_base_to_result [OF inv, of base d2] align_base_to_agrees [OF inv, of base d2]
      by (auto simp: decoder_inv_def agrees_def same_frame_def)
  qed (use inv in auto)
  then show "decoder_inv d1" "de_base_seq d1 = base" "agrees sent d \<Longrightarrow> agrees sent d1"
    "de_initialized d1 = de_initialized d" "de_last_rtp_header d1 = de_last_rtp_header d"
    "mx_columns (de_matrix d1) = mx_columns (de_matrix d)"
    "mx_rows (de_matrix d1) = mx_rows (de_matrix d)"
    "base = de_base_seq d \<Longrightarrow> d1 = d"
    "de_columns d1 = de_columns d" "de_rows d1 = de_rows d" by auto
qed

lemma settle_base_result [simp]:
  "decoder_inv (settle_base d) = decoder_inv d" "agrees sent (settle_base d) = agrees sent d"
  "de_matrix (settle_base d) = de_matrix d" "de_base_seq (settle_base d) = de_base_seq d"
  "de_last_rtp_header (settle_base d) = de_last_rtp_header d"
  "de_col_fec (settle_base d) = de_col_fec d" "de_row_fec (settle_base d) = de_row_fec d"
  "de_initialized (settle_base d) = de_initialized d"
  "de_columns (settle_base d) = de_columns d" "de_rows (settle_base d) = de_rows d"
  by (simp_all add: settle_base_def decoder_inv_def agrees_def)

lemma store_fec_fields [simp]:
  "de_initialized (store_fec d hdr fec) = de_initialized d"
  "de_columns (store_fec d hdr fec) = de_columns d"
  "de_rows (store_fec d hdr fec) = de_rows d"
  "de_last_rtp_header (store_fec d hdr fec) = de_last_rtp_header d"
  by (simp_all add: store_fec_def)

lemma process_fec_result:
  assumes inv: "decoder_inv d" and ag: "\<not> de_initialized d \<or> agrees sent d"
    and g: "genuine (de_columns d) (de_rows d) sent pkt"
    and res: "process_fec d now pkt = (out, d')"
  shows "decoder_inv d'" "de_initialized d' = de_initialized d"
    "de_initialized d \<Longrightarrow> agrees sent d'"
    "\<forall>pkt\<in>set out. drop RTP_HEADER_LEN (pk_data pkt) = sent (pk_sequence_number pkt)"
    "de_columns d' = de_columns d" "de_rows d' = de_rows d"
proof -
  obtain base ps index off is_column fec where ix: "index < FEC_INDEXED_GROUPS"
      "ps = (if is_column then col_positions (de_matrix d) index
             else row_positions (de_matrix d) index)"
    and pkt: "pkt = build_fec_header base index off is_column @ fec"
    and gp: "group_parity sent base ps fec"
    using g decoder_invD(3,4) [OF inv] unfolding genuine_def group_parity_def
    by (force elim!: fec_coversE)
  have "decoder_inv d' \<and> de_initialized d' = de_initialized d \<and>
      (de_initialized d \<longrightarrow> agrees sent d') \<and>
      (\<forall>pkt\<in>set out. drop RTP_HEADER_LEN (pk_data pkt) = sent (pk_sequence_number pkt)) \<and>
      de_columns d' = de_columns d \<and> de_rows d' = de_rows d"
  proof (cases "de_initialized d \<and> fec_align d base \<noteq> None")
    case True
    then obtain d1 where d1: "fec_align d base = Some d1" by blast
    note al = fec_align_result [OF inv d1]
    have ag1: "agrees sent d1" using al(3) ag True by blast
    have gp1: "group_parity sent base (if is_column then col_positions (de_matrix d1) index
        else row_positions (de_matrix d1) index) fec"
      using gp ix(2) positions_cong [OF al(6,7)] by (cases is_column) simp_all
    define d2 where "d2 = settle_base (store_fec d1 \<lparr>fh_sn_base = base, fh_is_column = is_column,
        fh_index = index, fh_offset = of_nat off\<rparr> fec)"
    have "decoder_inv d2" "agrees sent d2" "de_initialized d2" "de_columns d2 = de_columns d"
        "de_rows d2 = de_rows d"
      using store_fec_result [OF al(1) ag1 al(2) gp1 refl] al(4,9,10) True by (simp_all add: d2_def)
    moreover have "attempt_recovery now d2 = (out, d')"
      using res d1 True by (simp add: d2_def pkt process_fec_built [OF ix(1)])
    ultimately show ?thesis
      using attempt_recovery_result [of d2 now out d'] True by (auto simp: same_frame_def)
  next
    case False
    then have "out = [] \<and> d' = d"
    proof (cases "de_initialized d")
      case True
      then show ?thesis using False res by (simp add: pkt process_fec_built [OF ix(1)])
    next
      case False
      then show ?thesis using res by (auto simp: process_fec_def Let_def split: if_splits option.splits)
    qed
    then show ?thesis using inv ag by auto
  qed
  then show "decoder_inv d'" "de_initialized d' = de_initialized d"
    "de_initialized d \<Longrightarrow> agrees sent d'"
    "\<forall>pkt\<in>set out. drop RTP_HEADER_LEN (pk_data pkt) = sent (pk_sequence_number pkt)"
    "de_columns d' = de_columns d" "de_rows d' = de_rows d" by blast+
qed

section \<open>Sender, wire and receiver\<close>

datatype wire = WMedia u16 u32 bytes | WFec bytes

text \<open>
  One sender and one receiver over a wire that may lose, repeat and reorder anything: the
  sender puts a datagram and the parity packets it completes on the wire, the receiver
  takes any datagram the wire has ever carried, any number of times, in any order. \<open>sent\<close>
  gives the payload of each sequence number, so no number is sent twice with other bytes.
\<close>

inductive fec_system ::
  "nat \<Rightarrow> nat \<Rightarrow> (u16 \<Rightarrow> bytes) \<Rightarrow> fec_encoder \<Rightarrow> wire set \<Rightarrow> fec_decoder \<Rightarrow> rtp_packet list \<Rightarrow> bool"
  for l d sent where
  start: "fec_system l d sent (encoder_new l d) {} (decoder_new l d) []"
| send: "fec_system l d sent e W de out \<Longrightarrow> length hdr = RTP_HEADER_LEN \<Longrightarrow>
    encoder_process e seq (sent seq) = (fecs, e') \<Longrightarrow>
    fec_system l d sent e' (insert (WMedia seq ts (hdr @ sent seq)) (W \<union> WFec ` set fecs)) de out"
| receive_media: "fec_system l d sent e W de out \<Longrightarrow> WMedia seq ts data \<in> W \<Longrightarrow>
    process_media de now seq ts data = (pkts, de') \<Longrightarrow> fec_system l d sent e W de' (out @ pkts)"
| receive_fec: "fec_system l d sent e W de out \<Longrightarrow> WFec data \<in> W \<Longrightarrow>
    process_fec de now data = (pkts, de') \<Longrightarrow> fec_system l d sent e W de' (out @ pkts)"

text \<open>The sender's side: its cells hold what was sent, so what it emits is genuine.\<close>

definition encoder_agrees :: "(u16 \<Rightarrow> bytes) \<Rightarrow> fec_encoder \<Rightarrow> bool" where
  "encoder_agrees sent e \<longleftrightarrow>
     (\<forall>p b. cell (en_matrix e) p = Some b \<longrightarrow> b = sent (en_base_seq e + of_nat p))"

lemma encoder_agrees_file:
  assumes "encoder_inv e" "encoder_agrees sent e" "b = sent (en_base_seq e + of_nat p)"
  shows "encoder_agrees sent (snd (encoder_file e p b))"
proof -
  have "matrix_shape (en_matrix e)" using assms(1) by (simp add: encoder_inv_def)
  then show ?thesis
    using assms(2,3) by (auto simp: encoder_agrees_def encoder_file_matrix cell_insert_media)
qed

lemma encoder_agrees_process:
  assumes inv: "encoder_inv e" and ag: "encoder_agrees sent e"
  shows "encoder_agrees sent (snd (encoder_process e seq (sent seq)))"
proof -
  have "matrix_shape (en_matrix e)" using inv by (simp add: encoder_inv_def)
  note cell = place_Cell(2) [OF this, of "en_base_seq e" seq]
  have "encoder_agrees sent (encoder_start_matrix e seq)"
    by (simp add: encoder_agrees_def encoder_start_matrix_def)
  then have "encoder_agrees sent (snd (encoder_file (encoder_start_matrix e seq) 0 (sent seq)))"
    using encoder_inv_start [OF inv]
    by (intro encoder_agrees_file) (simp_all add: encoder_start_matrix_def)
  then show ?thesis
    using ag encoder_agrees_file [OF inv ag] cell
    by (auto simp: encoder_process_def split: option.splits placement.splits)
qed

lemma fec_covers_cong:
  assumes "fec_covers l d f base ps pkt" "\<And>p. p \<in> set ps \<Longrightarrow> f p = g p"
  shows "fec_covers l d g base ps pkt"
proof -
  have m: "map f ps = map g ps" using assms(2) by simp
  have l: "(\<forall>p\<in>set ps. length (f p) = n) = (\<forall>p\<in>set ps. length (g p) = n)" for n
    using assms(2) by simp
  show ?thesis using assms(1) unfolding fec_covers_def m l .
qed

lemma encoder_emits_genuine:
  assumes inv: "encoder_inv e" and ag: "encoder_agrees sent e"
    and pkt: "pkt \<in> set (fst (encoder_process e seq (sent seq)))"
  shows "genuine (mx_columns (en_matrix e)) (mx_rows (en_matrix e)) sent pkt"
proof -
  let ?e = "snd (encoder_process e seq (sent seq))"
  obtain ps where p: "protects ?e ps pkt" using encoder_process_emits [OF inv pkt] by blast
  have "the (cell (en_matrix ?e) q) = sent (en_base_seq ?e + of_nat q)" if "q \<in> set ps" for q
    using p that encoder_agrees_process [OF inv ag, of seq]
    by (auto simp: protects_def encoder_agrees_def)
  then have "fec_covers (mx_columns (en_matrix ?e)) (mx_rows (en_matrix ?e))
      (\<lambda>p. sent (en_base_seq ?e + of_nat p)) (en_base_seq ?e) ps pkt"
    using p unfolding protects_def by (blast intro: fec_covers_cong)
  then show ?thesis by (auto simp: genuine_def)
qed

definition system_inv ::
  "nat \<Rightarrow> nat \<Rightarrow> (u16 \<Rightarrow> bytes) \<Rightarrow> fec_encoder \<Rightarrow> wire set \<Rightarrow> fec_decoder \<Rightarrow> rtp_packet list \<Rightarrow> bool" where
  "system_inv l d sent e W de out \<longleftrightarrow>
     encoder_inv e \<and> encoder_agrees sent e \<and>
     mx_columns (en_matrix e) = l \<and> mx_rows (en_matrix e) = d \<and>
     decoder_inv de \<and> de_columns de = l \<and> de_rows de = d \<and>
     (\<not> de_initialized de \<or> agrees sent de) \<and>
     (\<forall>seq ts data. WMedia seq ts data \<in> W \<longrightarrow> drop RTP_HEADER_LEN data = sent seq) \<and>
     (\<forall>pkt. WFec pkt \<in> W \<longrightarrow> genuine l d sent pkt) \<and>
     (\<forall>pkt\<in>set out. drop RTP_HEADER_LEN (pk_data pkt) = sent (pk_sequence_number pkt))"

lemma system_inv_holds:
  assumes "fec_system l d sent e W de out" "validate_fec l d = Inr ()"
  shows "system_inv l d sent e W de out"
  using assms
proof (induction rule: fec_system.induct)
  case start
  then show ?case
    using encoder_inv_new decoder_inv_new
    by (auto simp: system_inv_def encoder_agrees_def encoder_new_def decoder_new_def)
next
  case (send e W de out hdr seq fecs e' ts)
  then have inv: "system_inv l d sent e W de out" by simp
  then have "encoder_inv e" "encoder_agrees sent e" by (simp_all add: system_inv_def)
  note enc = encoder_inv_process [OF this(1), of seq "sent seq"] encoder_agrees_process [OF this, of seq]
    encoder_emits_genuine [OF this, of _ seq] encoder_process_dims [of e seq "sent seq"]
  show ?case using inv send(2,3) enc by (auto simp: system_inv_def)
next
  case (receive_media e W de out seq ts data now pkts de')
  then have inv: "system_inv l d sent e W de out" by simp
  then have "\<not> de_initialized de \<or> agrees sent de" "decoder_inv de"
      "drop RTP_HEADER_LEN data = sent seq"
    using receive_media(2) by (auto simp: system_inv_def)
  note r = process_media_result [OF this(2) receive_media(3), of sent] this
  then show ?case using inv by (auto simp: system_inv_def media_packet_def)
next
  case (receive_fec e W de out data now pkts de')
  then have inv: "system_inv l d sent e W de out" by simp
  then have "\<not> de_initialized de \<or> agrees sent de" "decoder_inv de"
      "genuine (de_columns de) (de_rows de) sent data"
    using receive_fec(2) by (auto simp: system_inv_def)
  note r = process_fec_result [OF this(2,1,3) receive_fec(3)]
  then show ?case using inv by (auto simp: system_inv_def)
qed

end
