(* ===== verification/FecCorrect.thy ===== *)
theory FecCorrect
  imports FecLink
begin

text \<open>
  The correctness statements of the FEC subsystem, over the handlers of
  \<open>src/src/fec/encoder.rs\<close> and \<open>src/src/fec/decoder.rs\<close> as the component theories define
  them: what the receiver returns, when it must return it, what a parity packet covers, and
  that no datagram, genuine or not, breaks the decoder's invariant.
\<close>

section \<open>What the link delivers\<close>


text \<open>A concrete exchange over a 1 by 4 matrix: four datagrams go out, the third is lost, and the
  column parity brings it back.\<close>

definition demo_sent :: "u16 \<Rightarrow> bytes" where
  "demo_sent s = [lo8 s, 7]"

definition demo_hdr :: bytes where
  "demo_hdr = [0x80, 33, 0, 0, 0, 0, 0, 0, 1, 2, 3, 4]"

definition demo_enc :: "nat \<Rightarrow> fec_encoder" where
  "demo_enc n = fold (\<lambda>s e. snd (encoder_process e s (demo_sent s)))
     (take n [10, 11, 12, 13]) (encoder_new 1 4)"

definition demo_dec :: "nat \<Rightarrow> fec_decoder" where
  "demo_dec n = fold (\<lambda>s d. snd (process_media d 0 s 90 (demo_hdr @ demo_sent s)))
     (take n [10, 11, 13]) (decoder_new 1 4)"

definition demo_fec :: bytes where
  "demo_fec = hd (fst (encoder_process (demo_enc 3) 13 (demo_sent 13)))"

definition demo_wire :: "wire set" where
  "demo_wire = insert (WFec demo_fec)
     ((\<lambda>s. WMedia s 90 (demo_hdr @ demo_sent s)) ` {10, 11, 12, 13})"

lemma demo_emits:
  "fst (encoder_process (demo_enc 0) 10 (demo_sent 10)) = []"
  "fst (encoder_process (demo_enc 1) 11 (demo_sent 11)) = []"
  "fst (encoder_process (demo_enc 2) 12 (demo_sent 12)) = []"
  "fst (encoder_process (demo_enc 3) 13 (demo_sent 13)) = [demo_fec]"
  by code_simp+

lemma demo_recovers:
  "map pk_sequence_number (fst (process_fec (demo_dec 3) 0 demo_fec)) = [12]"
  "map pk_data (fst (process_fec (demo_dec 3) 0 demo_fec)) =
     [[0x80, 33, 0, 12, 0, 0, 0, 90, 1, 2, 3, 4, 12, 7]]"
  by code_simp+


lemma demo_sent_wire:
  "fec_system 1 4 demo_sent (demo_enc 4) demo_wire (decoder_new 1 4) []"
proof -
  let ?m = "\<lambda>s. WMedia s 90 (demo_hdr @ demo_sent s)"
  have h: "length demo_hdr = RTP_HEADER_LEN" by (simp add: demo_hdr_def RTP_HEADER_LEN_def)
  have e: "demo_enc 0 = encoder_new 1 4"
      "demo_enc 1 = snd (encoder_process (demo_enc 0) 10 (demo_sent 10))"
      "demo_enc 2 = snd (encoder_process (demo_enc 1) 11 (demo_sent 11))"
      "demo_enc 3 = snd (encoder_process (demo_enc 2) 12 (demo_sent 12))"
      "demo_enc 4 = snd (encoder_process (demo_enc 3) 13 (demo_sent 13))"
    by (simp_all add: demo_enc_def numeral_eq_Suc)
  note send = fec_system.send [where hdr = demo_hdr and ts = 90 and l = 1 and d = 4
      and sent = demo_sent, OF _ h]
  have p: "encoder_process (demo_enc 0) 10 (demo_sent 10) = ([], demo_enc 1)"
      "encoder_process (demo_enc 1) 11 (demo_sent 11) = ([], demo_enc 2)"
      "encoder_process (demo_enc 2) 12 (demo_sent 12) = ([], demo_enc 3)"
      "encoder_process (demo_enc 3) 13 (demo_sent 13) = ([demo_fec], demo_enc 4)"
    using demo_emits e by (simp_all add: prod_eq_iff)
  have "fec_system 1 4 demo_sent (demo_enc 0) {} (decoder_new 1 4) []"
    unfolding e(1) by (rule fec_system.start)
  note r = send [OF send [OF send [OF send [OF this p(1)] p(2)] p(3)] p(4)]
  have "insert (?m 13) (insert (?m 12) (insert (?m 11) (insert (?m 10) ({} \<union> WFec ` set []) \<union>
      WFec ` set []) \<union> WFec ` set []) \<union> WFec ` set [demo_fec]) = demo_wire"
    by (auto simp: demo_wire_def)
  with r show ?thesis by metis
qed

definition demo_forwarded :: "rtp_packet list" where
  "demo_forwarded = concat (map (\<lambda>(n, s). fst (process_media (demo_dec n) 0 s 90 (demo_hdr @ demo_sent s)))
     [(0, 10), (1, 11), (2, 13)])"

lemma demo_received:
  "fec_system 1 4 demo_sent (demo_enc 4) demo_wire (demo_dec 3) demo_forwarded"
proof -
  let ?p = "\<lambda>n s. process_media (demo_dec n) 0 s 90 (demo_hdr @ demo_sent s)"
  have d: "demo_dec 0 = decoder_new 1 4" "demo_dec 1 = snd (?p 0 10)"
      "demo_dec 2 = snd (?p 1 11)" "demo_dec 3 = snd (?p 2 13)"
    by (simp_all add: demo_dec_def numeral_eq_Suc)
  have "fec_system 1 4 demo_sent (demo_enc 4) demo_wire (demo_dec 0) []"
    unfolding d(1) by (rule demo_sent_wire)
  then have "fec_system 1 4 demo_sent (demo_enc 4) demo_wire (demo_dec 3)
      ((([] @ fst (?p 0 10)) @ fst (?p 1 11)) @ fst (?p 2 13))"
    unfolding d(2,3,4)
    by (intro fec_system.receive_media [where now = 0 and ts = 90] prod.collapse [symmetric])
       (simp_all add: demo_wire_def)
  then show ?thesis by (simp add: demo_forwarded_def)
qed


section \<open>What the receiver must rebuild\<close>

text \<open>The group a parity header names, as cells of the decoder's matrix.\<close>

definition group_cells :: "fec_decoder \<Rightarrow> bool \<Rightarrow> nat \<Rightarrow> nat list" where
  "group_cells de is_column index =
     (if is_column then col_positions (de_matrix de) index else row_positions (de_matrix de) index)"

definition named_group :: "fec_decoder \<Rightarrow> fec_header \<Rightarrow> nat list" where
  "named_group de hdr = group_cells de (fh_is_column hdr) (fh_index hdr)"

lemma genuineE:
  assumes inv: "decoder_inv de" and g: "genuine (de_columns de) (de_rows de) sent pkt"
  obtains base index off is_column fec where "index < FEC_INDEXED_GROUPS"
    "index < (if is_column then mx_columns (de_matrix de) else mx_rows (de_matrix de))"
    "group_parity sent base (group_cells de is_column index) fec"
    "pkt = build_fec_header base index off is_column @ fec"
proof -
  obtain base ps where "fec_covers (mx_columns (de_matrix de)) (mx_rows (de_matrix de))
      (\<lambda>p. sent (base + of_nat p)) base ps pkt"
    using g decoder_invD(3,4) [OF inv] by (auto simp: genuine_def)
  then obtain index off is_column n where "index < FEC_INDEXED_GROUPS"
      "index < (if is_column then mx_columns (de_matrix de) else mx_rows (de_matrix de))"
      "ps = group_cells de is_column index" "\<And>p. p \<in> set ps \<Longrightarrow> length (sent (base + of_nat p)) = n"
      "pkt = build_fec_header base index off is_column @ xor_all (map (\<lambda>p. sent (base + of_nat p)) ps)"
    by (rule fec_coversE) (rule that; simp add: group_cells_def)
  then show ?thesis by (intro that [of index is_column base]) (auto simp: group_parity_def)
qed

lemma stored_parity_used:
  assumes inv: "decoder_inv de" and ag: "agrees sent de" and hdr: "de_last_rtp_header de \<noteq> None"
    and slot: "is_column \<longrightarrow> i < mx_columns (de_matrix de) \<and> de_col_fec de ! i \<noteq> None"
      "\<not> is_column \<longrightarrow> i < mx_rows (de_matrix de) \<and> de_row_fec de ! i \<noteq> None"
    and ps: "ps = group_cells de is_column i"
    and q: "q \<in> set ps" "cell (de_matrix de) q = None"
      "\<And>p. p \<in> set ps \<Longrightarrow> p \<noteq> q \<Longrightarrow> cell (de_matrix de) p \<noteq> None"
    and res: "attempt_recovery now de = (out, de')"
  shows "\<exists>pkt\<in>set out. pk_sequence_number pkt = de_base_seq de + of_nat q"
proof -
  obtain t where t: "de_last_rtp_header de = Some t" using hdr by blast
  note r = recoversD [OF attempt_recovery_recovers(1) [OF inv res t]]
    and ex = attempt_recovery_recovers(3) [OF inv res hdr]
  note pos = positions_cong [OF r(3,4)] and inv' = decoder_invD [OF r(1)]
  have "cell (de_matrix de') q \<noteq> None"
  proof
    assume none: "cell (de_matrix de') q = None"
    have rest: "\<And>p. p \<in> set ps \<Longrightarrow> p \<noteq> q \<Longrightarrow> cell (de_matrix de') p \<noteq> None"
      using q(3) r(6) by (metis not_None_eq)
    show False
    proof (cases is_column)
      case True
      then have "de_col_fec de' ! i \<noteq> None"
        using r(9) slot(1) q(1) none ps unfolding slots_kept_def group_cells_def by (metis empty_iff not_None_eq)
      moreover have "col_count (de_matrix de') i = mx_rows (de_matrix de') - 1"
        using True slot(1) ps pos q(1) none rest r(3) inv'(1)
        by (intro cols.one_missing_count) (simp_all add: group_cells_def)
      ultimately show False
        using ex True slot(1) r(3) inv'(3,4) unfolding exhausted_def by auto
    next
      case False
      then have "de_row_fec de' ! i \<noteq> None"
        using r(9) slot(2) q(1) none ps unfolding slots_kept_def group_cells_def by (metis empty_iff not_None_eq)
      moreover have "row_count (de_matrix de') i = mx_columns (de_matrix de') - 1"
        using False slot(2) ps pos q(1) none rest r(4) inv'(1)
        by (intro rows.one_missing_count) (simp_all add: group_cells_def)
      ultimately show False
        using ex False slot(2) r(4) inv'(3,4) unfolding exhausted_def by auto
    qed
  qed
  then show ?thesis using r(10) q(2) by blast
qed

text \<open>Property C21. One loss in a protected group is repaired at once: when a parity packet the
  sender put on the wire names the receiver's open matrix and exactly one cell of the group
  it names is empty, the call that takes it returns that datagram, under its sequence number
  and with the bytes it was sent with. The bound on the recovery loop never gets in the way.\<close>

theorem fec_single_loss_rebuilt:
  assumes sys: "fec_system l d sent e W de out" "validate_fec l d = Inr ()" "WFec pkt \<in> W"
    and open_matrix: "de_initialized de" "\<not> de_closed de" "de_last_rtp_header de \<noteq> None"
    and hdr: "fec_header_parse (drop (length FEC_MAGIC) pkt) = Some hdr"
      "fh_sn_base hdr = de_base_seq de"
    and q: "q \<in> set (named_group de hdr)" "cell (de_matrix de) q = None"
      "\<And>p. p \<in> set (named_group de hdr) \<Longrightarrow> p \<noteq> q \<Longrightarrow> cell (de_matrix de) p \<noteq> None"
  shows "\<exists>r\<in>set (fst (process_fec de now pkt)). pk_sequence_number r = de_base_seq de + of_nat q \<and>
           drop RTP_HEADER_LEN (pk_data r) = sent (de_base_seq de + of_nat q)"
proof -
  obtain rec de' where res: "process_fec de now pkt = (rec, de')" by force
  have si: "system_inv l d sent e W de out" by (rule system_inv_holds [OF sys(1,2)])
  then have inv: "decoder_inv de" and ag: "agrees sent de"
    and g: "genuine (de_columns de) (de_rows de) sent pkt"
    using sys(3) open_matrix(1) by (simp_all add: system_inv_def)
  note iv = decoder_invD [OF inv]
  obtain base index off is_column fec where ix: "index < FEC_INDEXED_GROUPS"
      "index < (if is_column then mx_columns (de_matrix de) else mx_rows (de_matrix de))"
    and gp: "group_parity sent base (group_cells de is_column index) fec"
    and pkt: "pkt = build_fec_header base index off is_column @ fec"
    by (rule genuineE [OF inv g])
  have h: "hdr = \<lparr>fh_sn_base = base, fh_is_column = is_column, fh_index = index,
      fh_offset = of_nat off\<rparr>"
    using fec_header_roundtrip(2) [OF ix(1)] hdr(1) unfolding pkt by (metis option.inject)
  then have base: "base = de_base_seq de" and ng: "named_group de hdr = group_cells de is_column index"
    using hdr(2) by (simp_all add: named_group_def)
  define d1 where "d1 = settle_base (store_fec de hdr fec)"
  have res1: "attempt_recovery now d1 = (rec, de')"
    using res open_matrix(1,2) base
    unfolding pkt process_fec_built [OF ix(1) open_matrix(1)] fec_align_def
    by (simp add: d1_def h)
  note st = store_fec_result [OF inv ag base [symmetric] gp [unfolded group_cells_def] h]
  have slot: "is_column \<longrightarrow> index < mx_columns (de_matrix de) \<and> de_col_fec d1 ! index \<noteq> None"
      "\<not> is_column \<longrightarrow> index < mx_rows (de_matrix de) \<and> de_row_fec d1 ! index \<noteq> None"
    using ix(2) iv(7,8) by (auto simp: d1_def store_fec_def h split: if_splits)
  have "group_cells d1 = group_cells de" using st(3) by (simp add: fun_eq_iff group_cells_def d1_def)
  then have "\<exists>r\<in>set rec. pk_sequence_number r = de_base_seq d1 + of_nat q"
    using st slot q open_matrix(3) unfolding ng
    by (intro stored_parity_used [OF _ _ _ _ _ refl _ _ _ res1]) (simp_all add: d1_def)
  moreover have "de_base_seq d1 = de_base_seq de" using st(4) base by (simp add: d1_def)
  ultimately show ?thesis
    using process_fec_result(4) [OF inv _ g res] ag res by auto
qed

theorem fec_single_loss_rebuilt_witness:
  "\<exists>r\<in>set (fst (process_fec (demo_dec 3) 5 demo_fec)).
     pk_sequence_number r = 12 \<and> drop RTP_HEADER_LEN (pk_data r) = [12, 7]"
proof -
  have h: "fec_header_parse (drop (length FEC_MAGIC) demo_fec) =
      Some \<lparr>fh_sn_base = 10, fh_is_column = True, fh_index = 0, fh_offset = 1\<rparr>" (is "_ = Some ?hdr")
    by code_simp
  have g: "named_group (demo_dec 3) ?hdr = [0, 1, 2, 3]" by code_simp
  have b: "de_base_seq (demo_dec 3) = 10" "de_initialized (demo_dec 3)" "\<not> de_closed (demo_dec 3)"
      "de_last_rtp_header (demo_dec 3) = Some (take 12 demo_hdr)"
      "cell (de_matrix (demo_dec 3)) 2 = None" "cell (de_matrix (demo_dec 3)) 0 = Some [10, 7]"
      "cell (de_matrix (demo_dec 3)) 1 = Some [11, 7]" "cell (de_matrix (demo_dec 3)) 3 = Some [13, 7]"
    by code_simp+
  have "\<exists>r\<in>set (fst (process_fec (demo_dec 3) 5 demo_fec)).
      pk_sequence_number r = de_base_seq (demo_dec 3) + of_nat 2 \<and>
      drop RTP_HEADER_LEN (pk_data r) = demo_sent (de_base_seq (demo_dec 3) + of_nat 2)"
    by (rule fec_single_loss_rebuilt [OF demo_received _ _ _ _ _ h])
       (use b g in \<open>auto simp: validate_fec_def demo_wire_def\<close>)
  then show ?thesis using b(1) by (simp add: demo_sent_def lo8_def)
qed

text \<open>Property C27. A call to the recovery sweep leaves nothing it could still rebuild: the
  iteration bound \<open>max(2 * size, 8)\<close> of the source never cuts a cascade of rebuilt packets
  short, it only fills cells that were empty, keeps the ones that were filled and counts
  exactly what it returns.\<close>

theorem recovery_runs_to_fixpoint:
  assumes "decoder_inv d" "de_last_rtp_header d \<noteq> None" "attempt_recovery now d = (out, d')"
  shows "exhausted d' \<and> filled (de_matrix d') = filled (de_matrix d) + length out \<and>
    de_media_count d' = filled (de_matrix d') \<and>
    (\<forall>p b. cell (de_matrix d) p = Some b \<longrightarrow> cell (de_matrix d') p = Some b)"
proof -
  obtain t where "de_last_rtp_header d = Some t" using assms(2) by blast
  note r = recoversD [OF attempt_recovery_recovers(1) [OF assms(1,3) this]]
  show ?thesis
    using attempt_recovery_recovers(3) [OF assms(1,3,2)] r(5,6) decoder_invD(6) [OF r(1)] by blast
qed

theorem recovery_runs_to_fixpoint_witness:
  "filled (de_matrix (snd (attempt_recovery 0 (store_fec (demo_dec 3)
      \<lparr>fh_sn_base = 10, fh_is_column = True, fh_index = 0, fh_offset = 1\<rparr> [0, 0])))) = 4"
proof -
  let ?hdr = "\<lparr>fh_sn_base = 10, fh_is_column = True, fh_index = 0, fh_offset = 1\<rparr>"
  let ?d = "store_fec (demo_dec 3) ?hdr [0, 0]"
  have "decoder_inv (demo_dec 3)"
    using system_inv_holds [OF demo_received] by (simp add: validate_fec_def system_inv_def)
  then have inv: "decoder_inv ?d" by (auto simp: decoder_inv_def store_fec_def)
  have "de_last_rtp_header ?d = Some (take 12 demo_hdr)" "filled (de_matrix ?d) = 3"
      "length (fst (attempt_recovery 0 ?d)) = 1" by code_simp+
  then show ?thesis
    using recovery_runs_to_fixpoint [OF inv _ prod.collapse [symmetric], of 0] by simp
qed

section \<open>What the sender protects\<close>

text \<open>Property C31. Every parity packet the encoder emits covers one complete group of payloads of
  one length, and each cell of the group was sent with a single payload while the matrix was
  open: a repeat with other bytes, which a receiver may hold instead, leaves the cell's
  column and row without parity. The ghost history lists all that was sent under the matrix.\<close>

theorem encoder_parity_is_unambiguous:
  assumes reach: "encoder_reach l d e h" "validate_fec l d = Inr ()"
    and res: "encoder_process e seq b = (pkts, e')" and pkt: "pkt \<in> set pkts"
  shows "\<exists>ps f. fec_covers l d f (en_base_seq e') ps pkt \<and>
    (\<forall>p\<in>set ps. {x. (p, x) \<in> set (encoder_hist e h seq b)} = {f p})"
proof -
  have hi: "hist_inv e h" by (rule encoder_reach_inv [OF reach])
  then have inv: "encoder_inv e" by (simp add: hist_inv_def)
  have e': "e' = snd (encoder_process e seq b)" using res by simp
  have hi': "hist_inv e' (encoder_hist e h seq b)" unfolding e' by (rule hist_inv_process [OF hi])
  obtain ps where p: "protects e' ps pkt"
    using encoder_process_emits [OF inv, of pkt seq b] pkt res by auto
  let ?f = "\<lambda>q. the (cell (en_matrix e') q)"
  have "{x. (q, x) \<in> set (encoder_hist e h seq b)} = {?f q}" if qs: "q \<in> set ps" for q
  proof -
    obtain c where "cell (en_matrix e') q = Some c" using p qs by (auto simp: protects_def)
    moreover from this have "x = c" if "(q, x) \<in> set (encoder_hist e h seq b)" for x
      using that p qs hi' unfolding protects_def hist_inv_def by fastforce
    ultimately show ?thesis using hi' by (auto simp: hist_inv_def)
  qed
  moreover have "mx_columns (en_matrix e') = l" "mx_rows (en_matrix e') = d"
    using encoder_reach_dims [OF reach(1)] e' by simp_all
  ultimately show ?thesis
    using p unfolding protects_def by (intro exI [of _ ps] exI [of _ ?f]) simp
qed

theorem encoder_parity_is_unambiguous_witness:
  "\<exists>ps f. fec_covers 1 4 f 10 ps demo_fec \<and> (\<forall>p\<in>set ps. f p = [10 + of_nat p, 7])"
proof -
  let ?h = "\<lambda>n. fold (\<lambda>s (e, h). (snd (encoder_process e s (demo_sent s)), encoder_hist e h s (demo_sent s)))
      (take n [10, 11, 12]) (encoder_new 1 4, [])"
  have "encoder_reach 1 4 (fst (?h 3)) (snd (?h 3))"
    by (simp add: numeral_eq_Suc encoder_reach.packet encoder_reach.start case_prod_unfold)
  moreover have "fst (?h 3) = demo_enc 3" by (simp add: demo_enc_def numeral_eq_Suc case_prod_unfold)
  ultimately have reach: "encoder_reach 1 4 (demo_enc 3) (snd (?h 3))" by simp
  have "encoder_process (demo_enc 3) 13 (demo_sent 13) = ([demo_fec], demo_enc 4)"
    using demo_emits(4) by (simp add: prod_eq_iff demo_enc_def numeral_eq_Suc)
  from encoder_parity_is_unambiguous [OF reach _ this]
  obtain ps f where c: "fec_covers 1 4 f (en_base_seq (demo_enc 4)) ps demo_fec"
    and u: "\<forall>p\<in>set ps. {x. (p, x) \<in> set (encoder_hist (demo_enc 3) (snd (?h 3)) 13 (demo_sent 13))} = {f p}"
    by (auto simp: validate_fec_def)
  have h: "encoder_hist (demo_enc 3) (snd (?h 3)) 13 (demo_sent 13) =
      [(3, [13, 7]), (2, [12, 7]), (1, [11, 7]), (0, [10, 7])]" "en_base_seq (demo_enc 4) = 10"
    by code_simp+
  have "f p = [10 + of_nat p, 7]" if "p \<in> set ps" for p
  proof -
    have "{x. (p, x) \<in> set [(3, [13, 7]), (2, [12, 7]), (1, [11, 7]), (0, [10, 7])]} = {f p}"
      using u that unfolding h(1) by blast
    then have "(p, f p) \<in> set [(3, [13, 7]), (2, [12, 7]), (1, [11, 7]), (0, [10, 7])]" by blast
    then show ?thesis by auto
  qed
  then show ?thesis using c unfolding h by blast
qed

section \<open>Robustness of the receiver\<close>

text \<open>Whatever arrives: media datagrams and parity packets of arbitrary bytes.\<close>

inductive decoder_reach :: "nat \<Rightarrow> nat \<Rightarrow> fec_decoder \<Rightarrow> bool" for l d where
  start: "decoder_reach l d (decoder_new l d)"
| media: "decoder_reach l d de \<Longrightarrow> decoder_reach l d (snd (process_media de now seq ts data))"
| parity: "decoder_reach l d de \<Longrightarrow> decoder_reach l d (snd (process_fec de now data))"

lemma decoder_inv_store: "decoder_inv d \<Longrightarrow> decoder_inv (store_fec d hdr fec)"
  by (simp add: decoder_inv_def store_fec_def)

lemma decoder_inv_media:
  assumes inv: "decoder_inv d"
  shows "decoder_inv (snd (process_media d now seq ts data))"
proof -
  define d1 where
    "d1 = (case rtp_ssrc data of None \<Rightarrow> d | Some ssrc \<Rightarrow> d\<lparr>de_ssrc := Some ssrc\<rparr>)"
  have d1: "decoder_inv d1" using inv by (auto simp: d1_def decoder_inv_def split: option.splits)
  obtain position d2 where mp: "media_position d1 seq (is_new_sender d data) = (position, d2)"
    by force
  note d2 = media_position_result [OF d1 mp]
  have d3: "decoder_inv (file_media d2 position ts data)" by (rule file_media_result [OF d2(1,4)])
  obtain rec d4 where ar: "attempt_recovery now (file_media d2 position ts data) = (rec, d4)" by force
  note d4 = attempt_recovery_result(1) [OF d3 ar]
  have "snd (process_media d now seq ts data) = close_if_full d4"
    using mp ar by (simp add: process_media_def Let_def d1_def)
  then show ?thesis using close_if_full_result(1) [OF d4] by simp
qed

lemma decoder_inv_fec:
  assumes inv: "decoder_inv d"
  shows "decoder_inv (snd (process_fec d now data))"
proof -
  have "decoder_inv (snd (attempt_recovery now (settle_base (store_fec d1 hdr fec))))"
    if "fec_align d base = Some d1" for d1 base hdr fec
    using attempt_recovery_result(1) [OF _ prod.collapse [symmetric]]
      decoder_inv_store [OF fec_align_result(1) [OF inv that]] by simp
  then show ?thesis
    using inv by (auto simp: process_fec_def Let_def split: option.splits)
qed

lemma decoder_inv_demo: "decoder_inv (demo_dec n)"
  unfolding demo_dec_def
  by (rule fold_invariant [where Q = "\<lambda>_. True"])
     (simp_all add: decoder_inv_new decoder_inv_media validate_fec_def)

text \<open>Property C32. Whatever bytes arrive, as media or as parity, in whatever order, the decoder's
  invariant holds: the running parities and counts are those of the cells, the media count is
  the number of filled cells, every table has the length its indices are taken from, and the
  kept RTP header is twelve bytes long, so no access of the sweep is out of range.\<close>

theorem decoder_inv_reachable:
  assumes "decoder_reach l d de" "validate_fec l d = Inr ()"
  shows "decoder_inv de"
  using assms
  by (induction rule: decoder_reach.induct)
     (simp_all add: decoder_inv_new decoder_inv_media decoder_inv_fec)

theorem decoder_inv_reachable_witness: "decoder_inv (demo_dec 2)"
proof (rule decoder_inv_reachable)
  show "decoder_reach 1 4 (demo_dec 2)"
    by (simp add: demo_dec_def numeral_eq_Suc decoder_reach.start decoder_reach.media)
  show "validate_fec 1 4 = Inr ()" by (simp add: validate_fec_def)
qed

text \<open>Realigning the matrix to another base moves every payload with its sequence
  number: afterwards the cell at an offset from the new base holds exactly what the cell for
  that same sequence number held before, parity of the old base is dropped, and the counts
  follow.\<close>

lemma align_keeps_sequence_numbers:
  assumes inv: "decoder_inv d" and al: "align_base_to d nb = (True, d')"
    and p: "p < matrix_size (de_matrix d)"
  shows "cell (de_matrix d') p = cell (de_matrix d) (unat (nb + of_nat p - de_base_seq d)) \<and>
    de_base_seq d' = nb \<and> decoder_inv d' \<and>
    (\<forall>c < mx_columns (de_matrix d). de_col_fec d' ! c = None) \<and>
    (\<forall>r < mx_rows (de_matrix d). de_row_fec d' ! r = None)"
proof -
  note r = align_base_to_result [OF inv al] and sh = decoder_invD(2) [OF inv]
  let ?q = "unat (nb + of_nat p - de_base_seq d)"
  have p16: "p < 65536" using p matrix_shapeD(6) [OF sh] by simp
  have "cell (de_matrix d') p = Some b \<longleftrightarrow> cell (de_matrix d) ?q = Some b" for b
  proof
    assume "cell (de_matrix d') p = Some b"
    then obtain q where q: "q < matrix_size (de_matrix d)" "cell (de_matrix d) q = Some b"
        "p = unat (de_base_seq d + of_nat q - nb)" using r(8) by blast
    have "?q = q"
      unfolding q(3) u16_add_of_nat_diff using q(1) matrix_shapeD(6) [OF sh]
      by (simp add: unat_of_nat_u16)
    then show "cell (de_matrix d) ?q = Some b" using q(2) by simp
  next
    assume c: "cell (de_matrix d) ?q = Some b"
    then have "?q < matrix_size (de_matrix d)"
      using cell_out_of_range [OF sh, of ?q] by (metis not_le option.distinct(1))
    moreover have "p = unat (de_base_seq d + of_nat ?q - nb)"
      unfolding u16_add_of_nat_diff using p16 by (simp add: unat_of_nat_u16)
    ultimately show "cell (de_matrix d') p = Some b" using c p r(8) by blast
  qed
  then have "cell (de_matrix d') p = cell (de_matrix d) ?q" by (metis not_None_eq)
  then show ?thesis using r(1,2,6,7) by blast
qed

text \<open>A rebuilt datagram is a well-formed RTP packet: read back by the edge's own
  parser it shows the lost packet's sequence number and the last timestamp seen, it keeps the
  stream's version bits, and after the twelve header bytes comes the rebuilt payload.\<close>

lemma rebuilt_datagram_parses:
  assumes "length template = RTP_HEADER_LEN" "is_likely_rtp template"
  shows "parse_rtp_sequence_number (pk_data (wrap_recovered d now seq template b)) = Some seq \<and>
    parse_rtp_timestamp (pk_data (wrap_recovered d now seq template b)) =
      Some (de_last_rtp_timestamp d) \<and>
    is_likely_rtp (pk_data (wrap_recovered d now seq template b)) \<and>
    rtp_ssrc (pk_data (wrap_recovered d now seq template b)) = rtp_ssrc template \<and>
    drop RTP_HEADER_LEN (pk_data (wrap_recovered d now seq template b)) = b"
  using assms be32_byte32 [of "de_last_rtp_timestamp d"]
  by (simp add: wrap_recovered_def parse_rtp_sequence_number_def parse_rtp_timestamp_def
      is_likely_rtp_def rtp_ssrc_def RTP_HEADER_LEN_def RTP_HEADER_MIN_SIZE_def nth_append)

text \<open>What the encoder writes in front of a parity payload the decoder reads back:
  the framing is recognised, and base, direction and group index survive for every index the
  three-bit field can hold.\<close>

lemma fec_framing_roundtrip:
  assumes "index < FEC_INDEXED_GROUPS"
  shows "is_fec_packet (build_fec_header base index off is_column @ payload) \<and>
    fec_header_parse (drop (length FEC_MAGIC) (build_fec_header base index off is_column @ payload)) =
      Some \<lparr>fh_sn_base = base, fh_is_column = is_column, fh_index = index, fh_offset = of_nat off\<rparr> \<and>
    drop (length FEC_MAGIC + FEC_HEADER_LEN) (build_fec_header base index off is_column @ payload) = payload"
  using fec_header_roundtrip [OF assms] by blast

lemma sweep_idle:
  "\<forall>c\<in>set cs. de_col_fec d ! c = None \<Longrightarrow> sweep_columns now t cs d = ([], False, d)"
  "\<forall>r\<in>set rs. de_row_fec d ! r = None \<Longrightarrow> sweep_rows now t rs d = ([], False, d)"
  by (induction cs, simp_all) (induction rs, simp_all)

lemma recovery_idle:
  assumes "decoder_inv d" "\<forall>c < mx_columns (de_matrix d). de_col_fec d ! c = None"
    "\<forall>r < mx_rows (de_matrix d). de_row_fec d ! r = None"
  shows "recovery_loop now t k d = ([], d)"
  using assms decoder_invD(3,4) [OF assms(1)] by (cases k) (simp_all add: sweep_idle)

text \<open>A datagram from another sender (its SSRC differs) never meets state of the old
  one: the call returns it alone, nothing is rebuilt, no parity slot survives, and the only
  cell that can be filled is the first, with the new sender's own payload.\<close>

lemma new_sender_starts_clean:
  assumes inv: "decoder_inv d" and ns: "is_new_sender d data"
    and res: "process_media d now seq ts data = (out, d')"
  shows "out = [media_packet now seq ts data] \<and>
    (\<forall>c < mx_columns (de_matrix d). de_col_fec d' ! c = None) \<and>
    (\<forall>r < mx_rows (de_matrix d). de_row_fec d' ! r = None) \<and>
    (\<forall>p b. cell (de_matrix d') p = Some b \<longrightarrow> p = 0 \<and> b = drop RTP_HEADER_LEN data)"
proof -
  define d1 where
    "d1 = (case rtp_ssrc data of None \<Rightarrow> d | Some ssrc \<Rightarrow> d\<lparr>de_ssrc := Some ssrc\<rparr>)\<lparr>de_last_rtp_header := None\<rparr>"
  have d1: "decoder_inv d1" "de_matrix d1 = de_matrix d" "de_col_fec d1 = de_col_fec d"
      "de_row_fec d1 = de_row_fec d"
    using inv by (auto simp: d1_def decoder_inv_def split: option.splits)
  define d2 where "d2 = file_media (decoder_start_matrix d1 seq None) (Some 0) ts data"
  have inv2: "decoder_inv d2"
    unfolding d2_def
    by (rule file_media_result(1) [of _ _ seq])
       (use d1(1) in \<open>auto simp: decoder_inv_start decoder_size_pos\<close>)
  have slots: "\<forall>c < mx_columns (de_matrix d). de_col_fec d2 ! c = None"
      "\<forall>r < mx_rows (de_matrix d). de_row_fec d2 ! r = None"
    using decoder_invD(7,8) [OF inv] d1(3,4)
    by (simp_all add: d2_def file_media_def decoder_start_matrix_def reset_cycle_def)
  have sh: "matrix_shape (matrix_reset (de_matrix d))"
    using matrix_inv_reset [OF decoder_invD(2) [OF inv]] by simp
  have cells: "\<forall>p b. cell (de_matrix d2) p = Some b \<longrightarrow> p = 0 \<and> b = drop RTP_HEADER_LEN data"
    using d1(2)
    by (auto simp: d2_def file_media_def decoder_start_matrix_def cell_insert_media [OF sh]
        split: if_splits)
  have dims: "mx_columns (de_matrix d2) = mx_columns (de_matrix d)"
      "mx_rows (de_matrix d2) = mx_rows (de_matrix d)"
    using d1(2) by (simp_all add: d2_def file_media_def decoder_start_matrix_def)
  have idle: "recovery_loop now t k d2 = ([], d2)" for t k
    using recovery_idle [OF inv2] slots dims by simp
  have ar: "attempt_recovery now d2 = ([], d2)"
    by (simp add: attempt_recovery_def idle split: option.splits)
  have "process_media d now seq ts data = ([media_packet now seq ts data], close_if_full d2)"
    using ns ar unfolding d2_def d1_def
    by (simp add: process_media_def media_position_def Let_def)
  then have "out = [media_packet now seq ts data]" "d' = close_if_full d2" using res by simp_all
  moreover have "\<forall>c < mx_columns (de_matrix d). de_col_fec (close_if_full d2) ! c = None"
      "\<forall>r < mx_rows (de_matrix d). de_row_fec (close_if_full d2) ! r = None"
      "\<forall>p b. cell (de_matrix (close_if_full d2)) p = Some b \<longrightarrow> p = 0 \<and> b = drop RTP_HEADER_LEN data"
    using slots cells dims decoder_invD(7,8) [OF inv2] by (simp_all add: close_if_full_def)
  ultimately show ?thesis by simp
qed

end
