(* ===== verification/HitlessMerge.thy ===== *)
theory HitlessMerge
  imports EdgePrelude
begin

text \<open>
  The SMPTE 2022-7 merger of \<open>src/src/redundancy/merger.rs\<close>: \<open>HitlessMerger\<close>, its bitmap
  window with the loss counts, the re-anchoring rule, and \<open>HitlessRunMerger\<close> over it. Fields
  and counts the source never lets wrap (slots, the covered count, \<open>u64\<close> counters and
  microsecond clocks) are naturals; sequence numbers are 16-bit words and wrap. A
  \<open>saturating_sub\<close> is the subtraction of naturals.
\<close>

section \<open>Legs\<close>

datatype active_leg = Leg1 | Leg2 | NoLeg

definition leg_idx :: "active_leg \<Rightarrow> nat option" where
  "leg_idx leg = (case leg of Leg1 \<Rightarrow> Some 0 | Leg2 \<Rightarrow> Some 1 | NoLeg \<Rightarrow> None)"

definition leg_bit :: "active_leg \<Rightarrow> u8" where
  "leg_bit leg = (case leg of Leg1 \<Rightarrow> 1 | Leg2 \<Rightarrow> 2 | NoLeg \<Rightarrow> 0)"

section \<open>The merger\<close>

definition REORDER_WINDOW :: nat where
  "REORDER_WINDOW = 1024"

definition DEFAULT_STALE_AFTER_US :: nat where
  "DEFAULT_STALE_AFTER_US = 1000000"

record hitless_merger =
  hm_highest_seq :: u16
  hm_highest_slot :: nat
  hm_emitted :: "u64 list"
  hm_covered :: nat
  hm_reset_tail :: nat
  hm_lost :: nat
  hm_skipped :: nat
  hm_resets :: nat
  hm_last_accept_us :: nat
  hm_stale_after_us :: nat
  hm_leg_seq :: "u16 option list"
  hm_moved :: u8
  hm_last_break :: "(u16 \<times> active_leg \<times> bool) option"
  hm_active_leg :: active_leg
  hm_initialized :: bool
  hm_window :: nat

text \<open>\<open>with_window\<close>: the assertion of the source is \<open>window_ok\<close>, and a window that fails it
  gives no merger.\<close>

definition window_ok :: "nat \<Rightarrow> bool" where
  "window_ok window \<longleftrightarrow> 64 \<le> window \<and> window \<le> 16384 \<and> window mod 64 = 0"

definition merger_fresh :: "nat \<Rightarrow> hitless_merger" where
  "merger_fresh window =
     \<lparr>hm_highest_seq = 0, hm_highest_slot = 0, hm_emitted = replicate (window div 64) 0,
      hm_covered = 0, hm_reset_tail = 0, hm_lost = 0, hm_skipped = 0, hm_resets = 0,
      hm_last_accept_us = 0, hm_stale_after_us = DEFAULT_STALE_AFTER_US,
      hm_leg_seq = [None, None], hm_moved = 0, hm_last_break = None,
      hm_active_leg = NoLeg, hm_initialized = False, hm_window = window\<rparr>"

definition with_window :: "nat \<Rightarrow> hitless_merger option" where
  "with_window window = (if window_ok window then Some (merger_fresh window) else None)"

definition set_stale_after_us :: "hitless_merger \<Rightarrow> nat \<Rightarrow> hitless_merger" where
  "set_stale_after_us m stale_after_us = m\<lparr>hm_stale_after_us := stale_after_us\<rparr>"

definition slot_wrap :: "hitless_merger \<Rightarrow> nat \<Rightarrow> nat" where
  "slot_wrap m slot = (if slot \<ge> hm_window m then slot - hm_window m else slot)"

definition slot_ahead :: "hitless_merger \<Rightarrow> nat \<Rightarrow> nat" where
  "slot_ahead m ahead = slot_wrap m (hm_highest_slot m + ahead)"

definition slot_behind :: "hitless_merger \<Rightarrow> nat \<Rightarrow> nat" where
  "slot_behind m behind = slot_wrap m (hm_highest_slot m + (hm_window m - behind))"

definition is_emitted :: "hitless_merger \<Rightarrow> nat \<Rightarrow> bool" where
  "is_emitted m slot \<longleftrightarrow> drop_bit (slot mod 64) (hm_emitted m ! (slot div 64)) AND 1 = 1"

definition set_emitted :: "hitless_merger \<Rightarrow> nat \<Rightarrow> bool \<Rightarrow> hitless_merger" where
  "set_emitted m slot emitted =
     (let i = slot div 64; b = push_bit (slot mod 64) 1; w = hm_emitted m ! i in
      m\<lparr>hm_emitted := (hm_emitted m)[i := (if emitted then w OR b else w AND NOT b)]\<rparr>)"

text \<open>\<open>u64::count_ones\<close>.\<close>

definition count_ones :: "u64 \<Rightarrow> nat" where
  "count_ones w = length (filter (bit w) [0..<64])"

function emitted_in :: "hitless_merger \<Rightarrow> nat \<Rightarrow> nat \<Rightarrow> nat" where
  "emitted_in m slot to =
     (if slot < to then
        (let b = slot mod 64; span = min (64 - b) (to - slot);
             mask = (if span = 64 then - 1 else push_bit b (push_bit span 1 - 1))
         in count_ones ((hm_emitted m ! (slot div 64)) AND mask) + emitted_in m (slot + span) to)
      else 0)"
  by auto
termination
  by (relation "measure (\<lambda>(m, slot, to). to - slot)") (auto simp: min_def)

declare emitted_in.simps [simp del]

definition emitted_behind :: "hitless_merger \<Rightarrow> nat \<Rightarrow> nat \<Rightarrow> nat" where
  "emitted_behind m from n =
     (if n = 0 then 0
      else let start = slot_behind m (from + n - 1); stop = start + n in
           if stop \<le> hm_window m then emitted_in m start stop
           else emitted_in m start (hm_window m) + emitted_in m 0 (stop - hm_window m))"

definition count_unfilled :: "hitless_merger \<Rightarrow> hitless_merger" where
  "count_unfilled m =
     (let tail = hm_reset_tail m;
          unfilled_tail = tail - emitted_behind m (hm_covered m - tail) tail;
          ordinary = hm_covered m - tail;
          unfilled = ordinary - emitted_behind m 0 ordinary
      in m\<lparr>hm_lost := hm_lost m + unfilled, hm_skipped := hm_skipped m + unfilled_tail\<rparr>)"

definition anchor :: "hitless_merger \<Rightarrow> u16 \<Rightarrow> hitless_merger" where
  "anchor m seq =
     (set_emitted (m\<lparr>hm_emitted := map (\<lambda>_. 0) (hm_emitted m), hm_highest_seq := seq,
                      hm_highest_slot := 0\<rparr>) 0 True)
       \<lparr>hm_covered := 1, hm_reset_tail := 0\<rparr>"

definition reanchor :: "hitless_merger \<Rightarrow> u16 \<Rightarrow> nat \<Rightarrow> hitless_merger" where
  "reanchor m seq forward =
     (let m = count_unfilled m; jumped = forward - 1; behind = min jumped (hm_window m - 1)
      in (anchor (m\<lparr>hm_skipped := hm_skipped m + (jumped - behind),
                     hm_resets := hm_resets m + 1\<rparr>) seq)
           \<lparr>hm_covered := 1 + behind, hm_reset_tail := behind\<rparr>)"

text \<open>The loop of \<open>advance\<close>; \<open>uncovered\<close> and \<open>tail_end\<close> are fixed before it.\<close>

fun advance_slots :: "nat \<Rightarrow> nat \<Rightarrow> nat \<Rightarrow> nat list \<Rightarrow> hitless_merger \<Rightarrow> hitless_merger" where
  "advance_slots uncovered tail_end forward [] m = m"
| "advance_slots uncovered tail_end forward (ahead # rest) m =
     (let slot = slot_ahead m ahead;
          m' = (if ahead > uncovered \<and> \<not> is_emitted m slot
                then (if ahead \<le> tail_end then m\<lparr>hm_skipped := hm_skipped m + 1\<rparr>
                      else m\<lparr>hm_lost := hm_lost m + 1\<rparr>)
                else m)
      in advance_slots uncovered tail_end forward rest (set_emitted m' slot (ahead = forward)))"

definition advance :: "hitless_merger \<Rightarrow> u16 \<Rightarrow> nat \<Rightarrow> hitless_merger" where
  "advance m seq forward =
     (let uncovered = hm_window m - hm_covered m;
          tail_end = uncovered + hm_reset_tail m;
          m' = advance_slots uncovered tail_end forward [1..<forward + 1] m
      in m'\<lparr>hm_reset_tail := hm_reset_tail m' - min (forward - uncovered) (hm_reset_tail m'),
            hm_highest_slot := slot_ahead m' forward, hm_highest_seq := seq,
            hm_covered := min (hm_covered m' + forward) (hm_window m')\<rparr>)"

definition accept :: "hitless_merger \<Rightarrow> active_leg \<Rightarrow> nat \<Rightarrow> active_leg option \<times> hitless_merger" where
  "accept m leg now_us =
     (Some leg,
      m\<lparr>hm_active_leg := leg, hm_last_accept_us := now_us,
        hm_moved := hm_moved m AND NOT (leg_bit leg),
        hm_last_break :=
          (case hm_last_break m of
             Some (_, l, first) \<Rightarrow> if first \<or> l = leg then None else hm_last_break m
           | None \<Rightarrow> None)\<rparr>)"

definition behind_window :: "hitless_merger \<Rightarrow> u16 \<Rightarrow> u16 \<Rightarrow> bool" where
  "behind_window m seq from \<longleftrightarrow> seq - from \<ge> 0x8000 \<and> unat (from - seq) \<ge> hm_window m"

definition stream_moved ::
  "hitless_merger \<Rightarrow> u16 \<Rightarrow> active_leg \<Rightarrow> u16 option \<Rightarrow> nat \<Rightarrow> bool \<times> hitless_merger" where
  "stream_moved m seq leg prev now_us =
     (let breaks = (case prev of None \<Rightarrow> True | Some prev \<Rightarrow> behind_window m seq prev);
          m = (if breaks \<and> prev \<noteq> None then m\<lparr>hm_moved := hm_moved m OR leg_bit leg\<rparr> else m)
      in if \<not> breaks \<and> hm_moved m AND leg_bit leg = 0 then (False, m)
         else
           let both_legs = (breaks \<and> (case hm_last_break m of
                   Some (s, l, _) \<Rightarrow> s = seq \<and> l \<noteq> leg | None \<Rightarrow> False));
               m = (if breaks then m\<lparr>hm_last_break := Some (seq, leg, prev = None)\<rparr> else m)
           in (both_legs \<or> now_us - hm_last_accept_us m \<ge> hm_stale_after_us m, m))"

definition observe :: "hitless_merger \<Rightarrow> u16 \<Rightarrow> active_leg \<Rightarrow> hitless_merger" where
  "observe m seq leg =
     (case leg_idx leg of
        Some i \<Rightarrow> m\<lparr>hm_leg_seq := (hm_leg_seq m)[i := Some seq]\<rparr> | None \<Rightarrow> m)"

definition leg_prev :: "hitless_merger \<Rightarrow> active_leg \<Rightarrow> u16 option" where
  "leg_prev m leg = (case leg_idx leg of Some i \<Rightarrow> hm_leg_seq m ! i | None \<Rightarrow> None)"

definition try_merge ::
  "hitless_merger \<Rightarrow> u16 \<Rightarrow> active_leg \<Rightarrow> nat \<Rightarrow> active_leg option \<times> hitless_merger" where
  "try_merge m seq leg now_us =
     (let prev = leg_prev m leg; m = observe m seq leg in
      if \<not> hm_initialized m then accept ((anchor m seq)\<lparr>hm_initialized := True\<rparr>) leg now_us
      else
        let forward = seq - hm_highest_seq m; backward = hm_highest_seq m - seq in
        if forward > 0 \<and> forward < 0x8000 then
          accept (if unat forward \<ge> hm_window m then reanchor m seq (unat forward)
                  else advance m seq (unat forward)) leg now_us
        else if unat backward < hm_window m then
          (let slot = slot_behind m (unat backward) in
           if is_emitted m slot then (None, m) else accept (set_emitted m slot True) leg now_us)
        else
          (let (moved, m) = stream_moved m seq leg prev now_us in
           if moved then accept (reanchor m seq (unat forward)) leg now_us else (None, m)))"

definition slot_of :: "hitless_merger \<Rightarrow> u16 \<Rightarrow> nat option" where
  "slot_of m seq =
     (let behind = unat (hm_highest_seq m - seq) in
      if hm_initialized m \<and> behind < hm_window m then Some (slot_behind m behind) else None)"

definition merger_restart :: "hitless_merger \<Rightarrow> hitless_merger" where
  "merger_restart m =
     (let m = count_unfilled m in
      (set_stale_after_us (merger_fresh (hm_window m)) (hm_stale_after_us m))
        \<lparr>hm_lost := hm_lost m, hm_skipped := hm_skipped m, hm_resets := hm_resets m\<rparr>)"

section \<open>Runs of packets per sequence number\<close>

record run_merger =
  rm_seqs :: hitless_merger
  rm_next :: "u16 list"

definition run_merger_new :: "nat \<Rightarrow> run_merger option" where
  "run_merger_new window =
     map_option (\<lambda>m. \<lparr>rm_seqs = m, rm_next = replicate window 0\<rparr>) (with_window window)"

text \<open>\<open>u16::saturating_add(1)\<close>.\<close>

definition sat_succ :: "u16 \<Rightarrow> u16" where
  "sat_succ n = (if n = - 1 then n else n + 1)"

definition run_try_merge ::
  "run_merger \<Rightarrow> u16 \<Rightarrow> u16 \<Rightarrow> active_leg \<Rightarrow> nat \<Rightarrow> active_leg option \<times> run_merger" where
  "run_try_merge r seq index leg now_us =
     (let (res, m) = try_merge (rm_seqs r) seq leg now_us; r = r\<lparr>rm_seqs := m\<rparr> in
      case slot_of m seq of
        None \<Rightarrow> (None, r)
      | Some slot \<Rightarrow>
          let r = (if res \<noteq> None then r\<lparr>rm_next := (rm_next r)[slot := 0]\<rparr> else r) in
          if index \<noteq> rm_next r ! slot then (None, r)
          else (Some leg, r\<lparr>rm_next := (rm_next r)[slot := sat_succ index]\<rparr>))"

end
