(* ===== verification/HitlessWindow.thy ===== *)
theory HitlessWindow
  imports HitlessMerge
begin

text \<open>
  The bitmap of the 2022-7 merger read as a set: \<open>got m b\<close> says whether the sequence number
  \<open>b\<close> behind the highest one has been forwarded. Every operation of the merger is shown to be
  the set operation it stands for, word masks and popcounts included, and the loss counts are
  shown to balance.
\<close>

section \<open>Bits of the window\<close>

definition window_inv :: "hitless_merger \<Rightarrow> bool" where
  "window_inv m \<longleftrightarrow>
     window_ok (hm_window m) \<and> length (hm_emitted m) = hm_window m div 64 \<and>
     hm_highest_slot m < hm_window m \<and> hm_covered m \<le> hm_window m \<and>
     hm_reset_tail m \<le> hm_covered m \<and> length (hm_leg_seq m) = 2 \<and>
     (hm_initialized m \<longrightarrow> 0 < hm_covered m \<and> hm_reset_tail m < hm_covered m)"

lemma window_okD:
  assumes "window_ok w"
  shows "64 \<le> w" "w \<le> 16384" "w mod 64 = 0" "0 < w" "w div 64 * 64 = w"
  using assms by (auto simp: window_ok_def mod_0_imp_dvd dvd_div_mult_self)

lemma window_invD:
  assumes "window_inv m"
  shows "window_ok (hm_window m)" "length (hm_emitted m) = hm_window m div 64"
    "hm_highest_slot m < hm_window m" "hm_covered m \<le> hm_window m"
    "hm_reset_tail m \<le> hm_covered m" "length (hm_leg_seq m) = 2"
    "hm_initialized m \<Longrightarrow> 0 < hm_covered m"
    "hm_initialized m \<Longrightarrow> hm_reset_tail m < hm_covered m"
  using assms by (auto simp: window_inv_def)

lemma drop_bit_and_1: "drop_bit n (w :: u64) AND 1 = 1 \<longleftrightarrow> bit w n"
  by (simp add: and_one_eq bit_iff_odd_drop_bit odd_iff_mod_2_eq_one)

lemma is_emitted_bit: "is_emitted m s \<longleftrightarrow> bit (hm_emitted m ! (s div 64)) (s mod 64)"
  by (simp add: is_emitted_def drop_bit_and_1)

lemma is_emitted_cong: "hm_emitted m = hm_emitted m' \<Longrightarrow> is_emitted m = is_emitted m'"
  by (simp add: fun_eq_iff is_emitted_def)

lemma set_emitted_fields [simp]:
  "hm_window (set_emitted m s v) = hm_window m"
  "hm_highest_seq (set_emitted m s v) = hm_highest_seq m"
  "hm_highest_slot (set_emitted m s v) = hm_highest_slot m"
  "hm_covered (set_emitted m s v) = hm_covered m"
  "hm_reset_tail (set_emitted m s v) = hm_reset_tail m"
  "hm_lost (set_emitted m s v) = hm_lost m"
  "hm_skipped (set_emitted m s v) = hm_skipped m"
  "hm_resets (set_emitted m s v) = hm_resets m"
  "hm_leg_seq (set_emitted m s v) = hm_leg_seq m"
  "hm_initialized (set_emitted m s v) = hm_initialized m"
  "length (hm_emitted (set_emitted m s v)) = length (hm_emitted m)"
  by (simp_all add: set_emitted_def Let_def)

lemma bit_mask_u64: "k < 64 \<Longrightarrow> bit (push_bit k 1 :: u64) n \<longleftrightarrow> n = k"
  by (auto simp: bit_exp_iff)

lemma is_emitted_set:
  assumes "s div 64 < length (hm_emitted m)"
  shows "is_emitted (set_emitted m s v) t = (if t = s then v else is_emitted m t)"
proof (cases "t div 64 = s div 64")
  case True
  have k: "s mod 64 < 64" "t mod 64 < 64" by simp_all
  have "t mod 64 = s mod 64 \<longleftrightarrow> t = s" using True by (metis div_mult_mod_eq)
  then show ?thesis
    using assms True k
    by (auto simp: is_emitted_bit set_emitted_def Let_def bit_or_iff bit_and_iff bit_not_iff
        bit_mask_u64 simp del: push_bit_of_1)
next
  case False
  then show ?thesis
    by (auto simp: is_emitted_bit set_emitted_def Let_def nth_list_update_neq)
qed

section \<open>The set the window stands for\<close>

definition got :: "hitless_merger \<Rightarrow> nat \<Rightarrow> bool" where
  "got m b \<longleftrightarrow> is_emitted m (slot_behind m b)"

lemma slot_behind_eq:
  assumes "window_inv m" "b < hm_window m"
  shows "slot_behind m b =
      (if b \<le> hm_highest_slot m then hm_highest_slot m - b
       else hm_highest_slot m + hm_window m - b)"
  using assms window_invD(3) [OF assms(1)] by (auto simp: slot_behind_def slot_wrap_def)

lemma slot_behind_lt: "window_inv m \<Longrightarrow> b < hm_window m \<Longrightarrow> slot_behind m b < hm_window m"
  using window_invD(3) [of m] by (auto simp: slot_behind_eq)

lemma slot_behind_inj:
  assumes "window_inv m" "b < hm_window m" "c < hm_window m" "slot_behind m b = slot_behind m c"
  shows "b = c"
  using assms window_invD(3) [OF assms(1)] by (auto simp: slot_behind_eq split: if_splits)

lemma slot_ahead_behind:
  assumes "0 < a" "a < hm_window m"
  shows "slot_ahead m a = slot_behind m (hm_window m - a)"
  using assms by (simp add: slot_ahead_def slot_behind_def)

lemma slot_word: "window_inv m \<Longrightarrow> s < hm_window m \<Longrightarrow> s div 64 < length (hm_emitted m)"
  using window_okD(5) [OF window_invD(1)] by (simp add: window_invD(2) div_less_iff_less_mult)

lemma slot_behind_set [simp]: "slot_behind (set_emitted m s v) b = slot_behind m b"
  by (simp add: slot_behind_def slot_wrap_def)

lemma window_inv_set_emitted [simp]: "window_inv (set_emitted m s v) = window_inv m"
  by (simp add: window_inv_def)

lemma got_set_emitted:
  assumes "window_inv m" "b < hm_window m" "c < hm_window m"
  shows "got (set_emitted m (slot_behind m c) v) b = (if b = c then v else got m b)"
  using assms slot_behind_inj [OF assms] slot_word [OF assms(1) slot_behind_lt [OF assms(1,3)]]
  by (auto simp: got_def is_emitted_set)

section \<open>Counting bits a word at a time\<close>

lemma count_ones_card: "count_ones w = card {i. i < 64 \<and> bit w i}"
proof -
  have "set (filter (bit w) [0..<64]) = {i. i < 64 \<and> bit w i}" by auto
  then show ?thesis unfolding count_ones_def
    by (metis distinct_card distinct_filter distinct_upt)
qed

lemma bit_span_mask:
  assumes "b < 64" "0 < n" "n \<le> 64 - b" "i < 64"
  shows "bit ((if n = 64 then - 1 else push_bit b (push_bit n 1 - 1)) :: u64) i \<longleftrightarrow>
    b \<le> i \<and> i < b + n"
proof (cases "n = 64")
  case True
  then show ?thesis using assms by simp
next
  case False
  have "(push_bit n 1 - 1 :: u64) = mask n" by (simp add: mask_eq_exp_minus_1)
  then show ?thesis using assms False by (auto simp: bit_push_bit_iff bit_mask_iff)
qed

lemma count_ones_span:
  assumes "b = s mod 64" "0 < n" "n \<le> 64 - b"
  shows "count_ones ((hm_emitted m ! (s div 64)) AND
      (if n = 64 then - 1 else push_bit b (push_bit n 1 - 1))) =
    card {t. s \<le> t \<and> t < s + n \<and> is_emitted m t}" (is "count_ones (?w AND ?mask) = _")
proof -
  have b: "b < 64" using assms(1) by simp
  have s: "s = 64 * (s div 64) + b" using assms(1) by simp
  have dm: "(64 * q + i) div 64 = q" "(64 * q + i) mod 64 = i" if "i < 64" for q i :: nat
    using that by simp_all
  have "{t. s \<le> t \<and> t < s + n \<and> is_emitted m t} =
      (\<lambda>i. 64 * (s div 64) + i) ` {i. i < 64 \<and> bit (?w AND ?mask) i}"
  proof (intro set_eqI iffI)
    fix t assume t: "t \<in> {t. s \<le> t \<and> t < s + n \<and> is_emitted m t}"
    define i where "i = t - 64 * (s div 64)"
    have i: "t = 64 * (s div 64) + i" "b \<le> i" "i < b + n"
      using t s unfolding i_def by simp_all linarith+
    then have "i < 64" using assms(3) b by simp
    then show "t \<in> (\<lambda>i. 64 * (s div 64) + i) ` {i. i < 64 \<and> bit (?w AND ?mask) i}"
      using t i dm [OF \<open>i < 64\<close>] bit_span_mask [OF b assms(2,3) \<open>i < 64\<close>]
      by (auto simp: is_emitted_bit bit_and_iff)
  next
    fix t assume "t \<in> (\<lambda>i. 64 * (s div 64) + i) ` {i. i < 64 \<and> bit (?w AND ?mask) i}"
    then obtain i where i: "t = 64 * (s div 64) + i" "i < 64" "bit ?w i" "bit ?mask i"
      by (auto simp: bit_and_iff)
    then have "b \<le> i \<and> i < b + n" using bit_span_mask [OF b assms(2,3) i(2)] by simp
    then show "t \<in> {t. s \<le> t \<and> t < s + n \<and> is_emitted m t}"
      using i s dm [OF i(2)] by (simp add: is_emitted_bit)
  qed
  moreover have "card ((\<lambda>i. 64 * (s div 64) + i) ` {i. i < 64 \<and> bit (?w AND ?mask) i}) =
      card {i. i < 64 \<and> bit (?w AND ?mask) i}" by (rule card_image) (simp add: inj_on_def)
  ultimately show ?thesis by (simp only: count_ones_card)
qed

lemma emitted_in_card: "emitted_in m s t = card {x. s \<le> x \<and> x < t \<and> is_emitted m x}"
proof (induction m s t rule: emitted_in.induct)
  case (1 m s t)
  show ?case
  proof (cases "s < t")
    case True
    define b n where "b = s mod 64" and "n = min (64 - b) (t - s)"
    have bn: "0 < n" "n \<le> 64 - b" "s + n \<le> t" using True by (auto simp: n_def b_def)
    have "emitted_in m s t = count_ones ((hm_emitted m ! (s div 64)) AND
        (if n = 64 then - 1 else push_bit b (push_bit n 1 - 1))) + emitted_in m (s + n) t"
      using True by (subst emitted_in.simps) (simp add: Let_def b_def n_def)
    also have "\<dots> = card {x. s \<le> x \<and> x < s + n \<and> is_emitted m x} +
        card {x. s + n \<le> x \<and> x < t \<and> is_emitted m x}"
      using count_ones_span [OF b_def bn(1,2)] 1 [OF True b_def n_def refl] by (simp add: b_def n_def)
    also have "\<dots> = card ({x. s \<le> x \<and> x < s + n \<and> is_emitted m x} \<union>
        {x. s + n \<le> x \<and> x < t \<and> is_emitted m x})"
      by (rule card_Un_disjoint [symmetric]) auto
    also have "{x. s \<le> x \<and> x < s + n \<and> is_emitted m x} \<union> {x. s + n \<le> x \<and> x < t \<and> is_emitted m x}
        = {x. s \<le> x \<and> x < t \<and> is_emitted m x}" using bn by auto
    finally show ?thesis .
  next
    case False
    then have "{x. s \<le> x \<and> x < t \<and> is_emitted m x} = {}" by auto
    then show ?thesis using False by (subst emitted_in.simps) simp
  qed
qed

lemma stretch_arith:
  fixes h w fr n b e start s :: nat
  assumes "h < w" "fr \<le> b" "b < fr + n" "fr + n \<le> w" "e + 1 = fr + n"
    and start: "start + e = h + (if e \<le> h then 0 else w)"
    and s: "s + b = h + (if b \<le> h then 0 else w)"
  shows "if start + n \<le> w then start \<le> s \<and> s < start + n
     else start \<le> s \<and> s < w \<or> s + w < start + n"
proof (cases "e \<le> h")
  case True
  then show ?thesis using assms by simp
next
  case False
  show ?thesis
  proof (cases "b \<le> h")
    case True
    then have "s + w < start + n" "\<not> start + n \<le> w" using False assms by simp_all
    then show ?thesis by simp
  next
    case b: False
    then have "start \<le> s" "s < w" "s < start + n" using False assms by simp_all
    then show ?thesis by simp
  qed
qed

text \<open>The slots of a stretch of the window, as one or two runs of the bitmap.\<close>

lemma slots_of_stretch:
  assumes inv: "window_inv m" and n: "0 < n" "from + n \<le> hm_window m"
    and start: "start = slot_behind m (from + n - 1)"
  shows "slot_behind m ` {from..<from + n} =
    (if start + n \<le> hm_window m then {start..<start + n}
     else {start..<hm_window m} \<union> {0..<start + n - hm_window m})" (is "?S = ?T")
proof (rule card_subset_eq)
  let ?w = "hm_window m" and ?h = "hm_highest_slot m"
  have lt: "?h < ?w" "start < ?w"
    using window_invD(3) [OF inv] slot_behind_lt [OF inv, of "from + n - 1"] n start by auto
  have e: "slot_behind m b = (if b \<le> ?h then ?h - b else ?h + ?w - b)" if "b < from + n" for b
    using slot_behind_eq [OF inv] that n(2) by simp
  have st: "start = (if from + n - 1 \<le> ?h then ?h - (from + n - 1) else ?h + ?w - (from + n - 1))"
    using e [of "from + n - 1"] n(1) start by simp
  show "finite ?T" by simp
  show "?S \<subseteq> ?T"
  proof
    fix s assume "s \<in> ?S"
    then obtain b where "from \<le> b" "b < from + n" "s = slot_behind m b" by auto
    moreover from this have "s + b = ?h + (if b \<le> ?h then 0 else ?w)"
      using e [of b] n(2) by simp
    moreover have "start + (from + n - 1) = ?h + (if from + n - 1 \<le> ?h then 0 else ?w)"
      using st n by simp
    ultimately show "s \<in> ?T"
      using stretch_arith [OF lt(1), of "from" b n "from + n - 1" start s] n by (simp add: less_diff_conv split: if_splits)
  qed
  have "inj_on (slot_behind m) {from..<from + n}"
    using slot_behind_inj [OF inv] n(2) by (auto simp: inj_on_def)
  then have "card ?S = n" by (simp add: card_image)
  moreover have "card ?T = n"
  proof (cases "start + n \<le> ?w")
    case False
    have "{start..<?w} \<inter> {0..<start + n - ?w} = {}" using n by auto
    then show ?thesis using False lt by (simp add: card_Un_disjoint)
  qed simp
  ultimately show "card ?S = card ?T" by simp
qed

lemma emitted_behind_card:
  assumes inv: "window_inv m" and n: "from + n \<le> hm_window m"
  shows "emitted_behind m from n = card {b. from \<le> b \<and> b < from + n \<and> got m b}"
proof (cases "n = 0")
  case True
  then show ?thesis by (simp add: emitted_behind_def)
next
  case False
  define start where "start = slot_behind m (from + n - 1)"
  let ?w = "hm_window m" and ?B = "{b. from \<le> b \<and> b < from + n \<and> got m b}"
  have S: "slot_behind m ` ?B = {s \<in> slot_behind m ` {from..<from + n}. is_emitted m s}"
    by (auto simp: got_def)
  have "inj_on (slot_behind m) ?B"
    using slot_behind_inj [OF inv] n by (auto simp: inj_on_def)
  then have "card ?B = card (slot_behind m ` ?B)" by (simp add: card_image)
  also have "\<dots> = (if start + n \<le> ?w then card {s. start \<le> s \<and> s < start + n \<and> is_emitted m s}
      else card {s. start \<le> s \<and> s < ?w \<and> is_emitted m s} +
           card {s. 0 \<le> s \<and> s < start + n - ?w \<and> is_emitted m s})"
  proof (cases "start + n \<le> ?w")
    case True
    then have "slot_behind m ` ?B = {s. start \<le> s \<and> s < start + n \<and> is_emitted m s}"
      unfolding S using slots_of_stretch [OF inv _ n start_def] False by auto
    then show ?thesis using True by simp
  next
    case wrapped: False
    then have "slot_behind m ` ?B = {s. start \<le> s \<and> s < ?w \<and> is_emitted m s} \<union>
        {s. 0 \<le> s \<and> s < start + n - ?w \<and> is_emitted m s}"
      unfolding S using slots_of_stretch [OF inv _ n start_def] False by auto
    moreover have "{s. start \<le> s \<and> s < ?w \<and> is_emitted m s} \<inter>
        {s. 0 \<le> s \<and> s < start + n - ?w \<and> is_emitted m s} = {}" using n by auto
    ultimately show ?thesis using wrapped by (simp add: card_Un_disjoint)
  qed
  also have "\<dots> = emitted_behind m from n"
    using False by (simp add: emitted_behind_def Let_def start_def emitted_in_card)
  finally show ?thesis ..
qed

section \<open>What the counts say\<close>

text \<open>The sequence numbers of the stream still open in the window.\<close>

definition unfilled :: "hitless_merger \<Rightarrow> nat" where
  "unfilled m = card {b. b < hm_covered m \<and> \<not> got m b}"

definition passed_over :: "hitless_merger \<Rightarrow> nat" where
  "passed_over m = hm_lost m + hm_skipped m + unfilled m"

lemma card_interval_complement:
  "card {b :: nat. i \<le> b \<and> b < j \<and> \<not> P b} = j - i - card {b. i \<le> b \<and> b < j \<and> P b}"
proof -
  have "{b. i \<le> b \<and> b < j \<and> \<not> P b} = {i..<j} - {b. i \<le> b \<and> b < j \<and> P b}" by auto
  moreover have "{b. i \<le> b \<and> b < j \<and> P b} \<subseteq> {i..<j}" by auto
  ultimately show ?thesis by (simp add: card_Diff_subset finite_subset)
qed

lemma count_unfilled_counts:
  assumes inv: "window_inv m"
  shows "hm_lost (count_unfilled m) + hm_skipped (count_unfilled m) = passed_over m"
    and "hm_lost (count_unfilled m) = hm_lost m + card {b. b < hm_covered m - hm_reset_tail m \<and> \<not> got m b}"
proof -
  let ?c = "hm_covered m" and ?t = "hm_reset_tail m"
  have ct: "?t \<le> ?c" "?c \<le> hm_window m" using window_invD(4,5) [OF inv] by auto
  have tail: "?t - emitted_behind m (?c - ?t) ?t = card {b. ?c - ?t \<le> b \<and> b < ?c \<and> \<not> got m b}"
    using emitted_behind_card [OF inv, of "?c - ?t" ?t] ct
      card_interval_complement [of "?c - ?t" ?c "got m"] by simp
  have head: "?c - ?t - emitted_behind m 0 (?c - ?t) = card {b. 0 \<le> b \<and> b < ?c - ?t \<and> \<not> got m b}"
    using emitted_behind_card [OF inv, of 0 "?c - ?t"] ct
      card_interval_complement [of 0 "?c - ?t" "got m"] by simp
  let ?A = "{b. 0 \<le> b \<and> b < ?c - ?t \<and> \<not> got m b}"
    and ?B = "{b. ?c - ?t \<le> b \<and> b < ?c \<and> \<not> got m b}"
  have "unfilled m = card (?A \<union> ?B)" unfolding unfilled_def by (rule arg_cong [of _ _ card]) auto
  also have "\<dots> = card ?A + card ?B" by (rule card_Un_disjoint) auto
  finally have "unfilled m = card ?A + card ?B" .
  then show "hm_lost (count_unfilled m) + hm_skipped (count_unfilled m) = passed_over m"
    using tail head by (simp add: count_unfilled_def Let_def passed_over_def)
  show "hm_lost (count_unfilled m) = hm_lost m + card {b. b < ?c - ?t \<and> \<not> got m b}"
    using head by (simp add: count_unfilled_def Let_def)
qed

section \<open>Anchoring and advancing\<close>

lemma count_unfilled_fields [simp]:
  "hm_window (count_unfilled m) = hm_window m" "hm_emitted (count_unfilled m) = hm_emitted m"
  "hm_highest_seq (count_unfilled m) = hm_highest_seq m"
  "hm_initialized (count_unfilled m) = hm_initialized m"
  "hm_leg_seq (count_unfilled m) = hm_leg_seq m" "hm_resets (count_unfilled m) = hm_resets m"
  "hm_stale_after_us (count_unfilled m) = hm_stale_after_us m"
  by (simp_all add: count_unfilled_def Let_def)

lemma anchor_fields [simp]:
  "hm_window (anchor m seq) = hm_window m" "hm_highest_seq (anchor m seq) = seq"
  "hm_highest_slot (anchor m seq) = 0" "hm_covered (anchor m seq) = 1"
  "hm_reset_tail (anchor m seq) = 0" "hm_lost (anchor m seq) = hm_lost m"
  "hm_skipped (anchor m seq) = hm_skipped m" "hm_leg_seq (anchor m seq) = hm_leg_seq m"
  "hm_initialized (anchor m seq) = hm_initialized m" "hm_resets (anchor m seq) = hm_resets m"
  "length (hm_emitted (anchor m seq)) = length (hm_emitted m)"
  by (simp_all add: anchor_def)

lemma got_anchor:
  assumes "window_ok (hm_window m)" "length (hm_emitted m) = hm_window m div 64" "b < hm_window m"
  shows "got (anchor m seq) b \<longleftrightarrow> b = 0"
proof -
  let ?m = "m\<lparr>hm_emitted := map (\<lambda>_. 0) (hm_emitted m), hm_highest_seq := seq, hm_highest_slot := 0\<rparr>"
  note w = window_okD [OF assms(1)]
  have len: "length (hm_emitted ?m) = hm_window m div 64" using assms(2) by simp
  have "is_emitted (anchor m seq) s \<longleftrightarrow> s = 0" if "s < hm_window m" for s
  proof -
    have "s div 64 < length (hm_emitted m)"
      using that w(5) assms(2) by (simp add: div_less_iff_less_mult)
    then have "\<not> is_emitted ?m s" by (simp add: is_emitted_bit)
    moreover have "0 div 64 < length (hm_emitted ?m)" using w(1) len by simp
    moreover have "is_emitted (anchor m seq) = is_emitted (set_emitted ?m 0 True)"
      by (rule is_emitted_cong) (simp add: anchor_def)
    ultimately show ?thesis using is_emitted_set [of 0 ?m True s] by simp
  qed
  moreover have "slot_behind (anchor m seq) b < hm_window m" "slot_behind (anchor m seq) b = 0 \<longleftrightarrow> b = 0"
    using assms(3) by (auto simp: slot_behind_def slot_wrap_def)
  ultimately show ?thesis by (simp add: got_def)
qed

lemma reanchor_fields [simp]:
  "hm_window (reanchor m seq f) = hm_window m" "hm_highest_seq (reanchor m seq f) = seq"
  "hm_highest_slot (reanchor m seq f) = 0"
  "hm_covered (reanchor m seq f) = 1 + min (f - 1) (hm_window m - 1)"
  "hm_reset_tail (reanchor m seq f) = min (f - 1) (hm_window m - 1)"
  "hm_initialized (reanchor m seq f) = hm_initialized m"
  "hm_resets (reanchor m seq f) = hm_resets m + 1"
  "hm_lost (reanchor m seq f) = hm_lost (count_unfilled m)"
  "length (hm_emitted (reanchor m seq f)) = length (hm_emitted m)"
  "hm_leg_seq (reanchor m seq f) = hm_leg_seq m"
  by (simp_all add: reanchor_def Let_def)

lemma got_cong:
  "hm_emitted m = hm_emitted m' \<Longrightarrow> hm_highest_slot m = hm_highest_slot m' \<Longrightarrow>
   hm_window m = hm_window m' \<Longrightarrow> got m b = got m' b"
  by (simp add: got_def is_emitted_def slot_behind_def slot_wrap_def)

text \<open>A re-anchor makes the new number the only one the window has, and charges all it passes.\<close>

lemma reanchor_result:
  assumes inv: "window_inv m" and f: "hm_window m \<le> f"
  shows "window_inv (reanchor m seq f)"
    and "b < hm_window m \<Longrightarrow> got (reanchor m seq f) b \<longleftrightarrow> b = 0"
    and "passed_over (reanchor m seq f) = passed_over m + (f - 1)"
    and "hm_covered (reanchor m seq f) = hm_window m"
proof -
  note w = window_okD [OF window_invD(1) [OF inv]]
  let ?c = "count_unfilled m"
  define m1 where "m1 = ?c\<lparr>hm_skipped := hm_skipped ?c + (f - 1 - min (f - 1) (hm_window m - 1)),
      hm_resets := hm_resets ?c + 1\<rparr>"
  have re: "reanchor m seq f = (anchor m1 seq)\<lparr>hm_covered := 1 + min (f - 1) (hm_window m - 1),
      hm_reset_tail := min (f - 1) (hm_window m - 1)\<rparr>"
    by (simp only: reanchor_def Let_def m1_def count_unfilled_fields)
  show cov: "hm_covered (reanchor m seq f) = hm_window m" using f w(4) by simp
  show "window_inv (reanchor m seq f)"
    using inv f w by (auto simp: window_inv_def)
  show g: "got (reanchor m seq f) b \<longleftrightarrow> b = 0" if "b < hm_window m" for b
    using that inv got_anchor [of m1 b seq] got_cong [of "reanchor m seq f" "anchor m1 seq" b]
    unfolding re by (simp add: m1_def window_invD)
  have "{b. b < hm_window m \<and> \<not> got (reanchor m seq f) b} = {1..<hm_window m}" using g by auto
  then have "unfilled (reanchor m seq f) = hm_window m - 1" unfolding unfilled_def cov by simp
  moreover have "hm_skipped (reanchor m seq f) = hm_skipped ?c + (f - 1 - (hm_window m - 1))"
    using f by (simp add: re m1_def min_absorb2)
  moreover have "hm_lost (reanchor m seq f) = hm_lost ?c" by simp
  ultimately show "passed_over (reanchor m seq f) = passed_over m + (f - 1)"
    using count_unfilled_counts(1) [OF inv] f w(4) by (simp add: passed_over_def)
qed

text \<open>The loop of \<open>advance\<close>: the slots it walks are the oldest ones, each charged if it leaves
  unfilled, then cleared; the last one becomes the new highest.\<close>

lemma advance_slots_fields [simp]:
  "hm_window (advance_slots u t f xs m) = hm_window m"
  "hm_highest_slot (advance_slots u t f xs m) = hm_highest_slot m"
  "hm_covered (advance_slots u t f xs m) = hm_covered m"
  "hm_reset_tail (advance_slots u t f xs m) = hm_reset_tail m"
  "hm_initialized (advance_slots u t f xs m) = hm_initialized m"
  "hm_leg_seq (advance_slots u t f xs m) = hm_leg_seq m"
  "hm_resets (advance_slots u t f xs m) = hm_resets m"
  "length (hm_emitted (advance_slots u t f xs m)) = length (hm_emitted m)"
  by (induction u t f xs m rule: advance_slots.induct) (simp_all add: Let_def)

lemma window_inv_counts [simp]:
  "window_inv (m\<lparr>hm_lost := x\<rparr>) = window_inv m" "window_inv (m\<lparr>hm_skipped := x\<rparr>) = window_inv m"
  by (simp_all add: window_inv_def)

lemma got_counts [simp]:
  "got (m\<lparr>hm_lost := x\<rparr>) = got m" "got (m\<lparr>hm_skipped := x\<rparr>) = got m"
  by (simp_all add: fun_eq_iff got_def is_emitted_def slot_behind_def slot_wrap_def)

lemma advance_slots_result:
  assumes "window_inv m" "distinct xs" "set xs \<subseteq> {1..<hm_window m}"
    and "m' = advance_slots u t f xs m" "w = hm_window m"
  shows "b < w \<Longrightarrow> got m' b = (if w - b \<in> set xs then w - b = f else got m b)"
    and "hm_lost m' = hm_lost m + card {a \<in> set xs. u < a \<and> t < a \<and> \<not> got m (w - a)}"
    and "hm_skipped m' = hm_skipped m + card {a \<in> set xs. u < a \<and> a \<le> t \<and> \<not> got m (w - a)}"
proof -
  have "(\<forall>b < w. got m' b = (if w - b \<in> set xs then w - b = f else got m b)) \<and>
      hm_lost m' = hm_lost m + card {a \<in> set xs. u < a \<and> t < a \<and> \<not> got m (w - a)} \<and>
      hm_skipped m' = hm_skipped m + card {a \<in> set xs. u < a \<and> a \<le> t \<and> \<not> got m (w - a)}"
    using assms
  proof (induction xs arbitrary: m)
    case Nil
    then show ?case by simp
  next
    case (Cons a xs)
    define c where "c = w - a"
    have a: "1 \<le> a" "a < w" "c < w" "a \<notin> set xs" and w: "w = hm_window m"
      using Cons.prems(2,3,5) by (auto simp: c_def)
    have slot: "slot_ahead m a = slot_behind m c"
      using slot_ahead_behind [of a m] a w by (simp add: c_def)
    define m1 where "m1 = (if u < a \<and> \<not> got m c
        then (if a \<le> t then m\<lparr>hm_skipped := hm_skipped m + 1\<rparr> else m\<lparr>hm_lost := hm_lost m + 1\<rparr>)
        else m)"
    define m2 where "m2 = set_emitted m1 (slot_behind m c) (a = f)"
    have m1: "window_inv m1" "hm_window m1 = w" "got m1 = got m" "slot_behind m1 c = slot_behind m c"
      using Cons.prems(1) w by (auto simp: m1_def slot_behind_def slot_wrap_def)
    have m2: "window_inv m2" "hm_window m2 = w" using m1 by (simp_all add: m2_def)
    have g2: "got m2 b = (if b = c then a = f else got m b)" if "b < w" for b
      using got_set_emitted [OF m1(1), of b c] that a m1 by (simp add: m2_def)
    have g3: "got m2 (w - x) = got m (w - x)" if "x \<in> set xs" for x
    proof -
      have x: "1 \<le> x" "x < w" "x \<noteq> a" using that a(4) Cons.prems(3) w by auto
      then have "w - x \<noteq> c" using a(2) unfolding c_def by arith
      then show ?thesis using g2 [of "w - x"] x by simp
    qed
    have step: "m' = advance_slots u t f xs m2"
      using Cons.prems(4) by (simp add: m2_def m1_def slot Let_def got_def)
    have ih: "\<forall>b < w. got m' b = (if w - b \<in> set xs then w - b = f else got m2 b)"
        "hm_lost m' = hm_lost m2 + card {x \<in> set xs. u < x \<and> t < x \<and> \<not> got m2 (w - x)}"
        "hm_skipped m' = hm_skipped m2 + card {x \<in> set xs. u < x \<and> x \<le> t \<and> \<not> got m2 (w - x)}"
      using Cons.IH [OF m2(1) _ _ step] Cons.prems(2,3) m2(2) w by simp_all
    have sets: "{x \<in> set (a # xs). P x \<and> \<not> got m (w - x)} =
        (if P a \<and> \<not> got m c then insert a {x \<in> set xs. P x \<and> \<not> got m2 (w - x)}
         else {x \<in> set xs. P x \<and> \<not> got m2 (w - x)})" for P
      using g3 by (auto simp: c_def)
    have card: "card {x \<in> set (a # xs). P x \<and> \<not> got m (w - x)} =
        (if P a \<and> \<not> got m c then 1 else 0) + card {x \<in> set xs. P x \<and> \<not> got m2 (w - x)}" for P
      unfolding sets using a(4) by simp
    have mem: "w - b = a \<longleftrightarrow> b = c" if "b < w" for b using that a(1,2) by (auto simp: c_def)
    have "got m' b = (if w - b \<in> set (a # xs) then w - b = f else got m b)" if "b < w" for b
      using ih(1) g2 [OF that] mem [OF that] that a(4) by auto
    moreover have "hm_lost m2 = hm_lost m + (if (u < a \<and> t < a) \<and> \<not> got m c then 1 else 0)"
        "hm_skipped m2 = hm_skipped m + (if (u < a \<and> a \<le> t) \<and> \<not> got m c then 1 else 0)"
      by (simp_all add: m2_def m1_def)
    ultimately show ?case
      using ih(2,3) card [of "\<lambda>x. u < x \<and> t < x"] card [of "\<lambda>x. u < x \<and> x \<le> t"]
      by (simp add: conj_assoc)
  qed
  then show "b < w \<Longrightarrow> got m' b = (if w - b \<in> set xs then w - b = f else got m b)"
    and "hm_lost m' = hm_lost m + card {a \<in> set xs. u < a \<and> t < a \<and> \<not> got m (w - a)}"
    and "hm_skipped m' = hm_skipped m + card {a \<in> set xs. u < a \<and> a \<le> t \<and> \<not> got m (w - a)}"
    by auto
qed

lemma oldest_card:
  fixes cov w f u t :: nat
  assumes "cov \<le> w" "f < w" "u = w - cov"
  shows "card {a \<in> {1..f}. u < a \<and> t < a \<and> \<not> P (w - a)} +
      card {a \<in> {1..f}. u < a \<and> a \<le> t \<and> \<not> P (w - a)} =
    card {b. w - f \<le> b \<and> b < cov \<and> \<not> P b}" (is "card ?L + card ?S = card ?B")
proof -
  have "card ?L + card ?S = card (?L \<union> ?S)" by (rule card_Un_disjoint [symmetric]) auto
  also have "\<dots> = card ((\<lambda>b. w - b) ` ?B)"
  proof (rule arg_cong [of _ _ card], intro set_eqI iffI)
    fix a assume "a \<in> ?L \<union> ?S"
    then have a: "1 \<le> a" "a \<le> f" "u < a" "\<not> P (w - a)" by auto
    then have "a = w - (w - a)" "w - f \<le> w - a" "w - a < cov" using assms by auto
    then show "a \<in> (\<lambda>b. w - b) ` ?B" using a(4) by blast
  next
    fix a assume "a \<in> (\<lambda>b. w - b) ` ?B"
    then show "a \<in> ?L \<union> ?S" using assms by auto
  qed
  also have "\<dots> = card ?B" by (rule card_image) (use assms in \<open>auto simp: inj_on_def\<close>)
  finally show ?thesis .
qed

lemma slot_shift:
  fixes h w f b :: nat
  assumes "h < w" "0 < f" "f < w" "b < w"
  defines "h' \<equiv> if h + f \<ge> w then h + f - w else h + f" and "c \<equiv> if b < f then w + b - f else b - f"
  shows "(if b \<le> h' then h' - b else h' + w - b) = (if c \<le> h then h - c else h + w - c)"
proof -
  have "h' + (if h + f \<ge> w then w else 0) = h + f" "c + f = b + (if b < f then w else 0)"
    using assms by simp_all
  moreover have "(if b \<le> h' then h' - b else h' + w - b) + b = h' + (if b \<le> h' then 0 else w)"
      "(if c \<le> h then h - c else h + w - c) + c = h + (if c \<le> h then 0 else w)"
    using assms by simp_all
  ultimately show ?thesis
    using assms(1-4) by (cases "h + f \<ge> w"; cases "b < f"; cases "b \<le> h'"; cases "c \<le> h"; simp only: if_True if_False; linarith)
qed

lemma advance_result:
  assumes inv: "window_inv m" and f: "0 < f" "f < hm_window m"
  shows "window_inv (advance m seq f)"
    and "b < hm_window m \<Longrightarrow> got (advance m seq f) b =
      (if b = 0 then True else if b < f then False else got m (b - f))"
    and "hm_covered (advance m seq f) = min (hm_covered m + f) (hm_window m)"
    and "hm_lost (advance m seq f) + hm_skipped (advance m seq f) = hm_lost m + hm_skipped m +
      card {b. hm_window m - f \<le> b \<and> b < hm_covered m \<and> \<not> got m b}"
    and "hm_window (advance m seq f) = hm_window m" "hm_highest_seq (advance m seq f) = seq"
    and "hm_initialized (advance m seq f) = hm_initialized m"
    and "hm_resets (advance m seq f) = hm_resets m"
    and "b < hm_window m \<Longrightarrow> slot_behind (advance m seq f) b =
      slot_behind m (if b < f then hm_window m + b - f else b - f)"
proof -
  define w u t where "w = hm_window m" and "u = w - hm_covered m" and "t = u + hm_reset_tail m"
  define m' where "m' = advance_slots u t f [1..<f + 1] m"
  have adv: "advance m seq f = m'\<lparr>hm_reset_tail := hm_reset_tail m' - min (f - u) (hm_reset_tail m'),
      hm_highest_slot := slot_ahead m' f, hm_highest_seq := seq,
      hm_covered := min (hm_covered m' + f) (hm_window m')\<rparr>"
    by (simp add: advance_def Let_def m'_def u_def t_def w_def)
  have xs: "distinct [1..<f + 1]" "set [1..<f + 1] \<subseteq> {1..<hm_window m}" using f by auto
  note r = advance_slots_result [OF inv xs m'_def w_def]
  have slots: "set [1..<f + 1] = {1..f}" by auto
  have hs: "slot_ahead m' f = slot_ahead m f" "slot_ahead m f < w"
      "slot_ahead m f = (if hm_highest_slot m + f \<ge> w then hm_highest_slot m + f - w
        else hm_highest_slot m + f)"
    using window_invD(3) [OF inv] f by (auto simp: m'_def slot_ahead_def slot_wrap_def w_def)
  note wi = window_invD [OF inv]
  show fields: "hm_covered (advance m seq f) = min (hm_covered m + f) (hm_window m)"
    "hm_window (advance m seq f) = hm_window m" "hm_highest_seq (advance m seq f) = seq"
    "hm_initialized (advance m seq f) = hm_initialized m" "hm_resets (advance m seq f) = hm_resets m"
    by (simp_all add: adv m'_def)
  show inv': "window_inv (advance m seq f)"
  proof -
    define r where "r = hm_reset_tail m - min (f - u) (hm_reset_tail m)"
    have "r \<le> hm_reset_tail m" by (simp add: r_def)
    then have "r \<le> min (hm_covered m + f) w" "hm_initialized m \<Longrightarrow> r < min (hm_covered m + f) w"
      using wi(4,5) wi(8) f by (simp_all add: w_def)
    moreover have "0 < min (hm_covered m + f) w" using f by (simp add: w_def)
    ultimately show ?thesis
      using wi(1,2,6) hs(1,2) unfolding window_inv_def adv by (simp add: m'_def w_def r_def)
  qed
  have moved: "slot_behind (advance m seq f) b =
      slot_behind m (if b < f then hm_window m + b - f else b - f)" if b: "b < hm_window m" for b
  proof -
    define c where "c = (if b < f then w + b - f else b - f)"
    have c: "c < w" using b f by (auto simp: c_def w_def)
    have h': "hm_highest_slot (advance m seq f) =
        (if hm_highest_slot m + f \<ge> w then hm_highest_slot m + f - w else hm_highest_slot m + f)"
      using hs(1,3) by (simp add: adv)
    have "slot_behind (advance m seq f) b = slot_behind m c"
      unfolding slot_behind_eq [OF inv' b [folded fields(2)]] slot_behind_eq [OF inv c [unfolded w_def]]
        fields(2) h' unfolding c_def w_def by (rule slot_shift [OF wi(3) f b])
    then show ?thesis by (simp add: c_def w_def)
  qed
  then show "b < hm_window m \<Longrightarrow> slot_behind (advance m seq f) b =
      slot_behind m (if b < f then hm_window m + b - f else b - f)" .
  show "got (advance m seq f) b = (if b = 0 then True else if b < f then False else got m (b - f))"
    if b: "b < hm_window m" for b
  proof -
    define c where "c = (if b < f then w + b - f else b - f)"
    have c: "c < w" "w - c = (if b < f then f - b else w + f - b)"
      using b f by (auto simp: c_def w_def)
    have sb: "slot_behind m' x = slot_behind m x" for x
      by (simp add: m'_def slot_behind_def slot_wrap_def)
    have "slot_behind (advance m seq f) b = slot_behind m c"
      using moved [OF b] by (simp add: c_def w_def)
    then have "got (advance m seq f) b = got m' c"
      by (simp add: got_def sb is_emitted_def adv)
    then show ?thesis
      using r(1) [OF c(1)] c f b unfolding slots by (auto simp: c_def w_def)
  qed
  have "hm_lost m' + hm_skipped m' = hm_lost m + hm_skipped m +
      (card {a \<in> {1..f}. u < a \<and> t < a \<and> \<not> got m (w - a)} +
       card {a \<in> {1..f}. u < a \<and> a \<le> t \<and> \<not> got m (w - a)})"
    using r(2,3) unfolding slots by simp
  also have "\<dots> = hm_lost m + hm_skipped m + card {b. w - f \<le> b \<and> b < hm_covered m \<and> \<not> got m b}"
    using oldest_card [of "hm_covered m" w f u t "got m"] wi(4) f by (simp add: u_def w_def)
  finally show "hm_lost (advance m seq f) + hm_skipped (advance m seq f) = hm_lost m + hm_skipped m +
      card {b. hm_window m - f \<le> b \<and> b < hm_covered m \<and> \<not> got m b}"
    by (simp add: adv w_def)
qed

text \<open>The balance of one advance: it charges each number it passes once, now or later.\<close>

lemma advance_passed_over:
  assumes inv: "window_inv m" and f: "0 < f" "f < hm_window m" and cov: "0 < hm_covered m"
  shows "passed_over (advance m seq f) = passed_over m + (f - 1)"
proof -
  let ?w = "hm_window m" and ?c = "hm_covered m" and ?m = "advance m seq f"
  note r = advance_result [OF inv f, where seq = seq]
  let ?young = "{b. b < ?w - f \<and> b < ?c \<and> \<not> got m b}" and ?old = "{b. ?w - f \<le> b \<and> b < ?c \<and> \<not> got m b}"
  have "{b. b < hm_covered ?m \<and> \<not> got ?m b} = {1..<f} \<union> (\<lambda>b. b + f) ` ?young"
  proof (intro set_eqI iffI)
    fix b assume b: "b \<in> {b. b < hm_covered ?m \<and> \<not> got ?m b}"
    then have "b < ?w" using r(3) by simp
    then show "b \<in> {1..<f} \<union> (\<lambda>b. b + f) ` ?young"
      using b r(2) [of b] r(3) by (cases "b < f") (auto intro!: image_eqI [of b _ "b - f"] split: if_splits)
  next
    fix b assume b: "b \<in> {1..<f} \<union> (\<lambda>b. b + f) ` ?young"
    then have "b < ?w" using f by auto
    then show "b \<in> {b. b < hm_covered ?m \<and> \<not> got ?m b}"
      using b r(2) [of b] r(3) f cov by auto
  qed
  moreover have "{1..<f} \<inter> (\<lambda>b. b + f) ` ?young = {}" by auto
  ultimately have "unfilled ?m = (f - 1) + card ((\<lambda>b. b + f) ` ?young)"
    by (simp add: unfilled_def card_Un_disjoint)
  moreover have "card ((\<lambda>b. b + f) ` ?young) = card ?young" by (rule card_image) simp
  moreover have "unfilled m = card ?young + card ?old"
  proof -
    have "unfilled m = card (?young \<union> ?old)" unfolding unfilled_def by (rule arg_cong [of _ _ card]) auto
    also have "\<dots> = card ?young + card ?old" by (rule card_Un_disjoint) auto
    finally show ?thesis .
  qed
  ultimately show ?thesis using r(4) by (simp add: passed_over_def)
qed

end
