(* ===== verification/HitlessCorrect.thy ===== *)
theory HitlessCorrect
  imports HitlessWindow "HOL-Library.Code_Target_Nat"
begin

text \<open>
  What the 2022-7 merger guarantees over a whole run, with a ghost numbering of the stream
  that does not wrap: no sequence number is forwarded twice, and every number the stream
  passes is exactly one of forwarded, counted lost, counted skipped or still open.
\<close>

section \<open>A run of the merger\<close>

text \<open>The unwrapped number of \<open>seq\<close> when the highest one is \<open>H\<close>.\<close>

definition virt :: "hitless_merger \<Rightarrow> int \<Rightarrow> u16 \<Rightarrow> int" where
  "virt m H seq =
     (if unat (hm_highest_seq m - seq) < hm_window m then H - int (unat (hm_highest_seq m - seq))
      else H + int (unat (seq - hm_highest_seq m)))"

inductive merger_run :: "nat \<Rightarrow> hitless_merger \<Rightarrow> int \<Rightarrow> int list \<Rightarrow> bool" for w where
  start: "with_window w = Some m \<Longrightarrow> m1 = set_stale_after_us m t \<Longrightarrow>
    merger_run w (snd (try_merge m1 seq leg now)) (uint seq) [uint seq]"
| forwarded: "merger_run w m H out \<Longrightarrow> try_merge m seq leg now = (Some l, m') \<Longrightarrow>
    merger_run w m' (max H (virt m H seq)) (out @ [virt m H seq])"
| dropped: "merger_run w m H out \<Longrightarrow> try_merge m seq leg now = (None, m') \<Longrightarrow>
    merger_run w m' H out"
| observed: "merger_run w m H out \<Longrightarrow> merger_run w (observe m seq leg) H out"
| stale: "merger_run w m H out \<Longrightarrow> merger_run w (set_stale_after_us m t) H out"

definition run_inv :: "nat \<Rightarrow> hitless_merger \<Rightarrow> int \<Rightarrow> int list \<Rightarrow> bool" where
  "run_inv w m H out \<longleftrightarrow>
     window_inv m \<and> hm_window m = w \<and> hm_initialized m \<and> hm_highest_seq m = of_int H \<and>
     out \<noteq> [] \<and> distinct out \<and> H \<in> set out \<and> (\<forall>v\<in>set out. v \<le> H) \<and>
     (\<forall>b < w. got m b \<longleftrightarrow> H - int b \<in> set out) \<and>
     int (hm_covered m) = min (int w) (H - hd out + 1) \<and>
     int (passed_over m) + int (card {v \<in> set out. hd out \<le> v}) = H - hd out + 1"

section \<open>What each step leaves of the window\<close>

text \<open>The part of the state the window and its counts live in.\<close>

definition same_window :: "hitless_merger \<Rightarrow> hitless_merger \<Rightarrow> bool" where
  "same_window m m' \<longleftrightarrow>
     hm_window m' = hm_window m \<and> hm_highest_seq m' = hm_highest_seq m \<and>
     hm_highest_slot m' = hm_highest_slot m \<and> hm_emitted m' = hm_emitted m \<and>
     hm_covered m' = hm_covered m \<and> hm_reset_tail m' = hm_reset_tail m \<and>
     hm_lost m' = hm_lost m \<and> hm_skipped m' = hm_skipped m \<and>
     hm_initialized m' = hm_initialized m \<and> length (hm_leg_seq m') = length (hm_leg_seq m) \<and>
     hm_resets m' = hm_resets m"

lemma same_windowD:
  assumes "same_window m m'"
  shows "window_inv m' = window_inv m" "got m' = got m" "passed_over m' = passed_over m"
    "hm_window m' = hm_window m" "hm_highest_seq m' = hm_highest_seq m"
    "hm_initialized m' = hm_initialized m" "hm_covered m' = hm_covered m"
    "slot_behind m' = slot_behind m" "is_emitted m' = is_emitted m" "hm_resets m' = hm_resets m"
  using assms
  by (simp_all add: same_window_def window_inv_def fun_eq_iff got_def is_emitted_def
      slot_behind_def slot_wrap_def passed_over_def unfilled_def)

lemma same_window_trans: "same_window a b \<Longrightarrow> same_window b c \<Longrightarrow> same_window a c"
  by (simp add: same_window_def)

lemma same_window_observe [simp]: "same_window m (observe m seq leg)"
  by (simp add: same_window_def observe_def split: option.splits)

lemma same_window_stale [simp]: "same_window m (set_stale_after_us m t)"
  by (simp add: same_window_def set_stale_after_us_def)

lemma same_window_accept: "accept m leg now = (l, m') \<Longrightarrow> same_window m m'"
  by (auto simp: same_window_def accept_def)

lemma same_window_stream_moved: "stream_moved m seq leg prev now = (v, m') \<Longrightarrow> same_window m m'"
  by (auto simp: same_window_def stream_moved_def Let_def split: if_splits)

lemma run_inv_same_window: "same_window m m' \<Longrightarrow> run_inv w m H out \<Longrightarrow> run_inv w m' H out"
  by (simp add: run_inv_def same_windowD)

text \<open>The four outcomes of \<open>try_merge\<close> on a merger that has its anchor.\<close>

lemma try_merge_cases:
  assumes init: "hm_initialized m" and res: "try_merge m seq leg now = (r, m')"
    and w: "hm_window m \<le> 16384"
  shows "r = None \<and> same_window m m' \<or>
    (\<exists>m1 f. r = Some leg \<and> same_window m m1 \<and> f = unat (seq - hm_highest_seq m) \<and> hm_window m \<le> f \<and>
       hm_window m \<le> unat (hm_highest_seq m - seq) \<and> same_window (reanchor m1 seq f) m') \<or>
    (\<exists>m1 f. r = Some leg \<and> same_window m m1 \<and> f = unat (seq - hm_highest_seq m) \<and> 0 < f \<and>
       f < hm_window m \<and> hm_window m \<le> unat (hm_highest_seq m - seq) \<and>
       same_window (advance m1 seq f) m') \<or>
    (\<exists>m1 b. r = Some leg \<and> same_window m m1 \<and> b = unat (hm_highest_seq m - seq) \<and> b < hm_window m \<and>
       \<not> is_emitted m1 (slot_behind m1 b) \<and> same_window (set_emitted m1 (slot_behind m1 b) True) m')"
proof -
  let ?m = "observe m seq leg" and ?h = "hm_highest_seq m"
  define f b where "f = unat (seq - ?h)" and "b = unat (?h - seq)"
  have sw: "same_window m ?m" by simp
  note o = same_windowD [OF sw]
  have fb: "f > 0 \<Longrightarrow> b = 65536 - f" "f = 0 \<longleftrightarrow> b = 0" "f < 65536"
    using unat_u16_lt [of seq] unat_u16_lt [of ?h] unfolding f_def b_def
    by (auto simp: unat_diff_u16 simp del: unat_u16_lt)
  have cond: "0 < seq - ?h \<longleftrightarrow> 0 < f" "seq - ?h < 0x8000 \<longleftrightarrow> f < 32768"
    unfolding f_def by (simp_all add: word_gt_0 unat_gt_0 word_less_nat_alt)
  have tm: "try_merge m seq leg now =
      (if 0 < f \<and> f < 32768 then
         accept (if f \<ge> hm_window m then reanchor ?m seq f else advance ?m seq f) leg now
       else if b < hm_window m then
         (if is_emitted ?m (slot_behind ?m b) then (None, ?m)
          else accept (set_emitted ?m (slot_behind ?m b) True) leg now)
       else (let (moved, m1) = stream_moved ?m seq leg (leg_prev m leg) now in
          if moved then accept (reanchor m1 seq f) leg now else (None, m1)))"
    using init by (simp add: try_merge_def Let_def o cond f_def [symmetric] b_def [symmetric]
        split: prod.splits)
  have acc: "accept m2 leg now = (r, m') \<Longrightarrow> r = Some leg \<and> same_window m2 m'" for m2
    using same_window_accept [of m2 leg now r m'] by (simp add: accept_def)
  consider (forward) "0 < f" "f < 32768" | (window) "\<not> (0 < f \<and> f < 32768)" "b < hm_window m"
    | (far) "\<not> (0 < f \<and> f < 32768)" "hm_window m \<le> b" by linarith
  then show ?thesis
  proof cases
    case forward
    then have "hm_window m \<le> b" using fb(1) w by simp
    moreover have "accept (if f \<ge> hm_window m then reanchor ?m seq f else advance ?m seq f) leg now = (r, m')"
      using forward res unfolding tm by simp
    note acc [OF this]
    ultimately show ?thesis
      using forward(1) sw unfolding f_def [symmetric] b_def [symmetric]
      by (cases "f \<ge> hm_window m") (simp only: if_True if_False not_le, blast)+
  next
    case window
    show ?thesis
    proof (cases "is_emitted ?m (slot_behind ?m b)")
      case True
      then show ?thesis using window res sw unfolding tm by auto
    next
      case False
      then have "accept (set_emitted ?m (slot_behind ?m b) True) leg now = (r, m')"
        using window res unfolding tm by auto
      from acc [OF this] show ?thesis using False window(2) sw unfolding b_def by blast
    qed
  next
    case far
    obtain moved m1 where st: "stream_moved ?m seq leg (leg_prev m leg) now = (moved, m1)" by force
    note sw1 = same_window_trans [OF sw same_window_stream_moved [OF st]]
    have "hm_window m \<le> f" using far fb w by auto
    show ?thesis
    proof (cases moved)
      case True
      then have "accept (reanchor m1 seq f) leg now = (r, m')" using far res st unfolding tm by auto
      from acc [OF this] show ?thesis
        using \<open>hm_window m \<le> f\<close> far(2) sw1 unfolding b_def f_def by blast
    next
      case False
      then show ?thesis using far res st sw1 unfolding tm by auto
    qed
  qed
qed

section \<open>The run invariant\<close>

lemma of_int_forward: "(of_int H :: u16) = h \<Longrightarrow> of_int (H + int (unat (seq - h))) = seq"
  by simp

lemma card_insert_from:
  "finite S \<Longrightarrow> x \<notin> S \<Longrightarrow>
     card {v \<in> insert x S. (lo :: int) \<le> v} = card {v \<in> S. lo \<le> v} + (if lo \<le> x then 1 else 0)"
proof -
  assume "finite S" "x \<notin> S"
  moreover have "{v \<in> insert x S. lo \<le> v} = (if lo \<le> x then insert x {v \<in> S. lo \<le> v} else {v \<in> S. lo \<le> v})"
    by auto
  ultimately show ?thesis by simp
qed

text \<open>One forwarded packet past the highest: the window moved on by \<open>f\<close>, whether it slid or was
  anchored anew.\<close>

lemma run_inv_forward:
  assumes run: "run_inv w m H out" and f: "0 < f" and H': "H' = H + int f"
    and m': "window_inv m'" "hm_window m' = w" "hm_initialized m'" "hm_highest_seq m' = of_int H'"
    and g: "\<And>b. b < w \<Longrightarrow> got m' b = (b = 0 \<or> f \<le> b \<and> got m (b - f))"
    and cov: "hm_covered m' = min (hm_covered m + f) w"
    and po: "passed_over m' = passed_over m + (f - 1)"
  shows "run_inv w m' H' (out @ [H'])"
proof -
  note r = run [unfolded run_inv_def]
  have new: "H' \<notin> set out" "hd (out @ [H']) = hd out" "hd out \<le> H'" using r H' f by auto
  have "got m' b \<longleftrightarrow> H' - int b \<in> set (out @ [H'])" if b: "b < w" for b
  proof (cases "f \<le> b")
    case True
    then have "got m (b - f) \<longleftrightarrow> H - int (b - f) \<in> set out" using r b by (meson less_imp_diff_less)
    moreover have "H - int (b - f) = H' - int b" using True H' by simp
    ultimately have "got m (b - f) \<longleftrightarrow> H' - int b \<in> set out" by (simp only:)
    moreover have "b \<noteq> 0" "H' - int b \<noteq> H'" using True f by auto
    ultimately show ?thesis using g [OF b] True by simp
  next
    case False
    then have "H' - int b \<notin> set out" using r H' by fastforce
    then show ?thesis using g [OF b] False by auto
  qed
  moreover have "int (passed_over m') + int (card {v \<in> set (out @ [H']). hd out \<le> v}) = H' - hd out + 1"
    using r po f new(1,3) card_insert_from [of "set out" H' "hd out"] by (simp add: H')
  moreover have "int (hm_covered m') = min (int w) (H' - hd out + 1)"
  proof -
    have "int (hm_covered m) = min (int w) (H - hd out + 1)" using r by blast
    then show ?thesis using cov H' by (simp add: min_def split: if_splits)
  qed
  moreover have "\<forall>v\<in>set (out @ [H']). v \<le> H'" using r H' by fastforce
  ultimately show ?thesis using r m' new unfolding run_inv_def by simp
qed

lemma run_inv_fill:
  assumes run: "run_inv w m H out" and b: "b < w" "\<not> got m b"
    and m': "m' = set_emitted m (slot_behind m b) True"
  shows "run_inv w m' H (out @ [H - int b])"
proof -
  note r = run [unfolded run_inv_def]
  have inv: "window_inv m" and w: "hm_window m = w" using r by auto
  have g: "got m' c = (c = b \<or> got m c)" if "c < w" for c
    using got_set_emitted [OF inv, of c b True] that b w m' by auto
  have new: "H - int b \<notin> set out" using r b by blast
  have "got m' c \<longleftrightarrow> H - int c \<in> set (out @ [H - int b])" if "c < w" for c
    using g [OF that] r that by auto
  moreover have "int (passed_over m') + int (card {v \<in> set (out @ [H - int b]). hd out \<le> v}) =
      H - hd out + 1"
  proof -
    have c: "b < hm_covered m \<longleftrightarrow> hd out \<le> H - int b" using r b(1) by auto
    have "{x. x < hm_covered m \<and> \<not> got m' x} = {x. x < hm_covered m \<and> \<not> got m x} - {b}"
      using g window_invD(4) [OF inv] w by auto
    then have "unfilled m' = unfilled m - (if b < hm_covered m then 1 else 0)"
      using b(2) by (simp add: unfilled_def m')
    moreover have "b < hm_covered m \<longrightarrow> 0 < unfilled m"
      using b(2) by (auto simp: unfilled_def card_gt_0_iff)
    ultimately have "passed_over m' + (if b < hm_covered m then 1 else 0) = passed_over m"
      by (auto simp: passed_over_def m')
    then show ?thesis
      using r card_insert_from [OF _ new, of "hd out"] c by (auto split: if_splits)
  qed
  ultimately show ?thesis using r new m' unfolding run_inv_def by simp
qed

lemma run_inv_start:
  assumes "with_window w = Some m0" "m = set_stale_after_us m0 t"
  shows "run_inv w (snd (try_merge m seq leg now)) (uint seq) [uint seq]"
proof -
  have w: "window_ok w" "m0 = merger_fresh w" using assms(1) by (auto simp: with_window_def split: if_splits)
  let ?m = "observe m seq leg" and ?a = "anchor (observe m seq leg) seq"
  have f: "hm_window ?m = w" "length (hm_emitted ?m) = w div 64" "\<not> hm_initialized ?m"
      "hm_lost ?m = 0" "hm_skipped ?m = 0" "length (hm_leg_seq ?m) = 2"
    using same_window_observe [of m seq leg] assms(2) w(2)
    unfolding same_window_def by (simp_all add: set_stale_after_us_def merger_fresh_def)
  have sw: "same_window (?a\<lparr>hm_initialized := True\<rparr>) (snd (try_merge m seq leg now))"
    using f(3) same_window_accept by (simp add: try_merge_def Let_def) (metis prod.collapse)
  have g: "got (?a\<lparr>hm_initialized := True\<rparr>) b \<longleftrightarrow> b = 0" if "b < w" for b
    using got_anchor [of ?m b seq] got_cong [of "?a\<lparr>hm_initialized := True\<rparr>" ?a b] w(1) f that by simp
  have "{b. b < 1 \<and> \<not> got (?a\<lparr>hm_initialized := True\<rparr>) b} = {}"
    using g [of 0] window_okD(4) [OF w(1)] by (auto intro!: gr0I)
  then have "passed_over (?a\<lparr>hm_initialized := True\<rparr>) = 0"
    using f by (simp add: passed_over_def unfilled_def)
  moreover have "window_inv (?a\<lparr>hm_initialized := True\<rparr>)"
    using w(1) window_okD(4) [OF w(1)] f by (simp add: window_inv_def)
  moreover have one: "{v \<in> set [uint seq]. hd [uint seq] \<le> v} = {uint seq}" by auto
  ultimately have "run_inv w (?a\<lparr>hm_initialized := True\<rparr>) (uint seq) [uint seq]"
    using g f window_okD(1) [OF w(1)] unfolding run_inv_def one by simp
  then show ?thesis by (rule run_inv_same_window [OF sw])
qed

lemma run_inv_packet:
  assumes run: "run_inv w m H out" and res: "try_merge m seq leg now = (r, m')"
  shows "r = None \<Longrightarrow> run_inv w m' H out \<and> same_window m m'"
    and "r = Some l \<Longrightarrow> run_inv w m' (max H (virt m H seq)) (out @ [virt m H seq])"
proof -
  note ri = run [unfolded run_inv_def]
  have inv: "window_inv m" and w: "hm_window m = w" "hm_initialized m" and h: "hm_highest_seq m = of_int H"
    using ri by auto
  let ?f = "unat (seq - hm_highest_seq m)" and ?b = "unat (hm_highest_seq m - seq)"
  have seq: "of_int (H + int ?f) = seq" using of_int_forward [OF h [symmetric]] .
  have cov: "0 < hm_covered m" using window_invD(7) [OF inv w(2)] .
  consider (none) "r = None" "same_window m m'"
    | (re) m1 where "r = Some leg" "same_window m m1" "w \<le> ?f" "w \<le> ?b" "same_window (reanchor m1 seq ?f) m'"
    | (adv) m1 where "r = Some leg" "same_window m m1" "0 < ?f" "?f < w" "w \<le> ?b" "same_window (advance m1 seq ?f) m'"
    | (fill) m1 where "r = Some leg" "same_window m m1" "?b < w" "\<not> is_emitted m1 (slot_behind m1 ?b)"
        "same_window (set_emitted m1 (slot_behind m1 ?b) True) m'"
    using try_merge_cases [OF w(2) res] window_okD(2) [OF window_invD(1) [OF inv]] w(1) by auto
  then have "(r = None \<longrightarrow> run_inv w m' H out \<and> same_window m m') \<and>
     (r = Some l \<longrightarrow> run_inv w m' (max H (virt m H seq)) (out @ [virt m H seq]))"
  proof cases
    case none
    then show ?thesis using run_inv_same_window [OF none(2) run] by simp
  next
    case (re m1)
    note run1 = run_inv_same_window [OF re(2) run]
    then have i1: "window_inv m1" "hm_window m1 = w" "hm_initialized m1" by (auto simp: run_inv_def)
    note rr = reanchor_result [OF i1(1), where f = ?f and seq = seq]
    have "hm_covered (reanchor m1 seq ?f) = min (hm_covered m1 + ?f) w" using rr(4) re(3) i1(2) by simp
    moreover have "0 < ?f" using re(3) window_okD(4) [OF window_invD(1) [OF i1(1)]] i1(2) by simp
    ultimately have "run_inv w (reanchor m1 seq ?f) (H + int ?f) (out @ [H + int ?f])"
      using rr re(3) i1 seq by (intro run_inv_forward [where f = ?f, OF run1 _ refl]) auto
    then show ?thesis
      using run_inv_same_window [OF re(5)] re(1,4) w(1) by (simp add: virt_def)
  next
    case (adv m1)
    note run1 = run_inv_same_window [OF adv(2) run]
    then have i1: "window_inv m1" "hm_window m1 = w" "hm_initialized m1" by (auto simp: run_inv_def)
    note rr = advance_result [OF i1(1) adv(3), where seq = seq]
    have "run_inv w (advance m1 seq ?f) (H + int ?f) (out @ [H + int ?f])"
      using rr adv(3,4) i1 seq advance_passed_over [OF i1(1) adv(3), where seq = seq] window_invD(7) [OF i1(1,3)]
      by (intro run_inv_forward [OF run1 adv(3) refl]) auto
    then show ?thesis
      using run_inv_same_window [OF adv(6)] adv(1,5) w(1) by (simp add: virt_def)
  next
    case (fill m1)
    note run1 = run_inv_same_window [OF fill(2) run]
    have "run_inv w (set_emitted m1 (slot_behind m1 ?b) True) H (out @ [H - int ?b])"
      using fill(3,4) by (intro run_inv_fill [OF run1 _ _ refl]) (simp_all add: got_def)
    then show ?thesis
      using run_inv_same_window [OF fill(5)] fill(1,3) w(1) by (simp add: virt_def)
  qed
  then show "r = None \<Longrightarrow> run_inv w m' H out \<and> same_window m m'"
    and "r = Some l \<Longrightarrow> run_inv w m' (max H (virt m H seq)) (out @ [virt m H seq])" by auto
qed

lemma merger_run_inv: "merger_run w m H out \<Longrightarrow> run_inv w m H out"
proof (induction rule: merger_run.induct)
  case (start m m1 t seq leg now)
  then show ?case by (rule run_inv_start)
next
  case (forwarded m H out seq leg now l m')
  then show ?case using run_inv_packet(2) by blast
next
  case (dropped m H out seq leg now m')
  then show ?case using run_inv_packet(1) by blast
next
  case (observed m H out seq leg)
  then show ?case using run_inv_same_window [OF same_window_observe] by blast
next
  case (stale m H out t)
  then show ?case using run_inv_same_window [OF same_window_stale] by blast
qed

lemma gap_fill_decision:
  assumes r: "run_inv w m H out"
  shows "b < w \<Longrightarrow> seq = of_int (H - int b) \<Longrightarrow>
      fst (try_merge m seq leg now) = (if H - int b \<in> set out then None else Some leg)"
    and "0 < f \<and> f < 32768 \<and> seq = of_int (H + int f) \<Longrightarrow> fst (try_merge m seq leg now) = Some leg"
proof -
  note r = r [unfolded run_inv_def]
  let ?m = "observe m seq leg"
  note o = same_windowD [OF same_window_observe [of m seq leg]]
  have w: "w \<le> 16384" using r window_okD(2) [OF window_invD(1), of m] by auto
  show "fst (try_merge m seq leg now) = (if H - int b \<in> set out then None else Some leg)"
    if "b < w" "seq = of_int (H - int b)"
  proof -
    have d: "hm_highest_seq m - seq = of_nat b" "seq - hm_highest_seq m = - of_nat b" using r that(2) by simp_all
    have ub: "unat (of_nat b :: u16) = b" using that(1) w by (simp add: unat_of_nat_u16)
    have "\<not> (0 < seq - hm_highest_seq m \<and> seq - hm_highest_seq m < 0x8000)"
      using that(1) w ub d(1)
      by (auto simp: word_less_nat_alt unat_diff_swap [of seq "hm_highest_seq m"] split: if_splits)
    moreover have "hm_initialized m" "hm_window m = w"
        "is_emitted m (slot_behind m b) \<longleftrightarrow> H - int b \<in> set out"
      using r that(1) by (auto simp: got_def)
    ultimately show ?thesis
      using that(1) by (auto simp: try_merge_def Let_def o d(1) ub accept_def)
  qed
  show "fst (try_merge m seq leg now) = Some leg"
    if "0 < f \<and> f < 32768 \<and> seq = of_int (H + int f)"
  proof -
    have "seq - hm_highest_seq m = of_nat f" "hm_initialized m" using r that by simp_all
    moreover have "(0 :: u16) < of_nat f" "(of_nat f :: u16) < 0x8000"
      using that by (simp_all add: unat_of_nat_u16 word_less_nat_alt)
    ultimately show ?thesis by (simp add: try_merge_def Let_def o accept_def)
  qed
qed

section \<open>Guarantees\<close>


text \<open>Two legs: leg 1 loses 11, leg 2 fills it.\<close>

definition demo_merge :: "nat \<Rightarrow> hitless_merger" where
  "demo_merge n = fold (\<lambda>(seq, leg) m. snd (try_merge m seq leg 0))
     (take n [(10, Leg1), (12, Leg1), (11, Leg2), (12, Leg2)]) (merger_fresh 64)"

lemma demo_merge_steps:
  "fst (try_merge (demo_merge 1) 12 Leg1 0) = Some Leg1"
  "fst (try_merge (demo_merge 2) 11 Leg2 0) = Some Leg2"
  "fst (try_merge (demo_merge 3) 12 Leg2 0) = None"
  "hm_highest_seq (demo_merge 1) = 10" "hm_highest_seq (demo_merge 2) = 12"
  "hm_window (demo_merge 1) = 64" "hm_window (demo_merge 2) = 64"
  by code_simp+

lemma demo_merge_Suc:
  "demo_merge 1 = snd (try_merge (merger_fresh 64) 10 Leg1 0)"
  "demo_merge 2 = snd (try_merge (demo_merge 1) 12 Leg1 0)"
  "demo_merge 3 = snd (try_merge (demo_merge 2) 11 Leg2 0)"
  "demo_merge 4 = snd (try_merge (demo_merge 3) 12 Leg2 0)"
  by (simp_all add: demo_merge_def numeral_eq_Suc)

lemma demo_merge_run:
  "merger_run 64 (demo_merge 1) 10 [10]" "merger_run 64 (demo_merge 2) 12 [10, 12]"
  "merger_run 64 (demo_merge 3) 12 [10, 12, 11]" "merger_run 64 (demo_merge 4) 12 [10, 12, 11]"
proof -
  have st: "merger_fresh 64 = set_stale_after_us (merger_fresh 64) 1000000"
    by (simp add: set_stale_after_us_def merger_fresh_def DEFAULT_STALE_AFTER_US_def)
  have ok: "with_window 64 = Some (merger_fresh 64)" by (simp add: with_window_def window_ok_def)
  show r1: "merger_run 64 (demo_merge 1) 10 [10]"
    using merger_run.start [OF ok st, of 10 Leg1 0] unfolding demo_merge_Suc(1) by simp
  have v: "virt (demo_merge 1) 10 12 = 12" "virt (demo_merge 2) 12 11 = 11"
    using demo_merge_steps by (simp_all add: virt_def)
  show r2: "merger_run 64 (demo_merge 2) 12 [10, 12]"
    using merger_run.forwarded [OF r1, of 12 Leg1 0 Leg1 "demo_merge 2"] demo_merge_steps(1) v
    by (simp add: demo_merge_Suc(2) prod_eq_iff)
  show r3: "merger_run 64 (demo_merge 3) 12 [10, 12, 11]"
    using merger_run.forwarded [OF r2, of 11 Leg2 0 Leg2 "demo_merge 3"] demo_merge_steps(2) v
    by (simp add: demo_merge_Suc(3) prod_eq_iff)
  show "merger_run 64 (demo_merge 4) 12 [10, 12, 11]"
    using merger_run.dropped [OF r3, of 12 Leg2 0 "demo_merge 4"] demo_merge_steps(3)
    by (simp add: demo_merge_Suc(4) prod_eq_iff)
qed


text \<open>Property C25. The loss counts balance: counting from the first packet, every number of the
  stream up to the highest is exactly one of forwarded, counted lost, counted skipped, or
  still open in the window for a lagging leg to fill. Nothing is counted twice and nothing
  is missed, whatever re-anchors happened.\<close>

theorem hitless_counts_balance:
  assumes "merger_run w m H out"
  shows "int (hm_lost m) + int (hm_skipped m) + int (unfilled m) +
    int (card {v \<in> set out. hd out \<le> v}) = H - hd out + 1"
  using merger_run_inv [OF assms] by (simp add: run_inv_def passed_over_def)

theorem hitless_counts_balance_witness:
  "hm_lost (demo_merge 2) + hm_skipped (demo_merge 2) + unfilled (demo_merge 2) = 1"
proof -
  have "{v \<in> set [10 :: int, 12]. hd [10, 12] \<le> v} = {10, 12}" by auto
  then show ?thesis using hitless_counts_balance [OF demo_merge_run(2)] by simp
qed

text \<open>Property C33. Inside the window the first copy of a number is forwarded and every further copy
  is dropped, from whichever leg and however late; a number past the highest, within half of
  the sequence space, is always forwarded.\<close>

theorem hitless_gap_fill_decides:
  assumes run: "merger_run w m H out"
  shows "(\<forall>b < w. seq = of_int (H - int b) \<longrightarrow>
      fst (try_merge m seq leg now) = (if H - int b \<in> set out then None else Some leg)) \<and>
    (\<forall>f. 0 < f \<and> f < 32768 \<and> seq = of_int (H + int f) \<longrightarrow> fst (try_merge m seq leg now) = Some leg)"
  using gap_fill_decision [OF merger_run_inv [OF run]] by blast

theorem hitless_gap_fill_decides_witness:
  "fst (try_merge (demo_merge 2) 11 Leg2 7) = Some Leg2 \<and>
   fst (try_merge (demo_merge 3) 11 Leg1 7) = None"
proof
  show "fst (try_merge (demo_merge 2) 11 Leg2 7) = Some Leg2"
    using hitless_gap_fill_decides [OF demo_merge_run(2), of 11 Leg2 7] by (auto dest!: spec [of _ 1])
  show "fst (try_merge (demo_merge 3) 11 Leg1 7) = None"
    using hitless_gap_fill_decides [OF demo_merge_run(3), of 11 Leg1 7] by (auto dest!: spec [of _ 1])
qed

text \<open>A leg that only lags never moves the window: when a packet is too far behind,
  runs on from its own leg's previous packet and that leg's sequence has not broken, it is
  dropped, whatever the clock says, and the window, its counts and the break memory stay as
  they were. Only the leg's own position is noted.\<close>

lemma lagging_leg_never_moves_window:
  assumes init: "hm_initialized m" and far: "behind_window m seq (hm_highest_seq m)"
    and prev: "leg_prev m leg = Some p" "\<not> behind_window m seq p"
    and unbroken: "hm_moved m AND leg_bit leg = 0"
  shows "try_merge m seq leg now = (None, observe m seq leg)"
proof -
  have o: "hm_moved (observe m seq leg) = hm_moved m"
      "behind_window (observe m seq leg) seq p = behind_window m seq p"
    by (simp_all add: observe_def behind_window_def split: option.splits)
  then have "stream_moved (observe m seq leg) seq leg (Some p) now = (False, observe m seq leg)"
    using prev(2) unbroken by (simp add: stream_moved_def)
  moreover have "\<not> seq - hm_highest_seq m < 0x8000" "\<not> unat (hm_highest_seq m - seq) < hm_window m"
    using far by (auto simp: behind_window_def not_le)
  ultimately show ?thesis
    using init prev(1) same_windowD [OF same_window_observe [of m seq leg]]
    by (simp add: try_merge_def Let_def)
qed

definition demo_lag :: hitless_merger where
  "demo_lag = (merger_fresh 64)\<lparr>hm_initialized := True, hm_highest_seq := 500,
     hm_leg_seq := [Some 500, Some 100]\<rparr>"

text \<open>A packet too far behind re-anchors the window only on the evidence the source
  names: its leg's sequence broke, and either nothing was accepted for the stale time or the
  other leg's sequence broke at the very same number.\<close>

lemma reanchor_needs_evidence:
  assumes init: "hm_initialized m" and far: "behind_window m seq (hm_highest_seq m)"
    and res: "try_merge m seq leg now = (Some l, m')"
  shows "(hm_moved m AND leg_bit leg \<noteq> 0 \<or> leg_prev m leg = None \<or>
      (\<exists>p. leg_prev m leg = Some p \<and> behind_window m seq p)) \<and>
    (hm_stale_after_us m \<le> now - hm_last_accept_us m \<or>
      (\<exists>l' first. hm_last_break m = Some (seq, l', first) \<and> l' \<noteq> leg))"
proof -
  let ?m = "observe m seq leg"
  have o: "hm_moved ?m = hm_moved m" "\<And>p. behind_window ?m seq p = behind_window m seq p"
      "hm_stale_after_us ?m = hm_stale_after_us m" "hm_last_accept_us ?m = hm_last_accept_us m"
      "hm_last_break ?m = hm_last_break m"
    by (simp_all add: observe_def behind_window_def split: option.splits)
  have "\<not> seq - hm_highest_seq m < 0x8000" "\<not> unat (hm_highest_seq m - seq) < hm_window m"
    using far by (auto simp: behind_window_def not_le)
  then have "fst (stream_moved ?m seq leg (leg_prev m leg) now)"
    using init res same_windowD [OF same_window_observe [of m seq leg]]
    by (simp add: try_merge_def Let_def split: prod.splits if_splits)
  then show ?thesis
    using o by (auto simp: stream_moved_def Let_def split: if_splits option.splits)
qed

text \<open>A restart forgets the stream and keeps the account: the numbers still open are
  charged, as lost or as skipped, so the sum of the two counts becomes all that was passed
  over; the window, the stale time and the re-anchor count carry on.\<close>

lemma restart_keeps_account:
  assumes "window_inv m"
  shows "hm_lost (merger_restart m) + hm_skipped (merger_restart m) =
      hm_lost m + hm_skipped m + unfilled m \<and>
    unfilled (merger_restart m) = 0 \<and> \<not> hm_initialized (merger_restart m) \<and>
    window_inv (merger_restart m) \<and> hm_window (merger_restart m) = hm_window m \<and>
    hm_stale_after_us (merger_restart m) = hm_stale_after_us m \<and>
    hm_resets (merger_restart m) = hm_resets m"
  using assms count_unfilled_counts(1) [OF assms] window_okD(4) [OF window_invD(1) [OF assms]]
  by (simp add: merger_restart_def Let_def set_stale_after_us_def merger_fresh_def window_inv_def
      unfilled_def passed_over_def)

text \<open>Counting a stretch of the window a 64-bit word at a time, with masks and
  population counts and the wrap at the end of the bitmap, gives the number of its sequence
  numbers that were forwarded.\<close>

lemma popcount_counts_forwarded:
  assumes "window_inv m" "from + n \<le> hm_window m"
  shows "emitted_behind m from n = card {b. from \<le> b \<and> b < from + n \<and> got m b}"
  by (rule emitted_behind_card [OF assms])

end
