(* ===== verification/HitlessRuns.thy ===== *)
theory HitlessRuns
  imports HitlessCorrect
begin

text \<open>
  \<open>HitlessRunMerger\<close> of \<open>src/src/redundancy/merger.rs\<close>, where a sequence number names a run of
  packets: over any interleaving of the two legs each run comes out in its own order, every
  packet at most once, and only past packets that came out before it.
\<close>

section \<open>Slots follow their sequence number\<close>

lemma nat_lt_window: "0 \<le> x \<Longrightarrow> x < int w \<Longrightarrow> nat x < w"
  by linarith

lemma slots_follow:
  assumes run: "run_inv w m H out" and res: "try_merge m seq leg now = (Some l, m')"
    and H': "H' = max H (virt m H seq)" and v: "v \<in> set out" "H' - v < int w"
  shows "slot_behind m' (nat (H' - v)) = slot_behind m (nat (H - v))"
proof -
  note ri = run [unfolded run_inv_def]
  have inv: "window_inv m" and w: "hm_window m = w" "hm_initialized m" and vH: "v \<le> H"
    using ri v(1) by auto
  let ?f = "unat (seq - hm_highest_seq m)" and ?b = "unat (hm_highest_seq m - seq)"
  consider (re) m1 where "same_window m m1" "w \<le> ?f" "w \<le> ?b"
    | (adv) m1 where "same_window m m1" "0 < ?f" "?f < w" "w \<le> ?b" "same_window (advance m1 seq ?f) m'"
    | (fill) m1 where "same_window m m1" "?b < w" "same_window (set_emitted m1 (slot_behind m1 ?b) True) m'"
    using try_merge_cases [OF w(2) res] window_okD(2) [OF window_invD(1) [OF inv]] w(1) by auto
  then show ?thesis
  proof cases
    case re
    then have "H' = H + int ?f" by (simp add: H' virt_def w)
    then have False using re(2) v(2) vH by linarith
    then show ?thesis ..
  next
    case (adv m1)
    then have h: "H' = H + int ?f" by (simp add: H' virt_def w)
    note m1 = same_windowD [OF adv(1)]
    have i1: "window_inv m1" "?f < hm_window m1" using m1 inv w adv(3) by auto
    have "nat (H' - v) < hm_window m1"
      using nat_lt_window [of "H' - v" w] v(2) vH m1(4) w(1) unfolding h by linarith
    note moved = advance_result(9) [OF i1(1) adv(2) i1(2) this, of seq]
    have "slot_behind (advance m1 seq ?f) (nat (H' - v)) = slot_behind m1 (nat (H - v))"
    proof -
      have "nat (H' - v) = nat (H - v) + ?f" using vH h by linarith
      then show ?thesis using moved by simp
    qed
    then show ?thesis using same_windowD(8) [OF adv(5)] m1(8) by simp
  next
    case (fill m1)
    then have "H' = H" by (simp add: H' virt_def w)
    then show ?thesis
      using same_windowD(8) [OF fill(3)] same_windowD(8) [OF fill(1)] by (simp add: fun_eq_iff)
  qed
qed

lemma virt_in_window:
  assumes run: "run_inv w m H out" and res: "try_merge m seq leg now = (Some l, m')"
    and H': "H' = max H (virt m H seq)"
  shows "0 \<le> H' - virt m H seq" "H' - virt m H seq < int w" "virt m H seq \<notin> set out"
    "of_int (virt m H seq) = seq"
proof -
  have r': "run_inv w m' H' (out @ [virt m H seq])"
    using run_inv_packet(2) [OF run res refl] H' by simp
  have w: "0 < w" "hm_window m = w" "hm_highest_seq m = of_int H"
    using run window_okD(4) [OF window_invD(1), of m] by (auto simp: run_inv_def)
  show "0 \<le> H' - virt m H seq" by (simp add: H')
  show "H' - virt m H seq < int w"
    using w by (cases "unat (hm_highest_seq m - seq) < w") (simp_all add: H' virt_def del: of_nat_unat)
  show "virt m H seq \<notin> set out" using r' by (simp add: run_inv_def)
  show "of_int (virt m H seq) = seq" using w(3) by (simp add: virt_def)
qed

lemma slot_of_virt:
  assumes run: "run_inv w m H out" and v: "0 \<le> H - v" "H - v < int w" "of_int v = seq"
  shows "slot_of m seq = Some (slot_behind m (nat (H - v)))"
proof -
  note r = run [unfolded run_inv_def]
  have w: "w \<le> 16384" using r window_okD(2) [OF window_invD(1), of m] by auto
  have d: "hm_highest_seq m - seq = of_nat (nat (H - v))" using r v by simp
  have "unat (hm_highest_seq m - seq) = nat (H - v)"
    unfolding d by (rule unat_of_nat_u16) (use v w in simp)
  moreover have "nat (H - v) < w" by (rule nat_lt_window [OF v(1,2)])
  moreover have "hm_initialized m" "hm_window m = w" using r by auto
  ultimately show ?thesis by (simp add: slot_of_def)
qed

section \<open>Runs come out in order\<close>

text \<open>\<open>heads\<close> lists the unwrapped numbers whose run was opened, \<open>fw\<close> what was forwarded: the
  number and the packet's index in its run. Indices stay below the largest \<open>u16\<close>, where the
  source's saturating increment would stand still.\<close>

inductive runs :: "nat \<Rightarrow> run_merger \<Rightarrow> int \<Rightarrow> int list \<Rightarrow> (int \<times> nat) list \<Rightarrow> bool" for w where
  start: "run_merger_new w = Some r \<Longrightarrow> index \<noteq> - 1 \<Longrightarrow>
    run_try_merge r seq index leg now = (res, r') \<Longrightarrow>
    runs w r' (uint seq) [uint seq] (if res = None then [] else [(uint seq, unat index)])"
| opens: "runs w r H heads fw \<Longrightarrow> index \<noteq> - 1 \<Longrightarrow>
    fst (try_merge (rm_seqs r) seq leg now) \<noteq> None \<Longrightarrow> v = virt (rm_seqs r) H seq \<Longrightarrow>
    run_try_merge r seq index leg now = (res, r') \<Longrightarrow>
    runs w r' (max H v) (heads @ [v]) (if res = None then fw else fw @ [(v, unat index)])"
| continues: "runs w r H heads fw \<Longrightarrow> index \<noteq> - 1 \<Longrightarrow>
    fst (try_merge (rm_seqs r) seq leg now) = None \<Longrightarrow> v = virt (rm_seqs r) H seq \<Longrightarrow>
    run_try_merge r seq index leg now = (res, r') \<Longrightarrow>
    runs w r' H heads (if res = None then fw else fw @ [(v, unat index)])"

definition indexes_of :: "int \<Rightarrow> (int \<times> nat) list \<Rightarrow> nat list" where
  "indexes_of v fw = map snd (filter (\<lambda>p. fst p = v) fw)"

lemma indexes_of_simps [simp]:
  "indexes_of v [] = []"
  "indexes_of v (fw @ [(u, i)]) = (if u = v then indexes_of v fw @ [i] else indexes_of v fw)"
  by (auto simp: indexes_of_def)

definition runs_inv :: "nat \<Rightarrow> run_merger \<Rightarrow> int \<Rightarrow> int list \<Rightarrow> (int \<times> nat) list \<Rightarrow> bool" where
  "runs_inv w r H heads fw \<longleftrightarrow>
     run_inv w (rm_seqs r) H heads \<and> length (rm_next r) = w \<and>
     (\<forall>v. indexes_of v fw = [0..<length (indexes_of v fw)]) \<and>
     (\<forall>v. v \<notin> set heads \<longrightarrow> indexes_of v fw = []) \<and>
     (\<forall>v\<in>set heads. H - v < int w \<longrightarrow>
        unat (rm_next r ! slot_behind (rm_seqs r) (nat (H - v))) = length (indexes_of v fw))"

text \<open>Forwarding the next packet of one open run.\<close>

lemma runs_inv_next:
  assumes inv: "runs_inv w r H heads fw" and v: "v \<in> set heads" "H - v < int w"
    and slot: "slot = slot_behind (rm_seqs r) (nat (H - v))" and index: "index \<noteq> - 1"
    and step: "(if index \<noteq> rm_next r ! slot then (None, r)
      else (Some leg, r\<lparr>rm_next := (rm_next r)[slot := sat_succ index]\<rparr>)) = (res, r')"
  shows "runs_inv w r' H heads (if res = None then fw else fw @ [(v, unat index)])"
proof (cases "index = rm_next r ! slot")
  case False
  then show ?thesis using step inv by auto
next
  case True
  let ?fw = "fw @ [(v, unat index)]" and ?s = "rm_seqs r"
  note ri = inv [unfolded runs_inv_def]
  have r': "res \<noteq> None" "r' = r\<lparr>rm_next := (rm_next r)[slot := sat_succ index]\<rparr>"
    using True step by auto
  have win: "window_inv ?s" "hm_window ?s = w" "\<forall>u\<in>set heads. u \<le> H"
    using ri by (auto simp: run_inv_def)
  have "nat (H - v) < w" using v win(3) by auto
  then have lt: "slot < w" using slot_behind_lt [OF win(1), of "nat (H - v)"] win(2) by (simp add: slot)
  have n: "unat index = length (indexes_of v fw)" using ri v True slot by simp
  have succ: "unat (sat_succ index) = Suc (unat index)"
    using index unatSuc [of index] by (simp add: sat_succ_def add.commute add_eq_0_iff)
  have "unat ((rm_next r)[slot := sat_succ index] ! slot_behind ?s (nat (H - u))) =
      length (indexes_of u ?fw)" if "u \<in> set heads" "H - u < int w" for u
  proof (cases "u = v")
    case True
    then show ?thesis using lt ri n succ by (simp add: slot)
  next
    case False
    have "v \<le> H" "u \<le> H" using win(3) v(1) that(1) by auto
    moreover from this have "nat (H - u) < w" "nat (H - v) < w"
      using nat_lt_window [of "H - u" w] nat_lt_window [of "H - v" w] that(2) v(2) by auto
    ultimately have "slot_behind ?s (nat (H - u)) \<noteq> slot"
      using slot_behind_inj [OF win(1), of "nat (H - u)" "nat (H - v)"] win(2) False by (auto simp: slot)
    then show ?thesis using ri that False by (simp add: nth_list_update_neq)
  qed
  moreover have "indexes_of u ?fw = [0..<length (indexes_of u ?fw)]" for u
  proof (cases "u = v")
    case True
    have "indexes_of v fw = [0..<length (indexes_of v fw)]" using ri by blast
    then show ?thesis using True n by simp
  next
    case False
    then show ?thesis using ri by simp
  qed
  moreover have "\<forall>u. u \<notin> set heads \<longrightarrow> indexes_of u ?fw = []" using ri v(1) by auto
  moreover have "(if res = None then fw else ?fw) = ?fw" using r'(1) by simp
  ultimately show ?thesis using ri unfolding runs_inv_def r'(2)
    by (simp del: indexes_of_simps)
qed

text \<open>Opening a run: its slot starts at index 0, every other run keeps its place.\<close>

lemma runs_inv_open:
  assumes inv: "runs_inv w r H heads fw" and res: "try_merge (rm_seqs r) seq leg now = (Some l, m')"
    and v: "v = virt (rm_seqs r) H seq" and H': "H' = max H v"
    and r': "r' = r\<lparr>rm_seqs := m', rm_next := (rm_next r)[slot_behind m' (nat (H' - v)) := 0]\<rparr>"
  shows "runs_inv w r' H' (heads @ [v]) fw"
proof -
  note ri = inv [unfolded runs_inv_def]
  have run: "run_inv w (rm_seqs r) H heads" using ri by blast
  have run': "run_inv w m' H' (heads @ [v])" using run_inv_packet(2) [OF run res refl] v H' by simp
  have win: "window_inv m'" "hm_window m' = w" "\<forall>u\<in>set heads. u \<le> H'"
    using run' by (auto simp: run_inv_def)
  note vw = virt_in_window [OF run res H' [unfolded v], folded v]
  have lv: "nat (H' - v) < w" by (rule nat_lt_window [OF vw(1,2)])
  let ?slot = "slot_behind m' (nat (H' - v))"
  have lt: "?slot < w" using slot_behind_lt [OF win(1)] lv win(2) by simp
  have "unat ((rm_next r)[?slot := 0] ! slot_behind m' (nat (H' - u))) = length (indexes_of u fw)"
    if u: "u \<in> set (heads @ [v])" "H' - u < int w" for u
  proof (cases "u = v")
    case True
    then show ?thesis using lt ri vw(3) by simp
  next
    case False
    then have h: "u \<in> set heads" using u by simp
    have "nat (H' - u) < w" using nat_lt_window [of "H' - u" w] win(3) h u(2) by auto
    then have "slot_behind m' (nat (H' - u)) \<noteq> ?slot"
      using slot_behind_inj [OF win(1), of "nat (H' - u)" "nat (H' - v)"] lv win(2,3) h vw(1) False by auto
    moreover have "slot_behind m' (nat (H' - u)) = slot_behind (rm_seqs r) (nat (H - u))"
      using slots_follow [OF run res H' [unfolded v] h] u(2) by simp
    moreover have "H - u < int w" using u(2) H' by simp
    ultimately show ?thesis using ri h by (simp add: nth_list_update_neq)
  qed
  then show ?thesis using ri run' r' unfolding runs_inv_def by simp
qed

lemma runs_inv_opens:
  assumes inv: "runs_inv w r H heads fw" and first: "fst (try_merge (rm_seqs r) seq leg now) \<noteq> None"
    and v: "v = virt (rm_seqs r) H seq" and index: "index \<noteq> - 1"
    and step: "run_try_merge r seq index leg now = (res, r')"
  shows "runs_inv w r' (max H v) (heads @ [v]) (if res = None then fw else fw @ [(v, unat index)])"
proof -
  obtain l m' where tm: "try_merge (rm_seqs r) seq leg now = (Some l, m')"
    using first by (cases "try_merge (rm_seqs r) seq leg now") auto
  have run: "run_inv w (rm_seqs r) H heads" using inv by (simp add: runs_inv_def)
  define H' where "H' = max H v"
  note vw = virt_in_window [OF run tm H'_def [unfolded v], folded v]
  have run': "run_inv w m' H' (heads @ [v])" using run_inv_packet(2) [OF run tm refl] v by (simp add: H'_def)
  define slot where "slot = slot_behind m' (nat (H' - v))"
  have so: "slot_of m' seq = Some slot" unfolding slot_def by (rule slot_of_virt [OF run' vw(1,2,4)])
  define r1 where "r1 = r\<lparr>rm_seqs := m', rm_next := (rm_next r)[slot := 0]\<rparr>"
  have i1: "runs_inv w r1 H' (heads @ [v]) fw"
    by (rule runs_inv_open [OF inv tm v H'_def]) (simp add: r1_def slot_def)
  have "(if index \<noteq> rm_next r1 ! slot then (None, r1)
      else (Some leg, r1\<lparr>rm_next := (rm_next r1)[slot := sat_succ index]\<rparr>)) = (res, r')"
    using step by (auto simp: run_try_merge_def tm so r1_def Let_def split: if_splits)
  from runs_inv_next [OF i1 _ vw(2) _ index this] show ?thesis
    by (simp add: r1_def slot_def H'_def)
qed

lemma runs_inv_continues:
  assumes inv: "runs_inv w r H heads fw" and first: "fst (try_merge (rm_seqs r) seq leg now) = None"
    and v: "v = virt (rm_seqs r) H seq" and index: "index \<noteq> - 1"
    and step: "run_try_merge r seq index leg now = (res, r')"
  shows "runs_inv w r' H heads (if res = None then fw else fw @ [(v, unat index)])"
proof -
  obtain m' where tm: "try_merge (rm_seqs r) seq leg now = (None, m')"
    using first by (cases "try_merge (rm_seqs r) seq leg now") auto
  let ?s = "rm_seqs r"
  have run: "run_inv w ?s H heads" using inv by (simp add: runs_inv_def)
  have sw: "same_window ?s m'" "run_inv w m' H heads" using run_inv_packet(1) [OF run tm] by auto
  note sd = same_windowD [OF sw(1)]
  have i1: "runs_inv w (r\<lparr>rm_seqs := m'\<rparr>) H heads fw"
    using inv sw(2) sd(8) by (simp add: runs_inv_def)
  have rw: "hm_window ?s = w" "hm_highest_seq ?s = of_int H" "hm_initialized m'"
    using run sd(6) by (auto simp: run_inv_def)
  show ?thesis
  proof (cases "unat (hm_highest_seq ?s - seq) < w")
    case False
    then have "slot_of m' seq = None" using rw sd(4,5) by (simp add: slot_of_def)
    then show ?thesis using step i1 by (auto simp: run_try_merge_def tm)
  next
    case True
    let ?b = "unat (hm_highest_seq ?s - seq)"
    have vb: "v = H - int ?b" using True rw(1) by (simp add: v virt_def)
    have so: "slot_of m' seq = Some (slot_behind m' ?b)"
      using True rw sd(4,5) by (simp add: slot_of_def)
    have "seq = of_int (H - int ?b)" using rw(2) by simp
    then have mem: "v \<in> set heads"
      using gap_fill_decision(1) [OF run True, of seq leg now] first vb by (metis option.distinct(1))
    have hv: "H - v = int ?b" using vb by linarith
    have st: "(if index \<noteq> rm_next (r\<lparr>rm_seqs := m'\<rparr>) ! slot_behind m' ?b then (None, r\<lparr>rm_seqs := m'\<rparr>)
      else (Some leg, (r\<lparr>rm_seqs := m'\<rparr>)\<lparr>rm_next := (rm_next (r\<lparr>rm_seqs := m'\<rparr>))
        [slot_behind m' ?b := sat_succ index]\<rparr>)) = (res, r')"
      using step by (auto simp: run_try_merge_def tm so Let_def split: if_splits)
    have "H - v < int w" "slot_behind m' ?b = slot_behind (rm_seqs (r\<lparr>rm_seqs := m'\<rparr>)) (nat (H - v))"
      using True hv by (linarith, simp)
    then show ?thesis by (rule runs_inv_next [OF i1 mem _ _ index st])
  qed
qed

lemma runs_inv_start:
  assumes new: "run_merger_new w = Some r" and index: "index \<noteq> - 1"
    and step: "run_try_merge r seq index leg now = (res, r')"
  shows "runs_inv w r' (uint seq) [uint seq] (if res = None then [] else [(uint seq, unat index)])"
proof -
  obtain m where m: "with_window w = Some m" and r: "r = \<lparr>rm_seqs = m, rm_next = replicate w 0\<rparr>"
    using new by (auto simp: run_merger_new_def)
  obtain l m' where tm: "try_merge m seq leg now = (l, m')" by force
  have "m = set_stale_after_us m (hm_stale_after_us m)" by (simp add: set_stale_after_us_def)
  then have run: "run_inv w m' (uint seq) [uint seq]"
    using run_inv_start [OF m, of m _ seq leg now] tm by simp
  have w: "0 < w" and i: "\<not> hm_initialized m"
    using m by (auto simp: with_window_def merger_fresh_def window_ok_def split: if_splits)
  have l: "l = Some leg"
    using tm i same_windowD(6) [OF same_window_observe [of m seq leg]]
    by (simp add: try_merge_def Let_def accept_def)
  have so: "slot_of m' seq = Some (slot_behind m' (nat (uint seq - uint seq)))"
    using w by (intro slot_of_virt [OF run]) auto
  let ?r = "\<lparr>rm_seqs = m', rm_next = (replicate w 0)[slot_behind m' 0 := 0]\<rparr>"
  have "slot_behind m' 0 < w" using slot_behind_lt [of m' 0] run w by (simp add: run_inv_def)
  then have i1: "runs_inv w ?r (uint seq) [uint seq] []" using run by (simp add: runs_inv_def)
  have "(if index \<noteq> rm_next ?r ! slot_behind m' 0 then (None, ?r)
      else (Some leg, ?r\<lparr>rm_next := (rm_next ?r)[slot_behind m' 0 := sat_succ index]\<rparr>)) = (res, r')"
    using step so l by (auto simp: run_try_merge_def r tm Let_def split: if_splits)
  from runs_inv_next [OF i1 _ _ _ index this, of "uint seq"] show ?thesis using w by (auto split: if_splits)
qed

lemma runs_invariant: "runs w r H heads fw \<Longrightarrow> runs_inv w r H heads fw"
proof (induction rule: runs.induct)
  case (start r index seq leg now res r')
  then show ?case by (rule runs_inv_start)
next
  case (opens r H heads fw index seq leg now v res r')
  then show ?case using runs_inv_opens by blast
next
  case (continues r H heads fw index seq leg now v res r')
  then show ?case using runs_inv_continues by blast
qed


definition demo_run :: "nat \<Rightarrow> run_merger" where
  "demo_run n = fold (\<lambda>(i, leg) r. snd (run_try_merge r 7 i leg 0)) (take n [(0, Leg1), (1, Leg2)])
     (the (run_merger_new 64))"


end
