(* ===== verification/BufferedMerge.thy ===== *)
theory BufferedMerge
  imports HitlessMerge
begin

text \<open>
  \<open>BufferedHitlessMerger\<close> of \<open>src/src/redundancy/merger.rs\<close>: the skew-accommodation hold in
  front of the 2022-7 merger. The trait \<open>SeqDedup\<close> is a record of operations, as a trait
  object is, with the two implementations the source has. Instants and durations are naturals
  in microseconds, so \<open>saturating_duration_since\<close> is subtraction; virtual sequence numbers
  (\<open>i64\<close>) are integers. The wall clock a leg's last arrival is stamped with is the argument
  \<open>unix_us\<close>.
\<close>

section \<open>The dedup interface\<close>

record 'd seq_dedup =
  sd_admit :: "'d \<Rightarrow> u16 \<Rightarrow> nat \<Rightarrow> active_leg \<Rightarrow> nat \<Rightarrow> active_leg option \<times> 'd"
  sd_held_copy :: "'d \<Rightarrow> u16 \<Rightarrow> active_leg \<Rightarrow> 'd"
  sd_resets :: "'d \<Rightarrow> nat"
  sd_set_stale :: "'d \<Rightarrow> nat \<Rightarrow> 'd"

definition hitless_dedup :: "hitless_merger seq_dedup" where
  "hitless_dedup =
     \<lparr>sd_admit = (\<lambda>m seq _ leg now_us. try_merge m seq leg now_us),
      sd_held_copy = observe, sd_resets = hm_resets, sd_set_stale = set_stale_after_us\<rparr>"

text \<open>\<open>HeldRuns\<close>: a packet is admitted when its sequence number is in the window after the
  arrival.\<close>

definition held_runs_admit ::
  "hitless_merger \<Rightarrow> u16 \<Rightarrow> nat \<Rightarrow> active_leg \<Rightarrow> nat \<Rightarrow> active_leg option \<times> hitless_merger" where
  "held_runs_admit m seq index leg now_us =
     (let m = snd (try_merge m seq leg now_us) in (map_option (\<lambda>_. leg) (slot_of m seq), m))"

definition held_runs_dedup :: "hitless_merger seq_dedup" where
  "held_runs_dedup =
     \<lparr>sd_admit = held_runs_admit, sd_held_copy = observe, sd_resets = hm_resets,
      sd_set_stale = set_stale_after_us\<rparr>"

section \<open>State\<close>

type_synonym hold_key = "int \<times> nat"

definition key_less :: "hold_key \<Rightarrow> hold_key \<Rightarrow> bool" where
  "key_less a b \<longleftrightarrow> fst a < fst b \<or> fst a = fst b \<and> snd a < snd b"

record 't buffered_entry =
  be_key :: hold_key
  be_payload :: 't
  be_first_leg :: active_leg
  be_first_seen :: nat
  be_release_at :: nat
  be_legs_seen :: u8

record released_seq =
  rs_virt :: int
  rs_indexes :: u64
  rs_legs_seen :: u8
  rs_first_seen :: nat

datatype leg_health = HealthUnknown | HealthUp | HealthDown

record leg_state =
  ls_last_seq :: "u16 option"
  ls_last_arrival :: "nat option"
  ls_ssrc :: u32
  ls_ssrc_seen :: "nat option"
  ls_health :: leg_health

record buffered_stats =
  st_packets_emitted :: nat
  st_packets_emitted_leg1 :: nat
  st_packets_emitted_leg2 :: nat
  st_dups_dropped :: nat
  st_via_both_legs :: nat
  st_via_leg1_only :: nat
  st_via_leg2_only :: nat
  st_gap_lost :: nat
  st_late_dropped :: nat
  st_late_duplicates :: nat
  st_buffer_overflow_dropped :: nat
  st_stream_resets :: nat
  st_failovers :: nat
  st_current_buffer_depth :: nat
  st_current_path_diff_us :: nat
  st_max_observed_path_diff_us :: nat
  st_leg1_packets_received :: nat
  st_leg2_packets_received :: nat
  st_leg1_last_arrival_unix_us :: nat
  st_leg2_last_arrival_unix_us :: nat
  st_leg1_health :: nat
  st_leg2_health :: nat
  st_ssrc_mismatch :: nat

record ('t, 'd) buffered_merger =
  bm_dedup :: 'd
  bm_buffer :: "'t buffered_entry list"
  bm_released :: "released_seq list"
  bm_anchor_real :: u16
  bm_anchor_virtual :: int
  bm_anchor_set :: bool
  bm_cursor :: "hold_key option"
  bm_stretches :: "int list"
  bm_unreleased :: nat
  bm_max_path_diff :: nat
  bm_max_buffer_packets :: nat
  bm_leg_state :: "leg_state list"
  bm_ssrc_confirm :: nat
  bm_ssrc_disagreement :: "(nat \<times> bool) option"
  bm_stats :: buffered_stats
  bm_epoch :: nat

definition MAX_PATH_DIFF_BOUND :: nat where
  "MAX_PATH_DIFF_BOUND = 2000000"

definition RELEASED_SEQS :: nat where
  "RELEASED_SEQS = 2048"

definition DEFAULT_MAX_BUFFER_PACKETS :: nat where
  "DEFAULT_MAX_BUFFER_PACKETS = 12000"

definition RUN_MAX_BUFFER_PACKETS :: nat where
  "RUN_MAX_BUFFER_PACKETS = DEFAULT_MAX_BUFFER_PACKETS * 7"

definition LEG_DOWN_THRESHOLD :: nat where
  "LEG_DOWN_THRESHOLD = 1000000"

definition I64_MIN :: int where
  "I64_MIN = - 9223372036854775808"

definition U64_MAX :: nat where
  "U64_MAX = 18446744073709551615"

definition health_code :: "leg_health \<Rightarrow> nat" where
  "health_code h = (case h of HealthUnknown \<Rightarrow> 0 | HealthUp \<Rightarrow> 1 | HealthDown \<Rightarrow> 3)"

text \<open>\<open>index_bit\<close>: bit \<open>index\<close> of the mask, none past 63.\<close>

definition index_bit :: "nat \<Rightarrow> u64" where
  "index_bit index = (if index < 64 then push_bit index 1 else 0)"

definition bounded_path_diff :: "nat \<Rightarrow> nat" where
  "bounded_path_diff max_path_diff = min max_path_diff MAX_PATH_DIFF_BOUND"

definition stale_after_lag_us :: "nat \<Rightarrow> nat" where
  "stale_after_lag_us lag = min (min lag U64_MAX + DEFAULT_STALE_AFTER_US) U64_MAX"

text \<open>\<open>usize::next_power_of_two\<close>.\<close>

function next_pow2_from :: "nat \<Rightarrow> nat \<Rightarrow> nat" where
  "next_pow2_from p n = (if p = 0 \<or> n \<le> p then p else next_pow2_from (2 * p) n)"
  by auto
termination
  by (relation "measure (\<lambda>(p, n). n - p)") auto

declare next_pow2_from.simps [simp del]

section \<open>Construction\<close>

definition leg_state_default :: leg_state where
  "leg_state_default =
     \<lparr>ls_last_seq = None, ls_last_arrival = None, ls_ssrc = 0, ls_ssrc_seen = None,
      ls_health = HealthUnknown\<rparr>"

definition stats_default :: buffered_stats where
  "stats_default =
     \<lparr>st_packets_emitted = 0, st_packets_emitted_leg1 = 0, st_packets_emitted_leg2 = 0,
      st_dups_dropped = 0, st_via_both_legs = 0, st_via_leg1_only = 0, st_via_leg2_only = 0,
      st_gap_lost = 0, st_late_dropped = 0, st_late_duplicates = 0,
      st_buffer_overflow_dropped = 0, st_stream_resets = 0, st_failovers = 0,
      st_current_buffer_depth = 0, st_current_path_diff_us = 0,
      st_max_observed_path_diff_us = 0, st_leg1_packets_received = 0,
      st_leg2_packets_received = 0, st_leg1_last_arrival_unix_us = 0,
      st_leg2_last_arrival_unix_us = 0, st_leg1_health = 0, st_leg2_health = 0,
      st_ssrc_mismatch = 0\<rparr>"

definition buffered_build ::
  "'d \<Rightarrow> nat \<Rightarrow> nat \<Rightarrow> nat \<Rightarrow> nat \<Rightarrow> ('t, 'd) buffered_merger" where
  "buffered_build dedup max_path_diff window max_buffer_packets epoch =
     (let bounded = bounded_path_diff max_path_diff;
          unreleased_seq =
            \<lparr>rs_virt = I64_MIN, rs_indexes = 0, rs_legs_seen = 0, rs_first_seen = epoch\<rparr>;
          remembered = next_pow2_from 1 (max RELEASED_SEQS window)
      in \<lparr>bm_dedup = dedup, bm_buffer = [], bm_released = replicate remembered unreleased_seq,
          bm_anchor_real = 0, bm_anchor_virtual = 0, bm_anchor_set = False, bm_cursor = None,
          bm_stretches = [], bm_unreleased = 0, bm_max_path_diff = bounded,
          bm_max_buffer_packets = max_buffer_packets,
          bm_leg_state = [leg_state_default, leg_state_default],
          bm_ssrc_confirm = stale_after_lag_us bounded, bm_ssrc_disagreement = None,
          bm_stats = stats_default, bm_epoch = epoch\<rparr>)"

definition with_leg_lag ::
  "nat \<Rightarrow> nat \<Rightarrow> nat \<Rightarrow> nat \<Rightarrow> ('t, hitless_merger) buffered_merger option" where
  "with_leg_lag max_path_diff window leg_lag epoch =
     (let max_path_diff = bounded_path_diff max_path_diff;
          stale = stale_after_lag_us (max_path_diff + leg_lag)
      in map_option (\<lambda>m. (buffered_build (set_stale_after_us m stale) max_path_diff window
             DEFAULT_MAX_BUFFER_PACKETS epoch)\<lparr>bm_ssrc_confirm := stale\<rparr>) (with_window window))"

definition with_runs ::
  "nat \<Rightarrow> nat \<Rightarrow> nat \<Rightarrow> nat \<Rightarrow> ('t, hitless_merger) buffered_merger option" where
  "with_runs max_path_diff window leg_lag epoch =
     (let max_path_diff = bounded_path_diff max_path_diff
      in map_option (\<lambda>m. buffered_build
             (set_stale_after_us m (stale_after_lag_us (max_path_diff + leg_lag)))
             max_path_diff window RUN_MAX_BUFFER_PACKETS epoch) (with_window window))"

definition buffered_new :: "nat \<Rightarrow> nat \<Rightarrow> ('t, hitless_merger) buffered_merger option" where
  "buffered_new max_path_diff epoch = with_leg_lag max_path_diff REORDER_WINDOW 0 epoch"

section \<open>Operations\<close>

definition project :: "('t, 'd) buffered_merger \<Rightarrow> u16 \<Rightarrow> int \<times> ('t, 'd) buffered_merger" where
  "project b seq =
     (if \<not> bm_anchor_set b
      then (bm_anchor_virtual b, b\<lparr>bm_anchor_real := seq, bm_anchor_set := True\<rparr>)
      else let diff = sint (seq - bm_anchor_real b); virt = bm_anchor_virtual b + diff
           in (virt, if diff > 0 then b\<lparr>bm_anchor_real := seq, bm_anchor_virtual := virt\<rparr> else b))"

text \<open>\<open>VecDeque::binary_search_by\<close> on the sorted hold: where the key is, or where it goes.\<close>

definition hold_find :: "('t, 'd) buffered_merger \<Rightarrow> hold_key \<Rightarrow> nat + nat" where
  "hold_find b key =
     (let pos = length (takeWhile (\<lambda>e. key_less (be_key e) key) (bm_buffer b))
      in if pos < length (bm_buffer b) \<and> be_key (bm_buffer b ! pos) = key then Inl pos else Inr pos)"

definition released_slot :: "('t, 'd) buffered_merger \<Rightarrow> int \<Rightarrow> nat" where
  "released_slot b v = nat (v mod int (length (bm_released b)))"

definition note_released ::
  "('t, 'd) buffered_merger \<Rightarrow> 't buffered_entry \<Rightarrow> ('t, 'd) buffered_merger" where
  "note_released b entry =
     (let (v, index) = be_key entry; slot = released_slot b v; seen = bm_released b ! slot;
          seen = (if rs_virt seen \<noteq> v
                  then \<lparr>rs_virt = v, rs_indexes = 0, rs_legs_seen = 0,
                        rs_first_seen = be_first_seen entry\<rparr>
                  else seen)
      in b\<lparr>bm_released := (bm_released b)[slot :=
             seen\<lparr>rs_indexes := rs_indexes seen OR index_bit index,
                  rs_legs_seen := rs_legs_seen seen OR be_legs_seen entry\<rparr>]\<rparr>)"

definition observe_path_diff :: "('t, 'd) buffered_merger \<Rightarrow> nat \<Rightarrow> ('t, 'd) buffered_merger" where
  "observe_path_diff b diff =
     (let diff_us = min diff U64_MAX; st = bm_stats b
      in b\<lparr>bm_stats := st\<lparr>st_current_path_diff_us := diff_us,
             st_max_observed_path_diff_us := max (st_max_observed_path_diff_us st) diff_us\<rparr>\<rparr>)"

definition late_copy ::
  "('t, 'd) buffered_merger \<Rightarrow> hold_key \<Rightarrow> active_leg \<Rightarrow> nat \<Rightarrow> bool \<times> ('t, 'd) buffered_merger" where
  "late_copy b key leg now =
     (let (v, index) = key; seen = bm_released b ! released_slot b v; st = bm_stats b in
      if rs_virt seen \<noteq> v \<or> rs_indexes seen AND index_bit index = 0
      then (False, b\<lparr>bm_stats := st\<lparr>st_late_dropped := st_late_dropped st + 1\<rparr>\<rparr>)
      else
        let b = b\<lparr>bm_stats := st\<lparr>st_late_duplicates := st_late_duplicates st + 1\<rparr>\<rparr>
        in (True, if leg_bit leg \<noteq> 0 \<and> rs_legs_seen seen AND leg_bit leg = 0
                  then observe_path_diff b (now - rs_first_seen seen) else b))"

text \<open>One turn of the loop of \<open>drain_ready\<close>: the entry is already off the front.\<close>

definition count_leg_mask :: "u8 \<Rightarrow> buffered_stats \<Rightarrow> buffered_stats" where
  "count_leg_mask legs_seen st =
     (if legs_seen = 1 then st\<lparr>st_via_leg1_only := st_via_leg1_only st + 1\<rparr>
      else if legs_seen = 2 then st\<lparr>st_via_leg2_only := st_via_leg2_only st + 1\<rparr>
      else if legs_seen = 3 then st\<lparr>st_via_both_legs := st_via_both_legs st + 1\<rparr> else st)"

definition count_emitted :: "active_leg \<Rightarrow> buffered_stats \<Rightarrow> buffered_stats" where
  "count_emitted leg st =
     (let st = st\<lparr>st_packets_emitted := st_packets_emitted st + 1\<rparr> in
      case leg of
        Leg1 \<Rightarrow> st\<lparr>st_packets_emitted_leg1 := st_packets_emitted_leg1 st + 1\<rparr>
      | Leg2 \<Rightarrow> st\<lparr>st_packets_emitted_leg2 := st_packets_emitted_leg2 st + 1\<rparr>
      | NoLeg \<Rightarrow> st)"

definition release_entry ::
  "active_leg option \<Rightarrow> 't buffered_entry \<Rightarrow> ('t, 'd) buffered_merger \<Rightarrow> ('t, 'd) buffered_merger" where
  "release_entry last_emit_leg entry b =
     (let (v, index) = be_key entry;
          new_stretch = (case bm_stretches b of [] \<Rightarrow> False | first # _ \<Rightarrow> v \<ge> first);
          b = b\<lparr>bm_stretches := dropWhile (\<lambda>first. v \<ge> first) (bm_stretches b)\<rparr>;
          st = bm_stats b;
          st = (case bm_cursor b of
                  Some (prev, _) \<Rightarrow>
                    if v > prev + 1 \<and> \<not> new_stretch
                    then st\<lparr>st_gap_lost := st_gap_lost st + nat (v - prev - 1)\<rparr> else st
                | None \<Rightarrow> st);
          b = note_released (b\<lparr>bm_stats := st\<rparr>) entry;
          st = count_leg_mask (be_legs_seen entry) (count_emitted (be_first_leg entry) (bm_stats b));
          st = (case last_emit_leg of
                  Some leg \<Rightarrow>
                    if leg \<noteq> be_first_leg entry \<and> be_first_leg entry \<noteq> NoLeg
                    then st\<lparr>st_failovers := st_failovers st + 1\<rparr> else st
                | None \<Rightarrow> st)
      in b\<lparr>bm_cursor := Some (v, min (index + 1) 65535), bm_stats := st\<rparr>)"

fun drain_loop ::
  "nat \<Rightarrow> active_leg option \<Rightarrow> 't buffered_entry list \<Rightarrow> ('t, 'd) buffered_merger \<Rightarrow>
     (active_leg \<times> 't) list \<times> ('t, 'd) buffered_merger" where
  "drain_loop now last_emit_leg [] b = ([], b\<lparr>bm_buffer := []\<rparr>)"
| "drain_loop now last_emit_leg (e # es) b =
     (if now \<ge> be_release_at e
      then (let (out, b') = drain_loop now (Some (be_first_leg e)) es (release_entry last_emit_leg e b)
            in ((be_first_leg e, be_payload e) # out, b'))
      else ([], b\<lparr>bm_buffer := e # es\<rparr>))"

definition note_depth :: "('t, 'd) buffered_merger \<Rightarrow> ('t, 'd) buffered_merger" where
  "note_depth b =
     b\<lparr>bm_stats := (bm_stats b)\<lparr>st_current_buffer_depth := length (bm_buffer b)\<rparr>\<rparr>"

definition drain_ready ::
  "('t, 'd) buffered_merger \<Rightarrow> nat \<Rightarrow> (active_leg \<times> 't) list \<times> ('t, 'd) buffered_merger" where
  "drain_ready b now =
     (let (out, b) = drain_loop now None (bm_buffer b) b in (out, note_depth b))"

definition update_health :: "nat \<Rightarrow> leg_state \<Rightarrow> leg_state" where
  "update_health now st =
     st\<lparr>ls_health :=
          (case ls_last_arrival st of
             Some t \<Rightarrow> if now - t > LEG_DOWN_THRESHOLD then HealthDown else HealthUp
           | None \<Rightarrow> HealthUnknown)\<rparr>"

text \<open>The health gauges are stored only where the health changed.\<close>

definition update_leg_health :: "('t, 'd) buffered_merger \<Rightarrow> nat \<Rightarrow> ('t, 'd) buffered_merger" where
  "update_leg_health b now =
     (let legs = bm_leg_state b; legs' = map (update_health now) legs; st = bm_stats b;
          st = (if ls_health (legs' ! 0) \<noteq> ls_health (legs ! 0)
                then st\<lparr>st_leg1_health := health_code (ls_health (legs' ! 0))\<rparr> else st);
          st = (if ls_health (legs' ! 1) \<noteq> ls_health (legs ! 1)
                then st\<lparr>st_leg2_health := health_code (ls_health (legs' ! 1))\<rparr> else st)
      in b\<lparr>bm_leg_state := legs', bm_stats := st\<rparr>)"

definition drain_expired ::
  "('t, 'd) buffered_merger \<Rightarrow> nat \<Rightarrow> (active_leg \<times> 't) list \<times> ('t, 'd) buffered_merger" where
  "drain_expired b now = drain_ready (update_leg_health b now) now"

definition release_all ::
  "('t, 'd) buffered_merger \<Rightarrow> (active_leg \<times> 't) list \<times> ('t, 'd) buffered_merger" where
  "release_all b =
     (case bm_buffer b of
        [] \<Rightarrow> ([], b)
      | e # es \<Rightarrow> drain_ready b (fold max (map be_release_at es) (be_release_at e)))"

definition next_deadline :: "('t, 'd) buffered_merger \<Rightarrow> nat option" where
  "next_deadline b = (case bm_buffer b of [] \<Rightarrow> None | e # _ \<Rightarrow> Some (be_release_at e))"

text \<open>Arrival bookkeeping of one leg.\<close>

definition note_arrival ::
  "('t, 'd) buffered_merger \<Rightarrow> u16 \<Rightarrow> active_leg \<Rightarrow> nat \<Rightarrow> nat \<Rightarrow> ('t, 'd) buffered_merger" where
  "note_arrival b seq leg now unix_us =
     (case leg_idx leg of
        None \<Rightarrow> b
      | Some idx \<Rightarrow>
          let b = b\<lparr>bm_leg_state := (bm_leg_state b)[idx :=
                 (bm_leg_state b ! idx)\<lparr>ls_last_seq := Some seq, ls_last_arrival := Some now,
                    ls_health := HealthUp\<rparr>]\<rparr>;
              st = bm_stats b
          in b\<lparr>bm_stats :=
                 (if leg = Leg1
                  then st\<lparr>st_leg1_packets_received := st_leg1_packets_received st + 1,
                          st_leg1_last_arrival_unix_us := unix_us,
                          st_leg1_health := health_code HealthUp\<rparr>
                  else st\<lparr>st_leg2_packets_received := st_leg2_packets_received st + 1,
                          st_leg2_last_arrival_unix_us := unix_us,
                          st_leg2_health := health_code HealthUp\<rparr>)\<rparr>)"

text \<open>A copy of a packet still held.\<close>

definition held_again ::
  "'d seq_dedup \<Rightarrow> ('t, 'd) buffered_merger \<Rightarrow> nat \<Rightarrow> u16 \<Rightarrow> active_leg \<Rightarrow> nat \<Rightarrow> ('t, 'd) buffered_merger" where
  "held_again D b pos seq leg now =
     (let entry = bm_buffer b ! pos;
          b = (if be_legs_seen entry AND leg_bit leg = 0 \<and> leg_bit leg \<noteq> 0
               then observe_path_diff
                      (b\<lparr>bm_buffer := (bm_buffer b)[pos :=
                           entry\<lparr>be_legs_seen := be_legs_seen entry OR leg_bit leg\<rparr>]\<rparr>)
                      (now - be_first_seen entry)
               else b);
          b = b\<lparr>bm_dedup := sd_held_copy D (bm_dedup b) seq leg\<rparr>;
          st = bm_stats b
      in b\<lparr>bm_stats := st\<lparr>st_dups_dropped := st_dups_dropped st + 1\<rparr>\<rparr>)"

text \<open>A packet the dedup admitted: dropped as late, dropped at the cap, or held.\<close>

definition hold_packet ::
  "('t, 'd) buffered_merger \<Rightarrow> hold_key \<Rightarrow> active_leg \<Rightarrow> 't \<Rightarrow> nat \<Rightarrow> ('t, 'd) buffered_merger" where
  "hold_packet b key leg payload now =
     (if (case bm_cursor b of Some c \<Rightarrow> key_less key c | None \<Rightarrow> False)
      then (let (dup, b) = late_copy b key leg now
            in if dup then b else b\<lparr>bm_unreleased := bm_unreleased b + 1\<rparr>)
      else if length (bm_buffer b) \<ge> bm_max_buffer_packets b
      then b\<lparr>bm_unreleased := bm_unreleased b + 1,
             bm_stats := (bm_stats b)\<lparr>st_buffer_overflow_dropped :=
               st_buffer_overflow_dropped (bm_stats b) + 1\<rparr>\<rparr>
      else
        (let entry = \<lparr>be_key = key, be_payload = payload, be_first_leg = leg, be_first_seen = now,
                      be_release_at = now + bm_max_path_diff b, be_legs_seen = leg_bit leg\<rparr>
         in case hold_find b key of
              Inr pos \<Rightarrow> note_depth (b\<lparr>bm_buffer :=
                take pos (bm_buffer b) @ entry # drop pos (bm_buffer b)\<rparr>)
            | Inl _ \<Rightarrow> note_depth b))"

text \<open>Every return of \<open>ingest_at\<close> goes through \<open>drain_ready\<close>; what comes before it files the
  packet.\<close>

definition ingest_file ::
  "'d seq_dedup \<Rightarrow> ('t, 'd) buffered_merger \<Rightarrow> u16 \<Rightarrow> nat \<Rightarrow> active_leg \<Rightarrow> 't \<Rightarrow> nat \<Rightarrow> nat \<Rightarrow>
     ('t, 'd) buffered_merger" where
  "ingest_file D b seq index leg payload now unix_us =
     (let (v, b) = project (note_arrival b seq leg now unix_us) seq in
      case hold_find b (v, index) of
        Inl pos \<Rightarrow> held_again D b pos seq leg now
      | Inr _ \<Rightarrow>
          let resets = sd_resets D (bm_dedup b);
              (res, d) = sd_admit D (bm_dedup b) seq index leg (now - bm_epoch b);
              b = b\<lparr>bm_dedup := d\<rparr>
          in case res of
               None \<Rightarrow> snd (late_copy b (v, index) leg now)
             | Some _ \<Rightarrow>
                 let moved = (sd_resets D d \<noteq> resets);
                     b = (if moved
                          then b\<lparr>bm_stats := (bm_stats b)\<lparr>st_stream_resets :=
                                 st_stream_resets (bm_stats b) + 1\<rparr>\<rparr> else b);
                     (v, b) = (if moved \<and> v < bm_anchor_virtual b
                               then (bm_anchor_virtual b + 1,
                                     b\<lparr>bm_anchor_real := seq,
                                       bm_anchor_virtual := bm_anchor_virtual b + 1\<rparr>)
                               else (v, b))
                 in hold_packet b (v, index) leg payload now)"

definition ingest_at ::
  "'d seq_dedup \<Rightarrow> ('t, 'd) buffered_merger \<Rightarrow> u16 \<Rightarrow> nat \<Rightarrow> active_leg \<Rightarrow> 't \<Rightarrow> nat \<Rightarrow> nat \<Rightarrow>
     (active_leg \<times> 't) list \<times> ('t, 'd) buffered_merger" where
  "ingest_at D b seq index leg payload now unix_us =
     drain_ready (ingest_file D b seq index leg payload now unix_us) now"

definition set_leg_lag :: "'d seq_dedup \<Rightarrow> ('t, 'd) buffered_merger \<Rightarrow> nat \<Rightarrow> ('t, 'd) buffered_merger" where
  "set_leg_lag D b leg_lag =
     (let stale = stale_after_lag_us (bm_max_path_diff b + leg_lag)
      in b\<lparr>bm_dedup := sd_set_stale D (bm_dedup b) stale, bm_ssrc_confirm := stale\<rparr>)"

definition observe_ssrc ::
  "('t, 'd) buffered_merger \<Rightarrow> active_leg \<Rightarrow> u32 \<Rightarrow> nat \<Rightarrow> ('t, 'd) buffered_merger" where
  "observe_ssrc b leg ssrc now =
     (case leg_idx leg of
        None \<Rightarrow> b
      | Some idx \<Rightarrow>
          let b = b\<lparr>bm_leg_state := (bm_leg_state b)[idx :=
                 (bm_leg_state b ! idx)\<lparr>ls_ssrc := ssrc, ls_ssrc_seen := Some now\<rparr>]\<rparr>;
              other = bm_leg_state b ! (1 - idx);
              other_delivering = (case ls_ssrc_seen other of
                Some seen \<Rightarrow> now - seen \<le> LEG_DOWN_THRESHOLD | None \<Rightarrow> False)
          in if \<not> other_delivering \<or> ls_ssrc other = ssrc then b\<lparr>bm_ssrc_disagreement := None\<rparr>
             else (case bm_ssrc_disagreement b of
                     None \<Rightarrow> b\<lparr>bm_ssrc_disagreement := Some (now, False)\<rparr>
                   | Some (since, counted) \<Rightarrow>
                       if \<not> counted \<and> now - since \<ge> bm_ssrc_confirm b
                       then b\<lparr>bm_ssrc_disagreement := Some (since, True),
                              bm_stats := (bm_stats b)\<lparr>st_ssrc_mismatch :=
                                st_ssrc_mismatch (bm_stats b) + 1\<rparr>\<rparr>
                       else b))"

definition buffered_restart ::
  "('t, hitless_merger) buffered_merger \<Rightarrow> ('t, hitless_merger) buffered_merger" where
  "buffered_restart b =
     (let b = b\<lparr>bm_dedup := merger_restart (bm_dedup b)\<rparr>;
          held = (if bm_buffer b = [] then None else Some (fst (be_key (last (bm_buffer b)))));
          past = (case (held, bm_cursor b) of
                    (None, None) \<Rightarrow> None | (Some h, None) \<Rightarrow> Some h
                  | (None, Some (c, _)) \<Rightarrow> Some c | (Some h, Some (c, _)) \<Rightarrow> Some (max h c));
          b = (case past of
                 None \<Rightarrow> b
               | Some past \<Rightarrow> b\<lparr>bm_anchor_virtual := past + int (hm_window (bm_dedup b)),
                                bm_stretches := bm_stretches b @ [past + 1]\<rparr>)
      in b\<lparr>bm_anchor_set := False,
           bm_leg_state := map (\<lambda>leg. leg\<lparr>ls_ssrc := 0, ls_ssrc_seen := None\<rparr>) (bm_leg_state b),
           bm_ssrc_disagreement := None\<rparr>)"

definition buffered_lost :: "('t, hitless_merger) buffered_merger \<Rightarrow> nat" where
  "buffered_lost b = hm_lost (bm_dedup b) + bm_unreleased b"

definition leg_health_of :: "('t, 'd) buffered_merger \<Rightarrow> leg_health list" where
  "leg_health_of b = map ls_health (bm_leg_state b)"

end
