(* ===== verification/BufferedCorrect.thy ===== *)
theory BufferedCorrect
  imports BufferedMerge HitlessCorrect
begin

text \<open>
  What the buffered 2022-7 merger guarantees: what it releases is in strictly increasing order
  of virtual sequence number and run index, each packet is held for the path differential,
  and every packet handed in is accounted for exactly once.
\<close>

section \<open>Keys\<close>

lemma key_less_irrefl [simp]: "\<not> key_less k k"
  by (simp add: key_less_def)

lemma key_less_trans: "key_less a b \<Longrightarrow> key_less b c \<Longrightarrow> key_less a c"
  by (auto simp: key_less_def)

lemma key_less_total: "\<not> key_less a b \<Longrightarrow> a \<noteq> b \<Longrightarrow> key_less b a"
  by (auto simp: key_less_def prod_eq_iff)

lemma key_less_succ: "key_less (v, i) k \<longleftrightarrow> \<not> key_less k (v, i + 1)"
  by (auto simp: key_less_def)

abbreviation increasing :: "hold_key list \<Rightarrow> bool" where
  "increasing \<equiv> sorted_wrt key_less"

lemma increasing_distinct: "increasing ks \<Longrightarrow> distinct ks"
  by (induction ks) auto

section \<open>The drain\<close>

definition due :: "nat \<Rightarrow> 't buffered_entry \<Rightarrow> bool" where
  "due now e \<longleftrightarrow> be_release_at e \<le> now"

text \<open>The keys one drain releases.\<close>

definition released_keys :: "('t, 'd) buffered_merger \<Rightarrow> nat \<Rightarrow> hold_key list" where
  "released_keys b now = map be_key (takeWhile (due now) (bm_buffer b))"

lemma count_fields [simp]:
  "st_packets_emitted (count_emitted l st) = st_packets_emitted st + 1"
  "st_dups_dropped (count_emitted l st) = st_dups_dropped st"
  "st_late_dropped (count_emitted l st) = st_late_dropped st"
  "st_late_duplicates (count_emitted l st) = st_late_duplicates st"
  "st_buffer_overflow_dropped (count_emitted l st) = st_buffer_overflow_dropped st"
  "st_stream_resets (count_emitted l st) = st_stream_resets st"
  "st_gap_lost (count_emitted l st) = st_gap_lost st"
  "st_packets_emitted (count_leg_mask x st) = st_packets_emitted st"
  "st_dups_dropped (count_leg_mask x st) = st_dups_dropped st"
  "st_late_dropped (count_leg_mask x st) = st_late_dropped st"
  "st_late_duplicates (count_leg_mask x st) = st_late_duplicates st"
  "st_buffer_overflow_dropped (count_leg_mask x st) = st_buffer_overflow_dropped st"
  "st_stream_resets (count_leg_mask x st) = st_stream_resets st"
  "st_gap_lost (count_leg_mask x st) = st_gap_lost st"
  by (simp_all add: count_emitted_def count_leg_mask_def Let_def split: active_leg.splits)

lemma note_released_fields [simp]:
  "bm_buffer (note_released b e) = bm_buffer b" "bm_dedup (note_released b e) = bm_dedup b"
  "bm_unreleased (note_released b e) = bm_unreleased b" "bm_stats (note_released b e) = bm_stats b"
  "bm_max_path_diff (note_released b e) = bm_max_path_diff b"
  "bm_anchor_virtual (note_released b e) = bm_anchor_virtual b"
  by (simp_all add: note_released_def Let_def split: prod.splits)

lemma release_entry_fields [simp]:
  "bm_buffer (release_entry l e b) = bm_buffer b"
  "bm_dedup (release_entry l e b) = bm_dedup b"
  "bm_unreleased (release_entry l e b) = bm_unreleased b"
  "bm_max_path_diff (release_entry l e b) = bm_max_path_diff b"
  "bm_anchor_virtual (release_entry l e b) = bm_anchor_virtual b"
  "bm_cursor (release_entry l e b) = Some (fst (be_key e), min (snd (be_key e) + 1) 65535)"
  "st_packets_emitted (bm_stats (release_entry l e b)) = st_packets_emitted (bm_stats b) + 1"
  "st_dups_dropped (bm_stats (release_entry l e b)) = st_dups_dropped (bm_stats b)"
  "st_late_dropped (bm_stats (release_entry l e b)) = st_late_dropped (bm_stats b)"
  "st_late_duplicates (bm_stats (release_entry l e b)) = st_late_duplicates (bm_stats b)"
  "st_buffer_overflow_dropped (bm_stats (release_entry l e b)) = st_buffer_overflow_dropped (bm_stats b)"
  "st_stream_resets (bm_stats (release_entry l e b)) = st_stream_resets (bm_stats b)"
  by (simp_all add: release_entry_def Let_def case_prod_unfold split: option.splits)

lemma drain_loop_result:
  assumes "drain_loop now l es b = (out, b')"
  shows "out = map (\<lambda>e. (be_first_leg e, be_payload e)) (takeWhile (due now) es) \<and>
    bm_buffer b' = dropWhile (due now) es \<and> bm_dedup b' = bm_dedup b \<and>
    bm_unreleased b' = bm_unreleased b \<and> bm_max_path_diff b' = bm_max_path_diff b \<and>
    bm_anchor_virtual b' = bm_anchor_virtual b \<and>
    bm_cursor b' = (if takeWhile (due now) es = [] then bm_cursor b
      else Some (fst (be_key (last (takeWhile (due now) es))),
                 min (snd (be_key (last (takeWhile (due now) es))) + 1) 65535)) \<and>
    st_packets_emitted (bm_stats b') = st_packets_emitted (bm_stats b) + length out \<and>
    st_dups_dropped (bm_stats b') = st_dups_dropped (bm_stats b) \<and>
    st_late_dropped (bm_stats b') = st_late_dropped (bm_stats b) \<and>
    st_late_duplicates (bm_stats b') = st_late_duplicates (bm_stats b) \<and>
    st_buffer_overflow_dropped (bm_stats b') = st_buffer_overflow_dropped (bm_stats b) \<and>
    st_stream_resets (bm_stats b') = st_stream_resets (bm_stats b)"
  using assms
proof (induction es arbitrary: l b out b')
  case Nil
  then show ?case by auto
next
  case (Cons e es)
  show ?case
  proof (cases "due now e")
    case True
    then obtain out1 where d: "drain_loop now (Some (be_first_leg e)) es (release_entry l e b) = (out1, b')"
      and out: "out = (be_first_leg e, be_payload e) # out1"
      using Cons.prems by (auto simp: due_def split: prod.splits)
    show ?thesis using Cons.IH [OF d] True out by auto
  next
    case False
    then show ?thesis using Cons.prems by (auto simp: due_def)
  qed
qed

lemma note_depth_fields [simp]:
  "bm_buffer (note_depth b) = bm_buffer b" "bm_dedup (note_depth b) = bm_dedup b"
  "bm_unreleased (note_depth b) = bm_unreleased b" "bm_cursor (note_depth b) = bm_cursor b"
  "bm_max_path_diff (note_depth b) = bm_max_path_diff b"
  "bm_anchor_virtual (note_depth b) = bm_anchor_virtual b"
  "st_packets_emitted (bm_stats (note_depth b)) = st_packets_emitted (bm_stats b)"
  "st_dups_dropped (bm_stats (note_depth b)) = st_dups_dropped (bm_stats b)"
  "st_late_dropped (bm_stats (note_depth b)) = st_late_dropped (bm_stats b)"
  "st_late_duplicates (bm_stats (note_depth b)) = st_late_duplicates (bm_stats b)"
  "st_buffer_overflow_dropped (bm_stats (note_depth b)) = st_buffer_overflow_dropped (bm_stats b)"
  "st_stream_resets (bm_stats (note_depth b)) = st_stream_resets (bm_stats b)"
  by (simp_all add: note_depth_def)

section \<open>The hold's invariant\<close>

definition accounted :: "('t, 'd) buffered_merger \<Rightarrow> nat" where
  "accounted b =
     (let st = bm_stats b in
      st_packets_emitted st + length (bm_buffer b) + st_dups_dropped st + st_late_dropped st +
      st_late_duplicates st + st_buffer_overflow_dropped st)"

definition hold_inv :: "('t, 'd) buffered_merger \<Rightarrow> bool" where
  "hold_inv b \<longleftrightarrow>
     increasing (map be_key (bm_buffer b)) \<and>
     (\<forall>e\<in>set (bm_buffer b). snd (be_key e) < 65535 \<and>
        (\<forall>c. bm_cursor b = Some c \<longrightarrow> \<not> key_less (be_key e) c) \<and>
        be_release_at e = be_first_seen e + bm_max_path_diff b \<and>
        fst (be_key e) \<le> bm_anchor_virtual b)"

text \<open>All released keys are below the cursor.\<close>

definition behind_cursor :: "hold_key list \<Rightarrow> ('t, 'd) buffered_merger \<Rightarrow> bool" where
  "behind_cursor ks b \<longleftrightarrow> (\<forall>k\<in>set ks. \<exists>c. bm_cursor b = Some c \<and> key_less k c)"

lemma drain_ready_result:
  assumes inv: "hold_inv b" and ks: "increasing ks" "behind_cursor ks b"
    and res: "drain_ready b now = (out, b')"
  shows "hold_inv b'" "increasing (ks @ released_keys b now)"
    "behind_cursor (ks @ released_keys b now) b'" "accounted b' = accounted b"
    "length out = length (released_keys b now)"
    "st_packets_emitted (bm_stats b') = st_packets_emitted (bm_stats b) + length out"
    "bm_buffer b' = dropWhile (due now) (bm_buffer b)" "bm_dedup b' = bm_dedup b"
    "st_stream_resets (bm_stats b') = st_stream_resets (bm_stats b)"
proof -
  let ?tw = "takeWhile (due now) (bm_buffer b)" and ?dw = "dropWhile (due now) (bm_buffer b)"
  obtain b1 where d: "drain_loop now None (bm_buffer b) b = (out, b1)" and b': "b' = note_depth b1"
    using res by (auto simp: drain_ready_def split: prod.splits)
  note r = drain_loop_result [OF d]
  show buf: "bm_buffer b' = ?dw" "bm_dedup b' = bm_dedup b"
    "st_stream_resets (bm_stats b') = st_stream_resets (bm_stats b)" using r b' by auto
  show len: "length out = length (released_keys b now)" using r by (simp add: released_keys_def)
  show "st_packets_emitted (bm_stats b') = st_packets_emitted (bm_stats b) + length out"
    using r b' by simp
  have split: "length (bm_buffer b) = length ?tw + length ?dw"
    using takeWhile_dropWhile_id [of "due now" "bm_buffer b"] by (metis length_append)
  show "accounted b' = accounted b"
    using r b' len split by (simp add: accounted_def Let_def released_keys_def)
  have sorted: "increasing (map be_key ?tw @ map be_key ?dw)"
    using inv unfolding hold_inv_def by (metis map_append takeWhile_dropWhile_id)
  then have sw: "increasing (map be_key ?tw)" "increasing (map be_key ?dw)"
      "\<And>x y. x \<in> set ?tw \<Longrightarrow> y \<in> set ?dw \<Longrightarrow> key_less (be_key x) (be_key y)"
    by (auto simp: sorted_wrt_append)
  have above: "key_less k (be_key e)" if ke: "k \<in> set ks" "e \<in> set (bm_buffer b)" for k e
  proof -
    obtain c where c: "bm_cursor b = Some c" "key_less k c"
      using ks(2) ke(1) unfolding behind_cursor_def by blast
    then have "\<not> key_less (be_key e) c" using inv ke(2) by (simp add: hold_inv_def)
    then show ?thesis using c(2) key_less_total key_less_trans by metis
  qed
  show "increasing (ks @ released_keys b now)"
    using ks(1) sw(1) above by (auto simp: sorted_wrt_append released_keys_def dest: set_takeWhileD)
  have cur: "bm_cursor b' = (if ?tw = [] then bm_cursor b
      else Some (fst (be_key (last ?tw)), snd (be_key (last ?tw)) + 1))"
  proof (cases "?tw = []")
    case False
    have "last ?tw \<in> set (bm_buffer b)" using last_in_set [OF False] set_takeWhileD by metis
    then have "snd (be_key (last ?tw)) < 65535" using inv by (auto simp: hold_inv_def)
    then show ?thesis using r b' False by simp
  qed (use r b' in simp)
  have below: "key_less (be_key x) c" if "x \<in> set ?tw" "bm_cursor b' = Some c" for x c
  proof -
    have ne: "?tw \<noteq> []" using that(1) by auto
    then have c: "c = (fst (be_key (last ?tw)), snd (be_key (last ?tw)) + 1)" using cur that(2) by simp
    have "x = last ?tw \<or> key_less (be_key x) (be_key (last ?tw))"
      using that(1) sw(1) by (cases ?tw rule: rev_cases) (auto simp: sorted_wrt_append)
    then show ?thesis unfolding c by (auto simp: key_less_def)
  qed
  have kept: "\<not> key_less (be_key e) c" if "e \<in> set ?dw" "bm_cursor b' = Some c" for e c
  proof (cases "?tw = []")
    case True
    then have "bm_cursor b = Some c" using cur that(2) by simp
    moreover have "e \<in> set (bm_buffer b)" using that(1) set_dropWhileD by metis
    ultimately show ?thesis using inv unfolding hold_inv_def by blast
  next
    case False
    then have "key_less (be_key (last ?tw)) (be_key e)" using sw(3) that(1) by auto
    then show ?thesis using cur that(2) False key_less_succ by (metis option.inject prod.collapse)
  qed
  show "hold_inv b'"
    using inv sw(2) kept r b' buf(1) unfolding hold_inv_def by (auto dest: set_dropWhileD)
  show "behind_cursor (ks @ released_keys b now) b'"
  proof (cases "?tw = []")
    case True
    then show ?thesis using ks(2) cur by (auto simp: behind_cursor_def released_keys_def)
  next
    case False
    then obtain c where c: "bm_cursor b' = Some c" using cur by auto
    have "key_less k c" if "k \<in> set ks" for k
      using above [OF that, of "last ?tw"] below [OF _ c, of "last ?tw"] last_in_set [OF False]
        key_less_trans by (metis set_takeWhileD)
    then have "\<forall>k\<in>set (ks @ released_keys b now). key_less k c"
      using below [OF _ c] by (auto simp: released_keys_def)
    then show ?thesis using c unfolding behind_cursor_def by blast
  qed
qed

section \<open>Filing one packet\<close>

text \<open>The part of the state the hold's guarantees are about.\<close>

definition same_hold :: "('t, 'd) buffered_merger \<Rightarrow> ('t, 'd) buffered_merger \<Rightarrow> bool" where
  "same_hold b b' \<longleftrightarrow> bm_buffer b' = bm_buffer b \<and> bm_cursor b' = bm_cursor b \<and>
     bm_max_path_diff b' = bm_max_path_diff b \<and> bm_anchor_virtual b \<le> bm_anchor_virtual b'"

lemma hold_inv_same_hold: "same_hold b b' \<Longrightarrow> hold_inv b \<Longrightarrow> hold_inv b'"
  by (fastforce simp: same_hold_def hold_inv_def)

lemma note_arrival_hold:
  "same_hold b (note_arrival b seq leg now u)" "accounted (note_arrival b seq leg now u) = accounted b"
  "st_packets_emitted (bm_stats (note_arrival b seq leg now u)) = st_packets_emitted (bm_stats b)"
  "bm_anchor_virtual (note_arrival b seq leg now u) = bm_anchor_virtual b"
  by (simp_all add: note_arrival_def same_hold_def accounted_def Let_def split: option.splits)

lemma project_hold:
  assumes "project b seq = (v, b')"
  shows "same_hold b b'" "accounted b' = accounted b" "v \<le> bm_anchor_virtual b'"
    "bm_stats b' = bm_stats b"
  using assms
  by (auto simp: project_def same_hold_def accounted_def Let_def split: if_splits)

lemma late_copy_hold:
  assumes "late_copy b k leg now = (dup, b')"
  shows "same_hold b b'" "accounted b' = accounted b + 1"
    "st_packets_emitted (bm_stats b') = st_packets_emitted (bm_stats b)"
  using assms
  by (auto simp: late_copy_def observe_path_diff_def same_hold_def accounted_def Let_def
      split: prod.splits if_splits)

lemma held_again_hold:
  assumes pos: "pos < length (bm_buffer b)" and inv: "hold_inv b"
  shows "hold_inv (held_again D b pos seq leg now)"
    "accounted (held_again D b pos seq leg now) = accounted b + 1"
    "bm_cursor (held_again D b pos seq leg now) = bm_cursor b"
    "st_packets_emitted (bm_stats (held_again D b pos seq leg now)) = st_packets_emitted (bm_stats b)"
proof -
  let ?b = "held_again D b pos seq leg now" and ?e = "bm_buffer b ! pos"
  let ?upd = "(bm_buffer b)[pos := ?e\<lparr>be_legs_seen := be_legs_seen ?e OR leg_bit leg\<rparr>]"
  have b': "bm_buffer ?b = bm_buffer b \<or> bm_buffer ?b = ?upd" "bm_cursor ?b = bm_cursor b"
      "bm_max_path_diff ?b = bm_max_path_diff b" "bm_anchor_virtual ?b = bm_anchor_virtual b"
    by (simp_all add: held_again_def observe_path_diff_def Let_def)
  have keys: "map be_key ?upd = map be_key (bm_buffer b)" 
    by (rule nth_equalityI) (use pos in \<open>auto simp: nth_list_update\<close>)
  have ok: "snd (be_key x) < 65535 \<and> (\<forall>c. bm_cursor b = Some c \<longrightarrow> \<not> key_less (be_key x) c) \<and>
      be_release_at x = be_first_seen x + bm_max_path_diff b \<and> fst (be_key x) \<le> bm_anchor_virtual b"
    if x: "x \<in> set ?upd" for x
  proof -
    obtain y where "y \<in> set (bm_buffer b)" "be_key x = be_key y" "be_release_at x = be_release_at y"
        "be_first_seen x = be_first_seen y"
      using x pos nth_mem [OF pos] set_update_subset_insert by fastforce
    then show ?thesis using inv by (simp add: hold_inv_def)
  qed
  show "hold_inv ?b"
  proof (cases "bm_buffer ?b = bm_buffer b")
    case True
    then show ?thesis using inv b' by (simp add: hold_inv_def)
  next
    case False
    then have u: "bm_buffer ?b = ?upd" using b'(1) by simp
    show ?thesis using inv ok keys unfolding hold_inv_def u b'(2-4) by simp
  qed
  show "bm_cursor ?b = bm_cursor b" by (rule b'(2))
  show "accounted ?b = accounted b + 1"
    "st_packets_emitted (bm_stats ?b) = st_packets_emitted (bm_stats b)"
    by (simp_all add: held_again_def observe_path_diff_def accounted_def Let_def)
qed

lemma hold_find_Inr:
  assumes inc: "increasing (map be_key (bm_buffer b))" and f: "hold_find b k = Inr pos"
  shows "k \<notin> be_key ` set (bm_buffer b)"
    and "take pos (bm_buffer b) = takeWhile (\<lambda>e. key_less (be_key e) k) (bm_buffer b)"
    and "drop pos (bm_buffer b) = dropWhile (\<lambda>e. key_less (be_key e) k) (bm_buffer b)"
proof -
  let ?P = "\<lambda>e. key_less (be_key e) k" and ?es = "bm_buffer b"
  have pos: "pos = length (takeWhile ?P ?es)" "pos < length ?es \<Longrightarrow> be_key (?es ! pos) \<noteq> k"
    using f by (auto simp: hold_find_def Let_def split: if_splits)
  show "take pos ?es = takeWhile ?P ?es" "drop pos ?es = dropWhile ?P ?es"
    by (simp_all add: pos(1) takeWhile_eq_take [symmetric] dropWhile_eq_drop [symmetric])
  show "k \<notin> be_key ` set ?es"
  proof
    assume "k \<in> be_key ` set ?es"
    then obtain i where i: "i < length ?es" "be_key (?es ! i) = k" by (auto simp: in_set_conv_nth)
    have "j < i \<Longrightarrow> ?P (?es ! j)" for j
      using sorted_wrt_nth_less [OF inc, of j i] i by simp
    moreover have "\<not> ?P (?es ! i)" using i(2) by simp
    ultimately have "takeWhile ?P ?es = take i ?es" by (intro takeWhile_eq_take_P_nth) auto
    then have "length (takeWhile ?P ?es) = i" using i(1) by simp
    then show False using pos i by simp
  qed
qed

lemma increasing_insert:
  assumes inc: "increasing (map be_key es)" and k: "be_key e \<notin> be_key ` set es"
  defines "P \<equiv> \<lambda>x. key_less (be_key x) (be_key e)"
  shows "increasing (map be_key (takeWhile P es @ e # dropWhile P es))"
proof -
  have parts: "increasing (map be_key (takeWhile P es) @ map be_key (dropWhile P es))"
    using inc by (metis map_append takeWhile_dropWhile_id)
  have low: "key_less (be_key x) (be_key e)" if "x \<in> set (takeWhile P es)" for x
    using that by (auto simp: P_def dest: set_takeWhileD)
  have high: "key_less (be_key e) (be_key y)" if y: "y \<in> set (dropWhile P es)" for y
  proof -
    obtain z zs where dz: "dropWhile P es = z # zs" using y by (cases "dropWhile P es") auto
    have "\<not> P z" using hd_dropWhile [of P es] dz by auto
    moreover have "z \<in> set es" using dz set_dropWhileD [of z P es] by simp
    moreover from this have "be_key z \<noteq> be_key e" using k by (metis imageI)
    ultimately have z: "key_less (be_key e) (be_key z)"
      using key_less_total [of "be_key z" "be_key e"] by (simp add: P_def)
    have "y = z \<or> key_less (be_key z) (be_key y)" using parts y dz by (auto simp: sorted_wrt_append)
    then show ?thesis using z key_less_trans by metis
  qed
  show ?thesis using parts low high by (auto simp: sorted_wrt_append)
qed

lemma hold_packet_result:
  assumes inv: "hold_inv b" and k: "snd k < 65535" "fst k \<le> bm_anchor_virtual b"
    and fresh: "hold_find b k = Inr pos"
  shows "hold_inv (hold_packet b k leg payload now)"
    "accounted (hold_packet b k leg payload now) = accounted b + 1"
    "bm_cursor (hold_packet b k leg payload now) = bm_cursor b"
    "st_packets_emitted (bm_stats (hold_packet b k leg payload now)) = st_packets_emitted (bm_stats b)"
    "st_stream_resets (bm_stats (hold_packet b k leg payload now)) = st_stream_resets (bm_stats b)"
    "bm_dedup (hold_packet b k leg payload now) = bm_dedup b"
proof -
  let ?b = "hold_packet b k leg payload now"
  have "hold_inv ?b \<and> accounted ?b = accounted b + 1 \<and> bm_cursor ?b = bm_cursor b \<and>
      st_packets_emitted (bm_stats ?b) = st_packets_emitted (bm_stats b) \<and>
      st_stream_resets (bm_stats ?b) = st_stream_resets (bm_stats b) \<and> bm_dedup ?b = bm_dedup b"
  proof (cases "case bm_cursor b of Some c \<Rightarrow> key_less k c | None \<Rightarrow> False")
    case True
    obtain dup b1 where lc: "late_copy b k leg now = (dup, b1)" by force
    note l = late_copy_hold [OF lc]
    have s: "st_stream_resets (bm_stats b1) = st_stream_resets (bm_stats b)" "bm_dedup b1 = bm_dedup b"
      using lc by (auto simp: late_copy_def observe_path_diff_def Let_def split: prod.splits if_splits)
    have "?b = (if dup then b1 else b1\<lparr>bm_unreleased := bm_unreleased b1 + 1\<rparr>)"
      using True by (simp add: hold_packet_def lc)
    then show ?thesis
      using l s hold_inv_same_hold [OF l(1) inv] by (auto simp: hold_inv_def accounted_def same_hold_def)
  next
    case late: False
    then have cur: "\<And>c. bm_cursor b = Some c \<Longrightarrow> \<not> key_less k c" by simp
    show ?thesis
    proof (cases "length (bm_buffer b) \<ge> bm_max_buffer_packets b")
      case True
      then show ?thesis using late inv by (simp add: hold_packet_def hold_inv_def accounted_def Let_def)
    next
      case False
      define e where "e = \<lparr>be_key = k, be_payload = payload, be_first_leg = leg, be_first_seen = now,
          be_release_at = now + bm_max_path_diff b, be_legs_seen = leg_bit leg\<rparr>"
      have b': "?b = note_depth (b\<lparr>bm_buffer := take pos (bm_buffer b) @ e # drop pos (bm_buffer b)\<rparr>)"
        unfolding hold_packet_def Let_def e_def [symmetric] using late False fresh by simp
      have inc: "increasing (map be_key (bm_buffer b))" using inv by (simp add: hold_inv_def)
      note f = hold_find_Inr [OF inc fresh]
      have ek: "be_key e = k" "be_first_seen e = now" "be_release_at e = now + bm_max_path_diff b"
        by (simp_all add: e_def)
      have inc': "increasing (map be_key (take pos (bm_buffer b) @ e # drop pos (bm_buffer b)))"
        using increasing_insert [OF inc, of e] f unfolding ek(1) by simp
      have mem: "set (take pos (bm_buffer b) @ e # drop pos (bm_buffer b)) = insert e (set (bm_buffer b))"
      proof -
        have "set (take pos (bm_buffer b)) \<union> set (drop pos (bm_buffer b)) = set (bm_buffer b)"
          by (metis append_take_drop_id set_append)
        then show ?thesis by auto
      qed
      have "\<forall>x\<in>set (bm_buffer ?b). snd (be_key x) < 65535 \<and>
          (\<forall>c. bm_cursor ?b = Some c \<longrightarrow> \<not> key_less (be_key x) c) \<and>
          be_release_at x = be_first_seen x + bm_max_path_diff ?b \<and> fst (be_key x) \<le> bm_anchor_virtual ?b"
      proof -
        have "bm_buffer ?b = take pos (bm_buffer b) @ e # drop pos (bm_buffer b)" "bm_cursor ?b = bm_cursor b"
            "bm_max_path_diff ?b = bm_max_path_diff b" "bm_anchor_virtual ?b = bm_anchor_virtual b"
          unfolding b' by simp_all
        then show ?thesis using inv k cur ek unfolding hold_inv_def by (simp only: mem) auto
      qed
      then have "hold_inv ?b" using inc' unfolding hold_inv_def b' by simp
      moreover have "length (take pos (bm_buffer b)) + length (drop pos (bm_buffer b)) = length (bm_buffer b)"
        by simp
      ultimately show ?thesis unfolding b' by (simp add: accounted_def Let_def)
    qed
  qed
  then show "hold_inv ?b" "accounted ?b = accounted b + 1" "bm_cursor ?b = bm_cursor b"
    "st_packets_emitted (bm_stats ?b) = st_packets_emitted (bm_stats b)"
    "st_stream_resets (bm_stats ?b) = st_stream_resets (bm_stats b)" "bm_dedup ?b = bm_dedup b" by auto
qed

text \<open>A packet the dedup admitted, filed under its projected number or, where it re-anchored the
  window from behind, under a number past everything held.\<close>

lemma admitted_result:
  assumes inv: "hold_inv b" and v: "v \<le> bm_anchor_virtual b" and index: "index < 65535"
    and fresh: "hold_find b (v, index) = Inr pos"
    and b1: "b1 = (if moved then b\<lparr>bm_stats := (bm_stats b)\<lparr>st_stream_resets :=
          st_stream_resets (bm_stats b) + 1\<rparr>\<rparr> else b)"
    and vb: "(v2, b2) = (if moved \<and> v < bm_anchor_virtual b1
        then (bm_anchor_virtual b1 + 1, b1\<lparr>bm_anchor_real := seq,
          bm_anchor_virtual := bm_anchor_virtual b1 + 1\<rparr>) else (v, b1))"
    and b': "b' = hold_packet b2 (v2, index) leg payload now"
  shows "hold_inv b'" "accounted b' = accounted b + 1" "bm_cursor b' = bm_cursor b"
    "st_packets_emitted (bm_stats b') = st_packets_emitted (bm_stats b)"
    "st_stream_resets (bm_stats b') = st_stream_resets (bm_stats b) + (if moved then 1 else 0)"
    "bm_dedup b' = bm_dedup b"
proof -
  have i1: "hold_inv b1" "accounted b1 = accounted b" "bm_cursor b1 = bm_cursor b"
      "st_packets_emitted (bm_stats b1) = st_packets_emitted (bm_stats b)" "bm_buffer b1 = bm_buffer b"
      "bm_anchor_virtual b1 = bm_anchor_virtual b" "bm_dedup b1 = bm_dedup b"
      "st_stream_resets (bm_stats b1) = st_stream_resets (bm_stats b) + (if moved then 1 else 0)"
    using inv by (auto simp: b1 hold_inv_def accounted_def Let_def)
  have i2: "hold_inv b2" "accounted b2 = accounted b" "bm_cursor b2 = bm_cursor b"
      "st_packets_emitted (bm_stats b2) = st_packets_emitted (bm_stats b)" "bm_buffer b2 = bm_buffer b"
      "bm_dedup b2 = bm_dedup b" "bm_stats b2 = bm_stats b1" "v2 \<le> bm_anchor_virtual b2"
    using vb i1 v by (auto simp: hold_inv_def accounted_def split: if_splits)
  have "\<exists>pos. hold_find b2 (v2, index) = Inr pos"
  proof (cases "moved \<and> v < bm_anchor_virtual b1")
    case True
    then have "\<forall>e\<in>set (bm_buffer b). fst (be_key e) < v2"
      using vb inv i1(6) by (auto simp: hold_inv_def)
    then have "(v2, index) \<noteq> be_key e" if "e \<in> set (bm_buffer b2)" for e
      using that i2(5) by (metis fst_conv less_irrefl)
    then show ?thesis unfolding hold_find_def Let_def by (metis nth_mem)
  next
    case False
    then have "v2 = v" using vb by auto
    then show ?thesis using fresh i2(5) by (simp add: hold_find_def)
  qed
  then obtain pos2 where "hold_find b2 (v2, index) = Inr pos2" by blast
  note h = hold_packet_result [OF i2(1) _ _ this, where leg = leg and payload = payload and now = now]
  then show "hold_inv b'" "accounted b' = accounted b + 1" "bm_cursor b' = bm_cursor b"
    "st_packets_emitted (bm_stats b') = st_packets_emitted (bm_stats b)"
    "st_stream_resets (bm_stats b') = st_stream_resets (bm_stats b) + (if moved then 1 else 0)"
    "bm_dedup b' = bm_dedup b"
    using index i1 i2 by (simp_all add: b')
qed

text \<open>What filing one packet does, and what it leaves to the dedup.\<close>

lemma ingest_file_result:
  assumes inv: "hold_inv b" and index: "index < 65535"
    and b': "b' = ingest_file D b seq index leg payload now u"
  shows "hold_inv b'" "accounted b' = accounted b + 1" "bm_cursor b' = bm_cursor b"
    "st_packets_emitted (bm_stats b') = st_packets_emitted (bm_stats b)"
    "bm_dedup b' = sd_held_copy D (bm_dedup b) seq leg \<and>
       st_stream_resets (bm_stats b') = st_stream_resets (bm_stats b) \<or>
     (\<exists>now_us res. sd_admit D (bm_dedup b) seq index leg now_us = (res, bm_dedup b') \<and>
       st_stream_resets (bm_stats b') = st_stream_resets (bm_stats b) +
         (if res \<noteq> None \<and> sd_resets D (bm_dedup b') \<noteq> sd_resets D (bm_dedup b) then 1 else 0))"
proof -
  note na = note_arrival_hold [of b seq leg now u]
  obtain v b1 where pr: "project (note_arrival b seq leg now u) seq = (v, b1)" by force
  note p = project_hold [OF pr]
  have i1: "hold_inv b1" by (rule hold_inv_same_hold [OF p(1) hold_inv_same_hold [OF na(1) inv]])
  have a1: "accounted b1 = accounted b" "bm_cursor b1 = bm_cursor b" "bm_dedup b1 = bm_dedup b"
      "st_packets_emitted (bm_stats b1) = st_packets_emitted (bm_stats b)"
      "st_stream_resets (bm_stats b1) = st_stream_resets (bm_stats b)"
    using p na pr by (auto simp: same_hold_def project_def note_arrival_def Let_def split: if_splits option.splits)
  have "hold_inv b' \<and> accounted b' = accounted b + 1 \<and> bm_cursor b' = bm_cursor b \<and>
      st_packets_emitted (bm_stats b') = st_packets_emitted (bm_stats b) \<and>
      (bm_dedup b' = sd_held_copy D (bm_dedup b) seq leg \<and>
       st_stream_resets (bm_stats b') = st_stream_resets (bm_stats b) \<or>
       (\<exists>now_us res. sd_admit D (bm_dedup b) seq index leg now_us = (res, bm_dedup b') \<and>
         st_stream_resets (bm_stats b') = st_stream_resets (bm_stats b) +
           (if res \<noteq> None \<and> sd_resets D (bm_dedup b') \<noteq> sd_resets D (bm_dedup b) then 1 else 0)))"
  proof (cases "hold_find b1 (v, index)")
    case (Inl pos)
    then have "pos < length (bm_buffer b1)" by (auto simp: hold_find_def Let_def split: if_splits)
    moreover have "b' = held_again D b1 pos seq leg now" using Inl by (simp add: b' ingest_file_def pr)
    moreover have "bm_dedup (held_again D b1 pos seq leg now) = sd_held_copy D (bm_dedup b) seq leg"
        "st_stream_resets (bm_stats (held_again D b1 pos seq leg now)) = st_stream_resets (bm_stats b)"
      using a1 by (simp_all add: held_again_def observe_path_diff_def Let_def)
    ultimately show ?thesis using held_again_hold [OF _ i1] a1 by simp
  next
    case (Inr pos)
    obtain res d where ad: "sd_admit D (bm_dedup b1) seq index leg (now - bm_epoch b1) = (res, d)" by force
    define b2 where "b2 = b1\<lparr>bm_dedup := d\<rparr>"
    have i2: "hold_inv b2" "accounted b2 = accounted b" "bm_cursor b2 = bm_cursor b" "bm_dedup b2 = d"
        "st_packets_emitted (bm_stats b2) = st_packets_emitted (bm_stats b)"
        "st_stream_resets (bm_stats b2) = st_stream_resets (bm_stats b)"
        "v \<le> bm_anchor_virtual b2" "hold_find b2 (v, index) = Inr pos"
      using i1 a1 p(3) Inr by (simp_all add: b2_def hold_inv_def accounted_def hold_find_def)
    have ad': "\<exists>now_us. sd_admit D (bm_dedup b) seq index leg now_us = (res, d)" using ad a1(3) by auto
    show ?thesis
    proof (cases res)
      case None
      obtain dup b3 where lc: "late_copy b2 (v, index) leg now = (dup, b3)" by force
      have "b' = b3" using None Inr ad lc by (simp add: b' ingest_file_def pr b2_def)
      moreover have "bm_dedup b3 = d" "st_stream_resets (bm_stats b3) = st_stream_resets (bm_stats b)"
        using lc i2 by (auto simp: late_copy_def observe_path_diff_def Let_def split: prod.splits if_splits)
      ultimately show ?thesis
        using late_copy_hold [OF lc] hold_inv_same_hold [OF late_copy_hold(1) [OF lc] i2(1)] i2 ad' None
        by (auto simp: same_hold_def)
    next
      case (Some l)
      define moved where "moved \<longleftrightarrow> sd_resets D d \<noteq> sd_resets D (bm_dedup b1)"
      define b3 where "b3 = (if moved then b2\<lparr>bm_stats := (bm_stats b2)\<lparr>st_stream_resets :=
          st_stream_resets (bm_stats b2) + 1\<rparr>\<rparr> else b2)"
      obtain v4 b4 where vb: "(v4, b4) = (if moved \<and> v < bm_anchor_virtual b3
          then (bm_anchor_virtual b3 + 1, b3\<lparr>bm_anchor_real := seq,
            bm_anchor_virtual := bm_anchor_virtual b3 + 1\<rparr>) else (v, b3))" by (metis surj_pair)
      have "b' = hold_packet b4 (v4, index) leg payload now"
        using Some Inr ad vb
        by (cases moved; cases "v < bm_anchor_virtual b1")
           (simp_all add: b' ingest_file_def pr b2_def b3_def moved_def)
      note r = admitted_result [OF i2(1,7) index i2(8) b3_def vb this]
      then show ?thesis using i2 ad' Some a1(3) by (auto simp: moved_def)
    qed
  qed
  then show "hold_inv b'" "accounted b' = accounted b + 1" "bm_cursor b' = bm_cursor b"
    "st_packets_emitted (bm_stats b') = st_packets_emitted (bm_stats b)"
    "bm_dedup b' = sd_held_copy D (bm_dedup b) seq leg \<and>
       st_stream_resets (bm_stats b') = st_stream_resets (bm_stats b) \<or>
     (\<exists>now_us res. sd_admit D (bm_dedup b) seq index leg now_us = (res, bm_dedup b') \<and>
       st_stream_resets (bm_stats b') = st_stream_resets (bm_stats b) +
         (if res \<noteq> None \<and> sd_resets D (bm_dedup b') \<noteq> sd_resets D (bm_dedup b) then 1 else 0))" by auto
qed

end
