(* ===== verification/HitlessLaws.thy ===== *)
theory HitlessLaws
  imports BufferedCorrect
begin

text \<open>
  The two traits of \<open>src/src/redundancy/merger.rs\<close> as interfaces: what \<open>LossCounts\<close> and
  \<open>SeqDedup\<close> promise their callers, the callers' facts proved once over the promise, and the
  promise discharged for the source's implementations.
\<close>

section \<open>What one step of the merger does to its counts\<close>

lemma advance_slots_mono:
  "hm_lost m \<le> hm_lost (advance_slots u t f xs m) \<and> hm_skipped m \<le> hm_skipped (advance_slots u t f xs m)"
proof (induction xs arbitrary: m)
  case (Cons a xs)
  define m1 where "m1 = (if a > u \<and> \<not> is_emitted m (slot_ahead m a)
      then (if a \<le> t then m\<lparr>hm_skipped := hm_skipped m + 1\<rparr> else m\<lparr>hm_lost := hm_lost m + 1\<rparr>) else m)"
  define m2 where "m2 = set_emitted m1 (slot_ahead m a) (a = f)"
  have "advance_slots u t f (a # xs) m = advance_slots u t f xs m2"
    by (simp add: m2_def m1_def Let_def)
  moreover have "hm_lost m \<le> hm_lost m2" "hm_skipped m \<le> hm_skipped m2"
    by (simp_all add: m2_def m1_def)
  ultimately show ?case using Cons.IH [of m2] by simp
qed simp

lemma advance_mono:
  "hm_lost m \<le> hm_lost (advance m seq f)" "hm_skipped m \<le> hm_skipped (advance m seq f)"
  using advance_slots_mono [of m] by (simp_all add: advance_def Let_def)

lemma reanchor_mono:
  "hm_lost m \<le> hm_lost (reanchor m seq f)" "hm_skipped m \<le> hm_skipped (reanchor m seq f)"
  by (simp_all add: reanchor_def count_unfilled_def Let_def)

text \<open>\<open>step_ok m seq m'\<close>: the invariant is kept, no count falls, the re-anchor count grows by one
  at most, and only for a packet that is in the window afterwards.\<close>

definition step_ok :: "hitless_merger \<Rightarrow> u16 \<Rightarrow> hitless_merger \<Rightarrow> bool" where
  "step_ok m seq m' \<longleftrightarrow> window_inv m' \<and> hm_lost m \<le> hm_lost m' \<and> hm_skipped m \<le> hm_skipped m' \<and>
     (hm_resets m' = hm_resets m \<or>
      hm_resets m' = hm_resets m + 1 \<and> hm_highest_seq m' = seq \<and> hm_initialized m')"

lemma step_ok_same_window: "window_inv m \<Longrightarrow> same_window m m' \<Longrightarrow> step_ok m seq m'"
  using same_windowD(1) [of m m'] by (simp add: step_ok_def same_window_def)

lemma step_ok_trans_window:
  assumes "same_window m m1" "step_ok m1 seq m2" "same_window m2 m'"
  shows "step_ok m seq m'"
  using assms same_windowD(1) [OF assms(3)] by (auto simp: step_ok_def same_window_def)

lemma try_merge_step:
  assumes inv: "window_inv m" and res: "try_merge m seq leg now = (r, m')"
  shows "step_ok m seq m'" "r = None \<Longrightarrow> hm_resets m' = hm_resets m" "r = None \<or> r = Some leg"
proof -
  note ok = window_okD [OF window_invD(1) [OF inv]]
  have "step_ok m seq m' \<and> (r = None \<longrightarrow> hm_resets m' = hm_resets m) \<and> (r = None \<or> r = Some leg)"
  proof (cases "hm_initialized m")
    case False
    let ?a = "(anchor (observe m seq leg) seq)\<lparr>hm_initialized := True\<rparr>"
    note o = same_window_observe [of m seq leg]
    have acc: "accept ?a leg now = (r, m')"
      using False res same_windowD(6) [OF o] by (simp add: try_merge_def Let_def)
    have "window_inv (observe m seq leg)" using same_windowD(1) [OF o] inv by simp
    then have "window_inv ?a" using ok(4) same_windowD(4) [OF o] by (simp add: window_inv_def)
    then have "step_ok m seq ?a" using o by (simp add: step_ok_def same_window_def)
    then have "step_ok m seq m'"
      using step_ok_trans_window [of m m seq ?a m'] same_window_accept [OF acc] by (simp add: same_window_def)
    moreover have "r = Some leg" using acc by (simp add: accept_def)
    ultimately show ?thesis by simp
  next
    case True
    from try_merge_cases [OF True res ok(2)] show ?thesis
    proof (elim disjE exE conjE)
      assume "r = None" "same_window m m'"
      then show ?thesis using step_ok_same_window [OF inv] same_windowD(10) by auto
    next
      fix m1 f assume "r = Some leg" and m1: "same_window m m1" and f: "hm_window m \<le> f"
        and m': "same_window (reanchor m1 seq f) m'"
      moreover have "window_inv m1" "hm_initialized m1" using same_windowD(1,6) [OF m1] inv True by auto
      ultimately have "step_ok m1 seq (reanchor m1 seq f)"
        using reanchor_mono reanchor_result(1) [of m1 f seq] same_windowD(4) [OF m1] by (simp add: step_ok_def)
      then show ?thesis using step_ok_trans_window [OF m1 _ m'] \<open>r = Some leg\<close> by simp
    next
      fix m1 f assume "r = Some leg" and m1: "same_window m m1" and f: "0 < f" "f < hm_window m"
        and m': "same_window (advance m1 seq f) m'"
      moreover have i1: "window_inv m1" "f < hm_window m1" using same_windowD(1,4) [OF m1] inv f(2) by auto
      have "step_ok m1 seq (advance m1 seq f)"
        using advance_mono advance_result(1,8) [OF i1(1) f(1) i1(2), where seq = seq] by (simp add: step_ok_def)
      then show ?thesis using step_ok_trans_window [OF m1 _ m'] \<open>r = Some leg\<close> by simp
    next
      fix m1 b assume "r = Some leg" and m1: "same_window m m1"
        and m': "same_window (set_emitted m1 (slot_behind m1 b) True) m'"
      moreover have "step_ok m1 seq (set_emitted m1 (slot_behind m1 b) True)"
        using same_windowD(1) [OF m1] inv by (simp add: step_ok_def)
      ultimately show ?thesis using step_ok_trans_window [OF m1 _ m'] by simp
    qed
  qed
  then show "step_ok m seq m'" "r = None \<Longrightarrow> hm_resets m' = hm_resets m" "r = None \<or> r = Some leg" by auto
qed

section \<open>Counts that only grow\<close>

text \<open>\<open>LossCounts\<close>: a caller hands the counts on by difference, so they may only grow.\<close>

locale loss_counts =
  fixes lost skipped resets :: "'m \<Rightarrow> nat" and moves :: "'m \<Rightarrow> 'm \<Rightarrow> bool"
  assumes grows: "moves m m' \<Longrightarrow> lost m \<le> lost m' \<and> skipped m \<le> skipped m' \<and> resets m \<le> resets m'"
begin

lemma counts_grow:
  assumes "moves\<^sup>*\<^sup>* m m'"
  shows "lost m \<le> lost m' \<and> skipped m \<le> skipped m' \<and> resets m \<le> resets m'"
  using assms by (induction rule: rtranclp_induct) (auto dest: grows order_trans)

lemma handed_off:
  assumes "moves\<^sup>*\<^sup>* a b" "moves\<^sup>*\<^sup>* b c"
  shows "(lost b - lost a) + (lost c - lost b) = lost c - lost a"
    and "(skipped b - skipped a) + (skipped c - skipped b) = skipped c - skipped a"
    and "(resets b - resets a) + (resets c - resets b) = resets c - resets a"
  using counts_grow [OF assms(1)] counts_grow [OF assms(2)] by simp_all

end

inductive merger_moves :: "hitless_merger \<Rightarrow> hitless_merger \<Rightarrow> bool" where
  packet: "window_inv m \<Longrightarrow> merger_moves m (snd (try_merge m seq leg now))"
| observed: "window_inv m \<Longrightarrow> merger_moves m (observe m seq leg)"
| stale: "window_inv m \<Longrightarrow> merger_moves m (set_stale_after_us m t)"
| restarted: "window_inv m \<Longrightarrow> merger_moves m (merger_restart m)"

lemma restart_mono:
  "hm_lost m \<le> hm_lost (merger_restart m) \<and> hm_skipped m \<le> hm_skipped (merger_restart m) \<and>
   hm_resets (merger_restart m) = hm_resets m"
  by (simp add: merger_restart_def Let_def count_unfilled_def)

interpretation merger_counts: loss_counts hm_lost hm_skipped hm_resets merger_moves
proof
  fix m m' assume "merger_moves m m'"
  then show "hm_lost m \<le> hm_lost m' \<and> hm_skipped m \<le> hm_skipped m' \<and> hm_resets m \<le> hm_resets m'"
  proof cases
    case (packet seq leg now)
    then show ?thesis using try_merge_step(1) [OF packet(2) prod.collapse [symmetric], of seq leg now]
      by (auto simp: step_ok_def)
  next
    case (observed seq leg)
    then show ?thesis using same_window_observe [of m seq leg] by (simp add: same_window_def)
  next
    case (stale t)
    then show ?thesis by (simp add: set_stale_after_us_def)
  next
    case restarted
    then show ?thesis using restart_mono by simp
  qed
qed

section \<open>The dedup a buffered merger relies on\<close>

locale dedup_laws =
  fixes D :: "'d seq_dedup" and ok :: "'d \<Rightarrow> bool"
  assumes admit_ok: "ok d \<Longrightarrow> sd_admit D d seq index leg now = (res, d') \<Longrightarrow> ok d'"
    and admit_resets: "ok d \<Longrightarrow> sd_admit D d seq index leg now = (res, d') \<Longrightarrow>
      sd_resets D d' = sd_resets D d \<or> res \<noteq> None \<and> sd_resets D d' = sd_resets D d + 1"
    and held_copy_ok: "ok d \<Longrightarrow> ok (sd_held_copy D d seq leg)"
    and held_copy_resets: "sd_resets D (sd_held_copy D d seq leg) = sd_resets D d"
    and set_stale_ok: "ok d \<Longrightarrow> ok (sd_set_stale D d t)"
    and set_stale_resets: "sd_resets D (sd_set_stale D d t) = sd_resets D d"
begin

text \<open>The buffered merger's reset counter follows the dedup's.\<close>

lemma ingest_counts_resets:
  assumes "hold_inv b" "ok (bm_dedup b)" "index < 65535"
    and "b' = ingest_file D b seq index leg payload now u"
  shows "ok (bm_dedup b')"
    "st_stream_resets (bm_stats b') + sd_resets D (bm_dedup b) =
       st_stream_resets (bm_stats b) + sd_resets D (bm_dedup b')"
proof -
  from ingest_file_result(5) [OF assms(1,3,4)]
  have "ok (bm_dedup b') \<and> st_stream_resets (bm_stats b') + sd_resets D (bm_dedup b) =
       st_stream_resets (bm_stats b) + sd_resets D (bm_dedup b')"
  proof (elim disjE conjE exE)
    assume "bm_dedup b' = sd_held_copy D (bm_dedup b) seq leg"
      "st_stream_resets (bm_stats b') = st_stream_resets (bm_stats b)"
    then show ?thesis using held_copy_ok [OF assms(2)] held_copy_resets by simp
  next
    fix now_us res assume a: "sd_admit D (bm_dedup b) seq index leg now_us = (res, bm_dedup b')"
      and s: "st_stream_resets (bm_stats b') = st_stream_resets (bm_stats b) +
        (if res \<noteq> None \<and> sd_resets D (bm_dedup b') \<noteq> sd_resets D (bm_dedup b) then 1 else 0)"
    then show ?thesis using admit_ok [OF assms(2) a] admit_resets [OF assms(2) a] by auto
  qed
  then show "ok (bm_dedup b')"
    "st_stream_resets (bm_stats b') + sd_resets D (bm_dedup b) =
       st_stream_resets (bm_stats b) + sd_resets D (bm_dedup b')" by auto
qed

end

lemma window_inv_observe [simp]: "window_inv (observe m seq leg) = window_inv m"
  by (rule same_windowD(1)) simp

lemma window_inv_stale [simp]: "window_inv (set_stale_after_us m t) = window_inv m"
  by (rule same_windowD(1)) simp

lemma resets_observe [simp]: "hm_resets (observe m seq leg) = hm_resets m"
  by (rule same_windowD(10)) simp

lemma resets_stale [simp]: "hm_resets (set_stale_after_us m t) = hm_resets m"
  by (rule same_windowD(10)) simp

interpretation hitless_laws: dedup_laws hitless_dedup window_inv
proof
  fix d seq index leg now res d'
  assume inv: "window_inv d" and "sd_admit hitless_dedup d seq index leg now = (res, d')"
  then have tm: "try_merge d seq leg now = (res, d')" by (simp add: hitless_dedup_def)
  note st = try_merge_step [OF inv tm]
  show "window_inv d'" using st(1) by (simp add: step_ok_def)
  show "sd_resets hitless_dedup d' = sd_resets hitless_dedup d \<or>
      res \<noteq> None \<and> sd_resets hitless_dedup d' = sd_resets hitless_dedup d + 1"
    using st by (cases res) (auto simp: step_ok_def hitless_dedup_def)
qed (simp_all add: hitless_dedup_def)

interpretation held_runs_laws: dedup_laws held_runs_dedup window_inv
proof
  fix d seq index leg now res d'
  assume inv: "window_inv d" and "sd_admit held_runs_dedup d seq index leg now = (res, d')"
  then have d': "d' = snd (try_merge d seq leg now)" "res = map_option (\<lambda>_. leg) (slot_of d' seq)"
    by (auto simp: held_runs_dedup_def held_runs_admit_def Let_def)
  have st: "step_ok d seq d'"
    using try_merge_step(1) [OF inv, of seq leg now "fst (try_merge d seq leg now)" d'] d'(1) by simp
  then show w: "window_inv d'" by (simp add: step_ok_def)
  have "slot_of d' seq \<noteq> None" if "hm_highest_seq d' = seq" "hm_initialized d'"
    using that window_okD(4) [OF window_invD(1) [OF w]] by (simp add: slot_of_def)
  then show "sd_resets held_runs_dedup d' = sd_resets held_runs_dedup d \<or>
      res \<noteq> None \<and> sd_resets held_runs_dedup d' = sd_resets held_runs_dedup d + 1"
    using st d'(2) by (auto simp: step_ok_def held_runs_dedup_def)
qed (simp_all add: held_runs_dedup_def)

end
