(* ===== verification/BufferedRun.thy ===== *)
theory BufferedRun
  imports HitlessLaws
begin

text \<open>
  A whole run of the buffered 2022-7 merger, over either dedup of the source, with every
  operation a caller has: the release order, the account of the packets handed in, the hold
  time and the reset counter.
\<close>

section \<open>Runs\<close>

lemma drain_expired_hold:
  "bm_buffer (update_leg_health b now) = bm_buffer b" "hold_inv (update_leg_health b now) = hold_inv b"
  "accounted (update_leg_health b now) = accounted b"
  "bm_cursor (update_leg_health b now) = bm_cursor b" "bm_dedup (update_leg_health b now) = bm_dedup b"
  "st_packets_emitted (bm_stats (update_leg_health b now)) = st_packets_emitted (bm_stats b)"
  "st_stream_resets (bm_stats (update_leg_health b now)) = st_stream_resets (bm_stats b)"
  by (simp_all add: update_leg_health_def Let_def hold_inv_def accounted_def)

text \<open>The time \<open>release_all\<close> drains at: everything held is due.\<close>

definition all_due_at :: "('t, 'd) buffered_merger \<Rightarrow> nat" where
  "all_due_at b = fold max (map be_release_at (bm_buffer b)) 0"

inductive hold_run ::
  "hitless_merger seq_dedup \<Rightarrow> ('t, hitless_merger) buffered_merger \<Rightarrow> hold_key list \<Rightarrow> nat \<Rightarrow> bool" for D where
  start: "D = hitless_dedup \<and> with_leg_lag mpd w lag epoch = Some b \<or>
      D = held_runs_dedup \<and> with_runs mpd w lag epoch = Some b \<Longrightarrow> hold_run D b [] 0"
| ingest: "hold_run D b ks n \<Longrightarrow> index < 65535 \<Longrightarrow>
    ingest_at D b seq index leg payload now u = (out, b') \<Longrightarrow>
    hold_run D b' (ks @ released_keys (ingest_file D b seq index leg payload now u) now) (n + 1)"
| drain: "hold_run D b ks n \<Longrightarrow> drain_expired b now = (out, b') \<Longrightarrow>
    hold_run D b' (ks @ released_keys b now) n"
| all: "hold_run D b ks n \<Longrightarrow> release_all b = (out, b') \<Longrightarrow>
    hold_run D b' (ks @ released_keys b (all_due_at b)) n"
| ssrc: "hold_run D b ks n \<Longrightarrow> hold_run D (observe_ssrc b leg s now) ks n"
| lag: "hold_run D b ks n \<Longrightarrow> hold_run D (set_leg_lag D b t) ks n"
| restart: "hold_run D b ks n \<Longrightarrow> hold_run D (buffered_restart b) ks n"

definition hold_run_inv ::
  "hitless_merger seq_dedup \<Rightarrow> ('t, hitless_merger) buffered_merger \<Rightarrow> hold_key list \<Rightarrow> nat \<Rightarrow> bool" where
  "hold_run_inv D b ks n \<longleftrightarrow>
     hold_inv b \<and> increasing ks \<and> behind_cursor ks b \<and> accounted b = n \<and>
     st_packets_emitted (bm_stats b) = length ks \<and> window_inv (bm_dedup b) \<and>
     st_stream_resets (bm_stats b) = hm_resets (bm_dedup b) \<and>
     (D = hitless_dedup \<or> D = held_runs_dedup)"

lemma window_inv_fresh: "window_ok w \<Longrightarrow> window_inv (merger_fresh w)"
  by (simp add: window_inv_def merger_fresh_def window_ok_def)

lemma hold_run_inv_start:
  assumes "D = hitless_dedup \<and> with_leg_lag mpd w lag epoch = Some b \<or>
      D = held_runs_dedup \<and> with_runs mpd w lag epoch = Some b"
  shows "hold_run_inv D b [] 0"
proof -
  have "\<exists>t. window_ok w \<and> bm_dedup b = set_stale_after_us (merger_fresh w) t \<and>
      bm_buffer b = [] \<and> bm_stats b = stats_default"
    using assms by (auto simp: with_leg_lag_def with_runs_def with_window_def buffered_build_def Let_def
        split: if_splits)
  then show ?thesis
    using assms window_inv_fresh
    by (auto simp: hold_run_inv_def hold_inv_def behind_cursor_def accounted_def stats_default_def
        merger_fresh_def)
qed

lemma hold_run_inv_drain:
  assumes run: "hold_run_inv D b ks n" and res: "drain_ready b now = (out, b')"
  shows "hold_run_inv D b' (ks @ released_keys b now) n"
proof -
  note r = run [unfolded hold_run_inv_def]
  have "hold_inv b" "increasing ks" "behind_cursor ks b" using r by auto
  from drain_ready_result [OF this res] show ?thesis using r by (simp add: hold_run_inv_def)
qed

lemma hold_run_inv_ingest:
  assumes run: "hold_run_inv D b ks n" and index: "index < 65535"
    and b1_def: "b1 = ingest_file D b seq index leg payload now u"
  shows "hold_run_inv D b1 ks (n + 1)"
proof -
  note r = run [unfolded hold_run_inv_def]
  have inv: "hold_inv b" "window_inv (bm_dedup b)" using r by auto
  note f = ingest_file_result [OF inv(1) index b1_def]
  have "window_inv (bm_dedup b1) \<and> st_stream_resets (bm_stats b1) + hm_resets (bm_dedup b) =
      st_stream_resets (bm_stats b) + hm_resets (bm_dedup b1)"
  proof (cases "D = hitless_dedup")
    case True
    note l = hitless_laws.ingest_counts_resets [OF inv index, of b1 seq leg payload now u]
    show ?thesis using l True by (simp add: b1_def hitless_dedup_def)
  next
    case False
    then have D: "D = held_runs_dedup" using r by simp
    note l = held_runs_laws.ingest_counts_resets [OF inv index, of b1 seq leg payload now u]
    show ?thesis using l D by (simp add: b1_def held_runs_dedup_def)
  qed
  then show ?thesis
    using f r by (simp add: hold_run_inv_def behind_cursor_def)
qed

lemma hold_run_inv_same:
  assumes "hold_run_inv D b ks n" "bm_buffer b' = bm_buffer b" "bm_cursor b' = bm_cursor b"
    "bm_max_path_diff b' = bm_max_path_diff b"
    "\<And>e. e \<in> set (bm_buffer b) \<Longrightarrow> fst (be_key e) \<le> bm_anchor_virtual b'"
    "accounted b' = accounted b" "window_inv (bm_dedup b')"
    "hm_resets (bm_dedup b') = hm_resets (bm_dedup b)"
    "st_packets_emitted (bm_stats b') = st_packets_emitted (bm_stats b)"
    "st_stream_resets (bm_stats b') = st_stream_resets (bm_stats b)"
  shows "hold_run_inv D b' ks n"
  using assms by (auto simp: hold_run_inv_def hold_inv_def behind_cursor_def)

lemma hold_run_inv_restart:
  assumes run: "hold_run_inv D b ks n"
  shows "hold_run_inv D (buffered_restart b) ks n"
proof (rule hold_run_inv_same [OF run])
  note r = run [unfolded hold_run_inv_def hold_inv_def]
  have w: "window_inv (bm_dedup b)" using r by blast
  have rw: "hm_window (merger_restart (bm_dedup b)) = hm_window (bm_dedup b)"
    by (simp add: merger_restart_def Let_def set_stale_after_us_def merger_fresh_def)
  show "fst (be_key e) \<le> bm_anchor_virtual (buffered_restart b)" if e: "e \<in> set (bm_buffer b)" for e
  proof -
    have ne: "bm_buffer b \<noteq> []" using e by auto
    have "fst (be_key e) \<le> fst (be_key (last (bm_buffer b)))"
      using r e by (cases "bm_buffer b" rule: rev_cases) (auto simp: sorted_wrt_append key_less_def)
    then show ?thesis
      using ne rw by (auto simp: buffered_restart_def Let_def split: option.splits prod.splits)
  qed
  show "window_inv (bm_dedup (buffered_restart b))"
  proof -
    have "bm_dedup (buffered_restart b) = merger_restart (bm_dedup b)"
      by (simp add: buffered_restart_def Let_def split: option.splits prod.splits)
    then show ?thesis
      using window_inv_fresh [OF window_invD(1) [OF w]]
      by (simp add: merger_restart_def Let_def window_inv_def set_stale_after_us_def)
  qed
qed (use restart_mono [of "bm_dedup b"] in
     \<open>simp_all add: buffered_restart_def Let_def accounted_def split: option.splits prod.splits\<close>)

lemma release_all_drain:
  "release_all b = (if bm_buffer b = [] then ([], b) else drain_ready b (all_due_at b))"
  by (simp add: release_all_def all_due_at_def split: list.splits)

lemma hold_run_invariant: "hold_run D b ks n \<Longrightarrow> hold_run_inv D b ks n"
proof (induction rule: hold_run.induct)
  case (start mpd w lag epoch b)
  then show ?case by (rule hold_run_inv_start)
next
  case (ingest b ks n index seq leg payload now u out b')
  then show ?case
    using hold_run_inv_drain [OF hold_run_inv_ingest [OF ingest.IH ingest.hyps(2) refl]]
    by (simp add: ingest_at_def)
next
  case (drain b ks n now out b')
  have "hold_run_inv D (update_leg_health b now) ks n"
    using drain.IH by (simp add: hold_run_inv_def drain_expired_hold behind_cursor_def)
  from hold_run_inv_drain [OF this, of now out b'] show ?case
    using drain.hyps(2) by (simp add: drain_expired_def released_keys_def drain_expired_hold(1))
next
  case (all b ks n out b')
  then show ?case
    using hold_run_inv_drain [OF all.IH, of "all_due_at b"]
    by (auto simp: release_all_drain released_keys_def split: if_splits)
next
  case (ssrc b ks n leg s now)
  then show ?case
    by (auto simp: observe_ssrc_def Let_def hold_run_inv_def hold_inv_def behind_cursor_def accounted_def
        split: option.splits prod.splits)
next
  case (lag b ks n t)
  then show ?case
    by (auto simp: set_leg_lag_def Let_def hold_run_inv_def hold_inv_def behind_cursor_def accounted_def
        hitless_dedup_def held_runs_dedup_def)
next
  case (restart b ks n)
  then show ?case using hold_run_inv_restart by blast
qed

section \<open>Guarantees\<close>


definition demo_hold :: "(unit, hitless_merger) buffered_merger" where
  "demo_hold = the (with_leg_lag 5 64 0 0)"

lemma demo_hold_run:
  "hold_run hitless_dedup demo_hold [] 0"
  "hold_run hitless_dedup (snd (ingest_at hitless_dedup demo_hold 7 0 Leg1 () 10 0))
     (released_keys (ingest_file hitless_dedup demo_hold 7 0 Leg1 () 10 0) 10) 1"
proof -
  have "with_leg_lag 5 64 0 0 = Some demo_hold"
    by (simp add: demo_hold_def with_leg_lag_def with_window_def window_ok_def Let_def)
  then show r: "hold_run hitless_dedup demo_hold [] 0" using hold_run.start by blast
  show "hold_run hitless_dedup (snd (ingest_at hitless_dedup demo_hold 7 0 Leg1 () 10 0))
     (released_keys (ingest_file hitless_dedup demo_hold 7 0 Leg1 () 10 0) 10) 1"
    using hold_run.ingest [OF r _ prod.collapse [symmetric], of 0 7 Leg1 "()" 10 0] by simp
qed


text \<open>Property C26. Every packet handed to the buffered merger is accounted for exactly once: it was
  released, is still held, was a copy of one held, came after the hold had passed it (as a
  late duplicate or as late), or was refused at the buffer cap.\<close>

theorem buffered_accounts_for_every_packet:
  assumes "hold_run D b ks n"
  shows "n = st_packets_emitted (bm_stats b) + length (bm_buffer b) + st_dups_dropped (bm_stats b) +
    st_late_dropped (bm_stats b) + st_late_duplicates (bm_stats b) +
    st_buffer_overflow_dropped (bm_stats b)"
  using hold_run_invariant [OF assms] by (simp add: hold_run_inv_def accounted_def Let_def)

theorem buffered_accounts_for_every_packet_witness:
  "let b = snd (ingest_at hitless_dedup demo_hold 7 0 Leg1 () 10 0); st = bm_stats b
   in st_packets_emitted st + length (bm_buffer b) + st_dups_dropped st + st_late_dropped st +
      st_late_duplicates st + st_buffer_overflow_dropped st = 1"
  using buffered_accounts_for_every_packet [OF demo_hold_run(2)] by (simp add: Let_def)



text \<open>The buffered merger's reset counter is the dedup's own re-anchor count, for both
  implementations of the dedup: a re-anchor is reported once and nothing else is.\<close>

lemma buffered_reset_counter_exact:
  assumes "hold_run D b ks n"
  shows "st_stream_resets (bm_stats b) = hm_resets (bm_dedup b)"
  using hold_run_invariant [OF assms] by (simp add: hold_run_inv_def)

text \<open>The projection of 16-bit sequence numbers onto virtual ones does not drift or
  sawtooth: the virtual number stays congruent to the wire number, moves by the shortest
  signed distance from the newest number seen, and the anchor only moves forward.\<close>

lemma projection_is_faithful:
  assumes set: "bm_anchor_set b" and cong: "of_int (bm_anchor_virtual b) = bm_anchor_real b + c"
    and res: "project b seq = (v, b')"
  shows "of_int v = seq + c \<and> - 32768 \<le> v - bm_anchor_virtual b \<and> v - bm_anchor_virtual b < 32768 \<and>
    bm_anchor_virtual b' = max (bm_anchor_virtual b) v \<and>
    of_int (bm_anchor_virtual b') = bm_anchor_real b' + c"
proof -
  let ?d = "sint (seq - bm_anchor_real b)"
  have v: "v = bm_anchor_virtual b + ?d" using set res by (simp add: project_def Let_def)
  have s: "of_int v = seq + c" unfolding v using cong by simp
  have "- 32768 \<le> ?d" "?d < 32768"
    using sint_greater_eq [of "seq - bm_anchor_real b"] sint_less [of "seq - bm_anchor_real b"] by simp_all
  moreover have "b' = (if ?d > 0 then b\<lparr>bm_anchor_real := seq, bm_anchor_virtual := v\<rparr> else b)"
    using set res v by (simp add: project_def Let_def split: if_splits)
  ultimately show ?thesis using s v cong by auto
qed

text \<open>The loss counts only grow, so a caller that hands them on by difference loses and
  repeats nothing, across packets, lag changes and restarts.\<close>

lemma loss_counts_hand_off:
  assumes "merger_moves\<^sup>*\<^sup>* a b" "merger_moves\<^sup>*\<^sup>* b c"
  shows "hm_lost a \<le> hm_lost b \<and> hm_skipped a \<le> hm_skipped b \<and> hm_resets a \<le> hm_resets b \<and>
    (hm_lost b - hm_lost a) + (hm_lost c - hm_lost b) = hm_lost c - hm_lost a"
  using merger_counts.counts_grow [OF assms(1)] merger_counts.handed_off(1) [OF assms] by blast

end
