(* ===== verification/RustSlice.thy ===== *)
theory RustSlice
  imports EdgePrelude "HOL-Library.Monad_Syntax"
begin

text \<open>
  Slice access of the Rust sources with its panics. A computation that may panic is a value of
  \<open>'a option\<close>: \<open>None\<close> is the panic and the \<open>do\<close> notation sequences computations, so an
  out-of-range index or slice stops everything that follows it, as it does in the program. The
  transport-stream theories are written in this style; that a parser cannot panic is then the
  statement that it never returns \<open>None\<close>.
\<close>

type_synonym 'a panics = "'a option"

named_theorems slice_simps \<open>evaluation of slice accesses that are in range\<close>

definition idx :: "'a list \<Rightarrow> nat \<Rightarrow> 'a panics" where
  "idx xs i = (if i < length xs then Some (xs ! i) else None)"

definition put :: "'a list \<Rightarrow> nat \<Rightarrow> 'a \<Rightarrow> 'a list panics" where
  "put xs i v = (if i < length xs then Some (xs[i := v]) else None)"

text \<open>\<open>&xs[a..b]\<close>, and \<open>xs[a..b].copy_from_slice(ys)\<close>.\<close>

definition slice :: "'a list \<Rightarrow> nat \<Rightarrow> nat \<Rightarrow> 'a list panics" where
  "slice xs a b = (if a \<le> b \<and> b \<le> length xs then Some (take (b - a) (drop a xs)) else None)"

definition put_slice :: "'a list \<Rightarrow> nat \<Rightarrow> nat \<Rightarrow> 'a list \<Rightarrow> 'a list panics" where
  "put_slice xs a b ys =
     (if a \<le> b \<and> b \<le> length xs \<and> length ys = b - a
      then Some (take a xs @ ys @ drop b xs) else None)"

lemma idx_in [simp, slice_simps]: "i < length xs \<Longrightarrow> idx xs i = Some (xs ! i)"
  by (simp add: idx_def)

lemma put_in [simp, slice_simps]: "i < length xs \<Longrightarrow> put xs i v = Some (xs[i := v])"
  by (simp add: put_def)

lemma slice_in [simp, slice_simps]:
  "a \<le> b \<Longrightarrow> b \<le> length xs \<Longrightarrow> slice xs a b = Some (take (b - a) (drop a xs))"
  by (simp add: slice_def)

lemma put_slice_in [simp, slice_simps]:
  "a \<le> b \<Longrightarrow> b \<le> length xs \<Longrightarrow> length ys = b - a \<Longrightarrow>
   put_slice xs a b ys = Some (take a xs @ ys @ drop b xs)"
  by (simp add: put_slice_def)

lemma idx_Some_iff: "idx xs i = Some x \<longleftrightarrow> i < length xs \<and> xs ! i = x"
  by (auto simp: idx_def)

lemma put_Some_iff: "put xs i v = Some ys \<longleftrightarrow> i < length xs \<and> ys = xs[i := v]"
  by (auto simp: put_def)

text \<open>A byte outside the part written is the byte before.\<close>

lemma nth_put_slice:
  assumes "a \<le> b" "b \<le> length xs" "length ys = b - a" "i < length xs"
  shows "(take a xs @ ys @ drop b xs) ! i =
           (if i < a then xs ! i else if i < b then ys ! (i - a) else xs ! i)"
  using assms by (auto simp: nth_append min_def not_less)

lemma length_put_slice:
  "a \<le> b \<Longrightarrow> b \<le> length xs \<Longrightarrow> length ys = b - a \<Longrightarrow>
   length (take a xs @ ys @ drop b xs) = length xs"
  by simp

section \<open>Freedom from panics\<close>

definition no_panic :: "'a panics \<Rightarrow> bool" where
  "no_panic m \<longleftrightarrow> m \<noteq> None"

named_theorems no_panic_simps \<open>freedom from panics, pushed through the control structure\<close>

lemma no_panic_Some [simp]: "no_panic (Some x)" and no_panic_None [simp]: "\<not> no_panic None"
  by (simp_all add: no_panic_def)

lemma no_panic_bind [no_panic_simps]:
  "no_panic (Option.bind m f) \<longleftrightarrow> no_panic m \<and> (\<forall>x. m = Some x \<longrightarrow> no_panic (f x))"
  by (cases m) simp_all

lemma no_panic_if [no_panic_simps]:
  "no_panic (if b then m else n) \<longleftrightarrow> (b \<longrightarrow> no_panic m) \<and> (\<not> b \<longrightarrow> no_panic n)"
  by simp

lemma no_panic_case_option [no_panic_simps]:
  "no_panic (case x of None \<Rightarrow> m | Some v \<Rightarrow> f v) \<longleftrightarrow>
     (x = None \<longrightarrow> no_panic m) \<and> (\<forall>v. x = Some v \<longrightarrow> no_panic (f v))"
  by (cases x) simp_all

lemma no_panic_Let [no_panic_simps]: "no_panic (Let x f) \<longleftrightarrow> no_panic (f x)"
  by simp

lemma no_panic_idx [no_panic_simps]: "no_panic (idx xs i) \<longleftrightarrow> i < length xs"
  by (simp add: idx_def)

lemma no_panic_put [no_panic_simps]: "no_panic (put xs i v) \<longleftrightarrow> i < length xs"
  by (simp add: put_def)

lemma no_panic_slice [no_panic_simps]: "no_panic (slice xs a b) \<longleftrightarrow> a \<le> b \<and> b \<le> length xs"
  by (simp add: slice_def)

lemma no_panicE: "no_panic m \<Longrightarrow> \<exists>x. m = Some x"
  by (cases m) simp_all

end
