(* ===== verification/TsPacket.thy ===== *)
theory TsPacket
  imports RustSlice RtpParse
begin

text \<open>
  The packet-level helpers of \<open>src/src/engine/ts_parse.rs\<close>: the header fields of a 188-byte
  transport packet, PES timestamps, the PCR field and its modular arithmetic, the rewriting of
  adaptation fields and the continuity-counter bookkeeping of a stage that drops packets.
\<close>

section \<open>Header fields\<close>

definition TS_PACKET_SIZE :: nat where "TS_PACKET_SIZE = 188"
definition TS_SYNC_BYTE :: u8 where "TS_SYNC_BYTE = 0x47"
definition PAT_PID :: u16 where "PAT_PID = 0x0000"
definition NULL_PID :: u16 where "NULL_PID = 0x1FFF"
definition PTS_MODULUS_90KHZ :: u64 where "PTS_MODULUS_90KHZ = push_bit 33 1"

lemma TS_PACKET_SIZE_val [simp]: "TS_PACKET_SIZE = 188"
  by (simp add: TS_PACKET_SIZE_def)

text \<open>\<open>a as u16 & 0x1F) << 8 | b as u16\<close>, the 13-bit PID of two bytes.\<close>

definition pid13 :: "u8 \<Rightarrow> u8 \<Rightarrow> u16" where
  "pid13 a b = push_bit 8 (ucast a AND 0x1F) OR ucast b"

definition ts_pid :: "bytes \<Rightarrow> u16 panics" where
  "ts_pid pkt = do { a \<leftarrow> idx pkt 1; b \<leftarrow> idx pkt 2; Some (pid13 a b) }"

definition ts_tei :: "bytes \<Rightarrow> bool panics" where
  "ts_tei pkt = do { a \<leftarrow> idx pkt 1; Some (a AND 0x80 \<noteq> 0) }"

definition ts_pusi :: "bytes \<Rightarrow> bool panics" where
  "ts_pusi pkt = do { a \<leftarrow> idx pkt 1; Some (a AND 0x40 \<noteq> 0) }"

definition ts_cc :: "bytes \<Rightarrow> u8 panics" where
  "ts_cc pkt = do { a \<leftarrow> idx pkt 3; Some (a AND 0x0F) }"

definition ts_adaptation_field_control :: "bytes \<Rightarrow> u8 panics" where
  "ts_adaptation_field_control pkt = do { a \<leftarrow> idx pkt 3; Some (drop_bit 4 a AND 0x03) }"

definition ts_has_payload :: "bytes \<Rightarrow> bool panics" where
  "ts_has_payload pkt = do { c \<leftarrow> ts_adaptation_field_control pkt; Some (c AND 0x01 \<noteq> 0) }"

definition ts_has_adaptation :: "bytes \<Rightarrow> bool panics" where
  "ts_has_adaptation pkt = do { c \<leftarrow> ts_adaptation_field_control pkt; Some (c AND 0x02 \<noteq> 0) }"

definition ts_discontinuity_indicator :: "bytes \<Rightarrow> bool panics" where
  "ts_discontinuity_indicator pkt = do {
     af \<leftarrow> ts_has_adaptation pkt;
     if \<not> af then Some False
     else do {
       af_len \<leftarrow> idx pkt 4;
       if unat af_len = 0 then Some False
       else do { f \<leftarrow> idx pkt 5; Some (f AND 0x80 \<noteq> 0) } } }"

text \<open>The functions that take \<open>&mut [u8]\<close> return the flag of the source and the packet after.\<close>

definition set_discontinuity_indicator :: "bytes \<Rightarrow> (bool \<times> bytes) panics" where
  "set_discontinuity_indicator pkt = do {
     af \<leftarrow> ts_has_adaptation pkt;
     if \<not> af then Some (False, pkt)
     else do {
       af_len \<leftarrow> idx pkt 4;
       if unat af_len = 0 then Some (False, pkt)
       else do { f \<leftarrow> idx pkt 5; pkt' \<leftarrow> put pkt 5 (f OR 0x80); Some (True, pkt') } } }"

text \<open>\<open>chunks_exact(TS_PACKET_SIZE)\<close>: the whole packets of a buffer, the remainder left out.\<close>

function ts_chunks :: "bytes \<Rightarrow> bytes list" where
  "ts_chunks data =
     (if length data < TS_PACKET_SIZE then []
      else take TS_PACKET_SIZE data # ts_chunks (drop TS_PACKET_SIZE data))"
  by pat_completeness auto
termination by (relation "measure length") auto

declare ts_chunks.simps [simp del]

fun all_panics :: "('a \<Rightarrow> bool panics) \<Rightarrow> 'a list \<Rightarrow> bool panics" where
  "all_panics p [] = Some True"
| "all_panics p (x # xs) = do { b \<leftarrow> p x; if b then all_panics p xs else Some False }"

definition is_null_ts_only :: "bytes \<Rightarrow> bool panics" where
  "is_null_ts_only data =
     (if data = [] \<or> length data mod TS_PACKET_SIZE \<noteq> 0 then Some False
      else all_panics
             (\<lambda>pkt. do {
                s \<leftarrow> idx pkt 0;
                if s = TS_SYNC_BYTE then do { p \<leftarrow> ts_pid pkt; Some (p = NULL_PID) }
                else Some False })
             (ts_chunks data))"

section \<open>Timestamps of a PES header\<close>

text \<open>The offset of the payload of a packet; the inner \<open>None\<close> is the \<open>return None\<close> of the
  sources for a packet without payload.\<close>

definition pes_start :: "bytes \<Rightarrow> nat option panics" where
  "pes_start pkt = do {
     b3 \<leftarrow> idx pkt 3;
     let afc = drop_bit 4 b3 AND 0x03 in
     if afc = 0b01 then Some (Some 4)
     else if afc = 0b11 then
       Some (if 4 < length pkt then Some (5 + unat (pkt ! 4)) else None)
     else Some None }"

text \<open>The 33-bit field in five bytes with its marker bits.\<close>

definition ts33 :: "u8 \<Rightarrow> u8 \<Rightarrow> u8 \<Rightarrow> u8 \<Rightarrow> u8 \<Rightarrow> u64" where
  "ts33 p0 p1 p2 p3 p4 =
     push_bit 30 (ucast (drop_bit 1 p0 AND 0x07)) OR push_bit 22 (ucast p1)
     OR push_bit 15 (ucast (drop_bit 1 p2 AND 0x7F)) OR push_bit 7 (ucast p3)
     OR ucast (drop_bit 1 p4)"

definition extract_pes_pts :: "bytes \<Rightarrow> u64 option panics" where
  "extract_pes_pts pkt =
     (if length pkt < TS_PACKET_SIZE then Some None
      else do {
        start \<leftarrow> pes_start pkt;
        case start of None \<Rightarrow> Some None
        | Some payload_offset \<Rightarrow>
            if length pkt < payload_offset + 14 then Some None
            else
              (let payload = drop payload_offset pkt in do {
               a \<leftarrow> idx payload 0; b \<leftarrow> idx payload 1; c \<leftarrow> idx payload 2;
               if a \<noteq> 0x00 \<or> b \<noteq> 0x00 \<or> c \<noteq> 0x01 then Some None
               else do {
                 f \<leftarrow> idx payload 7;
                 let pts_dts_flags = drop_bit 6 f AND 0x03 in
                 if pts_dts_flags \<noteq> 0b10 \<and> pts_dts_flags \<noteq> 0b11 then Some None
                 else do {
                   p \<leftarrow> slice payload 9 14;
                   Some (Some (ts33 (p ! 0) (p ! 1) (p ! 2) (p ! 3) (p ! 4))) } } }) })"

definition extract_pes_dts :: "bytes \<Rightarrow> u64 option panics" where
  "extract_pes_dts pkt =
     (if length pkt < TS_PACKET_SIZE then Some None
      else do {
        start \<leftarrow> pes_start pkt;
        case start of None \<Rightarrow> Some None
        | Some payload_offset \<Rightarrow>
            if length pkt < payload_offset + 19 then Some None
            else
              (let payload = drop payload_offset pkt in do {
               a \<leftarrow> idx payload 0; b \<leftarrow> idx payload 1; c \<leftarrow> idx payload 2;
               if a \<noteq> 0x00 \<or> b \<noteq> 0x00 \<or> c \<noteq> 0x01 then Some None
               else do {
                 f \<leftarrow> idx payload 7;
                 let pts_dts_flags = drop_bit 6 f AND 0x03 in
                 if pts_dts_flags \<noteq> 0b11 then Some None
                 else do {
                   d \<leftarrow> slice payload 14 19;
                   Some (Some (ts33 (d ! 0) (d ! 1) (d ! 2) (d ! 3) (d ! 4))) } } }) })"

definition pes_payload_offset :: "bytes \<Rightarrow> nat option panics" where
  "pes_payload_offset pkt =
     (if length pkt < TS_PACKET_SIZE then Some None
      else do {
        start \<leftarrow> pes_start pkt;
        case start of None \<Rightarrow> Some None
        | Some payload_offset \<Rightarrow>
            if payload_offset + 9 > TS_PACKET_SIZE then Some None
            else
              (let payload = drop payload_offset pkt in do {
               a \<leftarrow> idx payload 0; b \<leftarrow> idx payload 1; c \<leftarrow> idx payload 2;
               if a \<noteq> 0x00 \<or> b \<noteq> 0x00 \<or> c \<noteq> 0x01 then Some None
               else do {
                 pes_header_data_length \<leftarrow> idx payload 8;
                 let es_start = payload_offset + 9 + unat pes_header_data_length in
                 if es_start \<ge> TS_PACKET_SIZE then Some None else Some (Some es_start) } }) })"

text \<open>\<open>signed / 90\<close> divides towards zero.\<close>

definition div_trunc :: "int \<Rightarrow> int \<Rightarrow> int" where
  "div_trunc a b = sgn a * sgn b * (\<bar>a\<bar> div \<bar>b\<bar>)"

definition pts_delta_ms :: "u64 \<Rightarrow> u64 \<Rightarrow> int" where
  "pts_delta_ms pts_a pts_b =
     (let a = pts_a AND (PTS_MODULUS_90KHZ - 1);
          b = pts_b AND (PTS_MODULUS_90KHZ - 1);
          raw = (a - b) AND (PTS_MODULUS_90KHZ - 1);
          signed = (if raw > PTS_MODULUS_90KHZ div 2
                    then sint raw - sint PTS_MODULUS_90KHZ else sint raw)
      in div_trunc signed 90)"

section \<open>The PCR field\<close>

definition extract_pcr :: "bytes \<Rightarrow> u64 option panics" where
  "extract_pcr pkt = do {
     af \<leftarrow> ts_has_adaptation pkt;
     if \<not> af then Some None
     else do {
       af_len \<leftarrow> idx pkt 4;
       if unat af_len < 7 then Some None
       else do {
         flags \<leftarrow> idx pkt 5;
         if flags AND 0x10 = 0 then Some None
         else do {
           p6 \<leftarrow> idx pkt 6; p7 \<leftarrow> idx pkt 7; p8 \<leftarrow> idx pkt 8; p9 \<leftarrow> idx pkt 9;
           p10 \<leftarrow> idx pkt 10; p11 \<leftarrow> idx pkt 11;
           let base = push_bit 25 (ucast p6) OR push_bit 17 (ucast p7) OR push_bit 9 (ucast p8)
                        OR push_bit 1 (ucast p9) OR drop_bit 7 (ucast p10);
               ext = push_bit 8 (ucast (p10 AND 0x01)) OR ucast p11
           in Some (Some (base * 300 + ext)) } } } }"

function first_pcr_in_ts_buffer_pid_from ::
    "bytes \<Rightarrow> u16 option \<Rightarrow> nat \<Rightarrow> (u64 \<times> u16) option panics" where
  "first_pcr_in_ts_buffer_pid_from data filter_pid i =
     (if i + TS_PACKET_SIZE \<le> length data then do {
        pkt \<leftarrow> slice data i (i + TS_PACKET_SIZE);
        s \<leftarrow> idx pkt 0;
        found \<leftarrow> (if s = TS_SYNC_BYTE then extract_pcr pkt else Some None);
        case found of
          Some pcr \<Rightarrow> do {
            pid \<leftarrow> ts_pid pkt;
            if (case filter_pid of None \<Rightarrow> True | Some f \<Rightarrow> f = pid) then Some (Some (pcr, pid))
            else first_pcr_in_ts_buffer_pid_from data filter_pid (i + TS_PACKET_SIZE) }
        | None \<Rightarrow> first_pcr_in_ts_buffer_pid_from data filter_pid (i + TS_PACKET_SIZE) }
      else Some None)"
  by pat_completeness auto
termination by (relation "measure (\<lambda>(data, f, i). length data - i)") auto

declare first_pcr_in_ts_buffer_pid_from.simps [simp del]

definition first_pcr_in_ts_buffer_pid :: "bytes \<Rightarrow> u16 option \<Rightarrow> (u64 \<times> u16) option panics" where
  "first_pcr_in_ts_buffer_pid data filter_pid = first_pcr_in_ts_buffer_pid_from data filter_pid 0"

definition first_pcr_in_ts_buffer :: "bytes \<Rightarrow> u64 option panics" where
  "first_pcr_in_ts_buffer data = do {
     r \<leftarrow> first_pcr_in_ts_buffer_pid data None;
     Some (map_option fst r) }"

definition PCR_MODULUS_27MHZ :: u64 where
  "PCR_MODULUS_27MHZ = push_bit 33 1 * 300"

definition pcr_fwd_27mhz :: "u64 \<Rightarrow> u64 \<Rightarrow> u64" where
  "pcr_fwd_27mhz a b =
     (a mod PCR_MODULUS_27MHZ + PCR_MODULUS_27MHZ - b mod PCR_MODULUS_27MHZ)
       mod PCR_MODULUS_27MHZ"

definition pcr_diff_27mhz :: "u64 \<Rightarrow> u64 \<Rightarrow> int" where
  "pcr_diff_27mhz a b =
     (let d = (a mod PCR_MODULUS_27MHZ + PCR_MODULUS_27MHZ - b mod PCR_MODULUS_27MHZ)
                mod PCR_MODULUS_27MHZ
      in if d > PCR_MODULUS_27MHZ div 2 then sint d - sint PCR_MODULUS_27MHZ else sint d)"

text \<open>The sum is taken in 128 bits, where it cannot wrap; \<open>rem_euclid\<close> by a positive modulus is
  the mathematical \<open>mod\<close>.\<close>

definition pcr_add_27mhz :: "u64 \<Rightarrow> int \<Rightarrow> u64" where
  "pcr_add_27mhz a d = word_of_int ((uint a + d) mod uint PCR_MODULUS_27MHZ)"

definition write_pcr :: "bytes \<Rightarrow> u64 \<Rightarrow> (bool \<times> bytes) panics" where
  "write_pcr pkt pcr_27mhz =
     (if length pkt < TS_PACKET_SIZE then Some (False, pkt)
      else do {
        af \<leftarrow> ts_has_adaptation pkt;
        if \<not> af then Some (False, pkt)
        else do {
          af_len \<leftarrow> idx pkt 4;
          if unat af_len < 7 then Some (False, pkt)
          else do {
            f \<leftarrow> idx pkt 5;
            if f AND 0x10 = 0 then Some (False, pkt)
            else
              (let v = pcr_27mhz mod PCR_MODULUS_27MHZ; base = v div 300; ext = v mod 300 in do {
               pkt \<leftarrow> put pkt 6 (ucast (drop_bit 25 base));
               pkt \<leftarrow> put pkt 7 (ucast (drop_bit 17 base));
               pkt \<leftarrow> put pkt 8 (ucast (drop_bit 9 base));
               pkt \<leftarrow> put pkt 9 (ucast (drop_bit 1 base));
               pkt \<leftarrow> put pkt 10
                 (push_bit 7 (ucast (base AND 1)) OR 0x7E OR (ucast (drop_bit 8 ext) AND 0x01));
               pkt \<leftarrow> put pkt 11 (ucast ext);
               Some (True, pkt) }) } } })"

definition clear_pcr :: "bytes \<Rightarrow> (bool \<times> bytes) panics" where
  "clear_pcr pkt = do {
     p \<leftarrow> extract_pcr pkt;
     if p = None \<or> length pkt < TS_PACKET_SIZE then Some (False, pkt)
     else do {
       af_len \<leftarrow> idx pkt 4;
       let af_end = min (5 + unat af_len) TS_PACKET_SIZE in do {
       moved \<leftarrow> slice pkt 12 af_end;
       pkt \<leftarrow> put_slice pkt 6 (6 + (af_end - 12)) moved;
       pkt \<leftarrow> put_slice pkt (af_end - 6) af_end (replicate 6 0xFF);
       f \<leftarrow> idx pkt 5;
       pkt \<leftarrow> put pkt 5 (f AND NOT 0x10);
       Some (True, pkt) } } }"

definition pcr_only_packet :: "u16 \<Rightarrow> u8 \<Rightarrow> u64 \<Rightarrow> bool \<Rightarrow> bytes panics" where
  "pcr_only_packet pid cc pcr_27mhz discontinuity = do {
     let pkt = replicate TS_PACKET_SIZE (0xFF :: u8);
         pkt = pkt[0 := TS_SYNC_BYTE, 1 := ucast (drop_bit 8 pid) AND 0x1F, 2 := ucast pid,
                   3 := 0x20 OR (cc AND 0x0F), 4 := 183,
                   5 := (if discontinuity then 0x90 else 0x10)] in do {
     r \<leftarrow> write_pcr pkt pcr_27mhz;
     Some (snd r) } }"

definition strip_to_af_only :: "bytes \<Rightarrow> (bool \<times> bytes) panics" where
  "strip_to_af_only pkt =
     (if length pkt < TS_PACKET_SIZE then Some (False, pkt)
      else do {
        af \<leftarrow> ts_has_adaptation pkt;
        if \<not> af then Some (False, pkt)
        else do {
          b4 \<leftarrow> idx pkt 4;
          let af_len = unat b4 in
          if af_len = 0 \<or> 5 + af_len > TS_PACKET_SIZE then Some (False, pkt)
          else do {
            pkt \<leftarrow> put_slice pkt (5 + af_len) TS_PACKET_SIZE
                     (replicate (TS_PACKET_SIZE - (5 + af_len)) 0xFF);
            b1 \<leftarrow> idx pkt 1;
            pkt \<leftarrow> put pkt 1 (b1 AND NOT 0x40);
            b3 \<leftarrow> idx pkt 3;
            pkt \<leftarrow> put pkt 3 ((b3 AND 0xCF) OR 0x20);
            pkt \<leftarrow> put pkt 4 183;
            Some (True, pkt) } } })"

text \<open>\<open>packet.data\<close> and \<open>packet.is_raw_ts\<close> are the arguments; an out-of-range tail is the
  empty slice of the sources.\<close>

definition strip_rtp_header :: "bytes \<Rightarrow> bool \<Rightarrow> bytes panics" where
  "strip_rtp_header data is_raw_ts =
     (if is_raw_ts then Some data
      else if length data < RTP_HEADER_MIN_SIZE then Some []
      else do {
        d0 \<leftarrow> idx data 0;
        let cc_count = unat (d0 AND 0x0F);
            has_extension = (d0 AND 0x10 \<noteq> 0);
            rtp_header_len = RTP_HEADER_MIN_SIZE + cc_count * 4 in do {
        rtp_header_len \<leftarrow>
          (if has_extension \<and> length data > rtp_header_len + 4 then do {
             a \<leftarrow> idx data (rtp_header_len + 2);
             b \<leftarrow> idx data (rtp_header_len + 3);
             let ext_len = unat (be16 a b) * 4 in
             Some (rtp_header_len + (4 + ext_len)) }
           else Some rtp_header_len);
        if rtp_header_len \<ge> length data then Some [] else Some (drop rtp_header_len data) } })"

definition ts_payload_offset :: "bytes \<Rightarrow> nat panics" where
  "ts_payload_offset pkt = do {
     af \<leftarrow> ts_has_adaptation pkt;
     if af then do { af_len \<leftarrow> idx pkt 4; Some (5 + unat af_len) } else Some 4 }"

definition ts_payload_start :: "bytes \<Rightarrow> nat option panics" where
  "ts_payload_start pkt =
     (if length pkt < TS_PACKET_SIZE then Some None
      else do {
        p \<leftarrow> ts_has_payload pkt;
        if \<not> p then Some None
        else do {
          off \<leftarrow> ts_payload_offset pkt;
          Some (if off \<ge> TS_PACKET_SIZE then None else Some off) } })"

section \<open>Continuity-counter bookkeeping\<close>

record cc_renumber =
  ccr_off :: u8
  ccr_emitted :: bool

definition ccr_default :: cc_renumber where
  "ccr_default = \<lparr>ccr_off = 0, ccr_emitted = False\<rparr>"

definition drop_payload :: "cc_renumber \<Rightarrow> cc_renumber" where
  "drop_payload r =
     (if ccr_emitted r then r\<lparr>ccr_off := (ccr_off r + 1) AND 0x0F\<rparr> else r)"

definition ccr_rewrites :: "cc_renumber \<Rightarrow> bool \<Rightarrow> bool" where
  "ccr_rewrites r stripped \<longleftrightarrow> stripped \<or> ccr_off r \<noteq> 0"

definition emitted_unchanged :: "cc_renumber \<Rightarrow> cc_renumber" where
  "emitted_unchanged r = r\<lparr>ccr_emitted := True\<rparr>"

definition ccr_emit :: "cc_renumber \<Rightarrow> bytes \<Rightarrow> bool \<Rightarrow> (cc_renumber \<times> bytes) panics" where
  "ccr_emit r pkt stripped = do {
     let r = (if stripped then r\<lparr>ccr_off := (ccr_off r + 1) AND 0x0F\<rparr> else r) in do {
     pkt \<leftarrow> (if ccr_off r \<noteq> 0 then do {
               b3 \<leftarrow> idx pkt 3;
               cc \<leftarrow> ts_cc pkt;
               put pkt 3 ((b3 AND 0xF0) OR ((cc - ccr_off r) AND 0x0F)) }
             else Some pkt);
     Some (r\<lparr>ccr_emitted := True\<rparr>, pkt) } }"

end
