(* ===== verification/TsPacketFacts.thy ===== *)
theory TsPacketFacts
  imports TsPacket
begin

text \<open>
  Facts on the packet helpers: their values on a whole packet, the byte layout of a PCR, and the
  arithmetic of the 27 MHz clock modulo its 42-bit range.
\<close>

lemmas ts_field_defs = ts_pid_def ts_tei_def ts_pusi_def ts_cc_def ts_adaptation_field_control_def
  ts_has_payload_def ts_has_adaptation_def

text \<open>On a packet of at least four bytes the accessors are plain functions of its bytes.\<close>

definition af_bit :: "u8 \<Rightarrow> bool" where
  "af_bit b = ((drop_bit 4 b AND 0x03) AND 0x02 \<noteq> 0)"

definition payload_bit :: "u8 \<Rightarrow> bool" where
  "payload_bit b = ((drop_bit 4 b AND 0x03) AND 0x01 \<noteq> 0)"

lemma ts_has_adaptation_val: "3 < length pkt \<Longrightarrow> ts_has_adaptation pkt = Some (af_bit (pkt ! 3))"
  by (simp add: ts_field_defs af_bit_def)

lemma ts_has_payload_val: "3 < length pkt \<Longrightarrow> ts_has_payload pkt = Some (payload_bit (pkt ! 3))"
  by (simp add: ts_field_defs payload_bit_def)

lemma ts_pid_val: "2 < length pkt \<Longrightarrow> ts_pid pkt = Some (pid13 (pkt ! 1) (pkt ! 2))"
  by (simp add: ts_field_defs)

lemma ts_pusi_val: "1 < length pkt \<Longrightarrow> ts_pusi pkt = Some (pkt ! 1 AND 0x40 \<noteq> 0)"
  by (simp add: ts_field_defs)

lemma ts_cc_val: "3 < length pkt \<Longrightarrow> ts_cc pkt = Some (pkt ! 3 AND 0x0F)"
  by (simp add: ts_field_defs)

lemmas ts_vals = ts_has_adaptation_val ts_has_payload_val ts_pid_val ts_pusi_val ts_cc_val

section \<open>The bytes of a PCR\<close>

text \<open>The base and the extension the six bytes at offset 6 hold.\<close>

definition pcr_base :: "u8 \<Rightarrow> u8 \<Rightarrow> u8 \<Rightarrow> u8 \<Rightarrow> u8 \<Rightarrow> u64" where
  "pcr_base p6 p7 p8 p9 p10 =
     push_bit 25 (ucast p6) OR push_bit 17 (ucast p7) OR push_bit 9 (ucast p8)
       OR push_bit 1 (ucast p9) OR drop_bit 7 (ucast p10)"

definition pcr_ext :: "u8 \<Rightarrow> u8 \<Rightarrow> u64" where
  "pcr_ext p10 p11 = push_bit 8 (ucast (p10 AND 0x01)) OR ucast p11"

definition pcr_mid :: "u64 \<Rightarrow> u64 \<Rightarrow> u8" where
  "pcr_mid base ext =
     push_bit 7 (ucast (base AND 1)) OR 0x7E OR (ucast (drop_bit 8 ext) AND 0x01)"

definition carries_pcr :: "bytes \<Rightarrow> bool" where
  "carries_pcr pkt \<longleftrightarrow> af_bit (pkt ! 3) \<and> 7 \<le> unat (pkt ! 4) \<and> pkt ! 5 AND 0x10 \<noteq> 0"

lemma extract_pcr_val:
  assumes "12 \<le> length pkt"
  shows "extract_pcr pkt =
     Some (if carries_pcr pkt
           then Some (pcr_base (pkt ! 6) (pkt ! 7) (pkt ! 8) (pkt ! 9) (pkt ! 10) * 300
                      + pcr_ext (pkt ! 10) (pkt ! 11))
           else None)"
  using assms
  by (auto simp: extract_pcr_def ts_vals carries_pcr_def pcr_base_def pcr_ext_def Let_def)

lemma less_8_cases:
  "n < (8 :: nat) \<Longrightarrow> n = 0 \<or> n = 1 \<or> n = 2 \<or> n = 3 \<or> n = 4 \<or> n = 5 \<or> n = 6 \<or> n = 7"
  by linarith

lemma bit_pcr_mid:
  assumes "n < 8"
  shows "bit (pcr_mid base ext) n \<longleftrightarrow>
           (if n = 0 then bit ext 8 else if n = 7 then bit base 0 else True)"
  using less_8_cases [OF assms]
  by (elim disjE)
     (simp_all add: pcr_mid_def bit_or_iff bit_push_bit_iff bit_ucast_iff bit_and_iff
        bit_drop_bit_eq bit_1_iff)

lemma bit_above_u64:
  fixes x :: u64
  assumes "uint x < 2 ^ k" "k \<le> n"
  shows "\<not> bit x n"
proof -
  have "take_bit k (uint x) = uint x" using assms(1) by (simp add: take_bit_int_eq_self)
  then have "\<not> bit (uint x) n" using assms(2) by (metis bit_take_bit_iff not_le)
  then show ?thesis using bit_imp_le_length [of x n] by (auto simp: bit_uint_iff)
qed

lemma pcr_base_written:
  fixes base :: u64
  assumes "uint base < 2 ^ 33"
  shows "pcr_base (ucast (drop_bit 25 base)) (ucast (drop_bit 17 base)) (ucast (drop_bit 9 base))
           (ucast (drop_bit 1 base)) (pcr_mid base ext) = base" (is "?l = base")
proof (rule bit_word_eqI)
  fix n assume n: "n < LENGTH(64)"
  consider "n = 0" | "1 \<le> n \<and> n < 9" | "9 \<le> n \<and> n < 17" | "17 \<le> n \<and> n < 25"
    | "25 \<le> n \<and> n < 33" | "33 \<le> n" by linarith
  then show "bit ?l n = bit base n"
    using n bit_above_u64 [OF assms, of n]
    by cases (auto simp: pcr_base_def bit_or_iff bit_push_bit_iff bit_ucast_iff bit_drop_bit_eq
        bit_pcr_mid simp del: push_bit_Suc One_nat_def dest: bit_imp_le_length)
qed

lemma pcr_ext_written:
  fixes ext :: u64
  assumes "uint ext < 2 ^ 9"
  shows "pcr_ext (pcr_mid base ext) (ucast ext) = ext" (is "?l = ext")
proof (rule bit_word_eqI)
  fix n assume n: "n < LENGTH(64)"
  consider "n < 8" | "n = 8" | "9 \<le> n" by linarith
  then show "bit ?l n = bit ext n"
    using n bit_above_u64 [OF assms, of n]
    by cases (auto simp: pcr_ext_def bit_or_iff bit_push_bit_iff bit_ucast_iff bit_and_iff
        bit_1_iff bit_pcr_mid dest: bit_imp_le_length)
qed

lemma low_masks:
  "(0x1F :: u8) = mask 5" "(0x1F :: u16) = mask 5" "(0x1FFF :: u16) = mask 13"
  "(0x0F :: u8) = mask 4"
  by (simp_all add: mask_eq_exp_minus_1)

lemma mask_splits:
  "(0xE0 :: u8) = NOT (mask 5)" "(0xF0 :: u8) = NOT (mask 4)" "(0xC1 :: u8) = NOT (push_bit 1 (mask 5))"
  by (simp_all add: mask_eq_exp_minus_1 not_eq_complement)

text \<open>A masked counter as a 4-bit word.\<close>

lemma ucast4_add: "(ucast (x + y :: u8) :: 4 word) = ucast x + ucast y"
proof -
  have "take_bit 4 (take_bit 8 x + take_bit 8 y) = take_bit 4 (x + y)" for x y :: int
    using take_bit_add [of 4 "take_bit 8 x" "take_bit 8 y"] take_bit_add [of 4 x y] by simp
  then show ?thesis by transfer simp
qed

lemma ucast4_diff: "(ucast (x - y :: u8) :: 4 word) = ucast x - ucast y"
  using ucast4_add [of "x - y" y] by (simp add: algebra_simps)

lemma ucast4_and: "(ucast (x AND 0x0F :: u8) :: 4 word) = ucast x"
  by (rule bit_word_eqI) (auto simp: bit_ucast_iff bit_and_iff low_masks bit_mask_iff)

section \<open>The 27 MHz clock\<close>

lemma uint_PCR_MODULUS [simp]: "uint PCR_MODULUS_27MHZ = 2576980377600"
  by (simp add: PCR_MODULUS_27MHZ_def push_bit_eq_mult)

lemma uint_mod_PCR: "uint (a mod PCR_MODULUS_27MHZ) = uint a mod 2576980377600"
  by (simp add: uint_mod)

lemma pcr_parts_bounds:
  defines "v \<equiv> \<lambda>p. p mod PCR_MODULUS_27MHZ"
  shows "uint (v p div 300) < 2 ^ 33" "uint (v p mod 300) < 2 ^ 9"
proof -
  have "uint (v p div 300) = (uint p mod 2576980377600) div 300"
    by (simp add: v_def uint_div uint_mod)
  then show "uint (v p div 300) < 2 ^ 33" by simp
  have "uint (v p mod 300) = (uint p mod 2576980377600) mod 300"
    by (simp add: v_def uint_mod)
  then show "uint (v p mod 300) < 2 ^ 9"
    using pos_mod_bound [of 300 "uint p mod 2576980377600"] by simp
qed

lemma sint_small_u64:
  fixes d :: u64
  assumes "uint d < 2 ^ 63"
  shows "sint d = uint d"
  using assms signed_take_bit_int_eq_self [of 63 "uint d"] uint_ge_0 [of d]
  by (simp add: sint_uint)

lemma uint_pcr_fwd:
  "uint (pcr_fwd_27mhz a b) = (uint a - uint b) mod 2576980377600"
proof -
  let ?M = "2576980377600 :: int"
  let ?x = "a mod PCR_MODULUS_27MHZ" and ?y = "b mod PCR_MODULUS_27MHZ"
  have x: "uint ?x = uint a mod ?M" "uint ?y = uint b mod ?M" by (rule uint_mod_PCR)+
  have xb: "0 \<le> uint ?x" "uint ?x < ?M" "0 \<le> uint ?y" "uint ?y < ?M"
    unfolding x by simp_all
  have s: "uint (?x + PCR_MODULUS_27MHZ) = uint ?x + ?M"
    using xb by (simp add: uint_word_ariths)
  have d: "uint (?x + PCR_MODULUS_27MHZ - ?y) = uint ?x + ?M - uint ?y"
  proof -
    have "(uint ?x + ?M - uint ?y) mod 18446744073709551616 = uint ?x + ?M - uint ?y"
      by (rule mod_pos_pos_trivial) (use xb in linarith)+
    then show ?thesis using s by (simp add: uint_word_ariths)
  qed
  have "uint (pcr_fwd_27mhz a b) = (uint ?x + ?M - uint ?y) mod ?M"
    by (simp add: pcr_fwd_27mhz_def uint_mod d)
  also have "\<dots> = (uint a - uint b) mod ?M"
  proof -
    have "uint ?x + ?M - uint ?y = (uint a mod ?M - uint b mod ?M) + ?M" unfolding x by simp
    then show ?thesis by (simp only: mod_add_self2 mod_diff_eq)
  qed
  finally show ?thesis .
qed

lemma pcr_diff_val:
  "pcr_diff_27mhz a b =
     (let d = (uint a - uint b) mod 2576980377600
      in if d > 1288490188800 then d - 2576980377600 else d)"
proof -
  have u: "uint (pcr_fwd_27mhz a b) = (uint a - uint b) mod 2576980377600"
    by (rule uint_pcr_fwd)
  have "uint (pcr_fwd_27mhz a b) < 2 ^ 63" unfolding u
    by (rule less_trans [OF pos_mod_bound]) simp_all
  then have si: "sint (pcr_fwd_27mhz a b) = uint (pcr_fwd_27mhz a b)"
    by (rule sint_small_u64)
  have m: "sint PCR_MODULUS_27MHZ = 2576980377600" by (simp add: sint_small_u64)
  have half: "pcr_fwd_27mhz a b > PCR_MODULUS_27MHZ div 2 \<longleftrightarrow>
      (uint a - uint b) mod 2576980377600 > 1288490188800"
    by (simp add: word_less_def uint_div u)
  have "pcr_diff_27mhz a b =
      (if pcr_fwd_27mhz a b > PCR_MODULUS_27MHZ div 2
       then sint (pcr_fwd_27mhz a b) - sint PCR_MODULUS_27MHZ else sint (pcr_fwd_27mhz a b))"
    by (simp add: pcr_diff_27mhz_def pcr_fwd_27mhz_def Let_def)
  then show ?thesis by (simp add: half si m u Let_def)
qed

lemma pcr_diff_cong: "pcr_diff_27mhz a b mod 2576980377600 = (uint a - uint b) mod 2576980377600"
  by (simp add: pcr_diff_val Let_def)

lemma uint_pcr_add: "uint (pcr_add_27mhz a d) = (uint a + d) mod 2576980377600"
proof -
  have "(uint a + d) mod 2576980377600 < 2 ^ 64"
    by (rule less_trans [OF pos_mod_bound]) simp_all
  then show ?thesis by (simp add: pcr_add_27mhz_def uint_word_of_int)
qed

lemma pcr_add_diff: "uint (pcr_add_27mhz b (pcr_diff_27mhz a b)) = uint a mod 2576980377600"
proof -
  have "(uint b + pcr_diff_27mhz a b) mod 2576980377600 =
      (uint b + pcr_diff_27mhz a b mod 2576980377600) mod 2576980377600"
    by (simp add: mod_simps)
  also have "\<dots> = uint a mod 2576980377600"
    unfolding pcr_diff_cong by (simp add: mod_simps)
  finally show ?thesis by (simp add: uint_pcr_add)
qed

section \<open>Cutting a buffer into packets\<close>

lemma length_ts_chunks: "\<forall>pkt\<in>set (ts_chunks data). length pkt = TS_PACKET_SIZE"
proof (induction data rule: ts_chunks.induct)
  case (1 data)
  show ?case
  proof (cases "length data < TS_PACKET_SIZE")
    case True
    then have "ts_chunks data = []" by (subst ts_chunks.simps) simp
    then show ?thesis by simp
  next
    case False
    have e: "ts_chunks data = take TS_PACKET_SIZE data # ts_chunks (drop TS_PACKET_SIZE data)"
      by (subst ts_chunks.simps) (use False in simp)
    have "length (take TS_PACKET_SIZE data) = TS_PACKET_SIZE" using False by simp
    with 1 [OF False] show ?thesis unfolding e list.set by blast
  qed
qed

lemma ts_chunks_concat: "\<forall>pkt\<in>set pkts. length pkt = TS_PACKET_SIZE \<Longrightarrow> ts_chunks (concat pkts) = pkts"
  by (induction pkts) (simp_all add: ts_chunks.simps)

end
