(* ===== verification/TsPacketCorrect.thy ===== *)
theory TsPacketCorrect
  imports TsPacketFacts "HOL-Library.Code_Target_Nat"
begin

text \<open>
  What the packet helpers promise: a PCR written is the PCR read back and nothing else of the
  packet moves, a PCR taken out leaves the payload where it was, the clock arithmetic is exact
  across the wrap, and a stage that drops packets keeps its continuity counters continuous.
\<close>

section \<open>Writing and removing a PCR\<close>

definition pcr_written :: "bytes \<Rightarrow> u64 \<Rightarrow> bytes" where
  "pcr_written pkt p =
     (let v = p mod PCR_MODULUS_27MHZ; base = v div 300; ext = v mod 300 in
      pkt[6 := ucast (drop_bit 25 base), 7 := ucast (drop_bit 17 base),
          8 := ucast (drop_bit 9 base), 9 := ucast (drop_bit 1 base),
          10 := pcr_mid base ext, 11 := ucast ext])"

lemma length_pcr_written [simp]: "length (pcr_written pkt p) = length pkt"
  by (simp add: pcr_written_def Let_def)

lemma nth_pcr_written: "i < 6 \<or> 12 \<le> i \<Longrightarrow> pcr_written pkt p ! i = pkt ! i"
  by (auto simp: pcr_written_def Let_def)

lemma carries_pcr_written [simp]: "carries_pcr (pcr_written pkt p) = carries_pcr pkt"
  by (simp add: carries_pcr_def nth_pcr_written)

lemma write_pcr_val:
  "TS_PACKET_SIZE \<le> length pkt \<Longrightarrow>
   write_pcr pkt p =
     Some (if carries_pcr pkt then (True, pcr_written pkt p) else (False, pkt))"
  by (auto simp: write_pcr_def ts_vals carries_pcr_def pcr_written_def pcr_mid_def Let_def)

lemma extract_pcr_written:
  assumes "12 \<le> length pkt" "carries_pcr pkt"
  shows "extract_pcr (pcr_written pkt p) = Some (Some (p mod PCR_MODULUS_27MHZ))"
proof -
  let ?v = "p mod PCR_MODULUS_27MHZ"
  note b = pcr_base_written [OF pcr_parts_bounds(1) [of p], of "?v mod 300"]
  note e = pcr_ext_written [OF pcr_parts_bounds(2) [of p], of "?v div 300"]
  have "extract_pcr (pcr_written pkt p) = Some (Some (?v div 300 * 300 + ?v mod 300))"
    using assms b e by (simp add: extract_pcr_val) (simp add: pcr_written_def Let_def)
  then show ?thesis by (simp only: div_mult_mod_eq)
qed

text \<open>Property C38.  Writing a PCR is lossless: on a packet that carries a PCR field the write succeeds,
  the value read back is the value written modulo the 42-bit clock range, and every byte
  outside the six bytes of the field is kept. A packet without the field is left untouched and
  the call reports it.\<close>

theorem pcr_write_then_extract:
  assumes "length pkt = TS_PACKET_SIZE"
  shows "\<exists>pkt'. write_pcr pkt p = Some (carries_pcr pkt, pkt') \<and> length pkt' = TS_PACKET_SIZE \<and>
     (carries_pcr pkt \<longrightarrow> extract_pcr pkt' = Some (Some (p mod PCR_MODULUS_27MHZ)) \<and>
        (\<forall>i. i < 6 \<or> 12 \<le> i \<longrightarrow> pkt' ! i = pkt ! i)) \<and>
     (\<not> carries_pcr pkt \<longrightarrow> pkt' = pkt)"
  using assms
  by (cases "carries_pcr pkt")
     (auto simp: write_pcr_val extract_pcr_written nth_pcr_written simp del: TS_PACKET_SIZE_val
        simp: TS_PACKET_SIZE_def)

definition sample_pcr_packet :: bytes where
  "sample_pcr_packet = [0x47, 0x01, 0x00, 0x30, 0x07, 0x10] @ replicate 182 0"

lemma sample_carries: "carries_pcr sample_pcr_packet" "length sample_pcr_packet = TS_PACKET_SIZE"
  by code_simp+

theorem pcr_write_then_extract_witness:
  "carries_pcr sample_pcr_packet \<and>
   (\<exists>pkt'. write_pcr sample_pcr_packet 0xFFFFFFFFFFFFFFFF = Some (True, pkt') \<and>
      extract_pcr pkt' = Some (Some (0xFFFFFFFFFFFFFFFF mod PCR_MODULUS_27MHZ)))"
  using pcr_write_then_extract [OF sample_carries(2), of "0xFFFFFFFFFFFFFFFF"] sample_carries(1)
  by auto

text \<open>The packet after \<^const>\<open>clear_pcr\<close>, byte by byte.\<close>

definition pcr_cleared_byte :: "bytes \<Rightarrow> nat \<Rightarrow> u8" where
  "pcr_cleared_byte pkt i =
     (let af_end = min (5 + unat (pkt ! 4)) TS_PACKET_SIZE in
      if i = 5 then pkt ! 5 AND NOT 0x10
      else if 6 \<le> i \<and> i < af_end - 6 then pkt ! (i + 6)
      else if af_end - 6 \<le> i \<and> i < af_end then 0xFF
      else pkt ! i)"

lemma clear_pcr_val:
  assumes "length pkt = TS_PACKET_SIZE" "carries_pcr pkt"
  shows "\<exists>pkt'. clear_pcr pkt = Some (True, pkt') \<and> length pkt' = TS_PACKET_SIZE \<and>
           (\<forall>i < TS_PACKET_SIZE. pkt' ! i = pcr_cleared_byte pkt i)"
proof -
  define e where "e = min (5 + unat (pkt ! 4)) 188"
  have e: "12 \<le> e" "e \<le> 188"
    using assms(2) by (auto simp: e_def carries_pcr_def)
  define p1 where "p1 = take 6 pkt @ take (e - 12) (drop 12 pkt) @ drop (e - 6) pkt"
  define p2 where "p2 = take (e - 6) p1 @ replicate 6 (0xFF :: u8) @ drop e p1"
  have sub: "6 + (e - 12) = e - 6" using e by simp
  have l1: "length p1 = 188" using assms e by (simp add: p1_def)
  have l2: "length p2 = 188" using l1 e by (simp add: p2_def)
  have n1: "p1 ! i = (if i < 6 then pkt ! i else if i < e - 6 then pkt ! (i + 6) else pkt ! i)"
    if "i < 188" for i
    unfolding p1_def using that assms e
    by (subst nth_put_slice) (auto simp: add.commute)
  have n2: "p2 ! i = (if i < e - 6 then p1 ! i else if i < e then 0xFF else p1 ! i)"
    if "i < 188" for i
    unfolding p2_def using that l1 e by (subst nth_put_slice) auto
  have run: "clear_pcr pkt = Some (True, p2[5 := p2 ! 5 AND NOT 0x10])"
    using assms e l1 l2
    by (simp add: clear_pcr_def extract_pcr_val Let_def sub flip: e_def p1_def p2_def)
  have "p2[5 := p2 ! 5 AND NOT 0x10] ! i = pcr_cleared_byte pkt i" if "i < 188" for i
    using that e l2 by (auto simp: pcr_cleared_byte_def n1 n2 nth_list_update Let_def simp flip: e_def)
  with run l2 show ?thesis by simp
qed

text \<open>Taking the PCR out of a packet keeps everything else: the packet no longer carries a
  PCR, the bytes behind the PCR field move up by six, the end of the adaptation field is stuffing,
  and the payload stays at its position unchanged.\<close>

lemma clear_pcr_keeps_the_rest:
  assumes "length pkt = TS_PACKET_SIZE" "carries_pcr pkt"
  shows "\<exists>pkt'. clear_pcr pkt = Some (True, pkt') \<and> length pkt' = TS_PACKET_SIZE \<and>
     extract_pcr pkt' = Some None \<and> ts_payload_offset pkt' = ts_payload_offset pkt \<and>
     drop (5 + unat (pkt ! 4)) pkt' = drop (5 + unat (pkt ! 4)) pkt \<and>
     (\<forall>i < TS_PACKET_SIZE. pkt' ! i = pcr_cleared_byte pkt i)"
proof -
  obtain pkt' where p: "clear_pcr pkt = Some (True, pkt')" "length pkt' = TS_PACKET_SIZE"
      "\<forall>i < TS_PACKET_SIZE. pkt' ! i = pcr_cleared_byte pkt i"
    using clear_pcr_val [OF assms] by blast
  have head: "pkt' ! 3 = pkt ! 3" "pkt' ! 4 = pkt ! 4" "pkt' ! 5 = pkt ! 5 AND NOT 0x10"
    using p(3) assms(2) by (auto simp: pcr_cleared_byte_def carries_pcr_def Let_def)
  have "(pkt ! 5 AND NOT 0x10) AND 0x10 = (0 :: u8)"
    by (simp only: and.assoc) simp
  then have "\<not> carries_pcr pkt'" using head by (simp add: carries_pcr_def)
  then have ex: "extract_pcr pkt' = Some None" using p(2) by (simp add: extract_pcr_val)
  have off: "ts_payload_offset pkt' = ts_payload_offset pkt"
    using p(2) assms(1) head by (simp add: ts_payload_offset_def ts_vals)
  have "drop (5 + unat (pkt ! 4)) pkt' = drop (5 + unat (pkt ! 4)) pkt"
    using p(2,3) assms
    by (intro nth_equalityI) (auto simp: pcr_cleared_byte_def Let_def carries_pcr_def)
  with p ex off show ?thesis by blast
qed

section \<open>The clock across its wrap\<close>

text \<open>The signed difference of two clock values is the only representative of their difference
  in the half-open range around zero, adding it back to the second value gives the first modulo
  the clock range, and the forward distance is the same difference taken in the positive range.
  Nothing overflows for any pair of 64-bit values.\<close>

lemma pcr_clock_arithmetic:
  "- 1288490188800 < pcr_diff_27mhz a b \<and> pcr_diff_27mhz a b \<le> 1288490188800 \<and>
   pcr_add_27mhz b (pcr_diff_27mhz a b) = a mod PCR_MODULUS_27MHZ \<and>
   pcr_add_27mhz b (uint (pcr_fwd_27mhz a b)) = a mod PCR_MODULUS_27MHZ \<and>
   (pcr_diff_27mhz a b = - pcr_diff_27mhz b a \<or> pcr_diff_27mhz a b = 1288490188800)"
proof -
  have r: "- 1288490188800 < pcr_diff_27mhz a b" "pcr_diff_27mhz a b \<le> 1288490188800" for a b
    using pos_mod_bound [of 2576980377600 "uint a - uint b"]
      pos_mod_sign [of 2576980377600 "uint a - uint b"]
    by (auto simp: pcr_diff_val Let_def)
  have neg: "pcr_diff_27mhz a b = - pcr_diff_27mhz b a" if "pcr_diff_27mhz a b \<noteq> 1288490188800"
  proof -
    have "(pcr_diff_27mhz a b + pcr_diff_27mhz b a) mod 2576980377600 =
        ((uint a - uint b) + (uint b - uint a)) mod 2576980377600"
      by (rule mod_add_cong [OF pcr_diff_cong pcr_diff_cong])
    then have "2576980377600 dvd pcr_diff_27mhz a b + pcr_diff_27mhz b a" by auto
    then obtain k where k: "pcr_diff_27mhz a b + pcr_diff_27mhz b a = 2576980377600 * k" by auto
    have "k < 1" "-1 < k" using k r [of a b] r [of b a] that by linarith+
    then show ?thesis using k by simp
  qed
  have "pcr_add_27mhz b (uint (pcr_fwd_27mhz a b)) = a mod PCR_MODULUS_27MHZ"
    by (rule word_uint_eqI)
       (simp add: uint_pcr_add uint_pcr_fwd uint_mod_PCR mod_simps del: uint_mod)
  moreover have "pcr_add_27mhz b (pcr_diff_27mhz a b) = a mod PCR_MODULUS_27MHZ"
    by (rule word_uint_eqI) (simp add: pcr_add_diff uint_mod_PCR)
  ultimately show ?thesis using r [of a b] neg by blast
qed

section \<open>A packet that only carries a PCR\<close>

lemma pid13_written:
  "pid13 (ucast (drop_bit 8 pid) AND 0x1F) (ucast pid) = pid AND 0x1FFF"
  by (rule bit_word_eqI)
     (auto simp: pid13_def bit_or_iff bit_push_bit_iff bit_ucast_iff bit_and_iff bit_drop_bit_eq
        low_masks bit_mask_iff)

lemma low_nibble_bits:
  "af_bit (0x20 OR (cc AND 0x0F))" "\<not> payload_bit (0x20 OR (cc AND 0x0F))"
  "(0x20 OR (cc AND 0x0F)) AND 0x0F = cc AND (0x0F :: u8)"
proof -
  have "drop_bit 4 (0x20 OR (cc AND 0x0F)) = (2 :: u8)"
    by (rule bit_word_eqI)
       (auto simp: bit_or_iff bit_and_iff bit_drop_bit_eq low_masks bit_mask_iff)
  then show "af_bit (0x20 OR (cc AND 0x0F))" "\<not> payload_bit (0x20 OR (cc AND 0x0F))"
    by (simp_all add: af_bit_def payload_bit_def)
  show "(0x20 OR (cc AND 0x0F)) AND 0x0F = cc AND (0x0F :: u8)"
    by (simp add: bit.conj_disj_distrib2 and.assoc)
qed

lemma nth_pcr_only:
  assumes "pcr_only_packet pid cc pcr disc = Some pkt"
  shows "length pkt = TS_PACKET_SIZE" "pkt ! 0 = TS_SYNC_BYTE"
    "pkt ! 1 = ucast (drop_bit 8 pid) AND 0x1F" "pkt ! 2 = ucast pid"
    "pkt ! 3 = 0x20 OR (cc AND 0x0F)" "pkt ! 4 = 183" "pkt ! 5 = (if disc then 0x90 else 0x10)"
    "extract_pcr pkt = Some (Some (pcr mod PCR_MODULUS_27MHZ))"
proof -
  define p0 where "p0 = (replicate 188 (0xFF :: u8))[0 := TS_SYNC_BYTE,
      1 := ucast (drop_bit 8 pid) AND 0x1F, 2 := ucast pid, 3 := 0x20 OR (cc AND 0x0F),
      4 := 183, 5 := (if disc then 0x90 else 0x10)]"
  have l: "length p0 = 188" by (simp add: p0_def)
  have n: "p0 ! 0 = TS_SYNC_BYTE" "p0 ! 1 = ucast (drop_bit 8 pid) AND 0x1F" "p0 ! 2 = ucast pid"
    "p0 ! 3 = 0x20 OR (cc AND 0x0F)" "p0 ! 4 = 183" "p0 ! 5 = (if disc then 0x90 else 0x10)"
    by (simp_all add: p0_def)
  have c: "carries_pcr p0"
    unfolding carries_pcr_def n by (simp add: low_nibble_bits)
  have "pcr_only_packet pid cc pcr disc = write_pcr p0 pcr \<bind> (\<lambda>r. Some (snd r))"
    by (simp only: pcr_only_packet_def Let_def p0_def TS_PACKET_SIZE_val)
  then have "pkt = pcr_written p0 pcr" using assms l c by (simp add: write_pcr_val)
  then show "length pkt = TS_PACKET_SIZE" "pkt ! 0 = TS_SYNC_BYTE"
    "pkt ! 1 = ucast (drop_bit 8 pid) AND 0x1F" "pkt ! 2 = ucast pid"
    "pkt ! 3 = 0x20 OR (cc AND 0x0F)" "pkt ! 4 = 183" "pkt ! 5 = (if disc then 0x90 else 0x10)"
    "extract_pcr pkt = Some (Some (pcr mod PCR_MODULUS_27MHZ))"
    using l c n by (simp_all add: nth_pcr_written extract_pcr_written)
qed

lemma pcr_only_total: "\<exists>pkt. pcr_only_packet pid cc pcr disc = Some pkt"
  by (simp add: pcr_only_packet_def Let_def write_pcr_val)

text \<open>A packet built to carry a PCR only reads back as it was asked for: 188 bytes with the
  sync byte, the low 13 bits of the PID, the low four bits of the continuity counter, the PCR
  modulo the clock range, the discontinuity flag, and no payload.\<close>

lemma pcr_only_packet_reads_back:
  "\<exists>pkt. pcr_only_packet pid cc pcr disc = Some pkt \<and> length pkt = TS_PACKET_SIZE \<and>
     pkt ! 0 = TS_SYNC_BYTE \<and> ts_pid pkt = Some (pid AND 0x1FFF) \<and>
     ts_cc pkt = Some (cc AND 0x0F) \<and> ts_pusi pkt = Some False \<and>
     ts_payload_start pkt = Some None \<and> ts_discontinuity_indicator pkt = Some disc \<and>
     extract_pcr pkt = Some (Some (pcr mod PCR_MODULUS_27MHZ))"
proof -
  obtain pkt where p: "pcr_only_packet pid cc pcr disc = Some pkt" using pcr_only_total by blast
  note n = nth_pcr_only [OF p]
  have "(ucast (drop_bit 8 pid) AND 0x1F) AND 0x40 = (0 :: u8)"
    by (simp add: and.assoc)
  then have "ts_pusi pkt = Some False" using n by (simp add: ts_vals)
  moreover have "ts_pid pkt = Some (pid AND 0x1FFF)" "ts_cc pkt = Some (cc AND 0x0F)"
      "ts_payload_start pkt = Some None" "ts_discontinuity_indicator pkt = Some disc"
    using n by (simp_all add: ts_vals pid13_written low_nibble_bits ts_payload_start_def
        ts_discontinuity_indicator_def)
  ultimately show ?thesis using p n by blast
qed

end
