(* ===== verification/TsRenumber.thy ===== *)
theory TsRenumber
  imports TsPacketFacts "HOL-Library.Code_Target_Nat"
begin

text \<open>
  Continuity counters across dropped packets: \<open>CcRenumber\<close> of \<open>src/src/engine/ts_parse.rs\<close>
  as the PCR remultiplexer drives it, \<open>emit_checked\<close> of \<open>src/src/engine/ts_pcr_remux.rs\<close>.
  The specification reads a counter as a 4-bit word, in which the source's masked byte arithmetic
  is plain modular arithmetic.
\<close>

section \<open>The stage\<close>

record checked =
  ck_pid :: u16
  ck_latched :: bool
  ck_stale :: bool
  ck_dropping :: bool
  ck_cc :: cc_renumber
  ck_last_out_cc :: "u8 option"

definition checked_new :: "u16 \<Rightarrow> checked" where
  "checked_new pid =
     \<lparr>ck_pid = pid, ck_latched = False, ck_stale = False, ck_dropping = False,
      ck_cc = ccr_default, ck_last_out_cc = None\<rparr>"

text \<open>The flag says whether the packet goes out, the packet is the one after the rewrite.\<close>

definition keep_af :: "bytes \<Rightarrow> (bool \<times> bytes) panics" where
  "keep_af pkt = do {
     p \<leftarrow> extract_pcr pkt;
     keeps_af \<leftarrow> (if p \<noteq> None then Some True else ts_discontinuity_indicator pkt);
     if keeps_af then strip_to_af_only pkt else Some (False, pkt) }"

definition emit_checked :: "checked \<Rightarrow> bytes \<Rightarrow> (bool \<times> checked \<times> bytes) panics" where
  "emit_checked c pkt = do {
     payload \<leftarrow> ts_has_payload pkt;
     r \<leftarrow> (if ck_dropping c \<and> payload then keep_af pkt else Some (False, pkt));
     let stripped = fst r; pkt = snd r in
     if ck_dropping c \<and> payload \<and> \<not> stripped
     then Some (False, c\<lparr>ck_cc := drop_payload (ck_cc c)\<rparr>, pkt)
     else do {
       e \<leftarrow> ccr_emit (ck_cc c) pkt stripped;
       let c = c\<lparr>ck_cc := fst e\<rparr>; pkt = snd e in do {
       has \<leftarrow> ts_has_payload pkt;
       cc \<leftarrow> ts_cc pkt;
       Some (True, (if has then c\<lparr>ck_last_out_cc := Some cc\<rparr> else c), pkt) } } }"

text \<open>The packets of one PID in order, each with the decision of the stale-PES gate, which sets
  \<open>dropping\<close> between packets.\<close>

fun checked_run :: "checked \<Rightarrow> (bool \<times> bytes) list \<Rightarrow> (checked \<times> bytes list) panics" where
  "checked_run c [] = Some (c, [])"
| "checked_run c ((dropping, pkt) # rest) = do {
     r \<leftarrow> emit_checked (c\<lparr>ck_dropping := dropping\<rparr>) pkt;
     let keep = fst r; c = fst (snd r); pkt = snd (snd r) in do {
     out \<leftarrow> checked_run c rest;
     Some (fst out, (if keep then pkt # snd out else snd out)) } }"

section \<open>Counters as 4-bit words\<close>

definition cc4 :: "bytes \<Rightarrow> 4 word" where
  "cc4 pkt = ucast (pkt ! 3)"

definition has_payload :: "bytes \<Rightarrow> bool" where
  "has_payload pkt = payload_bit (pkt ! 3)"

text \<open>ISO/IEC 13818-1 2.4.3.3: a packet with payload advances the counter of its PID by one, a
  packet without payload repeats it.\<close>

fun cc_continuous :: "4 word \<Rightarrow> bytes list \<Rightarrow> bool" where
  "cc_continuous prev [] \<longleftrightarrow> True"
| "cc_continuous prev (p # ps) \<longleftrightarrow>
     cc4 p = (if has_payload p then prev + 1 else prev) \<and> cc_continuous (cc4 p) ps"

lemma nibble_mask: "(0x0F :: u8) = mask 4" "(0xF0 :: u8) = push_bit 4 (mask 4)"
  by (simp_all add: mask_eq_exp_minus_1)

lemma bit_strip_masks:
  assumes "n < 8"
  shows "bit (0xCF :: u8) n \<longleftrightarrow> n \<noteq> 4 \<and> n \<noteq> 5" "bit (0x20 :: u8) n \<longleftrightarrow> n = 5"
    "bit (0x03 :: u8) n \<longleftrightarrow> n < 2" "bit (0x02 :: u8) n \<longleftrightarrow> n = 1"
  using less_8_cases [OF assms] by (elim disjE; simp)+

lemma ucast4_merge: "(ucast ((b AND 0xF0) OR (x AND 0x0F) :: u8) :: 4 word) = ucast x"
  by (rule bit_word_eqI)
     (auto simp: bit_ucast_iff bit_and_iff bit_or_iff nibble_mask bit_mask_iff bit_push_bit_iff)

lemma high_nibble_merge: "drop_bit 4 ((b AND 0xF0) OR (x AND 0x0F) :: u8) = drop_bit 4 b"
  by (rule bit_word_eqI)
     (auto simp: bit_drop_bit_eq bit_and_iff bit_or_iff nibble_mask bit_mask_iff bit_push_bit_iff
        dest: bit_imp_le_length)

lemma stripped_nibbles:
  "(ucast ((b AND 0xCF) OR 0x20 :: u8) :: 4 word) = ucast b"
  "drop_bit 4 ((b AND 0xCF) OR 0x20 :: u8) AND 0x03 = 2"
proof -
  show "(ucast ((b AND 0xCF) OR 0x20 :: u8) :: 4 word) = ucast b"
  proof (rule bit_word_eqI)
    fix n assume "n < LENGTH(4)"
    then have n: "n < 8" "n < 4" by simp_all
    then show "bit (ucast ((b AND 0xCF) OR 0x20 :: u8) :: 4 word) n = bit (ucast b :: 4 word) n"
      unfolding bit_ucast_iff bit_and_iff bit_or_iff bit_strip_masks [OF n(1)] by auto
  qed
  show "drop_bit 4 ((b AND 0xCF) OR 0x20 :: u8) AND 0x03 = 2"
  proof (rule bit_word_eqI)
    fix n assume "n < LENGTH(8)"
    then have "n < 8" by simp
    then show "bit (drop_bit 4 ((b AND 0xCF) OR 0x20 :: u8) AND 0x03) n = bit (2 :: u8) n"
      using less_8_cases [OF \<open>n < 8\<close>]
      by (elim disjE) (simp_all add: bit_drop_bit_eq bit_and_iff bit_or_iff)
  qed
qed

section \<open>One packet through the stage\<close>

text \<open>A packet without its continuity counter.\<close>

definition body :: "bytes \<Rightarrow> bytes" where
  "body pkt = take 3 pkt @ drop 4 pkt"

lemma body_update3: "body (pkt[3 := x]) = body pkt"
  by (simp add: body_def)

lemma payload_bit_cong: "drop_bit 4 a = drop_bit 4 b \<Longrightarrow> payload_bit a = payload_bit b"
  by (simp add: payload_bit_def)

lemma ts_discontinuity_total: "length pkt = 188 \<Longrightarrow> \<exists>b. ts_discontinuity_indicator pkt = Some b"
  by (cases "af_bit (pkt ! 3)"; cases "unat (pkt ! 4) = 0")
     (auto simp: ts_discontinuity_indicator_def ts_vals)

lemma merged_header:
  fixes x :: u8
  assumes "length pkt = 188"
  defines "p \<equiv> pkt[3 := (pkt ! 3 AND 0xF0) OR (x AND 0x0F)]"
  shows "cc4 p = ucast x" "has_payload p = has_payload pkt" "length p = 188" "body p = body pkt"
proof -
  have p3: "p ! 3 = (pkt ! 3 AND 0xF0) OR (x AND 0x0F)" using assms by simp
  show "cc4 p = ucast x" unfolding cc4_def p3 by (rule ucast4_merge)
  show "has_payload p = has_payload pkt"
    unfolding has_payload_def p3 by (rule payload_bit_cong [OF high_nibble_merge])
  show "length p = 188" "body p = body pkt" using assms by (simp_all add: body_update3)
qed

lemma ccr_emit_val:
  assumes "length pkt = 188"
  shows "\<exists>r' pkt'. ccr_emit r pkt s = Some (r', pkt') \<and> ccr_emitted r' \<and>
     (ucast (ccr_off r') :: 4 word) = ucast (ccr_off r) + (if s then 1 else 0) \<and>
     length pkt' = 188 \<and> has_payload pkt' = has_payload pkt \<and> body pkt' = body pkt \<and>
     cc4 pkt' = cc4 pkt - ucast (ccr_off r')"
proof -
  define r1 where "r1 = (if s then r\<lparr>ccr_off := (ccr_off r + 1) AND 0x0F\<rparr> else r)"
  have off: "(ucast (ccr_off r1) :: 4 word) = ucast (ccr_off r) + (if s then 1 else 0)"
    by (simp add: r1_def ucast4_and ucast4_add del: unsigned_and_eq)
  let ?x = "(pkt ! 3 AND 0x0F) - ccr_off r1"
  let ?p = "pkt[3 := (pkt ! 3 AND 0xF0) OR (?x AND 0x0F)]"
  have run: "ccr_emit r pkt s =
      Some (r1\<lparr>ccr_emitted := True\<rparr>, if ccr_off r1 \<noteq> 0 then ?p else pkt)"
    using assms by (simp add: ccr_emit_def ts_vals Let_def flip: r1_def)
  have "cc4 ?p = cc4 pkt - ucast (ccr_off r1)"
    unfolding merged_header(1) [OF assms]
    by (simp add: ucast4_diff ucast4_and cc4_def del: unsigned_and_eq)
  then show ?thesis
    using run off assms merged_header(2-4) [OF assms, of ?x] by (cases "ccr_off r1 = 0") auto
qed

lemma strip_to_af_only_val:
  assumes "length pkt = 188"
  shows "\<exists>b pkt'. strip_to_af_only pkt = Some (b, pkt') \<and> length pkt' = 188 \<and>
     (b \<longrightarrow> \<not> has_payload pkt' \<and> cc4 pkt' = cc4 pkt) \<and> (\<not> b \<longrightarrow> pkt' = pkt)"
proof (cases "af_bit (pkt ! 3) \<and> unat (pkt ! 4) \<noteq> 0 \<and> 5 + unat (pkt ! 4) \<le> 188")
  case True
  define p where "p = take (5 + unat (pkt ! 4)) pkt @ replicate (183 - unat (pkt ! 4)) 0xFF"
  have l: "length p = 188" using True assms by (simp add: p_def)
  have n3: "p ! 3 = pkt ! 3" using True assms by (simp add: p_def nth_append)
  let ?q = "p[1 := p ! 1 AND NOT 0x40, 3 := (p ! 3 AND 0xCF) OR 0x20, 4 := 183]"
  have q3: "?q ! 3 = (pkt ! 3 AND 0xCF) OR 0x20" using l n3 by simp
  have "strip_to_af_only pkt = Some (True, ?q)"
    using True assms l by (simp add: strip_to_af_only_def ts_vals Let_def flip: p_def)
  moreover have "\<not> has_payload ?q" "cc4 ?q = cc4 pkt"
    unfolding has_payload_def cc4_def q3 payload_bit_def
    by (simp_all only: stripped_nibbles) simp_all
  ultimately show ?thesis using l by auto
next
  case False
  then have "strip_to_af_only pkt = Some (False, pkt)"
    using assms by (cases "af_bit (pkt ! 3)") (auto simp: strip_to_af_only_def ts_vals Let_def)
  with assms show ?thesis by auto
qed

text \<open>What the stage does with one packet, in terms of the counters.\<close>

definition stage_effect ::
    "bool \<Rightarrow> cc_renumber \<Rightarrow> bytes \<Rightarrow> bool \<Rightarrow> cc_renumber \<Rightarrow> bytes \<Rightarrow> bool" where
  "stage_effect d r pkt keep r' pkt' \<longleftrightarrow>
     (if keep then ccr_emitted r' \<and> length pkt' = 188 \<and> cc4 pkt' = cc4 pkt - ucast (ccr_off r') \<and>
        (if d \<and> has_payload pkt
         then \<not> has_payload pkt' \<and> (ucast (ccr_off r') :: 4 word) = ucast (ccr_off r) + 1
         else has_payload pkt' = has_payload pkt \<and> body pkt' = body pkt \<and>
           (ucast (ccr_off r') :: 4 word) = ucast (ccr_off r))
      else d \<and> has_payload pkt \<and> r' = drop_payload r)"

lemma emit_checked_cases:
  assumes "length pkt = 188"
  shows "\<exists>keep c' pkt'. emit_checked c pkt = Some (keep, c', pkt') \<and>
     stage_effect (ck_dropping c) (ck_cc c) pkt keep (ck_cc c') pkt'"
proof -
  have pl: "ts_has_payload pkt = Some (has_payload pkt)"
    using assms by (simp add: ts_vals has_payload_def)
  obtain bs ps where st: "strip_to_af_only pkt = Some (bs, ps)" "length ps = 188"
      "bs \<longrightarrow> \<not> has_payload ps \<and> cc4 ps = cc4 pkt"
    using strip_to_af_only_val [OF assms] by blast
  obtain di where di: "ts_discontinuity_indicator pkt = Some di"
    using ts_discontinuity_total [OF assms] by blast
  obtain pcr where pcr: "extract_pcr pkt = Some pcr" using assms by (simp add: extract_pcr_val)
  have "keep_af pkt = Some (bs, ps) \<or> keep_af pkt = Some (False, pkt)"
    using pcr di st(1) by (cases "pcr = None"; cases di) (simp_all add: keep_af_def)
  then obtain b p where w: "keep_af pkt = Some (b, p)" "length p = 188"
      "b \<longrightarrow> \<not> has_payload p \<and> cc4 p = cc4 pkt"
    using st(2,3) assms by (elim disjE) auto
  have tail: "ts_has_payload q = Some (has_payload q)" "ts_cc q = Some (q ! 3 AND 0x0F)"
    if "length q = 188" for q
    using that by (simp_all add: ts_vals has_payload_def)
  show ?thesis
  proof (cases "ck_dropping c \<and> has_payload pkt")
    case True
    show ?thesis
    proof (cases b)
      case False
      then have "emit_checked c pkt = Some (False, c\<lparr>ck_cc := drop_payload (ck_cc c)\<rparr>, p)"
        using True w pl by (simp add: emit_checked_def Let_def)
      with True show ?thesis by (auto simp: stage_effect_def)
    next
      case b: True
      obtain r' pkt' where e: "ccr_emit (ck_cc c) p True = Some (r', pkt')" "ccr_emitted r'"
          "(ucast (ccr_off r') :: 4 word) = ucast (ccr_off (ck_cc c)) + 1" "length pkt' = 188"
          "has_payload pkt' = has_payload p" "cc4 pkt' = cc4 p - ucast (ccr_off r')"
        using ccr_emit_val [OF w(2), of "ck_cc c" True] by auto
      have "emit_checked c pkt = Some (True, (if has_payload pkt'
          then c\<lparr>ck_cc := r', ck_last_out_cc := Some (pkt' ! 3 AND 0x0F)\<rparr>
          else c\<lparr>ck_cc := r'\<rparr>), pkt')"
        using True b w pl e(1) tail [OF e(4)]
        by (simp add: emit_checked_def Let_def)
      then show ?thesis using True b w e by (auto simp: stage_effect_def)
    qed
  next
    case False
    obtain r' pkt' where e: "ccr_emit (ck_cc c) pkt False = Some (r', pkt')" "ccr_emitted r'"
        "(ucast (ccr_off r') :: 4 word) = ucast (ccr_off (ck_cc c))" "length pkt' = 188"
        "has_payload pkt' = has_payload pkt" "body pkt' = body pkt"
        "cc4 pkt' = cc4 pkt - ucast (ccr_off r')"
      using ccr_emit_val [OF assms, of "ck_cc c" False] by auto
    have "emit_checked c pkt = Some (True, (if has_payload pkt'
        then c\<lparr>ck_cc := r', ck_last_out_cc := Some (pkt' ! 3 AND 0x0F)\<rparr>
        else c\<lparr>ck_cc := r'\<rparr>), pkt')"
      using False pl e(1) tail [OF e(4)] by (auto simp: emit_checked_def Let_def)
    then show ?thesis using False e by (auto simp: stage_effect_def)
  qed
qed

section \<open>A run of the stage\<close>

text \<open>The counter last put on the wire is the source's minus the packets dropped since; before
  anything went out there is nothing to continue and the offset is zero.\<close>

definition renumber_inv :: "cc_renumber \<Rightarrow> 4 word \<Rightarrow> 4 word option \<Rightarrow> bool" where
  "renumber_inv r prev out \<longleftrightarrow>
     (case out of None \<Rightarrow> \<not> ccr_emitted r \<and> ccr_off r = 0
      | Some e \<Rightarrow> ccr_emitted r \<and> e = prev - ucast (ccr_off r))"

definition continues :: "4 word option \<Rightarrow> bytes list \<Rightarrow> bool" where
  "continues out ps \<longleftrightarrow>
     (case out of Some e \<Rightarrow> cc_continuous e ps
      | None \<Rightarrow> (case ps of [] \<Rightarrow> True | p # ps \<Rightarrow> cc_continuous (cc4 p) ps))"

lemma renumber_drop:
  assumes "renumber_inv r prev out"
  shows "renumber_inv (drop_payload r) (prev + 1) out"
  using assms
  by (auto simp: renumber_inv_def drop_payload_def ucast4_and ucast4_add
      simp del: unsigned_and_eq split: option.splits)

lemma checked_run_continues:
  assumes "cc_continuous prev (map snd src)" "\<forall>(d, p) \<in> set src. length p = 188"
    "renumber_inv (ck_cc c) prev out"
  shows "\<exists>c' ps. checked_run c src = Some (c', ps) \<and> continues out ps \<and>
     (\<forall>p\<in>set ps. length p = 188) \<and>
     map body (filter has_payload ps) = map (body \<circ> snd) (filter (\<lambda>(d, p). \<not> d \<and> has_payload p) src)"
  using assms
proof (induction src arbitrary: c prev out)
  case Nil
  then show ?case by (auto simp: continues_def split: option.splits)
next
  case (Cons dp src)
  obtain d pkt where dp: "dp = (d, pkt)" by (cases dp)
  let ?c = "c\<lparr>ck_dropping := d\<rparr>"
  from Cons.prems dp have len: "length pkt = 188"
    and cc: "cc4 pkt = (if has_payload pkt then prev + 1 else prev)"
    and rest: "cc_continuous (cc4 pkt) (map snd src)" "\<forall>(d, p) \<in> set src. length p = 188"
    by auto
  obtain keep c1 p1 where e: "emit_checked ?c pkt = Some (keep, c1, p1)"
    and k: "stage_effect d (ck_cc c) pkt keep (ck_cc c1) p1"
    using emit_checked_cases [OF len, of ?c] by auto
  note k = k [unfolded stage_effect_def]
  show ?case
  proof (cases keep)
    case False
    have "renumber_inv (ck_cc c1) (cc4 pkt) out"
      using False k cc renumber_drop [OF Cons.prems(3)] by simp
    from Cons.IH [OF rest this] show ?thesis using False e k dp by auto
  next
    case True
    have "renumber_inv (ck_cc c1) (cc4 pkt) (Some (cc4 p1))"
      using True k by (simp add: renumber_inv_def)
    from Cons.IH [OF rest this] obtain c' ps where r: "checked_run c1 src = Some (c', ps)"
        "continues (Some (cc4 p1)) ps" "\<forall>p\<in>set ps. length p = 188"
        "map body (filter has_payload ps) =
         map (body \<circ> snd) (filter (\<lambda>(d, p). \<not> d \<and> has_payload p) src)"
      by blast
    have "continues out (p1 # ps)"
      using True k cc r(2) Cons.prems(3)
      by (auto simp: continues_def renumber_inv_def split: option.splits if_splits)
    then show ?thesis using True e k r dp by (auto split: if_splits)
  qed
qed

text \<open>Property C24.  A stage that drops or strips payload packets on a PID keeps the PID continuous: when the
  packets that arrive follow each other in the sense of ISO/IEC 13818-1 2.4.3.3, so do the
  packets that leave, whatever the gate decides packet by packet; nothing panics, and the payload
  packets that leave are exactly those that were not dropped, in order and unchanged but for
  their counter.\<close>

theorem renumbering_keeps_continuity:
  assumes "cc_continuous prev (map snd src)" "\<forall>(d, p) \<in> set src. length p = TS_PACKET_SIZE"
  shows "\<exists>c ps. checked_run (checked_new pid) src = Some (c, ps) \<and>
     (\<forall>p rest. ps = p # rest \<longrightarrow> cc_continuous (cc4 p) rest) \<and>
     map body (filter has_payload ps) = map (body \<circ> snd) (filter (\<lambda>(d, p). \<not> d \<and> has_payload p) src)"
proof -
  have "renumber_inv (ck_cc (checked_new pid)) prev None"
    by (simp add: renumber_inv_def checked_new_def ccr_default_def)
  from checked_run_continues [OF assms(1) _ this] assms(2) show ?thesis
    by (fastforce simp: continues_def)
qed

definition sample_gated :: "(bool \<times> bytes) list" where
  "sample_gated = map (\<lambda>(d, b3). (d, [0x47, 0x01, 0x00, b3, 0x07, 0x10] @ replicate 182 0))
     [(False, 0x3E), (True, 0x3F), (True, 0x10), (False, 0x11), (False, 0x21), (False, 0x32)]"

theorem renumbering_keeps_continuity_witness:
  "cc_continuous 13 (map snd sample_gated) \<and>
   (\<exists>c ps. checked_run (checked_new 0x100) sample_gated = Some (c, ps) \<and>
     map (\<lambda>p. (has_payload p, cc4 p)) ps = [(True, 14), (False, 14), (True, 15), (False, 15), (True, 0)] \<and>
     (\<forall>p rest. ps = p # rest \<longrightarrow> cc_continuous (cc4 p) rest))"
proof -
  have a: "cc_continuous 13 (map snd sample_gated)" by code_simp
  have b: "\<forall>(d, p) \<in> set sample_gated. length p = TS_PACKET_SIZE" by code_simp
  have c: "map_option (\<lambda>(c, ps). map (\<lambda>p. (has_payload p, cc4 p)) ps)
      (checked_run (checked_new 0x100) sample_gated) =
      Some [(True, 14), (False, 14), (True, 15), (False, 15), (True, 0)]"
    by code_simp
  from renumbering_keeps_continuity [OF a b, of "0x100"] a c show ?thesis by auto
qed

end
