(* ===== verification/TsPsi.thy ===== *)
theory TsPsi
  imports TsPacket
begin

text \<open>
  The tables of a transport stream as \<open>src/src/engine/ts_parse.rs\<close> reads them: the MPEG-2
  CRC, the walk over the PSI sections of one packet, the PAT, the version stamp, and the
  classification of descriptor loops. Each loop of the sources is a recursion on its position
  with the loop's own exit test.
\<close>

section \<open>CRC-32\<close>

definition crc_shift :: "u32 \<Rightarrow> u32" where
  "crc_shift crc =
     (if crc AND 0x80000000 \<noteq> 0 then push_bit 1 crc XOR 0x04C11DB7 else push_bit 1 crc)"

definition crc_entry :: "u32 \<Rightarrow> u32" where
  "crc_entry i = (crc_shift ^^ 8) (push_bit 24 i)"

definition CRC32_TABLE :: "u32 list" where
  "CRC32_TABLE = map (\<lambda>i. crc_entry (of_nat i)) [0..<256]"

definition crc_step :: "u32 \<Rightarrow> u8 \<Rightarrow> u32" where
  "crc_step crc byte =
     (let i = unat (drop_bit 24 crc XOR ucast byte) in push_bit 8 crc XOR CRC32_TABLE ! i)"

definition mpeg2_crc32 :: "bytes \<Rightarrow> u32" where
  "mpeg2_crc32 data = foldl crc_step 0xFFFFFFFF data"

text \<open>\<open>u32::to_be_bytes\<close>.\<close>

definition to_be_bytes32 :: "u32 \<Rightarrow> bytes" where
  "to_be_bytes32 w = [byte32 3 w, byte32 2 w, byte32 1 w, byte32 0 w]"

definition psi_crc_offset :: "nat \<Rightarrow> nat \<Rightarrow> nat option" where
  "psi_crc_offset section_start section_length =
     (let section_end = section_start + 3 + section_length in
      if section_end < 4 then None
      else
        (let crc_offset = section_end - 4 in
         if crc_offset < section_start + 3 then None
         else if crc_offset + 4 > TS_PACKET_SIZE then None
         else Some crc_offset))"

text \<open>The 12-bit length field of a section header.\<close>

definition len12 :: "u8 \<Rightarrow> u8 \<Rightarrow> nat" where
  "len12 a b = unat (be16 (a AND 0x0F) b)"

definition verify_psi_crc :: "bytes \<Rightarrow> nat \<Rightarrow> bool panics" where
  "verify_psi_crc pkt section_start =
     (if section_start + 3 > TS_PACKET_SIZE then Some False
      else do {
        a \<leftarrow> idx pkt (section_start + 1);
        b \<leftarrow> idx pkt (section_start + 2);
        let section_end = section_start + 3 + len12 a b in
        if section_end > TS_PACKET_SIZE then Some False
        else do { sec \<leftarrow> slice pkt section_start section_end; Some (mpeg2_crc32 sec = 0) } })"

section \<open>Sections of a packet\<close>

definition PSI_MAX_SECTION_LENGTH :: nat where "PSI_MAX_SECTION_LENGTH = 1021"
definition PRIVATE_MAX_SECTION_LENGTH :: nat where "PRIVATE_MAX_SECTION_LENGTH = 4093"

definition max_section_length :: "u8 \<Rightarrow> nat option" where
  "max_section_length table_id =
     (if table_id = 0xFF then None
      else if table_id \<le> 0x02 then Some PSI_MAX_SECTION_LENGTH
      else Some PRIVATE_MAX_SECTION_LENGTH)"

record psi_section_ref =
  start :: nat
  table_id :: u8
  section_length :: nat
  ssi :: bool
  complete :: bool

record psi_iter =
  it_buf :: bytes
  it_pos :: nat
  it_done :: bool

definition psi_next :: "psi_iter \<Rightarrow> psi_section_ref option \<times> psi_iter" where
  "psi_next it =
     (let buf = it_buf it; pos = it_pos it; stop = (None, it\<lparr>it_done := True\<rparr>) in
      if it_done it then (None, it)
      else if pos + 3 > length buf then stop
      else
        (let tid = buf ! pos in
         case max_section_length tid of None \<Rightarrow> stop
         | Some max_len \<Rightarrow>
             let s = (buf ! (pos + 1) AND 0x80 \<noteq> 0);
                 len = len12 (buf ! (pos + 1)) (buf ! (pos + 2));
                 too_short = (if tid \<le> 0x02 then len < 9 else s \<and> len < 9) in
             if len > max_len \<or> too_short then stop
             else
               (let e = pos + 3 + len; c = (e \<le> length buf) in
                (Some \<lparr>start = pos, table_id = tid, section_length = len, ssi = s, complete = c\<rparr>,
                 (if c then it\<lparr>it_pos := e\<rparr> else it\<lparr>it_done := True\<rparr>)))))"

definition psi_measure :: "psi_iter \<Rightarrow> nat" where
  "psi_measure it = (if it_done it then 0 else Suc (length (it_buf it) - it_pos it))"

lemma psi_next_decreases:
  assumes "psi_next it = (Some s, it')"
  shows "psi_measure it' < psi_measure it"
  using assms
  by (auto simp: psi_next_def psi_measure_def Let_def split: if_splits option.splits)

text \<open>\<open>Iterator::find\<close> on the walker.\<close>

function psi_find :: "(psi_section_ref \<Rightarrow> bool) \<Rightarrow> psi_iter \<Rightarrow> psi_section_ref option" where
  "psi_find p it =
     (case psi_next it of
        (None, it') \<Rightarrow> None
      | (Some s, it') \<Rightarrow> if p s then Some s else psi_find p it')"
  by pat_completeness auto
termination
  by (relation "measure (\<lambda>(p, it). psi_measure it)") (auto dest: psi_next_decreases [OF sym])

declare psi_find.simps [simp del]

definition psi_sections_in_payload :: "bytes \<Rightarrow> psi_iter" where
  "psi_sections_in_payload payload =
     (case payload of
        pointer # _ \<Rightarrow> \<lparr>it_buf = payload, it_pos = 1 + unat pointer, it_done = False\<rparr>
      | [] \<Rightarrow> \<lparr>it_buf = payload, it_pos = 0, it_done = True\<rparr>)"

definition sections_in_packet :: "bytes \<Rightarrow> psi_iter panics" where
  "sections_in_packet pkt =
     (let empty = \<lparr>it_buf = pkt, it_pos = 0, it_done = True\<rparr> in
      if length pkt \<noteq> TS_PACKET_SIZE then Some empty
      else do {
        pusi \<leftarrow> ts_pusi pkt;
        if \<not> pusi then Some empty
        else do {
          start \<leftarrow> ts_payload_start pkt;
          case start of None \<Rightarrow> Some empty
          | Some off \<Rightarrow> do {
              p \<leftarrow> idx pkt off;
              Some \<lparr>it_buf = take TS_PACKET_SIZE pkt, it_pos = off + 1 + unat p,
                    it_done = False\<rparr> } } })"

definition section_program_matches :: "bytes \<Rightarrow> psi_section_ref \<Rightarrow> u16 option \<Rightarrow> bool" where
  "section_program_matches buf s program_number =
     (case program_number of None \<Rightarrow> True
      | Some want \<Rightarrow> ssi s \<and> start s + 5 \<le> length buf \<and>
          be16 (buf ! (start s + 3)) (buf ! (start s + 4)) = want)"

definition find_section_in_packet :: "bytes \<Rightarrow> u8 \<Rightarrow> u16 option \<Rightarrow> psi_section_ref option panics" where
  "find_section_in_packet pkt tid program_number = do {
     it \<leftarrow> sections_in_packet pkt;
     Some (psi_find (\<lambda>s. table_id s = tid \<and> section_program_matches pkt s program_number) it) }"

definition find_section_in_payload :: "bytes \<Rightarrow> u8 \<Rightarrow> u16 option \<Rightarrow> psi_section_ref option" where
  "find_section_in_payload payload tid program_number =
     psi_find (\<lambda>s. table_id s = tid \<and> section_program_matches payload s program_number)
       (psi_sections_in_payload payload)"

definition pmt_section_offset :: "bytes \<Rightarrow> u16 option \<Rightarrow> nat option panics" where
  "pmt_section_offset pkt program_number = do {
     s \<leftarrow> find_section_in_packet pkt 0x02 program_number;
     Some (map_option start s) }"

definition pmt_section_offset_for :: "bytes \<Rightarrow> u16 \<Rightarrow> bool \<Rightarrow> nat option panics" where
  "pmt_section_offset_for pkt program pid_shared = do {
     s \<leftarrow> pmt_section_offset pkt (Some program);
     case s of Some off \<Rightarrow> Some (Some off)
     | None \<Rightarrow> if pid_shared then Some None else pmt_section_offset pkt None }"

section \<open>The PAT\<close>

text \<open>The loop over the four-byte entries, shared by the packet and the section parser.\<close>

function pat_entries :: "bytes \<Rightarrow> nat \<Rightarrow> nat \<Rightarrow> (u16 \<times> u16) list panics" where
  "pat_entries buf pos data_end =
     (if pos + 4 \<le> data_end then do {
        a \<leftarrow> idx buf pos; b \<leftarrow> idx buf (pos + 1); c \<leftarrow> idx buf (pos + 2); d \<leftarrow> idx buf (pos + 3);
        rest \<leftarrow> pat_entries buf (pos + 4) data_end;
        Some (if be16 a b \<noteq> 0 then (be16 a b, pid13 c d) # rest else rest) }
      else Some [])"
  by pat_completeness auto
termination by (relation "measure (\<lambda>(buf, pos, e). e - pos)") auto

declare pat_entries.simps [simp del]

definition parse_pat_programs :: "bytes \<Rightarrow> (u16 \<times> u16) list panics" where
  "parse_pat_programs pkt = do {
     pusi \<leftarrow> ts_pusi pkt;
     if \<not> pusi then Some []
     else do {
       offset \<leftarrow> ts_payload_offset pkt;
       if offset \<ge> TS_PACKET_SIZE then Some []
       else do {
         pointer \<leftarrow> idx pkt offset;
         let offset = offset + (1 + unat pointer) in
         if offset + 8 > TS_PACKET_SIZE then Some []
         else do {
           tid \<leftarrow> idx pkt offset;
           if tid \<noteq> 0x00 then Some []
           else do {
             a \<leftarrow> idx pkt (offset + 1);
             b \<leftarrow> idx pkt (offset + 2);
             let data_end = min (offset + 3 + len12 a b) TS_PACKET_SIZE - 4 in
             pat_entries pkt (offset + 8) data_end } } } } }"

definition parse_pat_pmt_pids :: "bytes \<Rightarrow> u16 list panics" where
  "parse_pat_pmt_pids pkt = do { ps \<leftarrow> parse_pat_programs pkt; Some (map snd ps) }"

definition parse_pat_section_programs :: "bytes \<Rightarrow> (u16 \<times> u16) list panics" where
  "parse_pat_section_programs sec =
     (if length sec < 12 \<or> sec ! 0 \<noteq> 0x00 then Some []
      else
        (let len = len12 (sec ! 1) (sec ! 2) in
         if 3 + len > length sec \<or> len < 9 then Some []
         else pat_entries sec 8 (3 + len - 4)))"

section \<open>The version stamp\<close>

definition set_psi_version_at :: "bytes \<Rightarrow> nat \<Rightarrow> u8 \<Rightarrow> (bool \<times> bytes) panics" where
  "set_psi_version_at buf section_start version =
     (if section_start + 3 > length buf then Some (False, buf)
      else do {
        a \<leftarrow> idx buf (section_start + 1);
        if a AND 0x80 = 0 then Some (False, buf)
        else do {
          b \<leftarrow> idx buf (section_start + 2);
          let len = len12 a b; section_end = section_start + 3 + len in
          if section_end > length buf \<or> len < 9 then Some (False, buf)
          else do {
            v5 \<leftarrow> idx buf (section_start + 5);
            buf \<leftarrow> put buf (section_start + 5) ((v5 AND 0xC1) OR push_bit 1 (version AND 0x1F));
            let crc_offset = section_end - 4 in do {
            body \<leftarrow> slice buf section_start crc_offset;
            buf \<leftarrow> put_slice buf crc_offset section_end (to_be_bytes32 (mpeg2_crc32 body));
            Some (True, buf) } } } })"

definition set_psi_version :: "bytes \<Rightarrow> u8 \<Rightarrow> bytes panics" where
  "set_psi_version pkt version =
     (if length pkt \<noteq> TS_PACKET_SIZE then Some pkt
      else do {
        pusi \<leftarrow> ts_pusi pkt;
        if \<not> pusi then Some pkt
        else do {
          it \<leftarrow> sections_in_packet pkt;
          case fst (psi_next it) of None \<Rightarrow> Some pkt
          | Some first \<Rightarrow> do { r \<leftarrow> set_psi_version_at pkt (start first) version; Some (snd r) } } })"

section \<open>Descriptor loops\<close>

datatype private_es_audio_kind = Ac3 | Eac3 | AacLatm | Dts | Opus | Smpte302m | Ac4

definition ascii4 :: "char \<Rightarrow> char \<Rightarrow> char \<Rightarrow> char \<Rightarrow> bytes" where
  "ascii4 a b c d = map (\<lambda>x. of_nat (of_char x)) [a, b, c, d]"

definition registration_kind :: "bytes \<Rightarrow> private_es_audio_kind option" where
  "registration_kind fmt =
     (if fmt = ascii4 CHR ''A'' CHR ''C'' CHR ''-'' CHR ''3'' then Some Ac3
      else if fmt = ascii4 CHR ''E'' CHR ''A'' CHR ''C'' CHR ''3'' then Some Eac3
      else if fmt = ascii4 CHR ''D'' CHR ''T'' CHR ''S'' CHR ''1''
           \<or> fmt = ascii4 CHR ''D'' CHR ''T'' CHR ''S'' CHR ''2''
           \<or> fmt = ascii4 CHR ''D'' CHR ''T'' CHR ''S'' CHR ''3'' then Some Dts
      else if fmt = ascii4 CHR ''O'' CHR ''p'' CHR ''u'' CHR ''s'' then Some Opus
      else if fmt = ascii4 CHR ''B'' CHR ''S'' CHR ''S'' CHR ''D'' then Some Smpte302m
      else if fmt = ascii4 CHR ''A'' CHR ''C'' CHR ''-'' CHR ''4'' then Some Ac4
      else None)"

text \<open>The \<open>match tag\<close> of one descriptor at \<open>pos\<close>; \<open>None\<close> lets the loop go on.\<close>

definition descriptor_kind_at :: "bytes \<Rightarrow> nat \<Rightarrow> private_es_audio_kind option panics" where
  "descriptor_kind_at ds pos = do {
     tag \<leftarrow> idx ds pos;
     len \<leftarrow> idx ds (pos + 1);
     if tag = 0x6A then Some (Some Ac3)
     else if tag = 0x7A then Some (Some Eac3)
     else if tag = 0x7B then Some (Some Dts)
     else if tag = 0x7C then Some (Some AacLatm)
     else if tag = 0x05 \<and> 4 \<le> unat len then do {
       fmt \<leftarrow> slice ds (pos + 2) (pos + 6);
       Some (registration_kind fmt) }
     else if tag = 0x7F \<and> 1 \<le> unat len then do {
       e \<leftarrow> idx ds (pos + 2);
       Some (if e = 0x15 then Some Ac4 else None) }
     else if tag = 0xAC then Some (Some Ac4)
     else Some None }"

function descriptor_audio_kind_from :: "bytes \<Rightarrow> nat \<Rightarrow> private_es_audio_kind option panics" where
  "descriptor_audio_kind_from ds pos =
     (if pos + 2 \<le> length ds then do {
        len \<leftarrow> idx ds (pos + 1);
        if pos + 2 + unat len > length ds then Some None
        else do {
          k \<leftarrow> descriptor_kind_at ds pos;
          case k of Some kind \<Rightarrow> Some (Some kind)
          | None \<Rightarrow> descriptor_audio_kind_from ds (pos + (2 + unat len)) } }
      else Some None)"
  by pat_completeness auto
termination by (relation "measure (\<lambda>(ds, pos). length ds - pos)") auto

declare descriptor_audio_kind_from.simps [simp del]

definition descriptor_audio_kind :: "bytes \<Rightarrow> private_es_audio_kind option panics" where
  "descriptor_audio_kind ds = descriptor_audio_kind_from ds 0"

function opus_channel_config_code_from :: "bytes \<Rightarrow> nat \<Rightarrow> u8 option panics" where
  "opus_channel_config_code_from ds pos =
     (if pos + 2 \<le> length ds then do {
        len \<leftarrow> idx ds (pos + 1);
        if pos + 2 + unat len > length ds then Some None
        else do {
          tag \<leftarrow> idx ds pos;
          body \<leftarrow> slice ds (pos + 2) (pos + 2 + unat len);
          if tag = 0x7F \<and> 2 \<le> length body \<and> body ! 0 = 0x80 then Some (Some (body ! 1))
          else opus_channel_config_code_from ds (pos + (2 + unat len)) } }
      else Some None)"
  by pat_completeness auto
termination by (relation "measure (\<lambda>(ds, pos). length ds - pos)") auto

declare opus_channel_config_code_from.simps [simp del]

definition opus_channel_config_code :: "bytes \<Rightarrow> u8 option panics" where
  "opus_channel_config_code ds = opus_channel_config_code_from ds 0"

function text_service_from :: "bytes \<Rightarrow> nat \<Rightarrow> bool panics" where
  "text_service_from ds pos =
     (if pos + 2 \<le> length ds then do {
        tag \<leftarrow> idx ds pos;
        len \<leftarrow> idx ds (pos + 1);
        if pos + 2 + unat len > length ds then Some False
        else if tag \<in> {0x45, 0x46, 0x56, 0x59} then Some True
        else text_service_from ds (pos + (2 + unat len)) }
      else Some False)"
  by pat_completeness auto
termination by (relation "measure (\<lambda>(ds, pos). length ds - pos)") auto

declare text_service_from.simps [simp del]

definition descriptors_indicate_text_service :: "bytes \<Rightarrow> bool panics" where
  "descriptors_indicate_text_service ds = text_service_from ds 0"

end
