(* ===== verification/TsPsiFacts.thy ===== *)
theory TsPsiFacts
  imports TsPsi TsPacketFacts
begin

text \<open>
  Facts on the PSI parsers: a section followed by its CRC has CRC zero, the walk over the sections
  of a buffer stays inside it, and none of the parsers can panic.
\<close>

section \<open>Reading behind a position\<close>

lemma drop_nth: "drop pos buf = ys @ zs \<Longrightarrow> i < length ys \<Longrightarrow> buf ! (pos + i) = ys ! i"
proof -
  assume d: "drop pos buf = ys @ zs" and i: "i < length ys"
  have "length buf - pos = length ys + length zs" using d by (metis length_append length_drop)
  then have "pos + i < length buf" using i by linarith
  then have "buf ! (pos + i) = drop pos buf ! i" by simp
  also have "\<dots> = ys ! i" using d i by (simp add: nth_append)
  finally show ?thesis .
qed

lemma drop_length: "drop pos buf = ys @ zs \<Longrightarrow> ys \<noteq> [] \<Longrightarrow> pos + length ys \<le> length buf"
  by (drule arg_cong [where f = length]) (cases ys, auto)

section \<open>CRC-32\<close>

lemma crc_index_less: "unat (drop_bit 24 crc XOR ucast (b :: u8) :: u32) < 256"
proof -
  have "drop_bit 24 crc XOR (ucast b :: u32) = take_bit 8 (drop_bit 24 crc XOR ucast b)"
    by (rule bit_word_eqI)
       (auto simp: bit_take_bit_iff bit_xor_iff bit_drop_bit_eq bit_ucast_iff dest: bit_imp_le_length)
  then have "unat (drop_bit 24 crc XOR (ucast b :: u32)) = take_bit 8 (unat (drop_bit 24 crc XOR (ucast b :: u32)))"
    by (metis unsigned_take_bit_eq)
  then show ?thesis
    using take_bit_nat_less_exp [of 8 "unat (drop_bit 24 crc XOR (ucast b :: u32))"] by simp
qed

lemma crc_step_code [code]:
  "crc_step crc b = push_bit 8 crc XOR crc_entry (drop_bit 24 crc XOR ucast b)"
  using crc_index_less [of crc b] by (simp add: crc_step_def CRC32_TABLE_def Let_def)

text \<open>Rewriting with \<open>crc_eval\<close> computes the CRC of a literal byte string.\<close>

lemma crc_entry_unfold:
  "crc_entry i = crc_shift (crc_shift (crc_shift (crc_shift
     (crc_shift (crc_shift (crc_shift (crc_shift (push_bit 24 i))))))))"
  by (simp add: crc_entry_def numeral_eq_Suc)

lemmas crc_eval = mpeg2_crc32_def crc_step_code crc_entry_unfold crc_shift_def

lemma crc_entry_zero [simp]: "crc_entry 0 = 0"
  by (simp add: crc_entry_def crc_shift_def numeral_eq_Suc)

text \<open>A byte equal to the top byte of the register shifts it out.\<close>

lemma crc_step_top: "crc_step crc (byte32 3 crc) = push_bit 8 crc"
proof -
  have "drop_bit 24 crc XOR ucast (byte32 3 crc) = (0 :: u32)"
    by (rule bit_word_eqI)
       (auto simp: byte32_def bit_xor_iff bit_drop_bit_eq bit_ucast_iff dest: bit_imp_le_length)
  then show ?thesis by (simp add: crc_step_code)
qed

lemma byte32_shift:
  "byte32 2 crc = byte32 3 (push_bit 8 crc)" "byte32 1 crc = byte32 3 (push_bit 16 crc)"
  "byte32 0 crc = byte32 3 (push_bit 24 crc)"
  by (rule bit_word_eqI, auto simp: byte32_def bit_ucast_iff bit_drop_bit_eq bit_push_bit_iff)+

lemma crc_self_cancels: "foldl crc_step crc (to_be_bytes32 crc) = 0"
proof -
  have "foldl crc_step crc (to_be_bytes32 crc) = push_bit 8 (push_bit 8 (push_bit 8 (push_bit 8 crc)))"
    unfolding to_be_bytes32_def foldl.simps
    by (simp only: byte32_shift crc_step_top push_bit_push_bit [symmetric, of 8 8]
        push_bit_push_bit [symmetric, of 8 16]) (simp add: crc_step_top push_bit_push_bit byte32_shift)
  also have "\<dots> = 0"
    by (rule bit_word_eqI) (simp add: bit_push_bit_iff)
  finally show ?thesis .
qed

lemma crc_appended: "mpeg2_crc32 (data @ to_be_bytes32 (mpeg2_crc32 data)) = 0"
  by (simp add: mpeg2_crc32_def crc_self_cancels)

lemma length_to_be_bytes32 [simp]: "length (to_be_bytes32 w) = 4"
  by (simp add: to_be_bytes32_def)

lemma len12_less: "len12 a b < 4096"
proof -
  have "unat (be16 (a AND 0x0F) b) = take_bit 12 (unat (be16 (a AND 0x0F) b))"
  proof -
    have "be16 (a AND 0x0F) b = take_bit 12 (be16 (a AND 0x0F) b)"
      by (rule bit_word_eqI)
         (auto simp: be16_def bit_take_bit_iff bit_or_iff bit_push_bit_iff bit_ucast_iff bit_and_iff
            low_masks bit_mask_iff dest: bit_imp_le_length)
    then show ?thesis by (metis unsigned_take_bit_eq)
  qed
  then show ?thesis
    using take_bit_nat_less_exp [of 12 "unat (be16 (a AND 0x0F) b)"] by (simp add: len12_def)
qed

section \<open>The section walk\<close>

text \<open>What the walker yields describes a section of its buffer.\<close>

definition section_at :: "bytes \<Rightarrow> psi_section_ref \<Rightarrow> bool" where
  "section_at buf s \<longleftrightarrow>
     start s + 3 \<le> length buf \<and> table_id s = buf ! start s \<and> table_id s \<noteq> 0xFF \<and>
     section_length s = len12 (buf ! (start s + 1)) (buf ! (start s + 2)) \<and>
     ssi s = (buf ! (start s + 1) AND 0x80 \<noteq> 0) \<and>
     complete s = (start s + 3 + section_length s \<le> length buf) \<and>
     (table_id s \<le> 0x02 \<or> ssi s \<longrightarrow> 9 \<le> section_length s) \<and>
     section_length s \<le> (if table_id s \<le> 0x02 then PSI_MAX_SECTION_LENGTH
                         else PRIVATE_MAX_SECTION_LENGTH)"

lemma psi_next_sound:
  assumes "psi_next it = (Some s, it')"
  shows "section_at (it_buf it) s" "it_buf it' = it_buf it" "start s = it_pos it" "\<not> it_done it"
    "\<not> it_done it' \<longrightarrow> it_pos it' = start s + 3 + section_length s \<and> complete s"
  using assms
  by (auto simp: psi_next_def section_at_def max_section_length_def Let_def
      split: if_splits option.splits)

lemma psi_find_sound:
  "psi_find p it = Some s \<Longrightarrow> p s \<and> section_at (it_buf it) s \<and> it_pos it \<le> start s"
proof (induction p it rule: psi_find.induct)
  case (1 p it)
  obtain o' it' where n: "psi_next it = (o', it')" by (cases "psi_next it")
  show ?case
  proof (cases o')
    case None
    with 1 n show ?thesis by (simp add: psi_find.simps)
  next
    case (Some t)
    note nx = psi_next_sound [OF n [unfolded Some]]
    show ?thesis
    proof (cases "p t")
      case True
      with 1(2) n Some nx show ?thesis by (simp add: psi_find.simps)
    next
      case False
      have f: "psi_find p it' = Some s" using 1(2) n Some False by (simp add: psi_find.simps)
      have "\<not> it_done it'"
        using f by (auto simp: psi_find.simps [of p it'] psi_next_def)
      then show ?thesis
        using 1(1) [OF n [symmetric] Some False f] nx by auto
    qed
  qed
qed

section \<open>No parser panics\<close>

lemma no_panic_fields [no_panic_simps]:
  "no_panic (ts_pusi pkt) \<longleftrightarrow> 1 < length pkt" "no_panic (ts_cc pkt) \<longleftrightarrow> 3 < length pkt"
  "no_panic (ts_has_adaptation pkt) \<longleftrightarrow> 3 < length pkt"
  "no_panic (ts_has_payload pkt) \<longleftrightarrow> 3 < length pkt" "no_panic (ts_pid pkt) \<longleftrightarrow> 2 < length pkt"
  by (auto simp: ts_field_defs no_panic_simps)

lemma no_panic_payload_offset: "4 < length pkt \<Longrightarrow> no_panic (ts_payload_offset pkt)"
  by (simp add: ts_payload_offset_def no_panic_simps)

lemma no_panic_payload_start: "no_panic (ts_payload_start pkt)"
  by (simp add: ts_payload_start_def no_panic_simps no_panic_payload_offset)

lemma ts_payload_start_less:
  "ts_payload_start pkt = Some (Some off) \<Longrightarrow> off < TS_PACKET_SIZE \<and> TS_PACKET_SIZE \<le> length pkt"
  by (auto simp: ts_payload_start_def bind_eq_Some_conv split: if_splits)

lemma no_panic_sections: "no_panic (sections_in_packet pkt)"
  by (auto simp: sections_in_packet_def no_panic_simps no_panic_payload_start
      dest!: ts_payload_start_less)

lemma no_panic_find_section: "no_panic (find_section_in_packet pkt tid prog)"
  by (simp add: find_section_in_packet_def no_panic_simps no_panic_sections)

lemma no_panic_pmt_offset: "no_panic (pmt_section_offset pkt prog)"
  by (simp add: pmt_section_offset_def no_panic_simps no_panic_find_section)

lemma no_panic_pmt_offset_for: "no_panic (pmt_section_offset_for pkt prog shared)"
  by (simp add: pmt_section_offset_for_def no_panic_simps no_panic_pmt_offset)

lemma no_panic_pat_entries: "e \<le> length buf \<Longrightarrow> no_panic (pat_entries buf pos e)"
  by (induction buf pos e rule: pat_entries.induct)
     (subst pat_entries.simps, simp add: no_panic_simps)

lemma no_panic_parse_pat:
  "TS_PACKET_SIZE \<le> length pkt \<Longrightarrow> no_panic (parse_pat_programs pkt)"
  by (simp add: parse_pat_programs_def no_panic_simps no_panic_payload_offset
      no_panic_pat_entries)

lemma no_panic_parse_pat_section: "no_panic (parse_pat_section_programs sec)"
  by (auto simp: parse_pat_section_programs_def no_panic_simps Let_def intro!: no_panic_pat_entries)

lemma no_panic_extract_pcr: "12 \<le> length pkt \<Longrightarrow> no_panic (extract_pcr pkt)"
  by (simp add: extract_pcr_val)

lemma no_panic_first_pcr: "no_panic (first_pcr_in_ts_buffer_pid_from data f i)"
proof (induction data f i rule: first_pcr_in_ts_buffer_pid_from.induct)
  case (1 data f i)
  then show ?case
    by (subst first_pcr_in_ts_buffer_pid_from.simps)
       (auto simp: no_panic_simps no_panic_extract_pcr split: option.splits)
qed

text \<open>Where a PES would start; beyond the length tests of the callers nothing is read.\<close>

lemma no_panic_pes_start: "3 < length pkt \<Longrightarrow> no_panic (pes_start pkt)"
  by (simp add: pes_start_def no_panic_simps Let_def)

lemma no_panic_pes:
  "no_panic (extract_pes_pts pkt)" "no_panic (extract_pes_dts pkt)"
  "no_panic (pes_payload_offset pkt)"
  by (auto simp: extract_pes_pts_def extract_pes_dts_def pes_payload_offset_def no_panic_simps
      no_panic_pes_start Let_def)

lemma no_panic_descriptor_at:
  "pos + 2 \<le> length ds \<Longrightarrow> pos + 2 + unat (ds ! (pos + 1)) \<le> length ds \<Longrightarrow>
   no_panic (descriptor_kind_at ds pos)"
  by (auto simp: descriptor_kind_at_def no_panic_simps)

lemma no_panic_verify: "TS_PACKET_SIZE \<le> length pkt \<Longrightarrow> no_panic (verify_psi_crc pkt s)"
  by (simp add: verify_psi_crc_def no_panic_simps Let_def)

lemma no_panic_strip_rtp: "no_panic (strip_rtp_header data raw)"
  by (auto simp: strip_rtp_header_def no_panic_simps Let_def RTP_HEADER_MIN_SIZE_def)

section \<open>The version stamp\<close>

text \<open>The section after the stamp: the version field and the CRC rewritten, the rest kept.\<close>

definition versioned :: "bytes \<Rightarrow> nat \<Rightarrow> u8 \<Rightarrow> bytes" where
  "versioned buf s version =
     buf[s + 5 := (buf ! (s + 5) AND 0xC1) OR push_bit 1 (version AND 0x1F)]"

definition stamped :: "bytes \<Rightarrow> nat \<Rightarrow> nat \<Rightarrow> u8 \<Rightarrow> bytes" where
  "stamped buf s len version =
     take (s + len - 1) (versioned buf s version)
       @ to_be_bytes32 (mpeg2_crc32 (take (len - 1) (drop s (versioned buf s version))))
       @ drop (s + 3 + len) (versioned buf s version)"

definition stampable :: "bytes \<Rightarrow> nat \<Rightarrow> bool" where
  "stampable buf s \<longleftrightarrow>
     s + 3 \<le> length buf \<and> buf ! (s + 1) AND 0x80 \<noteq> 0 \<and>
     9 \<le> len12 (buf ! (s + 1)) (buf ! (s + 2)) \<and>
     s + 3 + len12 (buf ! (s + 1)) (buf ! (s + 2)) \<le> length buf"

lemma set_psi_version_at_val:
  "set_psi_version_at buf s version =
     Some (if stampable buf s
           then (True, stamped buf s (len12 (buf ! (s + 1)) (buf ! (s + 2))) version)
           else (False, buf))"
proof (cases "stampable buf s")
  case True
  let ?len = "len12 (buf ! (s + 1)) (buf ! (s + 2))"
  have i: "s + 3 + ?len - 4 = s + ?len - 1" "s + ?len - 1 - s = ?len - 1" by linarith+
  have b: "s + 5 < length buf" "s \<le> s + ?len - 1" "s + ?len - 1 \<le> s + 3 + ?len"
      "s + ?len - 1 \<le> length buf" "s + 3 + ?len - (s + ?len - 1) = 4" "s + 3 + ?len \<le> length buf"
    using True by (auto simp: stampable_def)
  show ?thesis
    using True b
    by (simp add: set_psi_version_at_def stamped_def versioned_def stampable_def Let_def i)
next
  case False
  then show ?thesis
    by (auto simp: set_psi_version_at_def stampable_def Let_def)
qed

lemma no_panic_set_version: "no_panic (set_psi_version pkt version)"
  by (auto simp: set_psi_version_def no_panic_simps no_panic_sections set_psi_version_at_val)

end
