(* ===== verification/TsDescriptors.thy ===== *)
theory TsDescriptors
  imports TsPsiFacts "HOL-Library.Code_Target_Nat"
begin

text \<open>
  The descriptor loops of the PMT. Three classifiers of \<open>src/src/engine/ts_parse.rs\<close> walk the
  same tag-length-value layout; the walk is stated once, as the interface of a locale, and each
  classifier is an interpretation of it.
\<close>

section \<open>Descriptor loops as lists\<close>

text \<open>A loop as a list of tags and bodies, in the layout of the PMT.\<close>

definition encode_descriptor :: "u8 \<times> bytes \<Rightarrow> bytes" where
  "encode_descriptor d = fst d # of_nat (length (snd d)) # snd d"

definition encode_descriptors :: "(u8 \<times> bytes) list \<Rightarrow> bytes" where
  "encode_descriptors ds = concat (map encode_descriptor ds)"

text \<open>The answer of the first descriptor that has one.\<close>

fun first_said :: "(u8 \<times> bytes \<Rightarrow> 'r option) \<Rightarrow> 'r \<Rightarrow> (u8 \<times> bytes) list \<Rightarrow> 'r" where
  "first_said says none [] = none"
| "first_said says none (d # ds) = (case says d of Some r \<Rightarrow> r | None \<Rightarrow> first_said says none ds)"

lemma encoded_header:
  assumes "length (snd d) < 256" "drop pos buf = encode_descriptor d @ rest"
  shows "pos + 2 + length (snd d) \<le> length buf" "buf ! pos = fst d"
    "unat (buf ! (pos + 1)) = length (snd d)"
    "drop (pos + 2) buf = snd d @ rest" "drop (pos + (2 + length (snd d))) buf = rest"
proof -
  have d: "drop pos buf = (fst d # of_nat (length (snd d)) # snd d) @ rest"
    using assms(2) by (simp add: encode_descriptor_def)
  show "pos + 2 + length (snd d) \<le> length buf"
    using arg_cong [OF d, of length] by simp
  show "buf ! pos = fst d" "unat (buf ! (pos + 1)) = length (snd d)"
    using drop_nth [OF d, of 0] drop_nth [OF d, of 1] assms(1) by (simp_all add: unat_of_nat)
  have "drop (pos + 2) buf = drop 2 (drop pos buf)" by (simp add: add.commute)
  also have "\<dots> = snd d @ rest" unfolding d by simp
  finally show e: "drop (pos + 2) buf = snd d @ rest" .
  have "drop (pos + (2 + length (snd d))) buf = drop (length (snd d)) (drop (pos + 2) buf)"
    by (simp add: ac_simps)
  then show "drop (pos + (2 + length (snd d))) buf = rest" unfolding e by simp
qed

lemma encoded_idx:
  assumes "length (snd d) < 256" "drop pos buf = encode_descriptor d @ rest"
  shows "idx buf pos = Some (fst d)" "idx buf (pos + 1) = Some (buf ! (pos + 1))"
    "1 \<le> length (snd d) \<Longrightarrow> idx buf (pos + 2) = Some (snd d ! 0)"
    "k \<le> length (snd d) \<Longrightarrow> slice buf (pos + 2) (pos + 2 + k) = Some (take k (snd d))"
proof -
  note h = encoded_header [OF assms]
  show "idx buf pos = Some (fst d)" "idx buf (pos + 1) = Some (buf ! (pos + 1))"
    using h(1,2) by simp_all
  show "idx buf (pos + 2) = Some (snd d ! 0)" if "1 \<le> length (snd d)"
    using that h(1) drop_nth [OF h(4), of 0] by (cases "snd d") simp_all
  show "slice buf (pos + 2) (pos + 2 + k) = Some (take k (snd d))" if "k \<le> length (snd d)"
    using that h(1,4) by simp
qed

section \<open>The walk\<close>

text \<open>What a walk promises: it stops at the end or at a descriptor that runs past it, asks
  \<open>judge\<close> about each descriptor in turn, and moves on by the declared length. \<open>judge\<close> reads
  inside its descriptor and depends on its tag and body alone.\<close>

locale descriptor_walk =
  fixes walk :: "bytes \<Rightarrow> nat \<Rightarrow> 'r panics"
    and judge :: "bytes \<Rightarrow> nat \<Rightarrow> 'r option panics"
    and says :: "u8 \<times> bytes \<Rightarrow> 'r option"
    and none :: 'r
  assumes walk_unfold: "walk ds pos =
      (if pos + 2 \<le> length ds then
         if pos + 2 + unat (ds ! (pos + 1)) > length ds then Some none
         else do {
           k \<leftarrow> judge ds pos;
           case k of Some r \<Rightarrow> Some r | None \<Rightarrow> walk ds (pos + (2 + unat (ds ! (pos + 1)))) }
       else Some none)"
    and judge_safe: "pos + 2 \<le> length ds \<Longrightarrow> pos + 2 + unat (ds ! (pos + 1)) \<le> length ds \<Longrightarrow>
      no_panic (judge ds pos)"
    and judge_says: "length (snd d) < 256 \<Longrightarrow> drop pos ds = encode_descriptor d @ rest \<Longrightarrow>
      judge ds pos = Some (says d)"
begin

lemma walk_no_panic: "no_panic (walk ds pos)"
proof (induction "length ds - pos" arbitrary: pos rule: less_induct)
  case less
  have "no_panic (walk ds (pos + (2 + unat (ds ! (pos + 1)))))" if "pos + 2 \<le> length ds"
    by (rule less) (use that in simp)
  then show ?case
    by (subst walk_unfold) (auto simp: no_panic_simps intro: judge_safe split: option.splits)
qed

lemma walk_encoded:
  assumes "\<forall>d\<in>set ds. length (snd d) < 256" "drop pos buf = encode_descriptors ds"
  shows "walk buf pos = Some (first_said says none ds)"
  using assms
proof (induction ds arbitrary: pos)
  case Nil
  then have "length buf \<le> pos" by (simp add: encode_descriptors_def)
  then show ?case by (subst walk_unfold) simp
next
  case (Cons d ds)
  have e: "drop pos buf = encode_descriptor d @ encode_descriptors ds" "length (snd d) < 256"
    using Cons.prems by (simp_all add: encode_descriptors_def)
  note h = encoded_header [OF e(2,1)]
  have rec: "walk buf (pos + (2 + length (snd d))) = Some (first_said says none ds)"
    using Cons h(5) by simp
  show ?case
    using h(1,3) rec judge_says [OF e(2,1)] by (subst walk_unfold) (simp split: option.splits)
qed

end

section \<open>The three classifiers\<close>

text \<open>What one descriptor says about the codec of a private stream.\<close>

definition codec_said :: "u8 \<times> bytes \<Rightarrow> private_es_audio_kind option option" where
  "codec_said d =
     (let (tag, body) = d; kind =
        (if tag = 0x6A then Some Ac3 else if tag = 0x7A then Some Eac3
         else if tag = 0x7B then Some Dts else if tag = 0x7C then Some AacLatm
         else if tag = 0x05 \<and> 4 \<le> length body then registration_kind (take 4 body)
         else if tag = 0x7F \<and> 1 \<le> length body then (if body ! 0 = 0x15 then Some Ac4 else None)
         else if tag = 0xAC then Some Ac4 else None)
      in map_option Some kind)"

definition codec_judge :: "bytes \<Rightarrow> nat \<Rightarrow> private_es_audio_kind option option panics" where
  "codec_judge ds pos = map_option (map_option Some) (descriptor_kind_at ds pos)"

lemma codec_judge_safe:
  "pos + 2 \<le> length ds \<Longrightarrow> pos + 2 + unat (ds ! (pos + 1)) \<le> length ds \<Longrightarrow> no_panic (codec_judge ds pos)"
  using no_panic_descriptor_at [of pos ds] by (simp add: codec_judge_def no_panic_def)

lemma codec_judge_says:
  assumes "length (snd d) < 256" "drop pos ds = encode_descriptor d @ rest"
  shows "codec_judge ds pos = Some (codec_said d)"
proof -
  have u: "unat (ds ! (pos + 1)) = length (snd d)" by (rule encoded_header(3) [OF assms])
  note i = encoded_idx(1,2) [OF assms]
  have s: "slice ds (pos + 2) (pos + 6) = Some (take 4 (snd d))" if "4 \<le> length (snd d)"
    using encoded_idx(4) [OF assms, of 4] that by (simp add: ac_simps)
  show ?thesis
    unfolding codec_judge_def descriptor_kind_at_def i codec_said_def
    using s encoded_idx(3) [OF assms] u by (simp add: case_prod_beta)
qed

interpretation codec_walk: descriptor_walk descriptor_audio_kind_from codec_judge codec_said None
proof unfold_locales
  fix ds pos
  show "descriptor_audio_kind_from ds pos =
      (if pos + 2 \<le> length ds then
         if pos + 2 + unat (ds ! (pos + 1)) > length ds then Some None
         else do {
           k \<leftarrow> codec_judge ds pos;
           case k of Some r \<Rightarrow> Some r
           | None \<Rightarrow> descriptor_audio_kind_from ds (pos + (2 + unat (ds ! (pos + 1)))) }
       else Some None)"
    by (subst descriptor_audio_kind_from.simps)
       (cases "descriptor_kind_at ds pos", auto simp: codec_judge_def split: option.splits)
qed (rule codec_judge_safe codec_judge_says, assumption, assumption)+

definition opus_said :: "u8 \<times> bytes \<Rightarrow> u8 option option" where
  "opus_said d = (if fst d = 0x7F \<and> 2 \<le> length (snd d) \<and> snd d ! 0 = 0x80
                  then Some (Some (snd d ! 1)) else None)"

definition opus_judge :: "bytes \<Rightarrow> nat \<Rightarrow> u8 option option panics" where
  "opus_judge ds pos = do {
     tag \<leftarrow> idx ds pos;
     len \<leftarrow> idx ds (pos + 1);
     body \<leftarrow> slice ds (pos + 2) (pos + 2 + unat len);
     Some (opus_said (tag, body)) }"

lemma opus_judge_safe:
  "pos + 2 \<le> length ds \<Longrightarrow> pos + 2 + unat (ds ! (pos + 1)) \<le> length ds \<Longrightarrow> no_panic (opus_judge ds pos)"
  by (simp add: opus_judge_def no_panic_simps)

lemma opus_judge_says:
  assumes "length (snd d) < 256" "drop pos ds = encode_descriptor d @ rest"
  shows "opus_judge ds pos = Some (opus_said d)"
  using encoded_idx(1,2) [OF assms] encoded_idx(4) [OF assms, of "length (snd d)"]
    encoded_header(3) [OF assms]
  by (simp add: opus_judge_def)

interpretation opus_walk: descriptor_walk opus_channel_config_code_from opus_judge opus_said None
proof unfold_locales
  fix ds pos
  show "opus_channel_config_code_from ds pos =
      (if pos + 2 \<le> length ds then
         if pos + 2 + unat (ds ! (pos + 1)) > length ds then Some None
         else do {
           k \<leftarrow> opus_judge ds pos;
           case k of Some r \<Rightarrow> Some r
           | None \<Rightarrow> opus_channel_config_code_from ds (pos + (2 + unat (ds ! (pos + 1)))) }
       else Some None)"
    by (subst opus_channel_config_code_from.simps) (auto simp: opus_judge_def opus_said_def)
qed (rule opus_judge_safe opus_judge_says, assumption, assumption)+

definition text_said :: "u8 \<times> bytes \<Rightarrow> bool option" where
  "text_said d = (if fst d \<in> {0x45, 0x46, 0x56, 0x59} then Some True else None)"

definition text_judge :: "bytes \<Rightarrow> nat \<Rightarrow> bool option panics" where
  "text_judge ds pos = do { tag \<leftarrow> idx ds pos; Some (text_said (tag, [])) }"

lemma text_judge_safe:
  "pos + 2 \<le> length ds \<Longrightarrow> pos + 2 + unat (ds ! (pos + 1)) \<le> length ds \<Longrightarrow> no_panic (text_judge ds pos)"
  by (simp add: text_judge_def no_panic_simps)

lemma text_judge_says:
  assumes "length (snd d) < 256" "drop pos ds = encode_descriptor d @ rest"
  shows "text_judge ds pos = Some (text_said d)"
  using encoded_idx(1) [OF assms] by (simp add: text_judge_def text_said_def)

interpretation text_walk: descriptor_walk text_service_from text_judge text_said False
proof unfold_locales
  fix ds pos
  show "text_service_from ds pos =
      (if pos + 2 \<le> length ds then
         if pos + 2 + unat (ds ! (pos + 1)) > length ds then Some False
         else do {
           k \<leftarrow> text_judge ds pos;
           case k of Some r \<Rightarrow> Some r
           | None \<Rightarrow> text_service_from ds (pos + (2 + unat (ds ! (pos + 1)))) }
       else Some False)"
    by (subst text_service_from.simps) (auto simp: text_judge_def text_said_def)
qed (rule text_judge_safe text_judge_says, assumption, assumption)+

text \<open>A private stream is classified by the first telling descriptor of its loop: on the encoding
  of any list of descriptors the codec classifier, the Opus channel lookup and the text-service
  test each return what the first descriptor with an answer says, whatever unknown descriptors
  surround it, and their default when none has.\<close>

lemma descriptor_loop_first_match:
  assumes "\<forall>d\<in>set ds. length (snd d) < 256"
  shows "descriptor_audio_kind (encode_descriptors ds) = Some (first_said codec_said None ds) \<and>
     opus_channel_config_code (encode_descriptors ds) = Some (first_said opus_said None ds) \<and>
     descriptors_indicate_text_service (encode_descriptors ds) = Some (first_said text_said False ds)"
  using codec_walk.walk_encoded [OF assms, of 0 "encode_descriptors ds"]
    opus_walk.walk_encoded [OF assms, of 0 "encode_descriptors ds"]
    text_walk.walk_encoded [OF assms, of 0 "encode_descriptors ds"]
  by (simp add: descriptor_audio_kind_def opus_channel_config_code_def
      descriptors_indicate_text_service_def)

end
