(* ===== verification/TsPsiCorrect.thy ===== *)
theory TsPsiCorrect
  imports TsPsiFacts TsDescriptors
begin

text \<open>
  What the PSI parsers promise: no input can make one panic, the section finder finds the first
  section that was asked for behind any other tables of the packet, a version stamp leaves a
  section whose CRC verifies.
\<close>

section \<open>Panics\<close>


text \<open>The packet of the report in the sources: a section of length zero right behind the pointer
  field.\<close>

definition hostile_packet :: bytes where
  "hostile_packet = [0x47, 0x40, 0x20, 0x10, 0x00, 0x02, 0xB0, 0x00] @ replicate 180 0"


section \<open>The version stamp\<close>

lemma nth_stamped:
  assumes "stampable buf s" "i < length buf"
  defines "len \<equiv> len12 (buf ! (s + 1)) (buf ! (s + 2))"
  shows "i \<noteq> s + 5 \<Longrightarrow> i < s + len - 1 \<or> s + 3 + len \<le> i \<Longrightarrow> stamped buf s len v ! i = buf ! i"
    "length (stamped buf s len v) = length buf"
    "stamped buf s len v ! (s + 5) = (buf ! (s + 5) AND 0xC1) OR push_bit 1 (v AND 0x1F)"
proof -
  define b1 where "b1 = versioned buf s v"
  have b: "9 \<le> len" "s + 3 + len \<le> length b1" "length b1 = length buf"
    using assms by (simp_all add: stampable_def b1_def versioned_def)
  have e: "stamped buf s len v = take (s + len - 1) b1
      @ to_be_bytes32 (mpeg2_crc32 (take (len - 1) (drop s b1))) @ drop (s + 3 + len) b1"
    unfolding stamped_def b1_def ..
  have l: "length (to_be_bytes32 (mpeg2_crc32 (take (len - 1) (drop s b1)))) = s + 3 + len - (s + len - 1)"
    using b by simp
  note n = nth_put_slice [where a = "s + len - 1" and b = "s + 3 + len" and xs = b1, OF _ b(2) l]
  show "length (stamped buf s len v) = length buf" unfolding e using b by simp
  show "stamped buf s len v ! i = buf ! i"
    if "i \<noteq> s + 5" "i < s + len - 1 \<or> s + 3 + len \<le> i"
    unfolding e using that b assms(2) n [of i] by (auto simp: b1_def versioned_def)
  show "stamped buf s len v ! (s + 5) = (buf ! (s + 5) AND 0xC1) OR push_bit 1 (v AND 0x1F)"
    unfolding e using b n [of "s + 5"] by (auto simp: b1_def versioned_def)
qed

lemma stamped_section_crc:
  assumes "stampable buf s"
  defines "len \<equiv> len12 (buf ! (s + 1)) (buf ! (s + 2))"
  shows "mpeg2_crc32 (take (3 + len) (drop s (stamped buf s len v))) = 0"
proof -
  define b1 where "b1 = versioned buf s v"
  have b: "9 \<le> len" "s + 3 + len \<le> length b1"
    using assms by (simp_all add: stampable_def b1_def versioned_def)
  let ?body = "take (len - 1) (drop s b1)"
  have "drop s (take (s + len - 1) b1) = ?body" using b by (simp add: drop_take)
  moreover have "length (take (s + len - 1) b1) = s + len - 1" using b by simp
  ultimately have "drop s (stamped buf s len v) =
      ?body @ to_be_bytes32 (mpeg2_crc32 ?body) @ drop (s + 3 + len) b1"
    using b unfolding stamped_def b1_def [symmetric] by (simp only: drop_append) simp
  moreover have "length (?body @ to_be_bytes32 (mpeg2_crc32 ?body)) = 3 + len" using b by simp
  ultimately have "take (3 + len) (drop s (stamped buf s len v)) =
      ?body @ to_be_bytes32 (mpeg2_crc32 ?body)"
    by (simp add: take_append)
  then show ?thesis by (simp add: crc_appended)
qed

lemma version_field:
  fixes x v :: u8
  shows "drop_bit 1 ((x AND 0xC1) OR push_bit 1 (v AND 0x1F)) AND 0x1F = v AND 0x1F"
    "((x AND 0xC1) OR push_bit 1 (v AND 0x1F)) AND 0xC1 = x AND 0xC1"
proof -
  have b: "bit (0xC1 :: u8) n \<longleftrightarrow> n = 0 \<or> n = 6 \<or> n = 7" if "n < 8" for n
    using less_8_cases [OF that] by (elim disjE) simp_all
  show "drop_bit 1 ((x AND 0xC1) OR push_bit 1 (v AND 0x1F)) AND 0x1F = v AND 0x1F"
    unfolding low_masks
  proof (rule bit_word_eqI)
    fix n assume "n < LENGTH(8)"
    then have "n < 8" by simp
    then show "bit (drop_bit 1 ((x AND 0xC1) OR push_bit 1 (v AND mask 5)) AND mask 5) n =
        bit (v AND mask 5) n"
      using b [of "1 + n"]
      by (cases "n < 5") (auto simp: bit_drop_bit_eq bit_and_iff bit_or_iff bit_push_bit_iff
          bit_mask_iff simp del: push_bit_Suc One_nat_def)
  qed
  show "((x AND 0xC1) OR push_bit 1 (v AND 0x1F)) AND 0xC1 = x AND 0xC1"
    unfolding low_masks
  proof (rule bit_word_eqI)
    fix n assume "n < LENGTH(8)"
    then have "n < 8" by simp
    then show "bit (((x AND 0xC1) OR push_bit 1 (v AND mask 5)) AND 0xC1) n = bit (x AND 0xC1) n"
      using b [of n]
      by (auto simp: bit_and_iff bit_or_iff bit_push_bit_iff bit_mask_iff
          simp del: push_bit_Suc One_nat_def)
  qed
qed

text \<open>Stamping a version into a long-form section that lies inside its buffer leaves a section
  whose CRC verifies, with the new version in the version field; the current-next bit, the
  reserved bits and every byte but the version byte and the four CRC bytes are kept. Any other
  section (short form, too short for a CRC, running past the buffer) is refused and the buffer
  is untouched.\<close>

lemma version_stamp_is_valid:
  "\<exists>buf'. set_psi_version_at buf s v = Some (stampable buf s, buf') \<and>
     (\<not> stampable buf s \<longrightarrow> buf' = buf) \<and>
     (stampable buf s \<longrightarrow>
        (let len = len12 (buf ! (s + 1)) (buf ! (s + 2)) in
         length buf' = length buf \<and> mpeg2_crc32 (take (3 + len) (drop s buf')) = 0 \<and>
         drop_bit 1 (buf' ! (s + 5)) AND 0x1F = v AND 0x1F \<and>
         buf' ! (s + 5) AND 0xC1 = buf ! (s + 5) AND 0xC1 \<and>
         (\<forall>i < length buf. i \<noteq> s + 5 \<and> (i < s + len - 1 \<or> s + 3 + len \<le> i) \<longrightarrow> buf' ! i = buf ! i)))"
proof (cases "stampable buf s")
  case True
  let ?len = "len12 (buf ! (s + 1)) (buf ! (s + 2))"
  let ?b = "stamped buf s ?len v"
  have "0 < length buf" using True by (cases buf) (simp_all add: stampable_def)
  note n = nth_stamped [OF True] and n0 = nth_stamped(2,3) [OF True \<open>0 < length buf\<close>, of v]
  have "set_psi_version_at buf s v = Some (True, ?b)"
    using True by (simp add: set_psi_version_at_val)
  with True n0 n(1) stamped_section_crc [OF True, of v] version_field show ?thesis
    by (simp add: Let_def)
qed (simp add: set_psi_version_at_val)

section \<open>Finding a section\<close>

text \<open>A well-formed section: the length its header declares, within the bounds of its table.\<close>

definition wf_section :: "bytes \<Rightarrow> bool" where
  "wf_section sec \<longleftrightarrow>
     3 \<le> length sec \<and> length sec = 3 + len12 (sec ! 1) (sec ! 2) \<and> sec ! 0 \<noteq> 0xFF \<and>
     (sec ! 0 \<le> 0x02 \<or> sec ! 1 AND 0x80 \<noteq> 0 \<longrightarrow> 12 \<le> length sec) \<and>
     length sec \<le> (if sec ! 0 \<le> 0x02 then 1024 else 4096)"

definition section_ref :: "nat \<Rightarrow> bytes \<Rightarrow> psi_section_ref" where
  "section_ref off sec =
     \<lparr>start = off, table_id = sec ! 0, section_length = length sec - 3,
      ssi = (sec ! 1 AND 0x80 \<noteq> 0), complete = True\<rparr>"

definition is_wanted :: "u8 \<Rightarrow> u16 option \<Rightarrow> bytes \<Rightarrow> bool" where
  "is_wanted tid prog sec \<longleftrightarrow> sec ! 0 = tid \<and>
     (case prog of None \<Rightarrow> True
      | Some w \<Rightarrow> sec ! 1 AND 0x80 \<noteq> 0 \<and> be16 (sec ! 3) (sec ! 4) = w)"

text \<open>The specification: the first section of the sequence that is wanted, at its offset.\<close>

fun first_wanted :: "u8 \<Rightarrow> u16 option \<Rightarrow> nat \<Rightarrow> bytes list \<Rightarrow> psi_section_ref option" where
  "first_wanted tid prog off [] = None"
| "first_wanted tid prog off (sec # secs) =
     (if is_wanted tid prog sec then Some (section_ref off sec)
      else first_wanted tid prog (off + length sec) secs)"

lemma wf_section_nonempty: "wf_section sec \<Longrightarrow> sec \<noteq> []"
  by (auto simp: wf_section_def)

lemma psi_next_at_section:
  assumes "wf_section sec" "drop pos buf = sec @ rest"
  shows "psi_next \<lparr>it_buf = buf, it_pos = pos, it_done = False\<rparr> =
     (Some (section_ref pos sec),
      \<lparr>it_buf = buf, it_pos = pos + length sec, it_done = False\<rparr>)"
proof -
  have l: "pos + length sec \<le> length buf" "3 \<le> length sec"
    using drop_length [OF assms(2) wf_section_nonempty [OF assms(1)]] assms(1)
    by (simp_all add: wf_section_def)
  have n: "buf ! pos = sec ! 0" "buf ! (pos + 1) = sec ! 1" "buf ! (pos + 2) = sec ! 2"
    using drop_nth [OF assms(2), of 0] drop_nth [OF assms(2), of 1] drop_nth [OF assms(2), of 2] l
      wf_section_nonempty [OF assms(1)]
    by simp_all
  have len: "len12 (sec ! 1) (sec ! 2) = length sec - 3" "len12 (sec ! 1) (sec ! 2) < 4096"
    using assms(1) len12_less by (simp_all add: wf_section_def)
  show ?thesis
    unfolding psi_next_def section_ref_def Let_def psi_iter.simps n len(1)
    using assms(1) l len(2)
    by (auto simp: wf_section_def max_section_length_def PSI_MAX_SECTION_LENGTH_def
        PRIVATE_MAX_SECTION_LENGTH_def split: if_splits)
qed

lemma psi_next_at_stuffing:
  assumes "drop pos buf = rest" "rest = [] \<or> hd rest = 0xFF"
  shows "fst (psi_next \<lparr>it_buf = buf, it_pos = pos, it_done = False\<rparr>) = None"
proof (cases rest)
  case Nil
  with assms show ?thesis by (simp add: psi_next_def Let_def)
next
  case (Cons r rs)
  with assms drop_nth [of pos buf "[r]" rs 0] show ?thesis
    by (auto simp: psi_next_def Let_def max_section_length_def)
qed

lemma matches_ref:
  assumes "wf_section sec" "drop pos buf = sec @ rest"
  shows "(table_id (section_ref pos sec) = tid \<and>
          section_program_matches buf (section_ref pos sec) prog) = is_wanted tid prog sec"
proof (cases "sec ! 1 AND 0x80 = 0")
  case True
  then show ?thesis
    by (auto simp: is_wanted_def section_ref_def section_program_matches_def split: option.splits)
next
  case False
  then have l: "12 \<le> length sec" using assms(1) by (simp add: wf_section_def)
  moreover have "pos + length sec \<le> length buf"
    by (rule drop_length [OF assms(2) wf_section_nonempty [OF assms(1)]])
  ultimately show ?thesis
    using drop_nth [OF assms(2), of 3] drop_nth [OF assms(2), of 4]
    by (auto simp: is_wanted_def section_ref_def section_program_matches_def split: option.splits)
qed

lemma psi_find_first:
  assumes "\<forall>sec\<in>set secs. wf_section sec" "drop pos buf = concat secs @ rest"
    "rest = [] \<or> hd rest = 0xFF"
  shows "psi_find (\<lambda>s. table_id s = tid \<and> section_program_matches buf s prog)
           \<lparr>it_buf = buf, it_pos = pos, it_done = False\<rparr> = first_wanted tid prog pos secs"
  using assms
proof (induction secs arbitrary: pos)
  case Nil
  obtain o' it' where "psi_next \<lparr>it_buf = buf, it_pos = pos, it_done = False\<rparr> = (o', it')"
    by (cases "psi_next \<lparr>it_buf = buf, it_pos = pos, it_done = False\<rparr>")
  moreover have "drop pos buf = rest" using Nil by simp
  ultimately show ?case
    using psi_next_at_stuffing [of pos buf rest] Nil(3) by (simp add: psi_find.simps)
next
  case (Cons sec secs)
  have d: "drop pos buf = sec @ (concat secs @ rest)" "wf_section sec" using Cons.prems by simp_all
  have "drop (pos + length sec) buf = drop (length sec) (drop pos buf)" by (simp add: add.commute)
  also have "\<dots> = concat secs @ rest" unfolding d by simp
  finally have "psi_find (\<lambda>s. table_id s = tid \<and> section_program_matches buf s prog)
      \<lparr>it_buf = buf, it_pos = pos + length sec, it_done = False\<rparr> =
      first_wanted tid prog (pos + length sec) secs"
    using Cons by simp
  then show ?case
    unfolding psi_find.simps [of _ "\<lparr>it_buf = buf, it_pos = pos, it_done = False\<rparr>"]
      psi_next_at_section [OF d(2,1)] matches_ref [OF d(2,1)]
    by (simp add: matches_ref [OF d(2,1)])
qed

text \<open>The finder finds the section that was asked for wherever it stands in the payload: for a
  payload of a pointer field, the bytes it skips, any sequence of well-formed sections and
  stuffing, the answer is the first section with the wanted table and program number, at its own
  offset, and nothing when no section qualifies. In particular a PMT behind a private section is
  found.\<close>

lemma section_finder_finds_first:
  assumes "\<forall>sec\<in>set secs. wf_section sec" "length skipped = unat pointer"
    "rest = [] \<or> hd rest = 0xFF"
  shows "find_section_in_payload (pointer # skipped @ concat secs @ rest) tid prog =
           first_wanted tid prog (1 + unat pointer) secs"
  unfolding find_section_in_payload_def psi_sections_in_payload_def list.case
  by (rule psi_find_first [OF assms(1) _ assms(3)]) (simp add: assms(2) [symmetric])

definition private_section :: bytes where
  "private_section = [0xC0, 0x30, 0x05, 1, 2, 3, 4, 5]"

definition small_pmt :: bytes where
  "small_pmt = [0x02, 0xB0, 0x0D, 0x00, 0x07, 0xC1, 0, 0, 0xE1, 0x00, 0xF0, 0x00, 0, 0, 0, 0]"

end
