(* ===== verification/TsAssembler.thy ===== *)
theory TsAssembler
  imports TsPsi
begin

text \<open>
  Reassembly of PSI sections across packets: \<open>SectionAssembler\<close> and \<open>PmtUnitCollector\<close> of
  \<open>src/src/engine/ts_parse.rs\<close>. The byte reads of the assembler stand behind the length tests
  of the source; the packet-level entry points read headers and are written with panics.
\<close>

section \<open>The section assembler\<close>

definition PSI_SECTION_CAP :: nat where
  "PSI_SECTION_CAP = 3 + PRIVATE_MAX_SECTION_LENGTH"

record section_assembler =
  sa_buf :: bytes
  sa_assembling :: bool
  sa_done :: bytes
  sa_done_ends :: "nat list"
  sa_done_spanned :: "bool list"
  sa_last_cc :: "u8 option"
  sa_last_digest :: u32
  sa_crc_gate :: bool

definition sa_new :: section_assembler where
  "sa_new = \<lparr>sa_buf = [], sa_assembling = False, sa_done = [], sa_done_ends = [],
     sa_done_spanned = [], sa_last_cc = None, sa_last_digest = 0, sa_crc_gate = False\<rparr>"

definition sa_reset :: "section_assembler \<Rightarrow> section_assembler" where
  "sa_reset a = a\<lparr>sa_buf := [], sa_assembling := False, sa_last_cc := None, sa_crc_gate := False\<rparr>"

definition in_flight :: "section_assembler \<Rightarrow> bool" where
  "in_flight a = sa_assembling a"

text \<open>\<open>CompletedSections\<close>: the slices of \<open>done\<close> between consecutive ends, in order.\<close>

fun sections_between :: "bytes \<Rightarrow> nat \<Rightarrow> nat list \<Rightarrow> bytes list" where
  "sections_between d lo [] = []"
| "sections_between d lo (e # es) = take (e - lo) (drop lo d) # sections_between d e es"

definition completed :: "section_assembler \<Rightarrow> bytes list" where
  "completed a = sections_between (sa_done a) 0 (sa_done_ends a)"

definition with_span :: "section_assembler \<Rightarrow> (bytes \<times> bool) list" where
  "with_span a = zip (completed a) (sa_done_spanned a)"

text \<open>\<open>Err(())\<close> is the outer \<open>None\<close>.\<close>

definition needed :: "section_assembler \<Rightarrow> nat option option" where
  "needed a =
     (if length (sa_buf a) < 3 then Some None
      else
        (let len = len12 (sa_buf a ! 1) (sa_buf a ! 2) in
         case max_section_length (sa_buf a ! 0) of
           Some m \<Rightarrow> if len \<le> m then Some (Some (3 + len)) else None
         | None \<Rightarrow> None))"

definition sa_clear :: "section_assembler \<Rightarrow> section_assembler" where
  "sa_clear a = a\<lparr>sa_buf := [], sa_assembling := False, sa_crc_gate := False\<rparr>"

definition push_done :: "section_assembler \<Rightarrow> bytes \<Rightarrow> bool \<Rightarrow> section_assembler" where
  "push_done a sec spanned =
     a\<lparr>sa_done := sa_done a @ sec, sa_done_ends := sa_done_ends a @ [length (sa_done a @ sec)],
       sa_done_spanned := sa_done_spanned a @ [spanned]\<rparr>"

definition try_finish :: "section_assembler \<Rightarrow> section_assembler" where
  "try_finish a =
     (case needed a of
        Some (Some tot) \<Rightarrow>
          if length (sa_buf a) \<ge> tot then
            (let long_form = (sa_buf a ! 1 AND 0x80 \<noteq> 0);
                 sec = take tot (sa_buf a);
                 a = (if \<not> (sa_crc_gate a \<and> long_form \<and> mpeg2_crc32 sec \<noteq> 0)
                      then push_done a sec True else a)
             in sa_clear a)
          else a
      | Some None \<Rightarrow> a
      | None \<Rightarrow> sa_clear a)"

definition long_form_in_flight :: "section_assembler \<Rightarrow> bool" where
  "long_form_in_flight a \<longleftrightarrow>
     sa_assembling a \<and> length (sa_buf a) \<ge> 2 \<and> sa_buf a ! 1 AND 0x80 \<noteq> 0"

function start_sections :: "section_assembler \<Rightarrow> bytes \<Rightarrow> nat \<Rightarrow> section_assembler" where
  "start_sections a payload pos =
     (if pos < length payload then
        if payload ! pos = 0xFF then a
        else
          (let a = a\<lparr>sa_buf := [], sa_crc_gate := False\<rparr>;
               remaining = length payload - pos in
           if remaining < 3 then a\<lparr>sa_buf := drop pos payload, sa_assembling := True\<rparr>
           else
             (let len = len12 (payload ! (pos + 1)) (payload ! (pos + 2)) in
              case max_section_length (payload ! pos) of None \<Rightarrow> a
              | Some m \<Rightarrow>
                  if len > m then a
                  else
                    (let tot = 3 + len in
                     if tot \<le> remaining
                     then start_sections (push_done a (take tot (drop pos payload)) False)
                            payload (pos + tot)
                     else a\<lparr>sa_buf := drop pos payload, sa_assembling := True\<rparr>)))
      else a)"
  by pat_completeness auto
termination by (relation "measure (\<lambda>(a, payload, pos). length payload - pos)") auto

declare start_sections.simps [simp del]

definition clear_done :: "section_assembler \<Rightarrow> section_assembler" where
  "clear_done a = a\<lparr>sa_done := [], sa_done_ends := [], sa_done_spanned := []\<rparr>"

definition feed_inner :: "section_assembler \<Rightarrow> bool \<Rightarrow> bytes \<Rightarrow> bool \<Rightarrow> section_assembler" where
  "feed_inner a pusi payload tail_continues =
     (let a = clear_done a in
      if pusi then
        (case payload of
           [] \<Rightarrow> a\<lparr>sa_buf := [], sa_assembling := False\<rparr>
         | pointer # _ \<Rightarrow>
             (let sec_start = 1 + unat pointer in
              if sec_start > length payload then a\<lparr>sa_buf := [], sa_assembling := False\<rparr>
              else
                (let a = (if sa_assembling a \<and> tail_continues \<and> sec_start > 1
                          then try_finish
                                 (a\<lparr>sa_buf := sa_buf a @ take (sec_start - 1) (drop 1 payload)\<rparr>)
                          else a)
                 in start_sections (sa_clear a) payload sec_start)))
      else if \<not> sa_assembling a then a
      else if length (sa_buf a) + length payload > PSI_SECTION_CAP + TS_PACKET_SIZE
      then sa_clear a
      else try_finish (a\<lparr>sa_buf := sa_buf a @ payload\<rparr>))"

definition feed :: "section_assembler \<Rightarrow> bool \<Rightarrow> bytes \<Rightarrow> section_assembler" where
  "feed a pusi payload = feed_inner a pusi payload True"

text \<open>The outcome of the continuity check: a repeat to ignore, or whether the packet continues
  the one before together with the gate it sets.\<close>

definition cc_verdict ::
    "section_assembler \<Rightarrow> u8 \<Rightarrow> u32 \<Rightarrow> bool \<Rightarrow> (bool \<times> section_assembler) option" where
  "cc_verdict a cc digest pusi =
     (case sa_last_cc a of
        Some prev \<Rightarrow>
          if prev = cc \<and> digest = sa_last_digest a \<and> \<not> pusi then None
          else if prev = cc \<and> digest \<noteq> sa_last_digest a \<and> long_form_in_flight a
          then Some (True, a\<lparr>sa_crc_gate := True\<rparr>)
          else Some ((prev + 1) AND 0x0F = cc, a)
      | None \<Rightarrow> Some (False, a))"

definition sa_push_packet :: "section_assembler \<Rightarrow> bytes \<Rightarrow> section_assembler panics" where
  "sa_push_packet a pkt =
     (let a = clear_done a in do {
        start \<leftarrow> ts_payload_start pkt;
        case start of None \<Rightarrow> Some a
        | Some off \<Rightarrow> do {
            cc \<leftarrow> ts_cc pkt;
            pusi \<leftarrow> ts_pusi pkt;
            whole \<leftarrow> slice pkt 0 (min TS_PACKET_SIZE (length pkt));
            let digest = mpeg2_crc32 whole in
            case cc_verdict a cc digest pusi of
              None \<Rightarrow> Some a
            | Some (contiguous, a) \<Rightarrow>
                (let a = a\<lparr>sa_last_cc := Some cc, sa_last_digest := digest\<rparr> in
                 if \<not> contiguous \<and> \<not> pusi then Some (sa_clear a)
                 else do {
                   payload \<leftarrow> slice pkt off TS_PACKET_SIZE;
                   Some (feed_inner a pusi payload contiguous) }) } })"

section \<open>The PMT unit collector\<close>

definition PMT_UNIT_MAX_PACKETS :: nat where "PMT_UNIT_MAX_PACKETS = 32"

record pmt_unit_collector =
  pc_asm :: section_assembler
  pc_packets :: "bytes list"
  pc_pmt_ok :: bool

definition pc_default :: pmt_unit_collector where
  "pc_default = \<lparr>pc_asm = sa_new, pc_packets = [], pc_pmt_ok = False\<rparr>"

definition mid_unit :: "pmt_unit_collector \<Rightarrow> bool" where
  "mid_unit c \<longleftrightarrow> pc_packets c \<noteq> []"

text \<open>\<open>sec.first() == Some(&0x02) && mpeg2_crc32(sec) == 0\<close>.\<close>

definition pmt_section_ok :: "bytes \<Rightarrow> bool" where
  "pmt_section_ok sec \<longleftrightarrow> (case sec of t # _ \<Rightarrow> t = 0x02 | [] \<Rightarrow> False) \<and> mpeg2_crc32 sec = 0"

text \<open>The result is the unit handed out, the sections shown to the callback and the collector
  after.\<close>

definition pc_push_packet ::
    "pmt_unit_collector \<Rightarrow> bytes \<Rightarrow> (bytes list option \<times> bytes list \<times> pmt_unit_collector) panics"
  where
  "pc_push_packet c pkt = do {
     pusi \<leftarrow> ts_pusi pkt;
     let was_in_flight = in_flight (pc_asm c) in do {
     asm \<leftarrow> sa_push_packet (pc_asm c) pkt;
     let secs = with_span asm;
         tail_done = (\<exists>(sec, spanned) \<in> set secs. spanned);
         pmt_tail = (\<exists>(sec, spanned) \<in> set secs. spanned \<and> pmt_section_ok sec);
         pmt_here = (\<exists>(sec, spanned) \<in> set secs. \<not> spanned \<and> pmt_section_ok sec);
         shown = map fst secs in do {
     cached \<leftarrow> slice pkt 0 TS_PACKET_SIZE;
     let c = c\<lparr>pc_asm := asm\<rparr> in
     if \<not> pusi \<and> pc_packets c = [] then Some (None, shown, c)
     else
       (let c = (if pusi \<and> \<not> (was_in_flight \<and> tail_done)
                 then c\<lparr>pc_packets := [cached], pc_pmt_ok := pmt_here\<rparr>
                 else if pusi
                 then c\<lparr>pc_packets := pc_packets c @ [cached],
                        pc_pmt_ok := pc_pmt_ok c \<or> pmt_tail \<or> pmt_here\<rparr>
                 else c\<lparr>pc_packets := pc_packets c @ [cached],
                        pc_pmt_ok := pc_pmt_ok c \<or> pmt_tail\<rparr>);
            aborted = (\<not> pusi \<and> was_in_flight \<and> \<not> tail_done \<and> \<not> in_flight asm) in
        if in_flight asm then
          Some (None, shown,
            (if length (pc_packets c) > PMT_UNIT_MAX_PACKETS
             then c\<lparr>pc_packets := [], pc_pmt_ok := False\<rparr> else c))
        else
          Some ((if pc_pmt_ok c \<and> \<not> aborted then Some (pc_packets c) else None), shown,
                c\<lparr>pc_packets := [], pc_pmt_ok := False\<rparr>)) } } }"

end
