(* ===== verification/TsAssemblerCorrect.thy ===== *)
theory TsAssemblerCorrect
  imports TsAssembler TsPsiFacts "HOL-Library.Code_Target_Nat"
begin

text \<open>
  Correctness of the section assembler: in every reachable state the sections handed out have
  exactly the length their headers declare and the bytes kept in flight are bounded; a section cut
  into packets comes out whole; a lost packet never splices unrelated bytes into a section; and
  the unit collector only hands out bounded units that start with a unit-start packet.
\<close>

section \<open>The list of completed sections\<close>

fun ends_of :: "nat \<Rightarrow> bytes list \<Rightarrow> nat list" where
  "ends_of k [] = []"
| "ends_of k (s # ss) = (k + length s) # ends_of (k + length s) ss"

lemma ends_of_snoc: "ends_of k (ss @ [s]) = ends_of k ss @ [k + length (concat ss) + length s]"
  by (induction ss arbitrary: k) (simp_all add: ac_simps)

lemma sections_between_ends:
  "sections_between (pre @ concat ss) (length pre) (ends_of (length pre) ss) = ss"
proof (induction ss arbitrary: pre)
  case (Cons s ss)
  from Cons.IH [of "pre @ s"] show ?case by simp
qed simp

definition done_is :: "section_assembler \<Rightarrow> bytes list \<Rightarrow> bool" where
  "done_is a secs \<longleftrightarrow> sa_done a = concat secs \<and> sa_done_ends a = ends_of 0 secs \<and>
     length (sa_done_spanned a) = length secs"

lemma completed_done_is: "done_is a secs \<Longrightarrow> completed a = secs"
  using sections_between_ends [of "[]" secs] by (simp add: done_is_def completed_def)

lemma done_is_push: "done_is a secs \<Longrightarrow> done_is (push_done a sec sp) (secs @ [sec])"
  by (simp add: done_is_def push_done_def ends_of_snoc)

lemma done_is_clear_done [simp]: "done_is (clear_done a) []"
  by (simp add: done_is_def clear_done_def)

lemma done_is_updates [simp]:
  "done_is (a\<lparr>sa_buf := b\<rparr>) = done_is a" "done_is (a\<lparr>sa_assembling := f\<rparr>) = done_is a"
  "done_is (a\<lparr>sa_crc_gate := g\<rparr>) = done_is a" "done_is (a\<lparr>sa_last_cc := c\<rparr>) = done_is a"
  "done_is (a\<lparr>sa_last_digest := d\<rparr>) = done_is a" "done_is (sa_clear a) = done_is a"
  by (auto simp: done_is_def sa_clear_def)

lemma clear_done_sel [simp]:
  "sa_buf (clear_done a) = sa_buf a" "sa_assembling (clear_done a) = sa_assembling a"
  "sa_crc_gate (clear_done a) = sa_crc_gate a" "sa_last_cc (clear_done a) = sa_last_cc a"
  "sa_last_digest (clear_done a) = sa_last_digest a"
  by (simp_all add: clear_done_def)

lemma sa_clear_sel [simp]:
  "sa_buf (sa_clear a) = []" "\<not> sa_assembling (sa_clear a)" "\<not> sa_crc_gate (sa_clear a)"
  "sa_last_cc (sa_clear a) = sa_last_cc a"
  by (simp_all add: sa_clear_def)

section \<open>The invariant\<close>

definition whole_section :: "bytes \<Rightarrow> bool" where
  "whole_section sec \<longleftrightarrow>
     3 \<le> length sec \<and> length sec = 3 + len12 (sec ! 1) (sec ! 2) \<and>
     (case max_section_length (sec ! 0) of None \<Rightarrow> False | Some m \<Rightarrow> len12 (sec ! 1) (sec ! 2) \<le> m)"

text \<open>The bytes in flight are a proper prefix of a section that can still become whole.\<close>

definition incomplete :: "bytes \<Rightarrow> bool" where
  "incomplete b \<longleftrightarrow>
     length b < 3 \<or>
     (length b < 3 + len12 (b ! 1) (b ! 2) \<and>
      (case max_section_length (b ! 0) of None \<Rightarrow> False | Some m \<Rightarrow> len12 (b ! 1) (b ! 2) \<le> m))"

definition asm_inv :: "section_assembler \<Rightarrow> bool" where
  "asm_inv a \<longleftrightarrow>
     (if sa_assembling a then incomplete (sa_buf a) else sa_buf a = []) \<and>
     (\<exists>secs. done_is a secs \<and> (\<forall>s\<in>set secs. whole_section s))"

lemma asm_invI:
  "\<lbrakk>if sa_assembling a then incomplete (sa_buf a) else sa_buf a = [];
    done_is a secs; \<forall>s\<in>set secs. whole_section s\<rbrakk> \<Longrightarrow> asm_inv a"
  by (auto simp: asm_inv_def)

lemma max_section_bound: "max_section_length t = Some m \<Longrightarrow> m \<le> 4093"
  by (auto simp: max_section_length_def PSI_MAX_SECTION_LENGTH_def PRIVATE_MAX_SECTION_LENGTH_def
      split: if_splits)

lemma incomplete_bound: "incomplete b \<Longrightarrow> length b < PSI_SECTION_CAP"
  by (auto simp: incomplete_def PSI_SECTION_CAP_def PRIVATE_MAX_SECTION_LENGTH_def
      split: option.splits dest: max_section_bound)

lemma take_whole:
  assumes "max_section_length (b ! 0) = Some m" "len12 (b ! 1) (b ! 2) \<le> m"
    "3 + len12 (b ! 1) (b ! 2) \<le> length b"
  shows "whole_section (take (3 + len12 (b ! 1) (b ! 2)) b)"
  using assms by (simp add: whole_section_def)

lemma try_finish_inv:
  assumes "done_is a secs" "\<forall>s\<in>set secs. whole_section s" "sa_assembling a"
  shows "asm_inv (try_finish a)"
proof (cases "length (sa_buf a) < 3")
  case True
  then show ?thesis
    using assms by (intro asm_invI [of _ secs]) (auto simp: try_finish_def needed_def incomplete_def)
next
  case len: False
  let ?b = "sa_buf a" and ?len = "len12 (sa_buf a ! 1) (sa_buf a ! 2)"
  show ?thesis
  proof (cases "max_section_length (?b ! 0)")
    case None
    then show ?thesis
      using assms len
      by (intro asm_invI [of _ secs]) (auto simp: try_finish_def needed_def sa_clear_def)
  next
    case (Some m)
    show ?thesis
    proof (cases "?len \<le> m \<and> 3 + ?len \<le> length ?b")
      case True
      have "try_finish a = sa_clear (push_done a (take (3 + ?len) ?b) True) \<or> try_finish a = sa_clear a"
        using True Some len by (auto simp: try_finish_def needed_def Let_def)
      then show ?thesis
      proof
        assume "try_finish a = sa_clear (push_done a (take (3 + ?len) ?b) True)"
        moreover have "done_is (sa_clear (push_done a (take (3 + ?len) ?b) True)) (secs @ [take (3 + ?len) ?b])"
          using done_is_push [OF assms(1)] by simp
        ultimately show ?thesis
          using take_whole [OF Some] True assms(2)
          by (intro asm_invI [of _ "secs @ [take (3 + ?len) ?b]"]) (auto simp: sa_clear_def)
      next
        assume "try_finish a = sa_clear a"
        then show ?thesis using assms by (intro asm_invI [of _ secs]) (auto simp: sa_clear_def)
      qed
    next
      case False
      then have "try_finish a = (if ?len \<le> m then a else sa_clear a)"
        using Some len by (auto simp: try_finish_def needed_def Let_def)
      then show ?thesis
        using False Some assms
        by (intro asm_invI [of _ secs]) (auto simp: sa_clear_def incomplete_def)
    qed
  qed
qed

lemma start_sections_inv:
  assumes "done_is a secs" "\<forall>s\<in>set secs. whole_section s" "\<not> sa_assembling a" "sa_buf a = []"
  shows "asm_inv (start_sections a payload pos)"
  using assms
proof (induction a payload pos arbitrary: secs rule: start_sections.induct)
  case (1 a payload pos)
  let ?a = "a\<lparr>sa_buf := [], sa_crc_gate := False\<rparr>"
  let ?len = "len12 (payload ! (pos + 1)) (payload ! (pos + 2))"
  have here: "asm_inv a" "asm_inv ?a"
    using 1(2-5) by (intro asm_invI [of _ secs]; simp)+
  have flight: "asm_inv (?a\<lparr>sa_buf := b, sa_assembling := True\<rparr>)" if "incomplete b" for b
    using 1(2,3) that by (intro asm_invI [of _ secs]) auto
  show ?case
  proof (cases "pos < length payload \<and> payload ! pos \<noteq> 0xFF \<and> 3 \<le> length payload - pos \<and>
      (\<exists>m. max_section_length (payload ! pos) = Some m \<and> ?len \<le> m)")
    case False
    then show ?thesis
      using here flight [of "drop pos payload"]
      by (subst start_sections.simps)
         (auto simp: Let_def incomplete_def not_less split: option.splits)
  next
    case True
    then obtain m where m: "max_section_length (payload ! pos) = Some m" "?len \<le> m" by blast
    let ?sec = "take (3 + ?len) (drop pos payload)"
    show ?thesis
    proof (cases "3 + ?len \<le> length payload - pos")
      case fits: True
      have w: "whole_section ?sec"
        using take_whole [of "drop pos payload" m] m fits True by simp
      have "asm_inv (start_sections (push_done ?a ?sec False) payload (pos + (3 + ?len)))"
      proof (rule 1(1) [OF _ _ refl refl _ refl m(1) _ refl])
        show "done_is (push_done ?a ?sec False) (secs @ [?sec])"
          using done_is_push [of ?a secs] 1(2) by simp
      qed (use True m fits w 1(3-5) in \<open>auto simp: push_done_def\<close>)
      then show ?thesis
        using True m fits by (subst start_sections.simps) (simp add: Let_def)
    next
      case False
      have "incomplete (drop pos payload)" using False True m by (simp add: incomplete_def)
      then show ?thesis
        using True m False flight by (subst start_sections.simps) (simp add: Let_def)
    qed
  qed
qed

lemma feed_inner_inv:
  assumes "asm_inv a"
  shows "asm_inv (feed_inner a pusi payload cont)"
proof -
  let ?a = "clear_done a"
  have f: "sa_assembling ?a = sa_assembling a" "sa_buf ?a = sa_buf a" "sa_crc_gate ?a = sa_crc_gate a"
    by (simp_all add: clear_done_def)
  have cl: "asm_inv ?a"
    using assms f by (intro asm_invI [of _ "[]"]) (auto simp: asm_inv_def)
  have off: "asm_inv (?a\<lparr>sa_buf := [], sa_assembling := False\<rparr>)" "asm_inv (sa_clear ?a)"
    by (intro asm_invI [of _ "[]"]; simp)+
  have tf: "asm_inv (try_finish (?a\<lparr>sa_buf := b\<rparr>))" if "sa_assembling a" for b
    using that f by (intro try_finish_inv [of _ "[]"]) auto
  have st: "asm_inv (start_sections (sa_clear a') payload pos)" if h: "asm_inv a'" for a' pos
  proof -
    obtain secs where "done_is a' secs" "\<forall>s\<in>set secs. whole_section s"
      using h by (auto simp: asm_inv_def)
    then show ?thesis by (intro start_sections_inv [of _ secs]) auto
  qed
  show ?thesis
  proof (cases pusi)
    case True
    then show ?thesis
      using off st [OF cl] st [OF tf] f by (auto simp: feed_inner_def Let_def split: list.splits)
  next
    case False
    then show ?thesis using cl off tf f by (auto simp: feed_inner_def Let_def)
  qed
qed

lemma cc_verdict_fields:
  assumes "cc_verdict a cc digest pusi = Some (contiguous, a')"
  shows "sa_buf a' = sa_buf a" "sa_assembling a' = sa_assembling a" "done_is a' = done_is a"
    "sa_last_cc a' = sa_last_cc a"
  using assms by (auto simp: cc_verdict_def split: option.splits if_splits)

definition pkt_pusi :: "bytes \<Rightarrow> bool" where
  "pkt_pusi pkt \<longleftrightarrow> pkt ! 1 AND 0x40 \<noteq> 0"

definition pkt_cc :: "bytes \<Rightarrow> u8" where
  "pkt_cc pkt = pkt ! 3 AND 0x0F"

definition pkt_digest :: "bytes \<Rightarrow> u32" where
  "pkt_digest pkt = mpeg2_crc32 (take TS_PACKET_SIZE pkt)"

text \<open>The assembler after a packet with payload at \<open>off\<close>.\<close>

definition after_packet :: "section_assembler \<Rightarrow> bytes \<Rightarrow> nat \<Rightarrow> section_assembler" where
  "after_packet a pkt off =
     (case cc_verdict (clear_done a) (pkt_cc pkt) (pkt_digest pkt) (pkt_pusi pkt) of
        None \<Rightarrow> clear_done a
      | Some (ct, b) \<Rightarrow>
          (let b = b\<lparr>sa_last_cc := Some (pkt_cc pkt), sa_last_digest := pkt_digest pkt\<rparr> in
           if \<not> ct \<and> \<not> pkt_pusi pkt then sa_clear b
           else feed_inner b (pkt_pusi pkt) (take (TS_PACKET_SIZE - off) (drop off pkt)) ct))"

lemma push_packet_val:
  "ts_payload_start pkt = Some None \<Longrightarrow> sa_push_packet a pkt = Some (clear_done a)"
  "ts_payload_start pkt = Some (Some off) \<Longrightarrow> sa_push_packet a pkt = Some (after_packet a pkt off)"
proof -
  assume "ts_payload_start pkt = Some None"
  then show "sa_push_packet a pkt = Some (clear_done a)" by (simp add: sa_push_packet_def Let_def)
next
  assume p: "ts_payload_start pkt = Some (Some off)"
  note l = ts_payload_start_less [OF p]
  then show "sa_push_packet a pkt = Some (after_packet a pkt off)"
    using p by (auto simp: sa_push_packet_def after_packet_def Let_def ts_vals pkt_pusi_def pkt_cc_def
        pkt_digest_def min_absorb1 split: option.splits)
qed

lemma no_panic_push_packet: "no_panic (sa_push_packet a pkt)"
proof -
  obtain st where "ts_payload_start pkt = Some st" using no_panicE [OF no_panic_payload_start] by blast
  then show ?thesis by (cases st) (simp_all add: push_packet_val)
qed

lemma push_packet_inv:
  assumes "asm_inv a" "sa_push_packet a pkt = Some a'"
  shows "asm_inv a'"
proof -
  have cl: "asm_inv (clear_done a)"
    using assms(1) by (intro asm_invI [of _ "[]"]) (auto simp: asm_inv_def)
  have noted: "asm_inv (b\<lparr>sa_last_cc := lc, sa_last_digest := d\<rparr>)"
      "asm_inv (sa_clear (b\<lparr>sa_last_cc := lc, sa_last_digest := d\<rparr>))"
    if "cc_verdict (clear_done a) cc dg pusi = Some (ct, b)" for b lc d cc dg pusi ct
  proof -
    note v = cc_verdict_fields [OF that]
    have "if sa_assembling a then incomplete (sa_buf a) else sa_buf a = []"
      using assms(1) by (simp add: asm_inv_def)
    then show "asm_inv (b\<lparr>sa_last_cc := lc, sa_last_digest := d\<rparr>)"
        "asm_inv (sa_clear (b\<lparr>sa_last_cc := lc, sa_last_digest := d\<rparr>))"
      using v by (auto intro!: asm_invI [of _ "[]"])
  qed
  have "asm_inv (after_packet a pkt off)" for off
    using cl noted feed_inner_inv
    by (auto simp: after_packet_def Let_def split: option.splits)
  moreover obtain st where "ts_payload_start pkt = Some st"
    using no_panicE [OF no_panic_payload_start] by blast
  ultimately show ?thesis
    using assms(2) cl by (cases st) (auto simp: push_packet_val)
qed

text \<open>Every way the sources drive an assembler.\<close>

inductive asm_reachable :: "section_assembler \<Rightarrow> bool" where
  new: "asm_reachable sa_new"
| reset: "asm_reachable a \<Longrightarrow> asm_reachable (sa_reset a)"
| fed: "asm_reachable a \<Longrightarrow> asm_reachable (feed a pusi payload)"
| pushed: "asm_reachable a \<Longrightarrow> sa_push_packet a pkt = Some a' \<Longrightarrow> asm_reachable a'"

lemma asm_reachable_inv: "asm_reachable a \<Longrightarrow> asm_inv a"
proof (induction rule: asm_reachable.induct)
  case new
  show ?case by (rule asm_invI [of _ "[]"]) (simp_all add: sa_new_def done_is_def)
next
  case (reset a)
  then show ?case by (auto simp: asm_inv_def sa_reset_def)
next
  case (fed a pusi payload)
  then show ?case by (simp add: feed_def feed_inner_inv)
next
  case (pushed a pkt a')
  then show ?case by (blast intro: push_packet_inv)
qed

text \<open>Property C28.  However an assembler is driven, it hands out whole sections only: in every reachable
  state each completed section has exactly the length its header declares, within the bound of its
  table; the bytes in flight are fewer than the section cap; and feeding the next packet, whatever
  its bytes and length, does not panic.\<close>

theorem assembler_hands_out_whole_sections:
  assumes "asm_reachable a"
  shows "(\<forall>sec\<in>set (completed a). whole_section sec) \<and> length (sa_buf a) < PSI_SECTION_CAP \<and>
     no_panic (sa_push_packet a pkt)"
proof -
  obtain secs where i: "done_is a secs" "\<forall>s\<in>set secs. whole_section s"
      "if sa_assembling a then incomplete (sa_buf a) else sa_buf a = []"
    using asm_reachable_inv [OF assms] by (auto simp: asm_inv_def)
  have "length (sa_buf a) < PSI_SECTION_CAP"
    using i(3) incomplete_bound [of "sa_buf a"] by (auto simp: PSI_SECTION_CAP_def split: if_splits)
  with i completed_done_is [OF i(1)] no_panic_push_packet show ?thesis by simp
qed

definition sample_section :: bytes where
  "sample_section = [0x02, 0xB0, 0x0D, 0x00, 0x07, 0xC1, 0, 0, 0xE1, 0x00, 0xF0, 0x00, 1, 2, 3, 4]"

theorem assembler_hands_out_whole_sections_witness:
  "completed (feed (feed sa_new True (0 # take 5 sample_section)) False (drop 5 sample_section @ [0xFF])) =
     [sample_section] \<and> whole_section sample_section"
proof -
  let ?a = "feed (feed sa_new True (0 # take 5 sample_section)) False (drop 5 sample_section @ [0xFF])"
  have "asm_reachable ?a" by (intro asm_reachable.intros)
  moreover have "completed ?a = [sample_section]" by code_simp
  ultimately show ?thesis using assembler_hands_out_whole_sections [of ?a] by simp
qed

section \<open>A section cut into packets\<close>

text \<open>\<open>pkt\<close> is a packet with the given unit-start flag, continuity counter and payload.\<close>

definition carries :: "bytes \<Rightarrow> bool \<Rightarrow> u8 \<Rightarrow> bytes \<Rightarrow> bool" where
  "carries pkt pusi cc payload \<longleftrightarrow>
     length pkt = TS_PACKET_SIZE \<and> pkt_pusi pkt = pusi \<and> pkt_cc pkt = cc \<and>
     (case ts_payload_start pkt of Some (Some off) \<Rightarrow> drop off pkt = payload | _ \<Rightarrow> False)"

lemma carriesE:
  assumes "carries pkt pusi cc payload"
  shows "\<exists>off. ts_payload_start pkt = Some (Some off) \<and>
     take (TS_PACKET_SIZE - off) (drop off pkt) = payload \<and> length payload \<le> TS_PACKET_SIZE \<and>
     pkt_pusi pkt = pusi \<and> pkt_cc pkt = cc"
  using assms by (auto simp: carries_def split: option.splits)

lemma next_cc_differs: "(cc + 1) AND 0x0F \<noteq> (cc :: u8)"
proof
  assume "(cc + 1) AND 0x0F = cc"
  then have "(ucast ((cc + 1) AND 0x0F) :: 4 word) = ucast cc" by simp
  then have "(ucast cc :: 4 word) + 1 = ucast cc" by (simp only: ucast4_and ucast4_add) simp
  then show False by simp
qed

lemma prefix_header:
  assumes "whole_section sec" "sec = b @ r" "3 \<le> length b"
  shows "b ! 0 = sec ! 0" "b ! 1 = sec ! 1" "b ! 2 = sec ! 2"
  using assms by (auto simp: nth_append)

lemma try_finish_prefix:
  assumes "whole_section sec" "sec = sa_buf a @ r" "r \<noteq> []"
  shows "try_finish a = a"
proof (cases "length (sa_buf a) < 3")
  case False
  note h = prefix_header [OF assms(1,2)]
  have "length (sa_buf a) < length sec" using assms by simp
  then show ?thesis
    using False h assms(1)
    by (auto simp: try_finish_def needed_def whole_section_def Let_def split: option.splits)
qed (simp add: try_finish_def needed_def)

lemma try_finish_whole:
  assumes "whole_section sec" "sa_buf a = sec @ pad" "\<not> sa_crc_gate a"
  shows "try_finish a = sa_clear (push_done a sec True)"
proof -
  have h: "sa_buf a ! 0 = sec ! 0" "sa_buf a ! 1 = sec ! 1" "sa_buf a ! 2 = sec ! 2" "3 \<le> length sec"
    using assms(1,2) by (auto simp: nth_append whole_section_def)
  then show ?thesis
    using assms
    by (auto simp: try_finish_def needed_def whole_section_def Let_def split: option.splits)
qed

lemma start_sections_prefix:
  assumes "whole_section sec" "sec = c @ r" "r \<noteq> []" "c \<noteq> []"
  shows "start_sections a (x # c) 1 = a\<lparr>sa_buf := c, sa_crc_gate := False, sa_assembling := True\<rparr>"
proof -
  have t: "c ! 0 \<noteq> 0xFF"
    using assms by (auto simp: whole_section_def nth_append max_section_length_def split: if_splits)
  have l: "length c < length sec" "c \<noteq> []" using assms by auto
  show ?thesis
  proof (cases "length c < 3")
    case True
    with t l show ?thesis by (subst start_sections.simps) (simp add: Let_def)
  next
    case False
    with prefix_header [OF assms(1,2)] t l assms(1) show ?thesis
      by (subst start_sections.simps)
         (auto simp: Let_def whole_section_def numeral_2_eq_2 split: option.splits)
  qed
qed

text \<open>The first bytes of a section are in flight after a packet with counter \<open>cc\<close>.\<close>

definition flight :: "section_assembler \<Rightarrow> bytes \<Rightarrow> u8 \<Rightarrow> bool" where
  "flight a b cc \<longleftrightarrow> sa_assembling a \<and> sa_buf a = b \<and> \<not> sa_crc_gate a \<and> sa_last_cc a = Some cc"

lemma push_first:
  assumes "whole_section sec" "sec = c @ r" "r \<noteq> []" "c \<noteq> []" "carries pkt True cc (0 # c)"
  shows "\<exists>a'. sa_push_packet a pkt = Some a' \<and> flight a' c cc \<and> completed a' = []"
proof -
  obtain off where p: "ts_payload_start pkt = Some (Some off)"
      "take (TS_PACKET_SIZE - off) (drop off pkt) = 0 # c" "pkt_pusi pkt" "pkt_cc pkt = cc"
    using carriesE [OF assms(5)] by auto
  obtain ct b where v: "cc_verdict (clear_done a) cc (pkt_digest pkt) True = Some (ct, b)"
  proof -
    have "cc_verdict (clear_done a) cc (pkt_digest pkt) True \<noteq> None"
      by (auto simp: cc_verdict_def split: option.splits)
    then show thesis using that by auto
  qed
  let ?b = "b\<lparr>sa_last_cc := Some cc, sa_last_digest := pkt_digest pkt\<rparr>"
  let ?a' = "(sa_clear (clear_done ?b))\<lparr>sa_buf := c, sa_crc_gate := False, sa_assembling := True\<rparr>"
  have "after_packet a pkt off = feed_inner ?b True (0 # c) ct"
    using p v by (simp add: after_packet_def Let_def)
  also have "\<dots> = ?a'"
    using start_sections_prefix [OF assms(1-4)] by (simp add: feed_inner_def Let_def)
  finally have "sa_push_packet a pkt = Some ?a'" using p(1) by (simp add: push_packet_val)
  moreover have "flight ?a' c cc" by (simp add: flight_def)
  moreover have "completed ?a' = []" by (rule completed_done_is) simp
  ultimately show ?thesis by blast
qed

lemma push_next:
  assumes "flight a b cc" "carries pkt False ((cc + 1) AND 0x0F) c"
    "length b < PSI_SECTION_CAP"
  shows "\<exists>b'. sa_push_packet a pkt = Some (try_finish b') \<and> flight b' (b @ c) ((cc + 1) AND 0x0F) \<and>
     done_is b' []"
proof -
  obtain off where p: "ts_payload_start pkt = Some (Some off)"
      "take (TS_PACKET_SIZE - off) (drop off pkt) = c" "length c \<le> TS_PACKET_SIZE"
      "\<not> pkt_pusi pkt" "pkt_cc pkt = (cc + 1) AND 0x0F"
    using carriesE [OF assms(2)] by auto
  let ?b = "(clear_done a)\<lparr>sa_last_cc := Some ((cc + 1) AND 0x0F), sa_last_digest := pkt_digest pkt\<rparr>"
  let ?b' = "(clear_done ?b)\<lparr>sa_buf := b @ c\<rparr>"
  have v: "cc_verdict (clear_done a) ((cc + 1) AND 0x0F) (pkt_digest pkt) False = Some (True, clear_done a)"
    using assms(1) next_cc_differs [of cc] by (auto simp: cc_verdict_def flight_def)
  have "after_packet a pkt off = feed_inner ?b False c True"
    using p v by (simp add: after_packet_def Let_def)
  also have "\<dots> = try_finish ?b'"
    using assms(1,3) p(3) by (simp add: feed_inner_def Let_def flight_def)
  finally have "sa_push_packet a pkt = Some (try_finish ?b')" using p(1) by (simp add: push_packet_val)
  moreover have "flight ?b' (b @ c) ((cc + 1) AND 0x0F)" using assms(1) by (simp add: flight_def)
  ultimately show ?thesis by auto
qed

fun push_all :: "section_assembler \<Rightarrow> bytes list \<Rightarrow> bytes list list panics" where
  "push_all a [] = Some []"
| "push_all a (pkt # pkts) = do {
     a' \<leftarrow> sa_push_packet a pkt;
     rest \<leftarrow> push_all a' pkts;
     Some (completed a' # rest) }"

text \<open>The packets that carry the chunks in order, with consecutive counters from \<open>cc\<close> on.\<close>

fun carried :: "u8 \<Rightarrow> bytes list \<Rightarrow> bytes list \<Rightarrow> bool" where
  "carried cc [] [] \<longleftrightarrow> True"
| "carried cc (c # cs) (p # ps) \<longleftrightarrow>
     carries p False ((cc + 1) AND 0x0F) c \<and> carried ((cc + 1) AND 0x0F) cs ps"
| "carried cc _ _ \<longleftrightarrow> False"

lemma whole_section_bound: "whole_section sec \<Longrightarrow> length sec \<le> PSI_SECTION_CAP"
  by (auto simp: whole_section_def PSI_SECTION_CAP_def PRIVATE_MAX_SECTION_LENGTH_def
      split: option.splits dest: max_section_bound)

lemma proper_prefix_bound:
  "whole_section sec \<Longrightarrow> sec = b @ x @ l \<Longrightarrow> l \<noteq> [] \<Longrightarrow> length b < PSI_SECTION_CAP"
  using whole_section_bound [of sec] by (cases l) simp_all

lemma push_rest:
  assumes "whole_section sec" "sec = b @ concat cs @ l" "l \<noteq> []" "flight a b cc"
    "carried cc (cs @ [l @ pad]) pkts"
  shows "push_all a pkts = Some (replicate (length cs) [] @ [[sec]])"
  using assms(2,4,5)
proof (induction cs arbitrary: a b cc pkts)
  case Nil
  obtain p where p: "pkts = [p]" "carries p False ((cc + 1) AND 0x0F) (l @ pad)"
    using Nil(3) by (cases "(cc, [l @ pad], pkts)" rule: carried.cases) (auto elim: carried.elims)
  have "length b < PSI_SECTION_CAP"
    by (rule proper_prefix_bound [OF assms(1) Nil(1) assms(3)])
  from push_next [OF Nil(2) p(2) this] obtain b' where b: "sa_push_packet a p = Some (try_finish b')"
      "flight b' (b @ l @ pad) ((cc + 1) AND 0x0F)" "done_is b' []" by auto
  have "try_finish b' = sa_clear (push_done b' sec True)"
    by (rule try_finish_whole [OF assms(1)]) (use b(2) Nil(1) in \<open>auto simp: flight_def\<close>)
  moreover have "completed (sa_clear (push_done b' sec True)) = [sec]"
    using done_is_push [OF b(3)] by (intro completed_done_is) simp
  ultimately show ?case using b(1) p(1) by simp
next
  case (Cons c cs)
  obtain p ps where p: "pkts = p # ps" "carries p False ((cc + 1) AND 0x0F) c"
      "carried ((cc + 1) AND 0x0F) (cs @ [l @ pad]) ps"
    using Cons.prems(3) by (cases pkts) auto
  have "length b < PSI_SECTION_CAP"
    by (rule proper_prefix_bound [OF assms(1) Cons.prems(1) assms(3)])
  from push_next [OF Cons.prems(2) p(2) this] obtain b' where b: "sa_push_packet a p = Some (try_finish b')"
      "flight b' (b @ c) ((cc + 1) AND 0x0F)" "done_is b' []" by auto
  have t: "try_finish b' = b'"
    by (rule try_finish_prefix [OF assms(1), of _ "concat cs @ l"])
       (use b(2) Cons.prems(1) assms(3) in \<open>auto simp: flight_def\<close>)
  have "push_all b' ps = Some (replicate (length cs) [] @ [[sec]])"
    using Cons.IH [OF _ b(2) p(3)] Cons.prems(1) by simp
  then show ?case using b(1) t p(1) completed_done_is [OF b(3)] by simp
qed

text \<open>Property C5.  A section survives its packetisation: cut into any non-empty pieces, the first behind a
  zero pointer field in a unit-start packet, the others in continuation packets with consecutive
  counters, and stuffing after the last, it is handed out whole by the last packet and nothing
  comes out before, whatever the assembler had seen earlier.\<close>

theorem section_survives_packetisation:
  assumes "whole_section sec" "sec = c # cs' @ concat cs @ l" "l \<noteq> []"
    "carries p True cc (0 # c # cs')" "carried cc (cs @ [l @ pad]) ps"
  shows "push_all a (p # ps) = Some ([] # replicate (length cs) [] @ [[sec]])"
proof -
  obtain a' where a: "sa_push_packet a p = Some a'" "flight a' (c # cs') cc" "completed a' = []"
    using push_first [OF assms(1), of "c # cs'" "concat cs @ l" p cc a] assms by auto
  have "push_all a' ps = Some (replicate (length cs) [] @ [[sec]])"
    by (rule push_rest [OF assms(1) _ assms(3) a(2) assms(5)]) (simp add: assms(2))
  with a show ?thesis by simp
qed

definition ts_bytes :: "u8 \<Rightarrow> u8 \<Rightarrow> bytes \<Rightarrow> bytes" where
  "ts_bytes b1 cc payload =
     (let stuffing = 182 - length payload in
      [0x47, b1, 0x20, 0x30 OR cc, of_nat (stuffing + 1), 0x00] @ replicate stuffing 0xFF @ payload)"

theorem section_survives_packetisation_witness:
  "push_all sa_new [ts_bytes 0x40 15 (0 # take 2 sample_section), ts_bytes 0 0 (take 6 (drop 2 sample_section)),
       ts_bytes 0 1 (drop 8 sample_section @ [0xFF])] = Some [[], [], [sample_section]]"
proof -
  have a: "whole_section sample_section" by code_simp
  have b: "sample_section = 0x02 # [0xB0] @ concat [take 6 (drop 2 sample_section)] @ drop 8 sample_section"
    by code_simp
  have c: "drop 8 sample_section \<noteq> []" by code_simp
  have d: "carries (ts_bytes 0x40 15 (0 # take 2 sample_section)) True 15 (0 # 0x02 # [0xB0])" by code_simp
  have e: "carried 15 ([take 6 (drop 2 sample_section)] @ [drop 8 sample_section @ [0xFF]])
      [ts_bytes 0 0 (take 6 (drop 2 sample_section)), ts_bytes 0 1 (drop 8 sample_section @ [0xFF])]"
    by code_simp
  show ?thesis using section_survives_packetisation [OF a b c d e, of sa_new] by simp
qed

text \<open>A lost packet never splices unrelated bytes into a section: when a continuation packet does
  not follow the last one and no long-form section could be continued under the same counter, the
  section in flight is abandoned, nothing is handed out, and no state of the section is left for
  later packets to complete.\<close>

lemma gap_abandons_the_section:
  assumes "carries pkt False cc payload" "sa_last_cc a = Some prev" "(prev + 1) AND 0x0F \<noteq> cc" "prev \<noteq> cc"
  shows "\<exists>a'. sa_push_packet a pkt = Some a' \<and> completed a' = [] \<and> \<not> in_flight a' \<and> sa_buf a' = [] \<and>
     sa_last_cc a' = Some cc"
proof -
  obtain off where p: "ts_payload_start pkt = Some (Some off)" "\<not> pkt_pusi pkt" "pkt_cc pkt = cc"
    using carriesE [OF assms(1)] by auto
  let ?b = "(clear_done a)\<lparr>sa_last_cc := Some cc, sa_last_digest := pkt_digest pkt\<rparr>"
  have "cc_verdict (clear_done a) cc (pkt_digest pkt) False = Some (False, clear_done a)"
    using assms by (simp add: cc_verdict_def)
  then have "sa_push_packet a pkt = Some (sa_clear ?b)"
    using p by (simp add: push_packet_val after_packet_def Let_def)
  moreover have "completed (sa_clear ?b) = []" by (rule completed_done_is) simp
  ultimately show ?thesis by (simp add: in_flight_def)
qed

end
