(* ===== verification/TsCollector.thy ===== *)
theory TsCollector
  imports TsAssemblerCorrect
begin

text \<open>
  The PMT unit collector: what it hands out to the caches that re-emit tables is a run of
  consecutive packets of the PID in which a PMT with a valid CRC completed.
\<close>

text \<open>A history is the list of packets fed so far, each with the sections it completed.\<close>

inductive collector_history :: "(bytes \<times> bytes list) list \<Rightarrow> pmt_unit_collector \<Rightarrow> bool" where
  start: "collector_history [] pc_default"
| fed: "collector_history h c \<Longrightarrow> length pkt = TS_PACKET_SIZE \<Longrightarrow>
    pc_push_packet c pkt = Some (u, shown, c') \<Longrightarrow> collector_history (h @ [(pkt, shown)]) c'"

definition has_pmt :: "(bytes \<times> bytes list) list \<Rightarrow> bool" where
  "has_pmt h \<longleftrightarrow> (\<exists>(p, shown) \<in> set h. \<exists>sec\<in>set shown. whole_section sec \<and> pmt_section_ok sec)"

text \<open>The unit being collected is a suffix of the history that starts with a unit-start packet.\<close>

definition collecting :: "(bytes \<times> bytes list) list \<Rightarrow> bytes list \<Rightarrow> bool \<Rightarrow> bool" where
  "collecting h packets ok \<longleftrightarrow>
     (\<exists>h1 h2. h = h1 @ h2 \<and> packets = map fst h2 \<and> (h2 \<noteq> [] \<longrightarrow> pkt_pusi (fst (hd h2))) \<and>
        (ok \<longrightarrow> has_pmt h2))"

lemma collecting_none: "collecting h [] False"
  unfolding collecting_def by (rule exI [of _ h]) auto

lemma collecting_first:
  "pkt_pusi pkt \<Longrightarrow> (ok \<longrightarrow> has_pmt [(pkt, shown)]) \<Longrightarrow> collecting (h @ [(pkt, shown)]) [pkt] ok"
  unfolding collecting_def by (rule exI [of _ h], rule exI [of _ "[(pkt, shown)]"]) simp

lemma collecting_more:
  assumes "collecting h packets ok" "packets \<noteq> []" "ok' \<longrightarrow> ok \<or> has_pmt [(pkt, shown)]"
  shows "collecting (h @ [(pkt, shown)]) (packets @ [pkt]) ok'"
proof -
  obtain h1 h2 where h: "h = h1 @ h2" "packets = map fst h2" "h2 \<noteq> []" "pkt_pusi (fst (hd h2))"
      "ok \<longrightarrow> has_pmt h2"
    using assms by (auto simp: collecting_def)
  have "ok' \<longrightarrow> has_pmt (h2 @ [(pkt, shown)])" using assms(3) h(5) by (auto simp: has_pmt_def)
  with h show ?thesis
    unfolding collecting_def
    by (intro exI [of _ h1] exI [of _ "h2 @ [(pkt, shown)]"]) auto
qed

definition collector_inv :: "(bytes \<times> bytes list) list \<Rightarrow> pmt_unit_collector \<Rightarrow> bool" where
  "collector_inv h c \<longleftrightarrow> asm_inv (pc_asm c) \<and> length (pc_packets c) \<le> PMT_UNIT_MAX_PACKETS \<and>
     collecting h (pc_packets c) (pc_pmt_ok c) \<and> (pc_packets c \<noteq> [] \<longrightarrow> in_flight (pc_asm c))"

text \<open>What a step may hand out.\<close>

definition good_unit :: "(bytes \<times> bytes list) list \<Rightarrow> bytes list \<Rightarrow> bool" where
  "good_unit h packets \<longleftrightarrow>
     collecting h packets True \<and> packets \<noteq> [] \<and> length packets \<le> PMT_UNIT_MAX_PACKETS + 1"

lemma shown_pmt:
  assumes "asm_inv asm" "(sec, sp) \<in> set (with_span asm)" "pmt_section_ok sec"
  shows "has_pmt [(pkt, map fst (with_span asm))]"
proof -
  obtain secs where s: "done_is asm secs" "\<forall>x\<in>set secs. whole_section x"
    using assms(1) by (auto simp: asm_inv_def)
  have "sec \<in> set secs"
    using assms(2) completed_done_is [OF s(1)] by (auto simp: with_span_def dest: set_zip_leftD)
  with s assms(2,3) show ?thesis by (force simp: has_pmt_def)
qed

lemma collector_step:
  assumes "collector_inv h c" "length pkt = TS_PACKET_SIZE"
  shows "\<exists>u shown c'. pc_push_packet c pkt = Some (u, shown, c') \<and>
     collector_inv (h @ [(pkt, shown)]) c' \<and>
     (\<forall>unit. u = Some unit \<longrightarrow> good_unit (h @ [(pkt, shown)]) unit)"
proof -
  obtain asm where a: "sa_push_packet (pc_asm c) pkt = Some asm"
    using no_panicE [OF no_panic_push_packet] by blast
  have inv: "asm_inv asm" using assms(1) a push_packet_inv by (auto simp: collector_inv_def)
  define shown where "shown = map fst (with_span asm)"
  define h' where "h' = h @ [(pkt, shown)]"
  define pusi where "pusi = pkt_pusi pkt"
  define was where "was = in_flight (pc_asm c)"
  define td where "td = (\<exists>(sec, spanned) \<in> set (with_span asm). spanned)"
  define pt where "pt = (\<exists>(sec, spanned) \<in> set (with_span asm). spanned \<and> pmt_section_ok sec)"
  define ph where "ph = (\<exists>(sec, spanned) \<in> set (with_span asm). \<not> spanned \<and> pmt_section_ok sec)"
  have pm: "pt \<or> ph \<longrightarrow> has_pmt [(pkt, shown)]"
    using shown_pmt [OF inv] by (auto simp: pt_def ph_def shown_def)
  have cold: "collecting h (pc_packets c) (pc_pmt_ok c)"
    using assms(1) by (simp add: collector_inv_def)
  have empty_ok: "\<not> pc_pmt_ok c" if "pc_packets c = []"
    using cold that by (auto simp: collecting_def has_pmt_def)
  have base: "ts_pusi pkt = Some pusi" "slice pkt 0 TS_PACKET_SIZE = Some pkt"
    using assms(2) by (simp_all add: ts_vals pusi_def pkt_pusi_def)
  show ?thesis
  proof (cases "\<not> pusi \<and> pc_packets c = []")
    case True
    then have "pc_push_packet c pkt = Some (None, shown, c\<lparr>pc_asm := asm\<rparr>)"
      using a base by (simp add: pc_push_packet_def Let_def shown_def)
    moreover have "collector_inv h' (c\<lparr>pc_asm := asm\<rparr>)"
      using True inv empty_ok collecting_none [of h'] by (simp add: collector_inv_def)
    ultimately show ?thesis by (simp add: h'_def)
  next
    case False
    define packets where "packets = (if pusi \<and> \<not> (was \<and> td) then [pkt] else pc_packets c @ [pkt])"
    define ok where "ok = (if pusi \<and> \<not> (was \<and> td) then ph else if pusi then pc_pmt_ok c \<or> pt \<or> ph
       else pc_pmt_ok c \<or> pt)"
    have col: "collecting h' packets ok"
    proof (cases "pusi \<and> \<not> (was \<and> td) \<or> pc_packets c = []")
      case True
      then have "packets = [pkt]" "pusi" "ok \<longrightarrow> has_pmt [(pkt, shown)]"
        using False pm empty_ok by (auto simp: packets_def ok_def)
      then show ?thesis unfolding h'_def pusi_def by (simp add: collecting_first)
    next
      case more: False
      then have "packets = pc_packets c @ [pkt]" "ok \<longrightarrow> pc_pmt_ok c \<or> has_pmt [(pkt, shown)]"
        using pm by (auto simp: packets_def ok_def)
      then show ?thesis
        unfolding h'_def using collecting_more [OF cold] more by blast
    qed
    have len: "packets \<noteq> []" "length packets \<le> PMT_UNIT_MAX_PACKETS + 1"
      using assms(1) by (auto simp: packets_def collector_inv_def)
    define c2 where "c2 = c\<lparr>pc_asm := asm, pc_packets := packets, pc_pmt_ok := ok\<rparr>"
    define aborted where "aborted = (\<not> pusi \<and> was \<and> \<not> td \<and> \<not> in_flight asm)"
    have run: "pc_push_packet c pkt =
        (if in_flight asm then
           Some (None, shown, (if length packets > PMT_UNIT_MAX_PACKETS
             then c2\<lparr>pc_packets := [], pc_pmt_ok := False\<rparr> else c2))
         else Some ((if ok \<and> \<not> aborted then Some packets else None), shown,
                c2\<lparr>pc_packets := [], pc_pmt_ok := False\<rparr>))"
      using False a base
      by (cases pusi; cases "pc_packets c = []")
         (simp_all add: pc_push_packet_def Let_def c2_def packets_def ok_def aborted_def
          flip: was_def td_def pt_def ph_def shown_def)
    have i0: "collector_inv h' (c2\<lparr>pc_packets := [], pc_pmt_ok := False\<rparr>)"
      using inv collecting_none by (simp add: collector_inv_def c2_def)
    have i1: "collector_inv h' c2" if "in_flight asm" "length packets \<le> PMT_UNIT_MAX_PACKETS"
      using inv col that by (simp add: collector_inv_def c2_def)
    have g: "good_unit h' packets" if ok using col len that by (simp add: good_unit_def)
    show ?thesis
      unfolding run h'_def [symmetric]
      by (cases "in_flight asm"; cases "length packets > PMT_UNIT_MAX_PACKETS"; cases "ok \<and> \<not> aborted")
         (use i0 i1 g in \<open>simp_all add: h'_def\<close>)
  qed
qed

lemma collector_history_inv: "collector_history h c \<Longrightarrow> collector_inv h c"
proof (induction rule: collector_history.induct)
  case start
  show ?case
    using asm_reachable_inv [OF asm_reachable.new] collecting_none
    by (simp add: collector_inv_def pc_default_def)
next
  case (fed h c pkt u shown c')
  then show ?case using collector_step [OF fed.IH fed.hyps(2)] by auto
qed

text \<open>Property C29.  A unit handed out for re-emission is worth re-emitting: whatever packets were fed on the PID
  before, pushing the next one does not panic, and a unit it returns consists of consecutive
  packets of the PID up to this one, starts with a unit-start packet, is at most 33 packets long,
  and a PMT section of exactly its declared length with a valid CRC completed in it.\<close>

theorem collected_unit_is_complete:
  assumes "collector_history h c" "length pkt = TS_PACKET_SIZE"
  shows "\<exists>u shown c'. pc_push_packet c pkt = Some (u, shown, c') \<and>
     (\<forall>unit. u = Some unit \<longrightarrow>
        (\<exists>h1 h2. h @ [(pkt, shown)] = h1 @ h2 \<and> unit = map fst h2 \<and> h2 \<noteq> [] \<and>
           pkt_pusi (hd unit) \<and> length unit \<le> PMT_UNIT_MAX_PACKETS + 1 \<and> has_pmt h2))"
proof -
  obtain u shown c' where s: "pc_push_packet c pkt = Some (u, shown, c')"
      "\<forall>unit. u = Some unit \<longrightarrow> good_unit (h @ [(pkt, shown)]) unit"
    using collector_step [OF collector_history_inv [OF assms(1)] assms(2)] by blast
  have fin: "\<exists>h1 h2. h @ [(pkt, shown)] = h1 @ h2 \<and> unit = map fst h2 \<and> h2 \<noteq> [] \<and>
      pkt_pusi (hd unit) \<and> length unit \<le> PMT_UNIT_MAX_PACKETS + 1 \<and> has_pmt h2"
    if "u = Some unit" for unit
  proof -
    from s(2) that have "good_unit (h @ [(pkt, shown)]) unit" by blast
    then obtain h1 h2 where g: "h @ [(pkt, shown)] = h1 @ h2" "unit = map fst h2"
        "h2 \<noteq> [] \<longrightarrow> pkt_pusi (fst (hd h2))" "has_pmt h2" "unit \<noteq> []"
        "length unit \<le> PMT_UNIT_MAX_PACKETS + 1"
      unfolding good_unit_def collecting_def by blast
    then have "h2 \<noteq> []" "pkt_pusi (hd unit)" by (simp_all add: hd_map)
    then show ?thesis using g(1,2,4,6) by (intro exI [of _ h1] exI [of _ h2] conjI)
  qed
  show ?thesis
    by (rule exI [of _ u], rule exI [of _ shown], rule exI [of _ c']) (use s(1) fin in simp)
qed

definition crc_pmt :: bytes where
  "crc_pmt = [0x02, 0xB0, 0x0D, 0x00, 0x07, 0xC1, 0, 0, 0xE1, 0x00, 0xF0, 0x00, 0xB8, 0xF0, 0xC8, 0x3C]"

lemma crc_pmt_ok: "pmt_section_ok crc_pmt"
  by (simp add: pmt_section_ok_def crc_pmt_def crc_eval)

lemma feed_crc_pmt:
  "feed_inner (sa_new\<lparr>sa_last_cc := x, sa_last_digest := d\<rparr>) True (0 # crc_pmt @ [0xFF]) False =
     sa_new\<lparr>sa_last_cc := x, sa_last_digest := d, sa_done := crc_pmt, sa_done_ends := [16],
            sa_done_spanned := [False]\<rparr>"
proof -
  have l: "len12 0xB0 0x0D = 13" by code_simp
  show ?thesis
    by (simp add: feed_inner_def Let_def clear_done_def sa_clear_def sa_new_def start_sections.simps
        crc_pmt_def l max_section_length_def PSI_MAX_SECTION_LENGTH_def push_done_def)
qed

lemma push_crc_pmt:
  defines "p \<equiv> ts_bytes 0x40 3 (0 # crc_pmt @ [0xFF])"
  shows "length p = TS_PACKET_SIZE" "pkt_pusi p"
    "\<exists>c'. pc_push_packet pc_default p = Some (Some [p], [crc_pmt], c')"
proof -
  have st: "ts_payload_start p = Some (Some 170)" unfolding p_def by code_simp
  have f: "pkt_pusi p" "pkt_cc p = 3" "drop 170 p = 0 # crc_pmt @ [0xFF]" "length p = 188"
    unfolding p_def by code_simp+
  have sl: "take (TS_PACKET_SIZE - 170) (drop 170 p) = 0 # crc_pmt @ [0xFF]"
    unfolding f(3) by (simp add: crc_pmt_def)
  show "length p = TS_PACKET_SIZE" "pkt_pusi p" using f by simp_all
  have v: "cc_verdict (clear_done sa_new) 3 d True = Some (False, sa_new)" for d
    by (simp add: cc_verdict_def clear_done_def sa_new_def)
  have "sa_push_packet sa_new p = Some (sa_new\<lparr>sa_last_cc := Some 3, sa_last_digest := pkt_digest p,
      sa_done := crc_pmt, sa_done_ends := [16], sa_done_spanned := [False]\<rparr>)"
    unfolding push_packet_val(2) [OF st] after_packet_def sl
    using f v by (simp add: Let_def feed_crc_pmt)
  moreover have "ts_pusi p = Some True" using f by (simp add: ts_vals pkt_pusi_def)
  moreover have "take 16 crc_pmt = crc_pmt" by (simp add: crc_pmt_def)
  ultimately show "\<exists>c'. pc_push_packet pc_default p = Some (Some [p], [crc_pmt], c')"
    using f(4) crc_pmt_ok
    by (simp add: pc_push_packet_def pc_default_def Let_def with_span_def completed_def in_flight_def
        sa_new_def)
qed

theorem collected_unit_is_complete_witness:
  "\<exists>c'. pc_push_packet pc_default (ts_bytes 0x40 3 (0 # crc_pmt @ [0xFF])) =
      Some (Some [ts_bytes 0x40 3 (0 # crc_pmt @ [0xFF])], [crc_pmt], c') \<and>
      has_pmt [(ts_bytes 0x40 3 (0 # crc_pmt @ [0xFF]), [crc_pmt])]"
proof -
  let ?p = "ts_bytes 0x40 3 (0 # crc_pmt @ [0xFF])"
  obtain c' where r: "pc_push_packet pc_default ?p = Some (Some [?p], [crc_pmt], c')"
    using push_crc_pmt(3) by blast
  obtain h1 h2 where h: "[] @ [(?p, [crc_pmt])] = h1 @ h2" "h2 \<noteq> []" "has_pmt h2"
    using collected_unit_is_complete [OF collector_history.start push_crc_pmt(1)] r by auto
  then have "h2 = [(?p, [crc_pmt])]" by (cases h1) (auto simp: Cons_eq_append_conv)
  with h r show ?thesis by blast
qed

end
