(* ===== verification/ByteBudget.thy ===== *)
theory ByteBudget
  imports EdgePrelude
begin

text \<open>
  The byte budgets of \<open>src/src/util/byte_budget.rs\<close>: many queues, each with a producer and a
  consumer that run concurrently, charge a budget of their own and one they share. Every load,
  compare-and-swap and read-modify-write of an atomic is one step of the model, so a run is any
  interleaving of the threads; a failed compare-and-swap retries. \<open>usize\<close> counters are
  naturals: all of them stay below the limits.
\<close>

section \<open>State\<close>

record node_budget =
  nb_queued :: nat
  nb_limit :: nat

record charge =
  ch_cost :: nat
  ch_on_node :: nat

record queue_budget =
  qb_queued :: nat
  qb_on_node :: nat
  qb_limit :: nat
  qb_floor :: nat

definition node_new :: "nat \<Rightarrow> node_budget" where
  "node_new limit = \<lparr>nb_queued = 0, nb_limit = limit\<rparr>"

definition queue_new :: "nat \<Rightarrow> nat \<Rightarrow> queue_budget" where
  "queue_new limit floor = \<lparr>qb_queued = 0, qb_on_node = 0, qb_limit = limit, qb_floor = floor\<rparr>"

text \<open>Where a producer stands inside \<open>QueueBudget::try_charge\<close>, with its local variables, and
  where a consumer stands inside \<open>QueueBudget::release\<close>.\<close>

datatype producer_at =
  Idle
| Loaded nat nat            \<comment> \<open>cost, total: the limit test passed\<close>
| Charging nat nat          \<comment> \<open>cost, on_node: about to charge the node\<close>
| Swapping nat nat nat      \<comment> \<open>cost, on_node, the node's count as loaded\<close>
| Adding nat nat            \<comment> \<open>the node is charged: about to add to queued\<close>
| Recording nat nat         \<comment> \<open>about to add to on_node\<close>

datatype consumer_at =
  Waiting
| Releasing charge          \<comment> \<open>about to subtract from queued\<close>
| Unrecording charge        \<comment> \<open>about to subtract from on_node\<close>
| Returning charge          \<comment> \<open>about to give the share back to the node\<close>

text \<open>A queue with its two threads and the charges of the items in it.\<close>

record queue_state =
  q_budget :: queue_budget
  q_producer :: producer_at
  q_consumer :: consumer_at
  q_items :: "charge list"

record system =
  s_node :: node_budget
  s_queues :: "queue_state list"

section \<open>Operations, one atomic access at a time\<close>

definition load_queued :: "queue_budget \<Rightarrow> nat \<Rightarrow> nat option" where
  "load_queued q cost = (let tot = qb_queued q + cost in if tot \<le> qb_limit q then Some tot else None)"

definition node_share :: "queue_budget \<Rightarrow> nat \<Rightarrow> nat \<Rightarrow> nat" where
  "node_share q tot cost = min (tot - qb_floor q) cost"

definition set_floor :: "queue_budget \<Rightarrow> nat \<Rightarrow> queue_budget" where
  "set_floor q floor = q\<lparr>qb_floor := floor\<rparr>"

text \<open>One turn of the loop of \<open>NodeBudget::try_charge\<close> on the count loaded before.\<close>

definition node_swap :: "node_budget \<Rightarrow> nat \<Rightarrow> nat \<Rightarrow> node_budget option" where
  "node_swap n loaded share =
     (if nb_queued n = loaded then Some (n\<lparr>nb_queued := loaded + share\<rparr>) else None)"

definition node_fits :: "node_budget \<Rightarrow> nat \<Rightarrow> nat \<Rightarrow> bool" where
  "node_fits n loaded share \<longleftrightarrow> loaded + share \<le> nb_limit n"

definition node_release :: "node_budget \<Rightarrow> nat \<Rightarrow> node_budget" where
  "node_release n share = n\<lparr>nb_queued := nb_queued n - share\<rparr>"

definition add_queued :: "queue_budget \<Rightarrow> nat \<Rightarrow> queue_budget" where
  "add_queued q cost = q\<lparr>qb_queued := qb_queued q + cost\<rparr>"

definition add_on_node :: "queue_budget \<Rightarrow> nat \<Rightarrow> queue_budget" where
  "add_on_node q share = q\<lparr>qb_on_node := qb_on_node q + share\<rparr>"

definition sub_queued :: "queue_budget \<Rightarrow> nat \<Rightarrow> queue_budget" where
  "sub_queued q cost = q\<lparr>qb_queued := qb_queued q - cost\<rparr>"

definition sub_on_node :: "queue_budget \<Rightarrow> nat \<Rightarrow> queue_budget" where
  "sub_on_node q share = q\<lparr>qb_on_node := qb_on_node q - share\<rparr>"

section \<open>Steps\<close>

text \<open>One step of one queue's threads on the shared node and that queue.\<close>

inductive queue_step :: "node_budget \<Rightarrow> queue_state \<Rightarrow> node_budget \<Rightarrow> queue_state \<Rightarrow> bool" where
  begin_charge: "\<lbrakk>q_producer q = Idle; load_queued (q_budget q) cost = Some tot\<rbrakk> \<Longrightarrow>
    queue_step n q n (q\<lparr>q_producer := Loaded cost tot\<rparr>)"
| refuse_own: "\<lbrakk>q_producer q = Idle; load_queued (q_budget q) cost = None\<rbrakk> \<Longrightarrow> queue_step n q n q"
| load_floor: "\<lbrakk>q_producer q = Loaded cost tot; share = node_share (q_budget q) tot cost\<rbrakk> \<Longrightarrow>
    queue_step n q n
      (q\<lparr>q_producer := (if share > 0 then Charging cost share else Adding cost share)\<rparr>)"
| load_node: "q_producer q = Charging cost share \<Longrightarrow>
    queue_step n q n (q\<lparr>q_producer := Swapping cost share (nb_queued n)\<rparr>)"
| refuse_node: "\<lbrakk>q_producer q = Swapping cost share loaded; \<not> node_fits n loaded share\<rbrakk> \<Longrightarrow>
    queue_step n q n (q\<lparr>q_producer := Idle\<rparr>)"
| swap: "\<lbrakk>q_producer q = Swapping cost share loaded; node_fits n loaded share;
          node_swap n loaded share = Some n'\<rbrakk> \<Longrightarrow>
    queue_step n q n' (q\<lparr>q_producer := Adding cost share\<rparr>)"
| swap_again: "\<lbrakk>q_producer q = Swapping cost share loaded; node_fits n loaded share\<rbrakk> \<Longrightarrow>
    queue_step n q n (q\<lparr>q_producer := Swapping cost share (nb_queued n)\<rparr>)"
| add: "q_producer q = Adding cost share \<Longrightarrow>
    queue_step n q n
      (q\<lparr>q_budget := add_queued (q_budget q) cost, q_producer := Recording cost share\<rparr>)"
| record_charge: "q_producer q = Recording cost share \<Longrightarrow>
    queue_step n q n
      (q\<lparr>q_budget := add_on_node (q_budget q) share, q_producer := Idle,
         q_items := q_items q @ [\<lparr>ch_cost = cost, ch_on_node = share\<rparr>]\<rparr>)"
| take_item: "\<lbrakk>q_consumer q = Waiting; q_items q = c # rest\<rbrakk> \<Longrightarrow>
    queue_step n q n (q\<lparr>q_consumer := Releasing c, q_items := rest\<rparr>)"
| release_queued: "q_consumer q = Releasing c \<Longrightarrow>
    queue_step n q n
      (q\<lparr>q_budget := sub_queued (q_budget q) (ch_cost c), q_consumer := Unrecording c\<rparr>)"
| release_on_node: "q_consumer q = Unrecording c \<Longrightarrow>
    queue_step n q n
      (q\<lparr>q_budget := sub_on_node (q_budget q) (ch_on_node c), q_consumer := Returning c\<rparr>)"
| release_node: "q_consumer q = Returning c \<Longrightarrow>
    queue_step n q (node_release n (ch_on_node c)) (q\<lparr>q_consumer := Waiting\<rparr>)"
| move_floor: "queue_step n q n (q\<lparr>q_budget := set_floor (q_budget q) floor\<rparr>)"

text \<open>The system: any queue steps, a queue opens, and a queue whose threads have both let go of it
  is dropped, with whatever items are still in it.\<close>

inductive system_step :: "system \<Rightarrow> system \<Rightarrow> bool" where
  queue: "\<lbrakk>i < length (s_queues s); queue_step (s_node s) (s_queues s ! i) n' q'\<rbrakk> \<Longrightarrow>
    system_step s (s\<lparr>s_node := n', s_queues := (s_queues s)[i := q']\<rparr>)"
| open_queue: "system_step s
    (s\<lparr>s_queues := s_queues s @
        [\<lparr>q_budget = queue_new limit floor, q_producer = Idle, q_consumer = Waiting, q_items = []\<rparr>]\<rparr>)"
| drop_queue: "\<lbrakk>s_queues s = before @ q # after; q_producer q = Idle; q_consumer q = Waiting\<rbrakk> \<Longrightarrow>
    system_step s (s\<lparr>s_node := node_release (s_node s) (qb_on_node (q_budget q)),
                     s_queues := before @ after\<rparr>)"

inductive_cases queue_stepE: "queue_step n q n' q'"

end
