(* ===== verification/ByteBudgetCorrect.thy ===== *)
theory ByteBudgetCorrect
  imports ByteBudget
begin

text \<open>
  The byte budgets under every interleaving: the limits hold, the shared count is exactly what the
  queues have charged to it, and what all queues hold is bounded by the shared limit plus one floor
  for each.
\<close>

section \<open>What a queue has charged\<close>

definition costs :: "charge list \<Rightarrow> nat" where
  "costs cs = sum_list (map ch_cost cs)"

definition shares :: "charge list \<Rightarrow> nat" where
  "shares cs = sum_list (map ch_on_node cs)"

lemma costs_simps [simp]: "costs [] = 0" "costs (c # cs) = ch_cost c + costs cs"
  "costs (cs @ ds) = costs cs + costs ds"
  by (simp_all add: costs_def)

lemma shares_simps [simp]: "shares [] = 0" "shares (c # cs) = ch_on_node c + shares cs"
  "shares (cs @ ds) = shares cs + shares ds"
  by (simp_all add: shares_def)

text \<open>The part of a charge a thread in the middle of an operation accounts for.\<close>

fun producer_cost :: "producer_at \<Rightarrow> nat" where
  "producer_cost (Recording cost share) = cost"
| "producer_cost _ = 0"

fun producer_share :: "producer_at \<Rightarrow> nat" where
  "producer_share (Adding cost share) = share"
| "producer_share (Recording cost share) = share"
| "producer_share _ = 0"

fun consumer_cost :: "consumer_at \<Rightarrow> nat" where
  "consumer_cost (Releasing c) = ch_cost c"
| "consumer_cost _ = 0"

fun consumer_recorded :: "consumer_at \<Rightarrow> nat" where
  "consumer_recorded (Releasing c) = ch_on_node c"
| "consumer_recorded (Unrecording c) = ch_on_node c"
| "consumer_recorded _ = 0"

fun consumer_held :: "consumer_at \<Rightarrow> nat" where
  "consumer_held (Releasing c) = ch_on_node c"
| "consumer_held _ = 0"

fun consumer_owed :: "consumer_at \<Rightarrow> nat" where
  "consumer_owed (Returning c) = ch_on_node c"
| "consumer_owed _ = 0"

fun consumer_ok :: "consumer_at \<Rightarrow> bool" where
  "consumer_ok (Releasing c) \<longleftrightarrow> ch_on_node c \<le> ch_cost c"
| "consumer_ok _ \<longleftrightarrow> True"

text \<open>What the node's count holds for a queue, and the share of it that still covers bytes queued.\<close>

definition on_node :: "queue_state \<Rightarrow> nat" where
  "on_node q = qb_on_node (q_budget q) + producer_share (q_producer q) + consumer_owed (q_consumer q)"

definition covering :: "queue_state \<Rightarrow> nat" where
  "covering q = shares (q_items q) + producer_share (q_producer q) + consumer_held (q_consumer q)"

fun producer_ok :: "nat \<Rightarrow> nat \<Rightarrow> queue_state \<Rightarrow> producer_at \<Rightarrow> bool" where
  "producer_ok F lim q (Loaded cost tot) \<longleftrightarrow> qb_queued (q_budget q) + cost \<le> tot \<and> tot \<le> lim"
| "producer_ok F lim q (Charging cost share) \<longleftrightarrow> share \<le> cost \<and>
     qb_queued (q_budget q) + cost \<le> lim \<and> qb_queued (q_budget q) + cost \<le> F + covering q + share"
| "producer_ok F lim q (Swapping cost share l) \<longleftrightarrow> share \<le> cost \<and>
     qb_queued (q_budget q) + cost \<le> lim \<and> qb_queued (q_budget q) + cost \<le> F + covering q + share"
| "producer_ok F lim q (Adding cost share) \<longleftrightarrow> share \<le> cost \<and>
     qb_queued (q_budget q) + cost \<le> lim \<and> qb_queued (q_budget q) + cost \<le> F + covering q"
| "producer_ok F lim q (Recording cost share) \<longleftrightarrow> share \<le> cost"
| "producer_ok F lim q Idle \<longleftrightarrow> True"

text \<open>The invariant of one queue, for floors of at most \<open>F\<close>.\<close>

definition queue_inv :: "nat \<Rightarrow> queue_state \<Rightarrow> bool" where
  "queue_inv F q \<longleftrightarrow>
     qb_queued (q_budget q) =
       costs (q_items q) + producer_cost (q_producer q) + consumer_cost (q_consumer q) \<and>
     qb_on_node (q_budget q) = shares (q_items q) + consumer_recorded (q_consumer q) \<and>
     (\<forall>c\<in>set (q_items q). ch_on_node c \<le> ch_cost c) \<and> consumer_ok (q_consumer q) \<and>
     qb_queued (q_budget q) \<le> qb_limit (q_budget q) \<and>
     qb_queued (q_budget q) \<le> F + covering q \<and>
     producer_ok F (qb_limit (q_budget q)) q (q_producer q)"

lemmas budget_defs = load_queued_def node_share_def set_floor_def node_swap_def node_fits_def
  node_release_def add_queued_def add_on_node_def sub_queued_def sub_on_node_def

lemmas queue_steps = queue_inv_def on_node_def covering_def budget_defs Let_def

lemma queue_step_inv:
  assumes "queue_step n q n' q'" "queue_inv F q" "qb_floor (q_budget q) \<le> F" "on_node q \<le> nb_queued n"
  shows "queue_inv F q' \<and> nb_queued n' + on_node q = nb_queued n + on_node q' \<and>
     nb_limit n' = nb_limit n \<and> (nb_queued n \<le> nb_limit n \<longrightarrow> nb_queued n' \<le> nb_limit n)"
  using assms
proof (induction rule: queue_step.induct)
  case (begin_charge q cost tot n)
  then show ?case by (auto simp: queue_steps split: if_splits)
next
  case (refuse_own q cost n)
  then show ?case by simp
next
  case (load_floor q cost tot share n)
  then show ?case by (auto simp: queue_steps min_def split: if_splits)
next
  case (load_node q cost share n)
  then show ?case by (simp add: queue_steps)
next
  case (refuse_node q cost share loaded n)
  then show ?case by (simp add: queue_steps)
next
  case (swap q cost share loaded n n')
  then show ?case by (auto simp: queue_steps split: if_splits)
next
  case (swap_again q cost share loaded n)
  then show ?case by (simp add: queue_steps)
next
  case (add q cost share n)
  then show ?case by (simp add: queue_steps)
next
  case (record_charge q cost share n)
  then show ?case by (auto simp: queue_steps)
next
  case (take_item q c rest n)
  then show ?case by (cases "q_producer q") (simp_all add: queue_steps)
next
  case (release_queued q c n)
  then show ?case by (cases "q_producer q") (simp_all add: queue_steps)
next
  case (release_on_node q c n)
  then show ?case by (cases "q_producer q") (simp_all add: queue_steps)
next
  case (release_node q c n)
  then show ?case by (cases "q_producer q") (auto simp: queue_steps)
next
  case (move_floor n q floor)
  then show ?case by (cases "q_producer q") (simp_all add: queue_steps)
qed

section \<open>The system\<close>

definition total_on_node :: "queue_state list \<Rightarrow> nat" where
  "total_on_node qs = sum_list (map on_node qs)"

definition total_queued :: "queue_state list \<Rightarrow> nat" where
  "total_queued qs = sum_list (map (qb_queued \<circ> q_budget) qs)"

lemma sum_list_update_nat:
  "i < length xs \<Longrightarrow> sum_list (map f (xs[i := y])) + f (xs ! i) = sum_list (map f xs) + (f y :: nat)"
  by (induction xs arbitrary: i) (auto split: nat.splits)

lemma on_node_le_total: "q \<in> set qs \<Longrightarrow> on_node q \<le> total_on_node qs"
  unfolding total_on_node_def by (rule member_le_sum_list) simp_all

definition system_inv :: "nat \<Rightarrow> nat \<Rightarrow> system \<Rightarrow> bool" where
  "system_inv F limit s \<longleftrightarrow>
     nb_limit (s_node s) = limit \<and> nb_queued (s_node s) = total_on_node (s_queues s) \<and>
     nb_queued (s_node s) \<le> limit \<and> (\<forall>q\<in>set (s_queues s). queue_inv F q)"

definition floors_within :: "nat \<Rightarrow> system \<Rightarrow> bool" where
  "floors_within F s \<longleftrightarrow> (\<forall>q\<in>set (s_queues s). qb_floor (q_budget q) \<le> F)"

lemma system_step_inv:
  assumes "system_step s s'" "system_inv F limit s" "floors_within F s"
  shows "system_inv F limit s'"
  using assms
proof (induction rule: system_step.induct)
  case (queue i s n' q')
  let ?q = "s_queues s ! i"
  have q: "?q \<in> set (s_queues s)" using queue by simp
  have pre: "queue_inv F ?q" "qb_floor (q_budget ?q) \<le> F" "on_node ?q \<le> nb_queued (s_node s)"
    using q queue(3,4) on_node_le_total [OF q] by (auto simp: system_inv_def floors_within_def)
  note st = queue_step_inv [OF queue(2) pre]
  have "total_on_node ((s_queues s)[i := q']) + on_node ?q = total_on_node (s_queues s) + on_node q'"
    unfolding total_on_node_def by (rule sum_list_update_nat [OF queue(1)])
  then have "nb_queued n' = total_on_node ((s_queues s)[i := q'])"
    using st queue(3) by (simp add: system_inv_def)
  moreover have "\<forall>q\<in>set ((s_queues s)[i := q']). queue_inv F q"
    using st queue(3) set_update_subset_insert [of "s_queues s" i q'] by (auto simp: system_inv_def)
  ultimately show ?case using st queue(3) by (simp add: system_inv_def)
next
  case (open_queue s lim floor)
  then show ?case
    by (auto simp: system_inv_def total_on_node_def queue_inv_def on_node_def covering_def queue_new_def)
next
  case (drop_queue s before q after)
  have "on_node q = qb_on_node (q_budget q)" using drop_queue by (simp add: on_node_def)
  then show ?case
    using drop_queue by (auto simp: system_inv_def total_on_node_def node_release_def)
qed

text \<open>A run in which no floor is ever set above \<open>F\<close>.\<close>

inductive bounded_run :: "nat \<Rightarrow> nat \<Rightarrow> system \<Rightarrow> bool" for F limit where
  init: "bounded_run F limit \<lparr>s_node = node_new limit, s_queues = []\<rparr>"
| step: "bounded_run F limit s \<Longrightarrow> system_step s s' \<Longrightarrow> floors_within F s' \<Longrightarrow> bounded_run F limit s'"

lemma bounded_run_inv: "bounded_run F limit s \<Longrightarrow> system_inv F limit s \<and> floors_within F s"
proof (induction rule: bounded_run.induct)
  case init
  show ?case by (simp add: system_inv_def node_new_def total_on_node_def floors_within_def)
next
  case (step s s')
  then show ?case using system_step_inv by blast
qed

lemma queued_le_covering:
  "\<forall>q\<in>set qs. queue_inv F q \<Longrightarrow> total_queued qs \<le> length qs * F + total_on_node qs"
proof (induction qs)
  case (Cons q qs)
  have "covering q \<le> on_node q"
    using Cons.prems by (cases "q_consumer q") (auto simp: queue_inv_def covering_def on_node_def)
  moreover have "qb_queued (q_budget q) \<le> F + covering q"
    using Cons.prems by (simp add: queue_inv_def)
  moreover have "total_queued qs \<le> length qs * F + total_on_node qs" using Cons by simp
  ultimately show ?case by (simp add: total_queued_def total_on_node_def)
qed (simp add: total_queued_def)

definition quiet :: "queue_state \<Rightarrow> bool" where
  "quiet q \<longleftrightarrow> q_producer q = Idle \<and> q_consumer q = Waiting"

text \<open>Property C4.  The byte budgets hold under every interleaving of producers, consumers, floor changes and
  queues that come and go: the shared count never passes the shared limit and no queue passes
  its own; all queues together hold at most the shared limit plus one floor each; whenever the
  threads of all queues are between operations, the counts are exactly the sums over the items
  queued, so nothing leaks and nothing is given back twice, and with no queue left the shared count
  is zero.\<close>

theorem byte_budgets_hold:
  assumes "bounded_run F limit s"
  shows "nb_queued (s_node s) \<le> limit \<and>
     (\<forall>q\<in>set (s_queues s). qb_queued (q_budget q) \<le> qb_limit (q_budget q)) \<and>
     total_queued (s_queues s) \<le> limit + length (s_queues s) * F \<and>
     ((\<forall>q\<in>set (s_queues s). quiet q) \<longrightarrow>
        nb_queued (s_node s) = sum_list (map (shares \<circ> q_items) (s_queues s)) \<and>
        (\<forall>q\<in>set (s_queues s). qb_queued (q_budget q) = costs (q_items q))) \<and>
     (s_queues s = [] \<longrightarrow> nb_queued (s_node s) = 0)"
proof -
  have i: "system_inv F limit s" using bounded_run_inv [OF assms] by blast
  have qi: "\<forall>q\<in>set (s_queues s). queue_inv F q" using i by (simp add: system_inv_def)
  have "on_node q = (shares \<circ> q_items) q" if "q \<in> set (s_queues s)" "quiet q" for q
    using qi that by (auto simp: queue_inv_def on_node_def quiet_def)
  then have "\<forall>q\<in>set (s_queues s). quiet q \<Longrightarrow>
      total_on_node (s_queues s) = sum_list (map (shares \<circ> q_items) (s_queues s))"
    unfolding total_on_node_def by (intro arg_cong [where f = sum_list] map_cong) auto
  moreover have "qb_queued (q_budget q) = costs (q_items q)" if "q \<in> set (s_queues s)" "quiet q" for q
    using qi that by (auto simp: queue_inv_def quiet_def)
  moreover have "total_queued (s_queues s) \<le> limit + length (s_queues s) * F"
    using queued_le_covering [OF qi] i by (simp add: system_inv_def)
  ultimately show ?thesis using i qi by (auto simp: system_inv_def queue_inv_def total_on_node_def)
qed

lemma bounded_run_one:
  assumes "bounded_run F limit \<lparr>s_node = n, s_queues = [q]\<rparr>" "queue_step n q n' q'"
    "qb_floor (q_budget q') \<le> F"
  shows "bounded_run F limit \<lparr>s_node = n', s_queues = [q']\<rparr>"
proof -
  have "system_step \<lparr>s_node = n, s_queues = [q]\<rparr> \<lparr>s_node = n', s_queues = [q']\<rparr>"
    using system_step.queue [of 0 "\<lparr>s_node = n, s_queues = [q]\<rparr>" n' q'] assms(2) by simp
  then show ?thesis
    by (rule bounded_run.step [OF assms(1)]) (use assms(3) in \<open>simp add: floors_within_def\<close>)
qed

text \<open>One queue with floor 10 charges an item of 30 bytes: 20 of them to the node.\<close>

definition queue_at :: "producer_at \<Rightarrow> nat \<Rightarrow> nat \<Rightarrow> charge list \<Rightarrow> queue_state" where
  "queue_at p queued on cs =
     \<lparr>q_budget = \<lparr>qb_queued = queued, qb_on_node = on, qb_limit = 100, qb_floor = 10\<rparr>,
      q_producer = p, q_consumer = Waiting, q_items = cs\<rparr>"

lemma sample_run:
  "bounded_run 10 64 \<lparr>s_node = \<lparr>nb_queued = 20, nb_limit = 64\<rparr>,
     s_queues = [queue_at Idle 30 20 [\<lparr>ch_cost = 30, ch_on_node = 20\<rparr>]]\<rparr>"
proof -
  let ?n0 = "\<lparr>nb_queued = 0, nb_limit = 64\<rparr>" and ?n1 = "\<lparr>nb_queued = 20, nb_limit = 64\<rparr>"
  note d = queue_at_def budget_defs Let_def
  have "system_step \<lparr>s_node = node_new 64, s_queues = []\<rparr> \<lparr>s_node = ?n0, s_queues = [queue_at Idle 0 0 []]\<rparr>"
    using system_step.open_queue [of "\<lparr>s_node = node_new 64, s_queues = []\<rparr>" 100 10]
    by (simp add: node_new_def queue_new_def queue_at_def)
  then have r0: "bounded_run 10 64 \<lparr>s_node = ?n0, s_queues = [queue_at Idle 0 0 []]\<rparr>"
    by (rule bounded_run.step [OF bounded_run.init]) (simp add: floors_within_def queue_at_def)
  have r1: "bounded_run 10 64 \<lparr>s_node = ?n0, s_queues = [queue_at (Loaded 30 30) 0 0 []]\<rparr>"
    using queue_step.begin_charge [of "queue_at Idle 0 0 []" 30 30 ?n0]
    by (intro bounded_run_one [OF r0]) (simp_all add: d)
  have r2: "bounded_run 10 64 \<lparr>s_node = ?n0, s_queues = [queue_at (Charging 30 20) 0 0 []]\<rparr>"
    using queue_step.load_floor [of "queue_at (Loaded 30 30) 0 0 []" 30 30 20 ?n0]
    by (intro bounded_run_one [OF r1]) (simp_all add: d)
  have r3: "bounded_run 10 64 \<lparr>s_node = ?n0, s_queues = [queue_at (Swapping 30 20 0) 0 0 []]\<rparr>"
    using queue_step.load_node [of "queue_at (Charging 30 20) 0 0 []" 30 20 ?n0]
    by (intro bounded_run_one [OF r2]) (simp_all add: d)
  have r4: "bounded_run 10 64 \<lparr>s_node = ?n1, s_queues = [queue_at (Adding 30 20) 0 0 []]\<rparr>"
    using queue_step.swap [of "queue_at (Swapping 30 20 0) 0 0 []" 30 20 0 ?n0 ?n1]
    by (intro bounded_run_one [OF r3]) (simp_all add: d)
  have r5: "bounded_run 10 64 \<lparr>s_node = ?n1, s_queues = [queue_at (Recording 30 20) 30 0 []]\<rparr>"
    using queue_step.add [of "queue_at (Adding 30 20) 0 0 []" 30 20 ?n1]
    by (intro bounded_run_one [OF r4]) (simp_all add: d)
  show ?thesis
    using queue_step.record_charge [of "queue_at (Recording 30 20) 30 0 []" 30 20 ?n1]
    by (intro bounded_run_one [OF r5]) (simp_all add: d)
qed

theorem byte_budgets_hold_witness:
  "\<exists>s. bounded_run 10 64 s \<and> nb_queued (s_node s) = 20 \<and> total_queued (s_queues s) = 30 \<and>
     nb_queued (s_node s) = sum_list (map (shares \<circ> q_items) (s_queues s))"
proof -
  let ?s = "\<lparr>s_node = \<lparr>nb_queued = 20, nb_limit = 64\<rparr>,
     s_queues = [queue_at Idle 30 20 [\<lparr>ch_cost = 30, ch_on_node = 20\<rparr>]]\<rparr>"
  have "\<forall>q\<in>set (s_queues ?s). quiet q" by (simp add: quiet_def queue_at_def)
  then have "nb_queued (s_node ?s) = sum_list (map (shares \<circ> q_items) (s_queues ?s))"
    using byte_budgets_hold [OF sample_run] by blast
  moreover have "total_queued (s_queues ?s) = 30" by (simp add: total_queued_def queue_at_def)
  ultimately show ?thesis using sample_run by (intro exI [of _ ?s]) simp
qed

end
