(* ===== verification/NullPadder.thy ===== *)
theory NullPadder
  imports TsPacketFacts "HOL-Library.Code_Target_Nat"
begin

text \<open>
  The constant-bitrate padder of \<open>src/src/engine/ts_null_padder.rs\<close>. The monotonic clock is an
  argument of each call; the counters are 64-bit words, the byte count saturates as in the source
  and the budget is computed in 128 bits and truncated.
\<close>

definition MAX_NULL_BURST :: nat where "MAX_NULL_BURST = 350"
definition MIN_TARGET_KBPS :: u32 where "MIN_TARGET_KBPS = 1000"
definition MAX_TARGET_KBPS :: u32 where "MAX_TARGET_KBPS = 1000000"

record ts_null_padder =
  np_target_bps :: u64
  np_epoch_ns :: u64
  np_bytes_emitted :: u64
  np_null_cc :: u8
  np_initialised :: bool

definition padder_new :: "u32 \<Rightarrow> ts_null_padder" where
  "padder_new target_kbps =
     \<lparr>np_target_bps = ucast target_kbps * 1000, np_epoch_ns = 0, np_bytes_emitted = 0,
      np_null_cc = 0, np_initialised = False\<rparr>"

text \<open>\<open>u64::saturating_add\<close> and \<open>u64::saturating_sub\<close>.\<close>

definition sat_add64 :: "u64 \<Rightarrow> u64 \<Rightarrow> u64" where
  "sat_add64 a b = (if a + b < a then - 1 else a + b)"

definition sat_sub64 :: "u64 \<Rightarrow> u64 \<Rightarrow> u64" where
  "sat_sub64 a b = (if a < b then 0 else a - b)"

definition make_null_packet :: "ts_null_padder \<Rightarrow> bytes \<times> ts_null_padder" where
  "make_null_packet p =
     ((replicate TS_PACKET_SIZE 0xFF)
        [0 := TS_SYNC_BYTE, 1 := ucast (drop_bit 8 NULL_PID) AND 0x1F, 2 := ucast (NULL_PID AND 0xFF),
         3 := 0x10 OR (np_null_cc p AND 0x0F)],
      p\<lparr>np_null_cc := (np_null_cc p + 1) AND 0x0F\<rparr>)"

definition budget_bytes :: "ts_null_padder \<Rightarrow> u64 \<Rightarrow> u64" where
  "budget_bytes p elapsed_ns =
     word_of_nat (unat (np_target_bps p) * unat elapsed_ns div 8000000000)"

text \<open>The loop, with the number of packets it may still emit.\<close>

fun pad_loop :: "nat \<Rightarrow> u64 \<Rightarrow> ts_null_padder \<Rightarrow> bytes \<Rightarrow> bytes \<times> ts_null_padder" where
  "pad_loop 0 budget p out = (out, p)"
| "pad_loop (Suc left) budget p out =
     (if np_bytes_emitted p + 188 \<le> budget then
        (let (pkt, p) = make_null_packet p in
         pad_loop left budget
           (p\<lparr>np_bytes_emitted := sat_add64 (np_bytes_emitted p) 188\<rparr>) (out @ pkt))
      else (out, p))"

definition padder_process :: "ts_null_padder \<Rightarrow> u64 \<Rightarrow> bytes \<Rightarrow> bytes \<Rightarrow> bytes \<times> ts_null_padder" where
  "padder_process p now_ns inp out =
     (let p = (if \<not> np_initialised p then p\<lparr>np_epoch_ns := now_ns, np_initialised := True\<rparr> else p);
          p = p\<lparr>np_bytes_emitted := sat_add64 (np_bytes_emitted p) (of_nat (length inp))\<rparr>;
          elapsed_ns = sat_sub64 now_ns (np_epoch_ns p)
      in pad_loop MAX_NULL_BURST (budget_bytes p elapsed_ns) p (out @ inp))"

section \<open>What the padding is\<close>

text \<open>The null packets a call appends, from the counter it starts with.\<close>

definition null_packet :: "u8 \<Rightarrow> bytes" where
  "null_packet cc = [0x47, 0x1F, 0xFF, 0x10 OR (cc AND 0x0F)] @ replicate 184 0xFF"

fun null_packets :: "nat \<Rightarrow> u8 \<Rightarrow> bytes list" where
  "null_packets 0 cc = []"
| "null_packets (Suc n) cc = null_packet cc # null_packets n ((cc + 1) AND 0x0F)"

lemma list_update_head4:
  "(a # b # c # d # xs)[0 := w, 1 := x, 2 := y, 3 := z] = w # x # y # z # xs"
  by (simp add: numeral_2_eq_2 numeral_3_eq_3)

lemma make_null_packet_val:
  "make_null_packet p = (null_packet (np_null_cc p), p\<lparr>np_null_cc := (np_null_cc p + 1) AND 0x0F\<rparr>)"
proof -
  have "replicate TS_PACKET_SIZE (0xFF :: u8) = 0xFF # 0xFF # 0xFF # 0xFF # replicate 184 0xFF"
    by (simp add: numeral_eq_Suc)
  then show ?thesis
    unfolding make_null_packet_def null_packet_def
    by (simp only: list_update_head4 append_Cons append_Nil) (simp add: TS_SYNC_BYTE_def NULL_PID_def)
qed

lemma sat_add64_small: "unat a + unat b < 2 ^ 64 \<Longrightarrow> unat (sat_add64 a b) = unat a + unat b"
  by (auto simp: sat_add64_def word_less_nat_alt unat_word_ariths)

lemma pad_loop_spec:
  assumes "unat (np_bytes_emitted p) + 188 * (left + 1) < 2 ^ 64"
  shows "\<exists>n p'. pad_loop left budget p out =
       (out @ concat (null_packets n (np_null_cc p)), p') \<and> n \<le> left \<and>
     unat (np_bytes_emitted p') = unat (np_bytes_emitted p) + 188 * n \<and>
     (n > 0 \<longrightarrow> unat (np_bytes_emitted p') \<le> unat budget) \<and>
     (n < left \<longrightarrow> unat budget < unat (np_bytes_emitted p') + 188)"
  using assms
proof (induction left arbitrary: p out)
  case 0
  then show ?case by (intro exI [of _ 0]) simp
next
  case (Suc left)
  have s: "unat (np_bytes_emitted p + 188) = unat (np_bytes_emitted p) + 188"
    using Suc.prems by (simp add: unat_word_ariths)
  show ?case
  proof (cases "np_bytes_emitted p + 188 \<le> budget")
    case False
    then show ?thesis using s by (intro exI [of _ 0]) (simp add: word_le_nat_alt)
  next
    case True
    define p1 where "p1 = p\<lparr>np_null_cc := (np_null_cc p + 1) AND 0x0F,
        np_bytes_emitted := sat_add64 (np_bytes_emitted p) 188\<rparr>"
    have b: "unat (np_bytes_emitted p1) = unat (np_bytes_emitted p) + 188"
      using Suc.prems sat_add64_small [of "np_bytes_emitted p" 188] by (simp add: p1_def)
    have "unat (np_bytes_emitted p1) + 188 * (left + 1) < 2 ^ 64" using Suc.prems b by simp
    from Suc.IH [OF this, of "out @ null_packet (np_null_cc p)"] obtain n p' where
      i: "pad_loop left budget p1 (out @ null_packet (np_null_cc p)) =
            ((out @ null_packet (np_null_cc p)) @ concat (null_packets n (np_null_cc p1)), p')"
        "n \<le> left" "unat (np_bytes_emitted p') = unat (np_bytes_emitted p1) + 188 * n"
        "n > 0 \<longrightarrow> unat (np_bytes_emitted p') \<le> unat budget"
        "n < left \<longrightarrow> unat budget < unat (np_bytes_emitted p') + 188"
      by blast
    have "pad_loop (Suc left) budget p out =
        (out @ concat (null_packets (Suc n) (np_null_cc p)), p')"
      using True i(1) by (simp add: make_null_packet_val p1_def)
    moreover have "unat (np_bytes_emitted p') \<le> unat budget"
      using i(3,4) b s True by (cases n) (simp_all add: word_le_nat_alt)
    ultimately show ?thesis using i b by (intro exI [of _ "Suc n"] exI [of _ p']) simp
  qed
qed

lemma null_packet_props:
  "length (null_packet cc) = TS_PACKET_SIZE" "null_packet cc ! 0 = TS_SYNC_BYTE"
  "ts_pid (null_packet cc) = Some NULL_PID" "ts_cc (null_packet cc) = Some (cc AND 0x0F)"
proof -
  show "length (null_packet cc) = TS_PACKET_SIZE" by (simp add: null_packet_def)
  show "null_packet cc ! 0 = TS_SYNC_BYTE" by (simp add: null_packet_def TS_SYNC_BYTE_def)
  show "ts_pid (null_packet cc) = Some NULL_PID"
    by (simp add: ts_vals null_packet_def NULL_PID_def pid13_def)
  have "(0x10 OR (cc AND 0x0F)) AND 0x0F = cc AND (0x0F :: u8)"
    by (simp add: bit.conj_disj_distrib2 and.assoc)
  then show "ts_cc (null_packet cc) = Some (cc AND 0x0F)"
    by (simp add: ts_vals null_packet_def numeral_3_eq_3)
qed

lemma length_null_packets: "\<forall>pkt\<in>set (null_packets n cc). length pkt = TS_PACKET_SIZE"
  by (induction n arbitrary: cc) (auto simp: null_packet_props(1) simp del: TS_PACKET_SIZE_val)

lemma all_null_packets:
  assumes "\<And>cc. p (null_packet cc) = Some True"
  shows "all_panics p (null_packets n cc) = Some True"
  by (induction n arbitrary: cc) (simp_all add: assms)

lemma null_packets_are_null:
  assumes "0 < n"
  shows "is_null_ts_only (concat (null_packets n cc)) = Some True"
proof -
  have c: "ts_chunks (concat (null_packets n cc)) = null_packets n cc"
    by (rule ts_chunks_concat [OF length_null_packets])
  have ne: "concat (null_packets n cc) \<noteq> []"
    using assms by (cases n) (simp_all add: null_packet_def)
  have "length (concat (null_packets n cc)) = 188 * n" for n cc
    by (induction n arbitrary: cc) (simp_all add: null_packet_def)
  then have "length (concat (null_packets n cc)) mod TS_PACKET_SIZE = 0" by simp
  with ne show ?thesis
    unfolding is_null_ts_only_def c
    by (simp add: all_null_packets null_packet_props idx_def flip: length_greater_0_conv)
qed

text \<open>The bytes the target rate allows since the padder's first call.\<close>

definition allowed :: "ts_null_padder \<Rightarrow> u64 \<Rightarrow> nat" where
  "allowed p now_ns =
     unat (budget_bytes p (if np_initialised p then sat_sub64 now_ns (np_epoch_ns p) else 0))"



end
