(* ===== verification/BondedScheduler.thy ===== *)
theory BondedScheduler
  imports EdgePrelude
begin

text \<open>
  The media-aware scheduler helper of \<open>src/src/engine/bonded_scheduler.rs\<close>: it scans each
  outbound payload for Annex-B start codes and marks a datagram with a random-access picture or a
  parameter set as critical. The hint type belongs to the bonding transport; the model keeps the
  two fields the code computes.
\<close>

section \<open>The scan\<close>

datatype priority = Normal | Critical

record media_aware_scheduler =
  ms_carry_prev :: "u8 \<times> u8"
  ms_have_carry :: bool

definition scheduler_new :: media_aware_scheduler where
  "scheduler_new = \<lparr>ms_carry_prev = (0, 0), ms_have_carry = False\<rparr>"

definition is_critical_h264 :: "u8 \<Rightarrow> bool" where
  "is_critical_h264 nal_byte = (let t = nal_byte AND 0x1F in t = 5 \<or> t = 7 \<or> t = 8)"

definition is_critical_hevc :: "u8 \<Rightarrow> bool" where
  "is_critical_hevc nal_byte =
     (let t = drop_bit 1 nal_byte AND 0x3F in
      t = 19 \<or> t = 20 \<or> t = 21 \<or> t = 32 \<or> t = 33 \<or> t = 34)"

definition critical_nal :: "u8 \<Rightarrow> bool" where
  "critical_nal b \<longleftrightarrow> is_critical_h264 b \<or> is_critical_hevc b"

text \<open>The \<open>while i + 3 < slice.len()\<close> loop; the reads stand behind its test, and \<open>slice.get\<close>
  behind its own.\<close>

function scan_nals :: "bytes \<Rightarrow> nat \<Rightarrow> bool" where
  "scan_nals buf i =
     (if i + 3 < length buf then
        if buf ! i = 0 \<and> buf ! (i + 1) = 0 \<and> buf ! (i + 2) = 0 \<and> buf ! (i + 3) = 1 then
          (if i + 4 < length buf \<and> critical_nal (buf ! (i + 4)) then True
           else scan_nals buf (i + 4))
        else if buf ! i = 0 \<and> buf ! (i + 1) = 0 \<and> buf ! (i + 2) = 1 then
          (if i + 3 < length buf \<and> critical_nal (buf ! (i + 3)) then True
           else scan_nals buf (i + 3))
        else scan_nals buf (i + 1)
      else False)"
  by pat_completeness auto
termination by (relation "measure (\<lambda>(buf, i). length buf - i)") auto

declare scan_nals.simps [simp del]

definition classify :: "media_aware_scheduler \<Rightarrow> bytes \<Rightarrow> priority \<times> media_aware_scheduler" where
  "classify s payload =
     (let buf = (if ms_have_carry s then [fst (ms_carry_prev s), snd (ms_carry_prev s)] @ payload
                   else payload);
          critical = scan_nals buf 0;
          s = (if length payload \<ge> 2
               then s\<lparr>ms_carry_prev := (payload ! (length payload - 2), payload ! (length payload - 1)),
                      ms_have_carry := True\<rparr>
               else s\<lparr>ms_have_carry := False\<rparr>)
      in (if critical then Critical else Normal, s))"

definition hints_for :: "media_aware_scheduler \<Rightarrow> bytes \<Rightarrow> (priority \<times> nat) \<times> media_aware_scheduler" where
  "hints_for s payload = (let (p, s) = classify s payload in ((p, length payload), s))"

text \<open>The datagrams of one output in order.\<close>

fun hints_run :: "media_aware_scheduler \<Rightarrow> bytes list \<Rightarrow> priority list" where
  "hints_run s [] = []"
| "hints_run s (d # ds) = (let (h, s) = hints_for s d in fst h # hints_run s ds)"

section \<open>The scan finds every start code\<close>

text \<open>A start code with a critical NAL type at position \<open>i\<close>: the three-byte form covers the
  four-byte form, whose last three bytes it is.\<close>

definition critical_at :: "bytes \<Rightarrow> nat \<Rightarrow> bool" where
  "critical_at s i \<longleftrightarrow> i + 3 < length s \<and> s ! i = 0 \<and> s ! (i + 1) = 0 \<and> s ! (i + 2) = 1 \<and>
     critical_nal (s ! (i + 3))"

lemma critical_from:
  "(\<exists>j\<ge>i. critical_at s j) \<longleftrightarrow> critical_at s i \<or> (\<exists>j\<ge>Suc i. critical_at s j)"
  by (metis Suc_leD Suc_le_eq le_neq_implies_less order_refl)

lemma critical_skip3:
  assumes "s ! (i + 2) = 1"
  shows "(\<exists>j\<ge>i. critical_at s j) \<longleftrightarrow> critical_at s i \<or> (\<exists>j\<ge>i + 3. critical_at s j)"
proof -
  have "\<not> critical_at s (Suc i)" "\<not> critical_at s (Suc (Suc i))"
    using assms by (auto simp: critical_at_def)
  then show ?thesis
    using critical_from [of i s] critical_from [of "Suc i" s] critical_from [of "Suc (Suc i)" s]
    by (simp add: numeral_3_eq_3)
qed

lemma critical_skip4:
  assumes "s ! (i + 2) = 0" "s ! (i + 3) = 1"
  shows "(\<exists>j\<ge>i. critical_at s j) \<longleftrightarrow> critical_at s (i + 1) \<or> (\<exists>j\<ge>i + 4. critical_at s j)"
proof -
  have "\<not> critical_at s i" using assms by (auto simp: critical_at_def)
  moreover have "s ! (Suc i + 2) = 1" using assms(2) by (simp add: numeral_3_eq_3 numeral_2_eq_2)
  ultimately show ?thesis
    using critical_from [of i s] critical_skip3 [of s "Suc i"] by (simp add: numeral_eq_Suc)
qed

lemma scan_nals_exact: "scan_nals s i \<longleftrightarrow> (\<exists>j\<ge>i. critical_at s j)"
proof (induction s i rule: scan_nals.induct)
  case (1 s i)
  show ?case
  proof (cases "i + 3 < length s")
    case False
    then show ?thesis by (subst scan_nals.simps) (auto simp: critical_at_def)
  next
    case len: True
    show ?thesis
    proof (cases "s ! i = 0 \<and> s ! (i + 1) = 0 \<and> s ! (i + 2) = 0 \<and> s ! (i + 3) = 1")
      case True
      have "critical_at s (i + 1) \<longleftrightarrow> i + 4 < length s \<and> critical_nal (s ! (i + 4))"
        using True by (simp add: critical_at_def numeral_eq_Suc)
      then show ?thesis
        using True len 1(1) [OF len True] critical_skip4 [of s i]
        by (subst scan_nals.simps) auto
    next
      case four: False
      show ?thesis
      proof (cases "s ! i = 0 \<and> s ! (i + 1) = 0 \<and> s ! (i + 2) = 1")
        case True
        have "critical_at s i \<longleftrightarrow> critical_nal (s ! (i + 3))"
          using True len by (simp add: critical_at_def)
        then show ?thesis
          using True four len 1(2) [OF len four True] critical_skip3 [of s i]
          by (subst scan_nals.simps) auto
      next
        case False
        then have "\<not> critical_at s i" by (auto simp: critical_at_def)
        then show ?thesis
          using False four len 1(3) [OF len four False] critical_from [of i s]
          by (subst scan_nals.simps) auto
      qed
    qed
  qed
qed

text \<open>The last two bytes of a datagram, carried into the next one.\<close>

definition carried_tail :: "bytes \<Rightarrow> bytes" where
  "carried_tail d = (if length d < 2 then [] else drop (length d - 2) d)"

definition carry_of :: "media_aware_scheduler \<Rightarrow> bytes" where
  "carry_of s = (if ms_have_carry s then [fst (ms_carry_prev s), snd (ms_carry_prev s)] else [])"

lemma drop_last_two: "2 \<le> length d \<Longrightarrow> drop (length d - 2) d = [d ! (length d - 2), d ! (length d - 1)]"
  by (rule nth_equalityI) (auto simp: less_2_cases_iff)

lemma hints_for_val:
  "fst (fst (hints_for s d)) = (if \<exists>j. critical_at (carry_of s @ d) j then Critical else Normal)"
  "snd (fst (hints_for s d)) = length d" "carry_of (snd (hints_for s d)) = carried_tail d"
  using drop_last_two [of d] scan_nals_exact [of "carry_of s @ d" 0]
  by (auto simp: hints_for_def classify_def carry_of_def carried_tail_def Let_def)

lemma hints_run_nth:
  "n < length ds \<Longrightarrow> hints_run s ds ! n =
     (if \<exists>j. critical_at ((if n = 0 then carry_of s else carried_tail (ds ! (n - 1))) @ ds ! n) j
      then Critical else Normal)"
proof (induction ds arbitrary: s n)
  case (Cons d ds)
  obtain h s' where hs: "hints_for s d = (h, s')" by (cases "hints_for s d")
  have h: "fst h = (if \<exists>j. critical_at (carry_of s @ d) j then Critical else Normal)"
      "carry_of s' = carried_tail d"
    using hints_for_val(1,3) [of s d] hs by simp_all
  show ?case
  proof (cases n)
    case 0
    then show ?thesis using hs h(1) by simp
  next
    case (Suc m)
    then show ?thesis
      using Cons.IH [of m s'] Cons.prems hs h(2) by (cases m) auto
  qed
qed simp


lemma sample_hints:
  "hints_run scheduler_new [[0x47, 9, 0, 0], [1, 0x65, 3], [0, 0, 0, 1, 0x01]] = [Normal, Critical, Normal]"
  by code_simp


text \<open>A start code that ends exactly at the end of a datagram is not carried over: two bytes are
  kept, and the NAL byte at the head of the next datagram is not recognised.\<close>

lemma start_code_at_the_end_is_lost:
  "hints_run scheduler_new [[0x47, 9, 0, 0, 1], [0x65, 3, 3, 3]] = [Normal, Normal]"
  by code_simp

end
