(* ===== verification/ProgramFilter.thy ===== *)
theory ProgramFilter
  imports TsPsiFacts "HOL-Library.Code_Target_Nat"
begin

text \<open>
  The program filter of \<open>src/src/engine/ts_program_filter.rs\<close>, which cuts a multi-program
  stream down to one program: it follows the PAT and the program's PMT, passes the program's
  packets and replaces every PAT by a single-program one.
\<close>

section \<open>State and operations\<close>

record ts_program_filter =
  pf_target_program :: u16
  pf_target_pmt_pid :: "u16 option"
  pf_target_pmt_pid_shared :: bool
  pf_allowed_pids :: "u16 set"
  pf_last_pat_version :: "u8 option"
  pf_last_pmt_version :: "u8 option"
  pf_synthetic_pat_cc :: u8
  pf_transport_stream_id :: u16
  pf_cached_pat :: "bytes option"

definition pf_new :: "u16 \<Rightarrow> ts_program_filter" where
  "pf_new target_program =
     \<lparr>pf_target_program = target_program, pf_target_pmt_pid = None, pf_target_pmt_pid_shared = False,
      pf_allowed_pids = {}, pf_last_pat_version = None, pf_last_pmt_version = None,
      pf_synthetic_pat_cc = 0, pf_transport_stream_id = 0x0001, pf_cached_pat = None\<rparr>"

text \<open>The bytes 5 to 16 of the synthetic PAT, the section without its CRC.\<close>

definition synthetic_section :: "ts_program_filter \<Rightarrow> bytes" where
  "synthetic_section f =
     (let pmt_pid = (case pf_target_pmt_pid f of Some p \<Rightarrow> p | None \<Rightarrow> 0);
          len = (13 :: u16) in
      [0x00, 0xB0 OR ucast (drop_bit 8 len AND 0x0F), ucast (len AND 0xFF),
       ucast (drop_bit 8 (pf_transport_stream_id f)), ucast (pf_transport_stream_id f AND 0xFF),
       0xC1, 0x00, 0x00,
       ucast (drop_bit 8 (pf_target_program f)), ucast (pf_target_program f AND 0xFF),
       0xE0 OR ucast (drop_bit 8 pmt_pid AND 0x1F), ucast (pmt_pid AND 0xFF)])"

definition build_synthetic_pat :: "ts_program_filter \<Rightarrow> bytes" where
  "build_synthetic_pat f =
     (let sec = synthetic_section f in
      [TS_SYNC_BYTE, 0x40, 0x00, 0x10, 0x00] @ sec @ to_be_bytes32 (mpeg2_crc32 sec)
        @ replicate (TS_PACKET_SIZE - 21) 0xFF)"

text \<open>The position of the section in the packet; \<open>None\<close> inside is the early return.\<close>

definition pat_section_start :: "bytes \<Rightarrow> nat option panics" where
  "pat_section_start pkt = do {
     sec_off \<leftarrow> ts_payload_offset pkt;
     if sec_off \<ge> TS_PACKET_SIZE then Some None
     else do {
       pointer \<leftarrow> idx pkt sec_off;
       let sec_off = sec_off + (1 + unat pointer) in
       if sec_off + 8 > TS_PACKET_SIZE then Some None
       else do {
         tid \<leftarrow> idx pkt sec_off;
         Some (if tid \<noteq> 0x00 then None else Some sec_off) } } }"

definition apply_pat ::
    "ts_program_filter \<Rightarrow> u16 \<Rightarrow> u8 \<Rightarrow> (u16 \<times> u16) list \<Rightarrow> ts_program_filter" where
  "apply_pat f ts_id version programs =
     (let pmt_pid = map_option snd (List.find (\<lambda>(num, _). num = pf_target_program f) programs);
          f = f\<lparr>pf_target_pmt_pid_shared :=
                 (case pmt_pid of None \<Rightarrow> False
                  | Some p \<Rightarrow> length (filter (\<lambda>(_, pid). pid = p) programs) > 1)\<rparr>;
          target_changed = (pf_target_pmt_pid f \<noteq> pmt_pid) in
      if pmt_pid = None then
        f\<lparr>pf_target_pmt_pid := None, pf_allowed_pids := {}, pf_cached_pat := None,
          pf_last_pmt_version := None, pf_last_pat_version := Some version,
          pf_transport_stream_id := ts_id\<rparr>
      else if \<not> target_changed \<and> pf_last_pat_version f = Some version then f
      else
        (let f = (if target_changed
                  then f\<lparr>pf_allowed_pids := {}, pf_last_pmt_version := None\<rparr> else f);
             f = f\<lparr>pf_target_pmt_pid := pmt_pid, pf_transport_stream_id := ts_id,
                   pf_last_pat_version := Some version\<rparr>
         in f\<lparr>pf_cached_pat := Some (build_synthetic_pat f)\<rparr>))"

definition handle_pat :: "ts_program_filter \<Rightarrow> bytes \<Rightarrow> ts_program_filter panics" where
  "handle_pat f pkt = do {
     sec \<leftarrow> pat_section_start pkt;
     case sec of None \<Rightarrow> Some f
     | Some off \<Rightarrow> do {
         a \<leftarrow> idx pkt (off + 3); b \<leftarrow> idx pkt (off + 4); v \<leftarrow> idx pkt (off + 5);
         programs \<leftarrow> parse_pat_programs pkt;
         Some (apply_pat f (be16 a b) (drop_bit 1 v AND 0x1F) programs) } }"

function es_pids_from :: "bytes \<Rightarrow> nat \<Rightarrow> nat \<Rightarrow> u16 list panics" where
  "es_pids_from pkt pos data_end =
     (if pos + 5 \<le> data_end then do {
        a \<leftarrow> idx pkt (pos + 1); b \<leftarrow> idx pkt (pos + 2); c \<leftarrow> idx pkt (pos + 3); d \<leftarrow> idx pkt (pos + 4);
        rest \<leftarrow> es_pids_from pkt (pos + (5 + len12 c d)) data_end;
        Some (pid13 a b # rest) }
      else Some [])"
  by pat_completeness auto
termination by (relation "measure (\<lambda>(pkt, pos, e). e - pos)") auto

declare es_pids_from.simps [simp del]

definition extract_pmt_streams ::
    "bytes \<Rightarrow> u16 \<Rightarrow> bool \<Rightarrow> (u16 list \<times> u16 option \<times> u8) option panics" where
  "extract_pmt_streams pkt program pid_shared = do {
     so \<leftarrow> pmt_section_offset_for pkt program pid_shared;
     case so of None \<Rightarrow> Some None
     | Some sec_off \<Rightarrow>
         if sec_off + 12 > TS_PACKET_SIZE then Some None
         else do {
           l1 \<leftarrow> idx pkt (sec_off + 1); l2 \<leftarrow> idx pkt (sec_off + 2); v \<leftarrow> idx pkt (sec_off + 5);
           p1 \<leftarrow> idx pkt (sec_off + 8); p2 \<leftarrow> idx pkt (sec_off + 9);
           i1 \<leftarrow> idx pkt (sec_off + 10); i2 \<leftarrow> idx pkt (sec_off + 11);
           let data_start = sec_off + 12 + len12 i1 i2;
               data_end = min (sec_off + 3 + len12 l1 l2) TS_PACKET_SIZE - 4 in do {
           es_pids \<leftarrow> es_pids_from pkt data_start data_end;
           Some (Some (es_pids, Some (pid13 p1 p2), drop_bit 1 v AND 0x1F)) } } }"

definition handle_pmt :: "ts_program_filter \<Rightarrow> bytes \<Rightarrow> ts_program_filter panics" where
  "handle_pmt f pkt = do {
     r \<leftarrow> extract_pmt_streams pkt (pf_target_program f) (pf_target_pmt_pid_shared f);
     case r of None \<Rightarrow> Some f
     | Some (es_pids, pcr_pid, version) \<Rightarrow>
         if pf_last_pmt_version f = Some version then Some f
         else Some (f\<lparr>pf_last_pmt_version := Some version,
                pf_allowed_pids := set_option (pf_target_pmt_pid f) \<union> set es_pids
                  \<union> (case pcr_pid of Some pcr \<Rightarrow> if pcr \<noteq> 0x1FFF then {pcr} else {} | None \<Rightarrow> {})\<rparr>) }"

text \<open>One turn of the loop of \<open>filter_into\<close>: the filter after the packet and what is appended.\<close>

definition filter_one :: "ts_program_filter \<Rightarrow> bytes \<Rightarrow> (ts_program_filter \<times> bytes) panics" where
  "filter_one f pkt = do {
     s \<leftarrow> idx pkt 0;
     if s \<noteq> TS_SYNC_BYTE then Some (f, [])
     else do {
       pid \<leftarrow> ts_pid pkt;
       pusi \<leftarrow> ts_pusi pkt;
       if pid = PAT_PID then do {
         f \<leftarrow> (if pusi then handle_pat f pkt else Some f);
         case pf_cached_pat f of
           Some pat \<Rightarrow> do {
             b3 \<leftarrow> idx pat 3;
             emitted \<leftarrow> put pat 3 ((b3 AND 0xF0) OR (pf_synthetic_pat_cc f AND 0x0F));
             Some (f\<lparr>pf_synthetic_pat_cc := (pf_synthetic_pat_cc f + 1) AND 0x0F\<rparr>, emitted) }
         | None \<Rightarrow> Some (f, []) }
       else if Some pid = pf_target_pmt_pid f then do {
         f \<leftarrow> (if pusi then handle_pmt f pkt else Some f);
         Some (f, pkt) }
       else if pid \<in> pf_allowed_pids f then Some (f, pkt)
       else Some (f, []) } }"

fun filter_loop :: "ts_program_filter \<Rightarrow> bytes list \<Rightarrow> bytes \<Rightarrow> (ts_program_filter \<times> bytes) panics" where
  "filter_loop f [] out = Some (f, out)"
| "filter_loop f (pkt # pkts) out = do {
     r \<leftarrow> filter_one f pkt;
     filter_loop (fst r) pkts (out @ snd r) }"

definition filter_into :: "ts_program_filter \<Rightarrow> bytes \<Rightarrow> bytes \<Rightarrow> (ts_program_filter \<times> bytes) panics" where
  "filter_into f ts_in out = filter_loop f (ts_chunks ts_in) out"

definition filter_packet ::
    "ts_program_filter \<Rightarrow> bytes \<Rightarrow> bool \<Rightarrow> (ts_program_filter \<times> bytes option) panics" where
  "filter_packet f data is_raw_ts =
     (if is_raw_ts then do {
        r \<leftarrow> filter_into f data [];
        Some (fst r, if snd r = [] then None else Some (snd r)) }
      else if length data < RTP_HEADER_MIN_SIZE then Some (f, None)
      else do {
        d0 \<leftarrow> idx data 0;
        let header_len = RTP_HEADER_MIN_SIZE + unat (d0 AND 0x0F) * 4 in
        if length data \<le> header_len then Some (f, None)
        else do {
          payload \<leftarrow> slice data header_len (length data);
          r \<leftarrow> filter_into f payload [];
          Some (fst r, if snd r = [] then None else Some (take header_len data @ snd r)) } })"

section \<open>The synthetic PAT\<close>

text \<open>A single-program PAT: one packet on PID 0 whose section has a valid CRC and lists the
  program alone.\<close>

definition single_program_pat :: "u16 \<Rightarrow> u16 \<Rightarrow> u8 \<Rightarrow> bytes \<Rightarrow> bool" where
  "single_program_pat program pmt_pid cc pkt \<longleftrightarrow>
     length pkt = TS_PACKET_SIZE \<and> pkt ! 0 = TS_SYNC_BYTE \<and> ts_pid pkt = Some PAT_PID \<and>
     ts_cc pkt = Some (cc AND 0x0F) \<and> verify_psi_crc pkt 5 = Some True \<and>
     parse_pat_programs pkt = Some [(program, pmt_pid)]"

lemma len12_13: "len12 (0xB0 OR ucast (drop_bit 8 (13 :: u16) AND 0x0F)) (ucast ((13 :: u16) AND 0xFF)) = 13"
  by code_simp

lemma length_synthetic_section [simp]: "length (synthetic_section f) = 12"
  by (simp add: synthetic_section_def Let_def)

lemma length_synthetic_pat [simp]: "length (build_synthetic_pat f) = 188"
  by (simp add: build_synthetic_pat_def Let_def)

lemma byte_masks: "(0xFF :: u16) = mask 8" "(0xE0 :: u8) = push_bit 5 (mask 3)"
  by (simp_all add: mask_eq_exp_minus_1)

lemma be16_split: "be16 (ucast (drop_bit 8 w)) (ucast (w AND 0xFF)) = w"
proof -
  have "(ucast (w AND 0xFF) :: u8) = lo8 w"
    by (rule bit_word_eqI) (auto simp: lo8_def bit_ucast_iff bit_and_iff byte_masks bit_mask_iff)
  then show ?thesis using be16_hi8_lo8 [of w] by (simp add: hi8_def)
qed

lemma pid13_split:
  "pid13 (0xE0 OR ucast (drop_bit 8 p AND 0x1F)) (ucast (p AND 0xFF)) = p AND 0x1FFF"
  by (rule bit_word_eqI)
     (auto simp: pid13_def bit_or_iff bit_push_bit_iff bit_ucast_iff bit_and_iff bit_drop_bit_eq
        low_masks byte_masks bit_mask_iff)

lemma cc_byte: "((0x10 AND 0xF0) OR (cc AND 0x0F)) AND 0x0F = cc AND (0x0F :: u8)"
    "\<not> af_bit ((0x10 AND 0xF0) OR (cc AND 0x0F))"
proof -
  show "((0x10 AND 0xF0) OR (cc AND 0x0F)) AND 0x0F = cc AND (0x0F :: u8)"
    by (simp add: bit.conj_disj_distrib2 and.assoc)
  have "drop_bit 4 ((0x10 AND 0xF0) OR (cc AND 0x0F)) = (1 :: u8)"
    by (rule bit_word_eqI)
       (auto simp: bit_or_iff bit_and_iff bit_drop_bit_eq low_masks bit_mask_iff)
  then show "\<not> af_bit ((0x10 AND 0xF0) OR (cc AND 0x0F))" by (simp add: af_bit_def)
qed

lemma synthetic_pat_ok:
  fixes cc :: u8
  assumes "pf_target_program f \<noteq> 0" "pf_target_pmt_pid f = Some pid" "pid AND 0x1FFF = pid"
  defines "pkt \<equiv> (build_synthetic_pat f)[3 := (build_synthetic_pat f ! 3 AND 0xF0) OR (cc AND 0x0F)]"
  shows "single_program_pat (pf_target_program f) pid cc pkt"
proof -
  define sec where "sec = synthetic_section f"
  define b3 where "b3 = (0x10 AND 0xF0) OR (cc AND (0x0F :: u8))"
  let ?tail = "to_be_bytes32 (mpeg2_crc32 sec) @ replicate (TS_PACKET_SIZE - 21) 0xFF"
  have p: "pkt = [TS_SYNC_BYTE, 0x40, 0x00, b3, 0x00] @ sec @ ?tail"
    unfolding pkt_def b3_def sec_def by (simp add: build_synthetic_pat_def Let_def numeral_3_eq_3)
  have l: "length sec = 12" "length pkt = 188" by (simp_all add: sec_def p)
  have n: "pkt ! (5 + i) = sec ! i" if "i < 12" for i
    unfolding p using that l by (simp add: nth_append)
  have s: "sec ! 0 = 0" "sec ! 1 = 0xB0 OR ucast (drop_bit 8 (13 :: u16) AND 0x0F)"
      "sec ! 2 = ucast ((13 :: u16) AND 0xFF)"
      "sec ! 8 = ucast (drop_bit 8 (pf_target_program f))" "sec ! 9 = ucast (pf_target_program f AND 0xFF)"
      "sec ! 10 = 0xE0 OR ucast (drop_bit 8 pid AND 0x1F)" "sec ! 11 = ucast (pid AND 0xFF)"
    using assms(2) by (simp_all add: sec_def synthetic_section_def Let_def numeral_eq_Suc)
  have len: "len12 (pkt ! 6) (pkt ! 7) = 13"
    using n [of 1] n [of 2] s len12_13 by simp
  have h: "pkt ! 0 = TS_SYNC_BYTE" "pkt ! 1 = 0x40" "pkt ! 2 = 0" "pkt ! 3 = b3" "pkt ! 4 = 0"
    unfolding p by (simp_all add: numeral_eq_Suc)
  have "take 16 (drop 5 pkt) = sec @ to_be_bytes32 (mpeg2_crc32 sec)"
    unfolding p using l by simp
  then have crc: "verify_psi_crc pkt 5 = Some True"
    using l len by (simp add: verify_psi_crc_def crc_appended)
  have e: "pat_entries pkt 13 17 = Some [(pf_target_program f, pid)]"
    using l assms n [of 8] n [of 9] n [of 10] n [of 11] s
    by (simp add: pat_entries.simps be16_split pid13_split)
  have af: "\<not> af_bit b3" "b3 AND 0x0F = cc AND 0x0F" using cc_byte by (simp_all add: b3_def)
  have parse: "parse_pat_programs pkt = Some [(pf_target_program f, pid)]"
    using l h af n [of 0] s(1) len e
    by (simp add: parse_pat_programs_def ts_vals ts_payload_offset_def)
  show ?thesis
    unfolding single_program_pat_def
    using l h af crc parse by (simp add: ts_vals PAT_PID_def pid13_def)
qed

section \<open>The filter lets only the program through\<close>

definition pid_ok :: "u16 \<Rightarrow> bool" where
  "pid_ok pid \<longleftrightarrow> pid AND 0x1FFF = pid"

text \<open>The cached PAT is the one the current PMT PID calls for, and there is none without a PMT PID.\<close>

definition pf_inv :: "u16 \<Rightarrow> ts_program_filter \<Rightarrow> bool" where
  "pf_inv target f \<longleftrightarrow> pf_target_program f = target \<and>
     pf_cached_pat f = map_option (\<lambda>_. build_synthetic_pat f) (pf_target_pmt_pid f) \<and>
     (\<forall>p. pf_target_pmt_pid f = Some p \<longrightarrow> pid_ok p)"

lemma pid13_ok: "pid_ok (pid13 a b)"
  unfolding pid_ok_def
  by (rule bit_word_eqI)
     (auto simp: pid13_def bit_or_iff bit_push_bit_iff bit_ucast_iff bit_and_iff low_masks
        bit_mask_iff dest: bit_imp_le_length)

lemma pat_entries_pids: "pat_entries buf pos e = Some ps \<Longrightarrow> \<forall>(n, p) \<in> set ps. pid_ok p"
proof (induction buf pos e arbitrary: ps rule: pat_entries.induct)
  case (1 buf pos e)
  show ?case
    using 1(2) by (subst (asm) pat_entries.simps)
      (auto simp: bind_eq_Some_conv pid13_ok split: if_splits dest!: 1(1) [rotated 5])
qed

lemma parse_pat_pids: "parse_pat_programs pkt = Some ps \<Longrightarrow> \<forall>(n, p) \<in> set ps. pid_ok p"
  by (auto simp: parse_pat_programs_def bind_eq_Some_conv Let_def split: if_splits
      dest!: pat_entries_pids)

lemma build_cong:
  "pf_target_program f = pf_target_program g \<Longrightarrow> pf_target_pmt_pid f = pf_target_pmt_pid g \<Longrightarrow>
   pf_transport_stream_id f = pf_transport_stream_id g \<Longrightarrow> build_synthetic_pat f = build_synthetic_pat g"
  by (simp add: build_synthetic_pat_def synthetic_section_def)

lemma build_updates [simp]:
  "build_synthetic_pat (f\<lparr>pf_last_pmt_version := v\<rparr>) = build_synthetic_pat f"
  "build_synthetic_pat (f\<lparr>pf_allowed_pids := a\<rparr>) = build_synthetic_pat f"
  "build_synthetic_pat (f\<lparr>pf_synthetic_pat_cc := c\<rparr>) = build_synthetic_pat f"
  "build_synthetic_pat (f\<lparr>pf_target_pmt_pid_shared := b\<rparr>) = build_synthetic_pat f"
  "build_synthetic_pat (f\<lparr>pf_cached_pat := p\<rparr>) = build_synthetic_pat f"
  "build_synthetic_pat (f\<lparr>pf_last_pat_version := v\<rparr>) = build_synthetic_pat f"
  by (rule build_cong; simp)+

lemma apply_pat_inv:
  assumes "pf_inv t f" "\<forall>(n, p) \<in> set programs. pid_ok p"
  shows "pf_inv t (apply_pat f ts_id version programs)"
proof -
  define found where "found = map_option snd (List.find (\<lambda>(num, _). num = pf_target_program f) programs)"
  have ok: "pid_ok p" if "found = Some p" for p
    using that assms(2) by (fastforce simp: found_def find_Some_iff dest: nth_mem)
  show ?thesis
    using assms(1) ok
    unfolding apply_pat_def found_def [symmetric] Let_def
    by (auto simp: pf_inv_def intro: build_cong)
qed

lemma no_panic_pat_start: "length pkt = 188 \<Longrightarrow> no_panic (pat_section_start pkt)"
  by (simp add: pat_section_start_def no_panic_simps no_panic_payload_offset Let_def)

lemma pat_start_less: "pat_section_start pkt = Some (Some off) \<Longrightarrow> off + 8 \<le> TS_PACKET_SIZE"
  by (auto simp: pat_section_start_def bind_eq_Some_conv Let_def split: if_splits)

lemma handle_pat_inv:
  assumes "pf_inv t f" "length pkt = 188"
  shows "\<exists>f'. handle_pat f pkt = Some f' \<and> pf_inv t f'"
proof -
  obtain st where st: "pat_section_start pkt = Some st"
    using no_panicE [OF no_panic_pat_start [OF assms(2)]] by blast
  obtain ps where ps: "parse_pat_programs pkt = Some ps"
    using no_panicE [OF no_panic_parse_pat [of pkt]] assms(2) by auto
  show ?thesis
  proof (cases st)
    case None
    with st assms show ?thesis by (simp add: handle_pat_def)
  next
    case (Some off)
    have "off + 8 \<le> 188" using pat_start_less [of pkt off] st Some by simp
    then show ?thesis
      using st Some ps assms apply_pat_inv [OF assms(1) parse_pat_pids [OF ps]]
      by (simp add: handle_pat_def)
  qed
qed

lemma no_panic_es_pids: "e \<le> length pkt \<Longrightarrow> no_panic (es_pids_from pkt pos e)"
  by (induction pkt pos e rule: es_pids_from.induct)
     (subst es_pids_from.simps, simp add: no_panic_simps)

lemma no_panic_pmt_streams: "length pkt = 188 \<Longrightarrow> no_panic (extract_pmt_streams pkt prog shared)"
  by (auto simp: extract_pmt_streams_def no_panic_simps no_panic_pmt_offset_for Let_def
      intro!: no_panic_es_pids)

lemma handle_pmt_keeps:
  assumes "pf_inv t f" "length pkt = 188"
  shows "\<exists>f'. handle_pmt f pkt = Some f' \<and> pf_inv t f' \<and> pf_target_pmt_pid f' = pf_target_pmt_pid f"
proof -
  obtain r where r: "extract_pmt_streams pkt (pf_target_program f) (pf_target_pmt_pid_shared f) = Some r"
    using no_panicE [OF no_panic_pmt_streams [OF assms(2)]] by blast
  have "pf_inv t (f\<lparr>pf_last_pmt_version := v, pf_allowed_pids := a\<rparr>)" for v a
    using assms(1) by (auto simp: pf_inv_def intro: build_cong)
  then show ?thesis using r assms(1) by (auto simp: handle_pmt_def split: option.splits)
qed

text \<open>What one packet may put out, given the filter after it.\<close>

definition lawful :: "u16 \<Rightarrow> ts_program_filter \<Rightarrow> bytes \<Rightarrow> bytes \<Rightarrow> bool" where
  "lawful target g pkt o' \<longleftrightarrow>
     o' = [] \<or>
     (\<exists>pid cc. pf_target_pmt_pid g = Some pid \<and> single_program_pat target pid cc o') \<or>
     (o' = pkt \<and> (\<exists>pid. ts_pid pkt = Some pid \<and> pid \<noteq> PAT_PID \<and>
        (pf_target_pmt_pid g = Some pid \<or> pid \<in> pf_allowed_pids g)))"

lemma filter_one_lawful:
  assumes "pf_inv t f" "t \<noteq> 0" "length pkt = 188"
  shows "\<exists>f' o'. filter_one f pkt = Some (f', o') \<and> pf_inv t f' \<and> lawful t f' pkt o'"
proof -
  obtain pid where pid: "ts_pid pkt = Some pid" using assms(3) by (simp add: ts_vals)
  obtain pusi where pusi: "ts_pusi pkt = Some pusi" using assms(3) by (simp add: ts_vals)
  consider "pkt ! 0 \<noteq> TS_SYNC_BYTE" | "pkt ! 0 = TS_SYNC_BYTE" "pid = PAT_PID"
    | "pkt ! 0 = TS_SYNC_BYTE" "pid \<noteq> PAT_PID" by blast
  then show ?thesis
  proof cases
    case 1
    with assms show ?thesis by (simp add: filter_one_def lawful_def)
  next
    case 2
    obtain f1 where f1: "(if pusi then handle_pat f pkt else Some f) = Some f1" "pf_inv t f1"
      using handle_pat_inv [OF assms(1,3)] assms(1) by (cases pusi) auto
    show ?thesis
    proof (cases "pf_target_pmt_pid f1")
      case None
      then have "pf_cached_pat f1 = None" using f1(2) by (simp add: pf_inv_def)
      then have "filter_one f pkt = Some (f1, [])"
        using 2 assms(3) pid pusi f1(1) by (simp add: filter_one_def)
      then show ?thesis using f1(2) by (simp add: lawful_def)
    next
      case (Some p)
      let ?pat = "build_synthetic_pat f1"
      let ?o = "?pat[3 := (?pat ! 3 AND 0xF0) OR (pf_synthetic_pat_cc f1 AND 0x0F)]"
      let ?f = "f1\<lparr>pf_synthetic_pat_cc := (pf_synthetic_pat_cc f1 + 1) AND 0x0F\<rparr>"
      have c: "pf_cached_pat f1 = Some ?pat" using f1(2) Some by (simp add: pf_inv_def)
      have run: "filter_one f pkt = Some (?f, ?o)"
        using 2 assms(3) pid pusi f1(1) c by (simp add: filter_one_def)
      have "single_program_pat t p (pf_synthetic_pat_cc f1) ?o"
        using synthetic_pat_ok [of f1 p "pf_synthetic_pat_cc f1"] f1(2) assms(2) Some
        by (simp add: pf_inv_def pid_ok_def)
      then have "lawful t ?f pkt ?o" using Some by (auto simp: lawful_def)
      moreover have "pf_inv t ?f" using f1(2) by (auto simp: pf_inv_def intro: build_cong)
      ultimately show ?thesis using run by blast
    qed
  next
    case 3
    show ?thesis
    proof (cases "pf_target_pmt_pid f = Some pid")
      case True
      obtain f1 where f1: "(if pusi then handle_pmt f pkt else Some f) = Some f1" "pf_inv t f1"
          "pf_target_pmt_pid f1 = pf_target_pmt_pid f"
        using handle_pmt_keeps [OF assms(1,3)] assms(1) by (cases pusi) auto
      have "filter_one f pkt = Some (f1, pkt)"
        using 3 True assms(3) pid pusi f1(1) by (simp add: filter_one_def)
      moreover have "lawful t f1 pkt pkt" using True f1(3) pid 3 by (auto simp: lawful_def)
      ultimately show ?thesis using f1(2) by blast
    next
      case False
      then have "filter_one f pkt = Some (f, if pid \<in> pf_allowed_pids f then pkt else [])"
        using 3 assms(3) pid pusi by (simp add: filter_one_def eq_commute [of "Some pid"])
      moreover have "lawful t f pkt (if pid \<in> pf_allowed_pids f then pkt else [])"
        using pid 3 by (auto simp: lawful_def)
      ultimately show ?thesis using assms(1) by blast
    qed
  qed
qed

text \<open>The filter after each packet together with what the packet put out.\<close>

fun filter_trace :: "ts_program_filter \<Rightarrow> bytes list \<Rightarrow> (ts_program_filter \<times> bytes) list panics" where
  "filter_trace f [] = Some []"
| "filter_trace f (pkt # pkts) = do {
     r \<leftarrow> filter_one f pkt;
     rest \<leftarrow> filter_trace (fst r) pkts;
     Some (r # rest) }"

lemma filter_trace_lawful:
  assumes "pf_inv t f" "t \<noteq> 0" "\<forall>pkt\<in>set pkts. length pkt = 188"
  shows "\<exists>tr f'. filter_trace f pkts = Some tr \<and> length tr = length pkts \<and>
     filter_loop f pkts out = Some (f', out @ concat (map snd tr)) \<and>
     (\<forall>i < length pkts. lawful t (fst (tr ! i)) (pkts ! i) (snd (tr ! i)))"
  using assms(1,3)
proof (induction pkts arbitrary: f out)
  case (Cons pkt pkts)
  obtain f1 o1 where s: "filter_one f pkt = Some (f1, o1)" "pf_inv t f1" "lawful t f1 pkt o1"
    using filter_one_lawful [OF Cons.prems(1) assms(2), of pkt] Cons.prems(2) by auto
  obtain tr f' where r: "filter_trace f1 pkts = Some tr" "length tr = length pkts"
      "filter_loop f1 pkts (out @ o1) = Some (f', (out @ o1) @ concat (map snd tr))"
      "\<forall>i < length pkts. lawful t (fst (tr ! i)) (pkts ! i) (snd (tr ! i))"
    using Cons.IH [OF s(2), of "out @ o1"] Cons.prems(2) by auto
  have "lawful t (fst (((f1, o1) # tr) ! i)) ((pkt # pkts) ! i) (snd (((f1, o1) # tr) ! i))"
    if "i < length (pkt # pkts)" for i
    using that s(3) r(4) by (cases i) simp_all
  then show ?case using s(1) r(1-3) by (intro exI [of _ "(f1, o1) # tr"] exI [of _ f']) simp
qed simp


definition es_packet :: "u8 \<Rightarrow> bytes" where
  "es_packet lo = [0x47, 0x01, lo, 0x10] @ replicate 184 7"


text \<open>An RTP packet with a header extension: the filter counts the extension as payload, reads the
  transport packets at the wrong offset and drops an allowed packet that the plain form keeps.\<close>

definition rtp_with_extension :: bytes where
  "rtp_with_extension = [0x90, 33] @ replicate 10 0 @ [0xBE, 0xDE, 0, 1, 1, 2, 3, 4] @ es_packet 0"

lemma extension_header_drops_the_packet:
  "map_option snd (filter_packet ((pf_new 5)\<lparr>pf_allowed_pids := {0x100}\<rparr>) rtp_with_extension False) = Some None"
  "strip_rtp_header rtp_with_extension False = Some (es_packet 0)"
  "map_option snd (filter_packet ((pf_new 5)\<lparr>pf_allowed_pids := {0x100}\<rparr>) (es_packet 0) True) =
     Some (Some (es_packet 0))"
  by code_simp+

end
