(* ===== verification/PmtEdit.thy ===== *)
theory PmtEdit
  imports TsDescriptors
begin

text \<open>
  PMT editing of \<open>src/src/engine/ts_pmt_edit.rs\<close>: the strict section parser, the descriptor
  policies for re-encoded streams, the rebuilding of a section from an edit plan, and the output
  version derived from content. Ranges of the source are pairs of bounds; the functions that index
  a section are written with panics, and the byte reads of \<open>descriptors\<close> stand behind the length
  tests of the source.
\<close>

section \<open>The view of a PMT\<close>

record pmt_es =
  es_stream_type :: u8
  es_pid :: u16
  es_range :: "nat \<times> nat"

record pmt_view =
  pv_section :: bytes
  pv_version :: u8
  pv_pcr_pid :: u16
  pv_program_info :: "nat \<times> nat"
  pv_es :: "pmt_es list"

definition es_info :: "pmt_view \<Rightarrow> pmt_es \<Rightarrow> bytes panics" where
  "es_info v es = slice (pv_section v) (fst (es_range es)) (snd (es_range es))"

definition program_info_bytes :: "pmt_view \<Rightarrow> bytes panics" where
  "program_info_bytes v = slice (pv_section v) (fst (pv_program_info v)) (snd (pv_program_info v))"

text \<open>The \<open>while\<close> over the stream entries; the inner \<open>None\<close> is the early \<open>return None\<close>.\<close>

function parse_es :: "bytes \<Rightarrow> nat \<Rightarrow> nat \<Rightarrow> pmt_es list option panics" where
  "parse_es sec body_end pos =
     (if pos < body_end then
        if pos + 5 > body_end then Some None
        else do {
          st \<leftarrow> idx sec pos;
          a \<leftarrow> idx sec (pos + 1);
          b \<leftarrow> idx sec (pos + 2);
          c \<leftarrow> idx sec (pos + 3);
          d \<leftarrow> idx sec (pos + 4);
          let info_end = pos + 5 + len12 c d in
          if info_end > body_end then Some None
          else do {
            rest \<leftarrow> parse_es sec body_end info_end;
            Some (map_option
              (\<lambda>es. \<lparr>es_stream_type = st, es_pid = pid13 a b, es_range = (pos + 5, info_end)\<rparr> # es)
              rest) } }
      else Some (Some []))"
  by pat_completeness auto
termination by (relation "measure (\<lambda>(sec, body_end, pos). body_end - pos)") auto

declare parse_es.simps [simp del]

definition parse_pmt :: "bytes \<Rightarrow> pmt_view option panics" where
  "parse_pmt sec =
     (if length sec < 16 then Some None
      else do {
        b0 \<leftarrow> idx sec 0;
        b1 \<leftarrow> idx sec 1;
        if b0 \<noteq> 0x02 \<or> b1 AND 0x80 = 0 then Some None
        else do {
          b2 \<leftarrow> idx sec 2;
          let section_length = len12 b1 b2 in
          if \<not> (13 \<le> section_length \<and> section_length \<le> PSI_MAX_SECTION_LENGTH) \<or>
             3 + section_length > length sec then Some None
          else do {
            let body_end = 3 + section_length - 4;
            b5 \<leftarrow> idx sec 5;
            b8 \<leftarrow> idx sec 8;
            b9 \<leftarrow> idx sec 9;
            b10 \<leftarrow> idx sec 10;
            b11 \<leftarrow> idx sec 11;
            let info_end = 12 + len12 b10 b11 in
            if info_end > body_end then Some None
            else do {
              es \<leftarrow> parse_es sec body_end info_end;
              Some (map_option
                (\<lambda>es. \<lparr>pv_section = sec, pv_version = drop_bit 1 b5 AND 0x1F,
                   pv_pcr_pid = pid13 b8 b9, pv_program_info = (12, info_end), pv_es = es\<rparr>)
                es) } } } })"

definition long_form_pmt :: "bytes \<Rightarrow> bool" where
  "long_form_pmt s \<longleftrightarrow> length s \<ge> 5 \<and> s ! 0 = 0x02 \<and> s ! 1 AND 0x80 \<noteq> 0"

definition is_pmt_for :: "bytes \<Rightarrow> u16 \<Rightarrow> bool" where
  "is_pmt_for sec program_number \<longleftrightarrow>
     length sec \<ge> 5 \<and> sec ! 0 = 0x02 \<and> sec ! 1 AND 0x80 \<noteq> 0 \<and>
     be16 (sec ! 3) (sec ! 4) = program_number"

text \<open>\<open>Iterator::position\<close>.\<close>

fun position :: "('a \<Rightarrow> bool) \<Rightarrow> 'a list \<Rightarrow> nat option" where
  "position p [] = None"
| "position p (x # xs) = (if p x then Some 0 else map_option Suc (position p xs))"

definition pmt_index :: "bytes list \<Rightarrow> u16 \<Rightarrow> bool \<Rightarrow> nat option" where
  "pmt_index sections program pid_shared =
     (case position (\<lambda>s. is_pmt_for s program) sections of
        Some i \<Rightarrow> Some i
      | None \<Rightarrow> if pid_shared then None else position long_form_pmt sections)"

function descriptors_from :: "bytes \<Rightarrow> nat \<Rightarrow> (u8 \<times> bytes) list" where
  "descriptors_from ds pos =
     (if pos + 2 > length ds then []
      else
        (let len = unat (ds ! (pos + 1)) in
         if pos + 2 + len > length ds then []
         else (ds ! pos, take len (drop (pos + 2) ds)) # descriptors_from ds (pos + (2 + len))))"
  by pat_completeness auto
termination by (relation "measure (\<lambda>(ds, pos). length ds - pos)") auto

declare descriptors_from.simps [simp del]

definition descriptors :: "bytes \<Rightarrow> (u8 \<times> bytes) list" where
  "descriptors ds = descriptors_from ds 0"

section \<open>Signalling flavour\<close>

datatype ts_flavour = Dvb | Atsc

text \<open>The stateful \<open>any\<close> of rule 2: a private data specifier silences the tags behind it.\<close>

definition starts_with :: "bytes \<Rightarrow> bytes \<Rightarrow> bool" where
  "starts_with body prefix \<longleftrightarrow> take (length prefix) body = prefix"

fun atsc_tags_in :: "bool \<Rightarrow> (u8 \<times> bytes) list \<Rightarrow> bool" where
  "atsc_tags_in pds [] \<longleftrightarrow> False"
| "atsc_tags_in pds ((t, b) # ds) \<longleftrightarrow>
     (let pds = (pds \<or> t = 0x5F) in
      (\<not> pds \<and> t \<in> {0x81, 0x86, 0xCC, 0xA3}) \<or>
      (t = 0x05 \<and> starts_with b (ascii4 CHR ''G'' CHR ''A'' CHR ''9'' CHR ''4'')) \<or>
      atsc_tags_in pds ds)"

fun map_panics :: "('a \<Rightarrow> 'b panics) \<Rightarrow> 'a list \<Rightarrow> 'b list panics" where
  "map_panics f [] = Some []"
| "map_panics f (x # xs) = do { y \<leftarrow> f x; ys \<leftarrow> map_panics f xs; Some (y # ys) }"

definition detect_flavour :: "pmt_view \<Rightarrow> ts_flavour panics" where
  "detect_flavour v = do {
     infos \<leftarrow> map_panics (es_info v) (pv_es v);
     if \<exists>(es, info) \<in> set (zip (pv_es v) infos).
          es_stream_type es = 0x06 \<and>
          (\<exists>(t, b) \<in> set (descriptors info). t \<in> {0x6A, 0x7A, 0x7C}) then Some Dvb
     else do {
       prog \<leftarrow> program_info_bytes v;
       let loops = prog # infos;
           atsc_st = (\<exists>e \<in> set (pv_es v). es_stream_type e \<in> {0x81, 0x87});
           atsc_tags = (\<exists>l \<in> set loops. atsc_tags_in False (descriptors l)) in
       if atsc_st \<or> atsc_tags then Some Atsc
       else
         (let dvb_tags = (\<exists>l \<in> set loops. \<exists>(t, b) \<in> set (descriptors l).
                t \<in> {0x45, 0x46, 0x52, 0x56, 0x59, 0x5F, 0x66, 0x6A, 0x7A, 0x7B, 0x7C, 0x7F})
          in Some (if dvb_tags then Dvb else Atsc)) } }"

section \<open>Descriptor policies\<close>

datatype audio_target = Aac | Mp2 (mp2_lsf: bool) | Ac3Target (ac3_flavour: ts_flavour)

fun target_stream_type :: "audio_target \<Rightarrow> u8" where
  "target_stream_type Aac = 0x0F"
| "target_stream_type (Mp2 False) = 0x03"
| "target_stream_type (Mp2 True) = 0x04"
| "target_stream_type (Ac3Target Dvb) = 0x06"
| "target_stream_type (Ac3Target Atsc) = 0x81"

datatype es_edit = Audio u16 audio_target | Video u16 u8 | Repid u16 u16

fun edit_pid :: "es_edit \<Rightarrow> u16" where
  "edit_pid (Audio pid target) = pid"
| "edit_pid (Video pid stream_type) = pid"
| "edit_pid (Repid pid new_pid) = pid"

fun re_encodes :: "es_edit \<Rightarrow> bool" where
  "re_encodes (Repid pid new_pid) = False"
| "re_encodes _ = True"

definition AC3_REGISTRATION :: bytes where
  "AC3_REGISTRATION = [0x05, 0x04] @ ascii4 CHR ''A'' CHR ''C'' CHR ''-'' CHR ''3''"

definition DVB_AC3_DESCRIPTOR :: bytes where
  "DVB_AC3_DESCRIPTOR = [0x6A, 0x01, 0x00]"

definition push_desc :: "bytes \<Rightarrow> u8 \<Rightarrow> bytes \<Rightarrow> bytes" where
  "push_desc out tag body = out @ [tag, of_nat (length body)] @ body"

record audio_loop =
  al_out :: bytes
  al_pds :: bool
  al_has_ac3_reg :: bool

text \<open>One round of the \<open>match tag\<close>, in the order of its arms.\<close>

definition audio_step :: "audio_target \<Rightarrow> bool \<Rightarrow> audio_loop \<Rightarrow> u8 \<times> bytes \<Rightarrow> audio_loop" where
  "audio_step target opus l d =
     (let tag = fst d; body = snd d; keep = l\<lparr>al_out := push_desc (al_out l) tag body\<rparr> in
      if tag = 0x5F then keep\<lparr>al_pds := True\<rparr>
      else if tag \<in> {0x0E, 0x09, 0x6A, 0x7A, 0x7B} then l
      else if tag = 0x03 then
        (case target of
           Mp2 lsf \<Rightarrow> l\<lparr>al_out := al_out l @ [0x03, 0x01, if lsf then 0x27 else 0x67]\<rparr>
         | _ \<Rightarrow> l)
      else if tag = 0x7C then
        (if target = Aac then l\<lparr>al_out := al_out l @ [0x7C, 0x01, 0xFE]\<rparr> else l)
      else if tag = 0x7F \<and> body \<noteq> [] \<and> hd body \<in> {0x0E, 0x0F, 0x15, 0x21} then l
      else if tag = 0x7F \<and> opus \<and> body \<noteq> [] \<and> hd body = 0x80 then l
      else if tag = 0x05 then
        (if (case target of Ac3Target _ \<Rightarrow> True | _ \<Rightarrow> False) \<and>
            starts_with body (ascii4 CHR ''A'' CHR ''C'' CHR ''-'' CHR ''3'')
         then keep\<lparr>al_has_ac3_reg := True\<rparr> else l)
      else if tag \<in> {0x81, 0xCC, 0xAC} \<and> \<not> al_pds l then l
      else keep)"

definition audio_descriptors :: "bytes \<Rightarrow> audio_target \<Rightarrow> bool \<Rightarrow> bytes" where
  "audio_descriptors src target with_additions =
     (let opus = (\<exists>(tag, body) \<in> set (descriptors src).
            tag = 0x05 \<and> starts_with body (ascii4 CHR ''O'' CHR ''p'' CHR ''u'' CHR ''s''));
          l = foldl (audio_step target opus)
                \<lparr>al_out = [], al_pds = False, al_has_ac3_reg = False\<rparr> (descriptors src)
      in case target of
           Ac3Target flavour \<Rightarrow>
             if with_additions then
               al_out l @ (if al_has_ac3_reg l then [] else AC3_REGISTRATION)
                 @ (if flavour = Dvb then DVB_AC3_DESCRIPTOR else [])
             else al_out l
         | _ \<Rightarrow> al_out l)"

definition video_descriptors :: "bytes \<Rightarrow> u8 \<Rightarrow> bytes" where
  "video_descriptors src stream_type =
     (let target_ident = (if stream_type = 0x24
                          then Some (ascii4 CHR ''H'' CHR ''E'' CHR ''V'' CHR ''C'') else None)
      in foldl
           (\<lambda>out (tag, body).
              if tag \<in> {0x02, 0x1B, 0x28, 0x2A, 0x38, 0x0E, 0x09} then out
              else if tag = 0x05 \<and>
                   \<not> (case target_ident of None \<Rightarrow> False | Some i \<Rightarrow> starts_with body i)
              then out
              else push_desc out tag body)
           [] (descriptors src))"

definition program_descriptors :: "bytes \<Rightarrow> bytes" where
  "program_descriptors src =
     foldl (\<lambda>out (tag, body).
              if tag \<notin> {0x0C, 0x0E, 0x10, 0x11} then push_desc out tag body else out)
       [] (descriptors src)"

section \<open>Rebuilding a section\<close>

record pmt_edit =
  pe_es :: "es_edit list"
  pe_pcr_pid :: "u16 option"
  pe_no_additions :: bool

definition pmt_edit_default :: pmt_edit where
  "pmt_edit_default = \<lparr>pe_es = [], pe_pcr_pid = None, pe_no_additions = False\<rparr>"

definition push_loop_len :: "bytes \<Rightarrow> u8 \<Rightarrow> nat \<Rightarrow> bytes" where
  "push_loop_len body reserved_src len =
     body @ [(reserved_src AND 0xF0) OR (of_nat (len div 256) AND 0x0F), of_nat len]"

text \<open>The \<open>match e\<close> of one stream: its stream type, PID and descriptor loop after the edit.\<close>

definition edited :: "pmt_edit \<Rightarrow> u8 \<Rightarrow> u16 \<Rightarrow> bytes \<Rightarrow> u8 \<times> u16 \<times> bytes" where
  "edited edit st pid info =
     (case find (\<lambda>e. edit_pid e = pid) (pe_es edit) of
        None \<Rightarrow> (st, pid, info)
      | Some (Repid _ new_pid) \<Rightarrow> (st, new_pid, info)
      | Some (Audio _ target) \<Rightarrow>
          (let target = (if pe_no_additions edit
                         then (case target of Ac3Target _ \<Rightarrow> Ac3Target Atsc | t \<Rightarrow> t)
                         else target)
           in (target_stream_type target, pid,
               audio_descriptors info target (\<not> pe_no_additions edit)))
      | Some (Video _ stream_type) \<Rightarrow> (stream_type, pid, video_descriptors info stream_type))"

definition push_entry :: "pmt_edit \<Rightarrow> pmt_view \<Rightarrow> bytes \<Rightarrow> pmt_es \<Rightarrow> bytes panics" where
  "push_entry edit v body es = do {
     entry \<leftarrow> slice (pv_section v) (fst (es_range es) - 5) (fst (es_range es));
     info \<leftarrow> es_info v es;
     let (stream_type, pid, info) = edited edit (es_stream_type es) (es_pid es) info in do {
     e1 \<leftarrow> idx entry 1;
     e3 \<leftarrow> idx entry 3;
     let body = body @ [stream_type, (e1 AND 0xE0) OR (ucast (drop_bit 8 pid) AND 0x1F), ucast pid];
         body = push_loop_len body e3 (length info) in
     Some (body @ info) } }"

fun foldl_panics :: "('s \<Rightarrow> 'a \<Rightarrow> 's panics) \<Rightarrow> 's \<Rightarrow> 'a list \<Rightarrow> 's panics" where
  "foldl_panics f s [] = Some s"
| "foldl_panics f s (x # xs) = do { s \<leftarrow> f s x; foldl_panics f s xs }"

definition rebuild_pmt_section :: "bytes \<Rightarrow> pmt_edit \<Rightarrow> bytes option panics" where
  "rebuild_pmt_section sec edit = do {
     view \<leftarrow> parse_pmt sec;
     case view of None \<Rightarrow> Some None
     | Some v \<Rightarrow> do {
         let any_reencode = (\<exists>es \<in> set (pv_es v). \<exists>e \<in> set (pe_es edit).
               edit_pid e = es_pid es \<and> re_encodes e);
         body \<leftarrow> slice sec 3 8;
         let pcr_pid = (case pe_pcr_pid edit of Some p \<Rightarrow> p | None \<Rightarrow> pv_pcr_pid v);
         b8 \<leftarrow> idx sec 8;
         let body = body @ [(b8 AND 0xE0) OR (ucast (drop_bit 8 pcr_pid) AND 0x1F), ucast pcr_pid];
         info \<leftarrow> program_info_bytes v;
         let program_info = (if any_reencode then program_descriptors info else info);
         b10 \<leftarrow> idx sec 10;
         let body = push_loop_len body b10 (length program_info) @ program_info;
         body \<leftarrow> foldl_panics (push_entry edit v) body (pv_es v);
         let section_length = length body + 4 in
         if section_length > PSI_MAX_SECTION_LENGTH then Some None
         else do {
           b1 \<leftarrow> idx sec 1;
           let out = [0x02, (b1 AND 0xF0) OR (of_nat (section_length div 256) AND 0x0F),
                      of_nat section_length] @ body in
           Some (Some (out @ to_be_bytes32 (mpeg2_crc32 out))) } } }"

definition recompute_crc :: "bytes \<Rightarrow> bytes panics" where
  "recompute_crc sec =
     (let n = length sec in
      if n < 4 then Some sec
      else do {
        covered \<leftarrow> slice sec 0 (n - 4);
        put_slice sec (n - 4) n (to_be_bytes32 (mpeg2_crc32 covered)) })"

section \<open>Output version\<close>

record out_version =
  ov_version :: u8
  ov_last_body :: "bytes option"
  ov_pending_bump :: bool

definition ov_new :: out_version where
  "ov_new = \<lparr>ov_version = 1, ov_last_body = None, ov_pending_bump = False\<rparr>"

definition ov_bump :: "out_version \<Rightarrow> out_version" where
  "ov_bump ov = ov\<lparr>ov_pending_bump := True\<rparr>"

definition has_stamped :: "out_version \<Rightarrow> bool" where
  "has_stamped ov \<longleftrightarrow> ov_last_body ov \<noteq> None"

definition ov_stamp :: "out_version \<Rightarrow> bytes \<Rightarrow> (out_version \<times> bytes) panics" where
  "ov_stamp ov sec =
     (if length sec < 12 then Some (ov, sec)
      else do {
        body \<leftarrow> slice sec 0 (length sec - 4);
        b5 \<leftarrow> idx body 5;
        body \<leftarrow> put body 5 (b5 AND 0xC1);
        let changed = (case ov_last_body ov of None \<Rightarrow> False | Some b \<Rightarrow> b \<noteq> body);
        let ov = (if changed \<or> ov_pending_bump ov
                 then ov\<lparr>ov_version := (ov_version ov + 1) AND 0x1F, ov_pending_bump := False\<rparr>
                 else ov);
        let ov = ov\<lparr>ov_last_body := Some body\<rparr>;
        s5 \<leftarrow> idx sec 5;
        sec \<leftarrow> put sec 5 ((s5 AND 0xC1) OR push_bit 1 (ov_version ov));
        sec \<leftarrow> recompute_crc sec;
        Some (ov, sec) })"

end
