(* ===== verification/PmtEditFacts.thy ===== *)
theory PmtEditFacts
  imports PmtEdit
begin

text \<open>
  Facts on PMT editing: the byte layout of a PMT section as an encoder, the parser as its inverse,
  and the rebuilt section as the encoding of the edited view.
\<close>

section \<open>Fields of a PMT\<close>

definition pid_bytes :: "u8 \<Rightarrow> u16 \<Rightarrow> bytes" where
  "pid_bytes r pid = [(r AND 0xE0) OR (ucast (drop_bit 8 pid) AND 0x1F), ucast pid]"

definition len_bytes :: "u8 \<Rightarrow> nat \<Rightarrow> bytes" where
  "len_bytes r n = [(r AND 0xF0) OR (of_nat (n div 256) AND 0x0F), of_nat n]"

lemma pid13_edited:
  "pid13 ((r AND 0xE0) OR (ucast (drop_bit 8 pid) AND 0x1F)) (ucast pid) = pid AND 0x1FFF"
proof (rule bit_word_eqI)
  fix n assume n: "n < LENGTH(16)"
  consider "n < 8" | "8 \<le> n \<and> n < 13" | "13 \<le> n" by linarith
  then show "bit (pid13 ((r AND 0xE0) OR (ucast (drop_bit 8 pid) AND 0x1F)) (ucast pid)) n
      = bit (pid AND 0x1FFF) n"
    using n
    by cases (auto simp: pid13_def mask_splits low_masks bit_simps dest: bit_imp_le_length)
qed

lemma len12_written:
  assumes "n < 4096"
  shows "len12 ((r AND 0xF0) OR (of_nat (n div 256) AND 0x0F)) (of_nat n) = n"
proof -
  have "be16 (((r AND 0xF0) OR (of_nat (n div 256) AND 0x0F)) AND 0x0F) (of_nat n) =
      take_bit 12 (of_nat n)"
  proof (rule bit_word_eqI)
    fix k assume k: "k < LENGTH(16)"
    consider "k < 8" | "8 \<le> k \<and> k < 12" | "12 \<le> k" by linarith
    then show "bit (be16 (((r AND 0xF0) OR (of_nat (n div 256) AND 0x0F)) AND 0x0F) (of_nat n)) k
        = bit (take_bit 12 (of_nat n) :: u16) k"
      using k
      by cases
         (auto simp: be16_def mask_splits low_masks bit_simps drop_bit_eq_div [of 8, symmetric, simplified]
            dest: bit_imp_le_length)
  qed
  also have "unat (take_bit 12 (of_nat n :: u16)) = n"
    using assms by (simp add: unsigned_take_bit_eq unat_of_nat take_bit_nat_eq_self)
  finally show ?thesis by (simp add: len12_def)
qed

section \<open>Stream entries\<close>

text \<open>One entry of the stream loop: stream type, PID and descriptor loop, with the reserved bits
  of the two fields that have some.\<close>

record pmt_entry =
  en_stream_type :: u8
  en_reserved_pid :: u8
  en_pid :: u16
  en_reserved_len :: u8
  en_info :: bytes

definition encode_entry :: "pmt_entry \<Rightarrow> bytes" where
  "encode_entry e =
     [en_stream_type e] @ pid_bytes (en_reserved_pid e) (en_pid e)
       @ len_bytes (en_reserved_len e) (length (en_info e)) @ en_info e"

definition encode_entries :: "pmt_entry list \<Rightarrow> bytes" where
  "encode_entries es = concat (map encode_entry es)"

lemma length_encode_entry [simp]: "length (encode_entry e) = 5 + length (en_info e)"
  by (simp add: encode_entry_def pid_bytes_def len_bytes_def)

text \<open>What a parsed entry says: stream type, PID and descriptor bytes.\<close>

definition es_bytes :: "bytes \<Rightarrow> pmt_es \<Rightarrow> bytes" where
  "es_bytes sec es = take (snd (es_range es) - fst (es_range es)) (drop (fst (es_range es)) sec)"

definition stream_of :: "bytes \<Rightarrow> pmt_es \<Rightarrow> u8 \<times> u16 \<times> bytes" where
  "stream_of sec es = (es_stream_type es, es_pid es, es_bytes sec es)"

definition entry_stream :: "pmt_entry \<Rightarrow> u8 \<times> u16 \<times> bytes" where
  "entry_stream e = (en_stream_type e, en_pid e AND 0x1FFF, en_info e)"

lemma encoded_entry:
  assumes "length (en_info e) < 4096" "drop pos buf = encode_entry e @ rest"
  shows "pos + 5 + length (en_info e) \<le> length buf" "buf ! pos = en_stream_type e"
    "pid13 (buf ! (pos + 1)) (buf ! (pos + 2)) = en_pid e AND 0x1FFF"
    "len12 (buf ! (pos + 3)) (buf ! (pos + 4)) = length (en_info e)"
    "take (length (en_info e)) (drop (pos + 5) buf) = en_info e"
    "drop (pos + 5 + length (en_info e)) buf = rest"
proof -
  have l: "length buf - pos = 5 + length (en_info e) + length rest"
    using arg_cong [OF assms(2), of length] by simp
  then show "pos + 5 + length (en_info e) \<le> length buf" by simp
  have n: "buf ! (pos + i) = encode_entry e ! i" if "i < 5" for i
    by (rule drop_nth [OF assms(2)]) (use that in simp)
  show "buf ! pos = en_stream_type e" using n [of 0] by (simp add: encode_entry_def)
  show "pid13 (buf ! (pos + 1)) (buf ! (pos + 2)) = en_pid e AND 0x1FFF"
    using n [of 1] n [of 2] by (simp add: encode_entry_def pid_bytes_def pid13_edited)
  show "len12 (buf ! (pos + 3)) (buf ! (pos + 4)) = length (en_info e)"
    using n [of 3] n [of 4] assms(1)
    by (simp add: encode_entry_def pid_bytes_def len_bytes_def len12_written)
  have d: "drop (pos + k) buf = drop k (encode_entry e @ rest)" for k
    using assms(2) by (metis drop_drop add.commute)
  show "take (length (en_info e)) (drop (pos + 5) buf) = en_info e"
    unfolding d by (simp add: encode_entry_def pid_bytes_def len_bytes_def)
  show "drop (pos + 5 + length (en_info e)) buf = rest"
    using d [of "5 + length (en_info e)"] by (simp add: add.assoc)
qed

lemma parse_es_encoded:
  assumes "\<forall>e\<in>set es. length (en_info e) < 4096"
    and "drop pos buf = encode_entries es @ rest"
  shows "\<exists>xs. parse_es buf (pos + length (encode_entries es)) pos = Some (Some xs) \<and>
     map (stream_of buf) xs = map entry_stream es"
  using assms
proof (induction es arbitrary: pos)
  case Nil
  then show ?case by (subst parse_es.simps) (simp add: encode_entries_def)
next
  case (Cons e es)
  have i: "length (en_info e) < 4096" using Cons.prems by simp
  have d: "drop pos buf = encode_entry e @ encode_entries es @ rest"
    using Cons.prems by (simp add: encode_entries_def)
  note h = encoded_entry [OF i d]
  let ?e = "pos + 5 + length (en_info e)"
  have b: "pos + length (encode_entries (e # es)) = ?e + length (encode_entries es)"
    by (simp add: encode_entries_def)
  obtain xs where xs: "parse_es buf (?e + length (encode_entries es)) ?e = Some (Some xs)"
      "map (stream_of buf) xs = map entry_stream es"
    using Cons.IH [OF _ h(6)] Cons.prems by auto
  let ?x = "\<lparr>es_stream_type = en_stream_type e, es_pid = en_pid e AND 0x1FFF, es_range = (pos + 5, ?e)\<rparr>"
  have "parse_es buf (pos + length (encode_entries (e # es))) pos = Some (Some (?x # xs))"
    unfolding b using h(1-4) xs(1) by (subst parse_es.simps) (simp add: Let_def)
  moreover have "stream_of buf ?x = entry_stream e"
    using h(5) by (simp add: stream_of_def entry_stream_def es_bytes_def)
  ultimately show ?case using xs(2) by auto
qed

text \<open>A parsed entry lies inside the body.\<close>

definition es_inside :: "nat \<Rightarrow> pmt_es \<Rightarrow> bool" where
  "es_inside body_end es \<longleftrightarrow> 5 \<le> fst (es_range es) \<and> fst (es_range es) \<le> snd (es_range es) \<and>
     snd (es_range es) \<le> body_end"

lemma parse_es_sound:
  assumes "body_end \<le> length sec"
  shows "\<exists>r. parse_es sec body_end pos = Some r \<and> (\<forall>xs. r = Some xs \<longrightarrow> (\<forall>x\<in>set xs. es_inside body_end x))"
proof (induction "body_end - pos" arbitrary: pos rule: less_induct)
  case less
  let ?e = "pos + 5 + len12 (sec ! (pos + 3)) (sec ! (pos + 4))"
  show ?case
  proof (cases "pos + 5 \<le> body_end")
    case True
    then have i: "pos + 4 < length sec" using assms by simp
    have "body_end - ?e < body_end - pos" using True by simp
    from less [OF this] obtain r where r: "parse_es sec body_end ?e = Some r"
        "\<forall>xs. r = Some xs \<longrightarrow> (\<forall>x\<in>set xs. es_inside body_end x)" by blast
    show ?thesis
      using True i r
      by (subst parse_es.simps) (cases r; auto simp: Let_def es_inside_def)
  next
    case False
    then show ?thesis by (subst parse_es.simps) auto
  qed
qed

section \<open>The section\<close>

text \<open>A PMT section in front of its CRC.\<close>

definition pmt_body :: "bytes \<Rightarrow> u8 \<Rightarrow> u16 \<Rightarrow> u8 \<Rightarrow> bytes \<Rightarrow> pmt_entry list \<Rightarrow> bytes" where
  "pmt_body five r8 pcr r10 info es =
     five @ pid_bytes r8 pcr @ len_bytes r10 (length info) @ info @ encode_entries es"

definition pmt_head :: "u8 \<Rightarrow> bytes \<Rightarrow> bytes" where
  "pmt_head r1 body = [0x02] @ len_bytes r1 (length body + 4) @ body"

definition pmt_bytes :: "u8 \<Rightarrow> bytes \<Rightarrow> bytes" where
  "pmt_bytes r1 body = pmt_head r1 body @ to_be_bytes32 (mpeg2_crc32 (pmt_head r1 body))"

lemma crc_pmt_bytes: "mpeg2_crc32 (pmt_bytes r1 body) = 0"
  by (simp add: pmt_bytes_def crc_appended)

lemma length_pmt_bytes: "length (pmt_bytes r1 body) = 7 + length body"
  by (simp add: pmt_bytes_def pmt_head_def len_bytes_def)

lemma long_form_kept: "((r :: u8) AND 0xF0 OR (x AND 0x0F)) AND 0x80 = r AND 0x80"
proof (rule bit_word_eqI)
  fix n assume "n < LENGTH(8)"
  then have n: "n < 8" by simp
  show "bit ((r AND 0xF0 OR (x AND 0x0F)) AND 0x80) n = bit (r AND 0x80) n"
    using less_8_cases [OF n] by (elim disjE) (simp_all add: bit_simps)
qed

lemma entry_info_short:
  "length (encode_entries es) \<le> n \<Longrightarrow> \<forall>e\<in>set es. length (en_info e) \<le> n"
  by (induction es) (auto simp: encode_entries_def)

theorem parse_pmt_encoded:
  assumes "length five = 5" "r1 AND 0x80 \<noteq> 0" "length (pmt_body five r8 pcr r10 info es) + 4 \<le> 1021"
  defines "sec \<equiv> pmt_bytes r1 (pmt_body five r8 pcr r10 info es)"
  shows "\<exists>v. parse_pmt sec = Some (Some v) \<and> pv_section v = sec \<and>
     pv_version v = drop_bit 1 (five ! 2) AND 0x1F \<and> pv_pcr_pid v = pcr AND 0x1FFF \<and>
     program_info_bytes v = Some info \<and> map (stream_of sec) (pv_es v) = map entry_stream es"
proof -
  let ?body = "pmt_body five r8 pcr r10 info es"
  obtain a b c d e where f: "five = [a, b, c, d, e]"
    using assms(1) by (auto simp: eval_nat_numeral length_Suc_conv)
  have lb: "length ?body = 9 + length info + length (encode_entries es)"
    by (simp add: f pmt_body_def pid_bytes_def len_bytes_def)
  have il: "length info < 4096" and ls: "length ?body + 4 < 4096" using assms(3) lb by auto
  have sec: "sec = [0x02] @ len_bytes r1 (length ?body + 4) @ [a, b, c, d, e] @ pid_bytes r8 pcr
      @ len_bytes r10 (length info) @ info @ encode_entries es @ to_be_bytes32 (mpeg2_crc32 (pmt_head r1 ?body))"
    by (simp add: sec_def pmt_bytes_def pmt_head_def) (simp add: pmt_body_def f)
  have l: "length sec = 7 + length ?body" by (simp add: sec_def length_pmt_bytes)
  have n: "sec ! 0 = 0x02" "sec ! 5 = c" "sec ! 1 AND 0x80 = r1 AND 0x80"
      "len12 (sec ! 1) (sec ! 2) = length ?body + 4" "pid13 (sec ! 8) (sec ! 9) = pcr AND 0x1FFF"
      "len12 (sec ! 10) (sec ! 11) = length info"
    using len12_written [OF il, of r10] len12_written [OF ls, of r1]
    by (simp_all add: sec len_bytes_def pid_bytes_def pid13_edited long_form_kept)
  have d: "drop (12 + length info) sec = encode_entries es @ to_be_bytes32 (mpeg2_crc32 (pmt_head r1 ?body))"
  proof -
    have "drop 12 sec = info @ encode_entries es @ to_be_bytes32 (mpeg2_crc32 (pmt_head r1 ?body))"
      by (simp add: sec len_bytes_def pid_bytes_def)
    moreover have "drop (12 + length info) sec = drop (length info) (drop 12 sec)"
      by (simp add: add.commute)
    ultimately show ?thesis by (simp del: drop_drop)
  qed
  have es: "\<forall>e\<in>set es. length (en_info e) < 4096"
    using entry_info_short [of es 1021] lb assms(3) by fastforce
  obtain xs where xs: "parse_es sec (12 + length info + length (encode_entries es)) (12 + length info) = Some (Some xs)"
      "map (stream_of sec) xs = map entry_stream es"
    using parse_es_encoded [OF es d] by blast
  have be: "3 + (length ?body + 4) - 4 = 12 + length info + length (encode_entries es)" using lb by simp
  let ?v = "\<lparr>pv_section = sec, pv_version = drop_bit 1 c AND 0x1F, pv_pcr_pid = pcr AND 0x1FFF,
      pv_program_info = (12, 12 + length info), pv_es = xs\<rparr>"
  have "parse_pmt sec = Some (Some ?v)"
    using assms(2,3) l lb xs(1) unfolding parse_pmt_def
    by (simp add: n PSI_MAX_SECTION_LENGTH_def Let_def be add.assoc del: One_nat_def)
  moreover have "program_info_bytes ?v = Some info"
    using l lb by (simp add: program_info_bytes_def) (simp add: sec len_bytes_def pid_bytes_def)
  ultimately show ?thesis using xs(2) f by auto
qed

section \<open>The rebuilt section\<close>

text \<open>What a parsed section is known to satisfy.\<close>

lemma parse_pmt_sound:
  "\<exists>r. parse_pmt sec = Some r \<and>
     (\<forall>v. r = Some v \<longrightarrow> 16 \<le> length sec \<and> sec ! 0 = 0x02 \<and> sec ! 1 AND 0x80 \<noteq> 0 \<and> pv_section v = sec \<and>
        pv_version v = drop_bit 1 (sec ! 5) AND 0x1F \<and> pv_pcr_pid v = pid13 (sec ! 8) (sec ! 9) \<and>
        fst (pv_program_info v) = 12 \<and> 12 \<le> snd (pv_program_info v) \<and>
        snd (pv_program_info v) \<le> length sec \<and> (\<forall>x\<in>set (pv_es v). es_inside (length sec) x))"
proof (cases "16 \<le> length sec \<and> sec ! 0 = 0x02 \<and> sec ! 1 AND 0x80 \<noteq> 0 \<and>
    3 + len12 (sec ! 1) (sec ! 2) \<le> length sec")
  case True
  let ?e = "3 + len12 (sec ! 1) (sec ! 2) - 4"
  have be: "?e \<le> length sec" using True by linarith
  obtain r where r: "parse_es sec ?e (12 + len12 (sec ! 10) (sec ! 11)) = Some r"
      "\<forall>xs. r = Some xs \<longrightarrow> (\<forall>x\<in>set xs. es_inside ?e x)"
    using parse_es_sound [OF be] by blast
  have "es_inside (length sec) x" if "es_inside ?e x" for x
    using that be by (auto simp: es_inside_def)
  moreover have "idx sec 0 = Some (sec ! 0)" using True by (intro idx_in) linarith
  ultimately show ?thesis
    using True r be unfolding parse_pmt_def by (cases r) (auto simp: Let_def)
next
  case False
  have "idx sec 0 = Some (sec ! 0)" if "16 \<le> length sec" using that by (intro idx_in) linarith
  with False show ?thesis unfolding parse_pmt_def by (auto simp: Let_def)
qed

lemma no_panic_parse_pmt: "no_panic (parse_pmt sec)"
  using parse_pmt_sound [of sec] by auto

text \<open>The entry the edit writes for a stream.\<close>

definition entry_out :: "pmt_edit \<Rightarrow> bytes \<Rightarrow> pmt_es \<Rightarrow> pmt_entry" where
  "entry_out edit sec es =
     (let r = edited edit (es_stream_type es) (es_pid es) (es_bytes sec es) in
      \<lparr>en_stream_type = fst r, en_reserved_pid = sec ! (fst (es_range es) - 4), en_pid = fst (snd r),
       en_reserved_len = sec ! (fst (es_range es) - 2), en_info = snd (snd r)\<rparr>)"

lemma push_entry_val:
  assumes "es_inside (length (pv_section v)) es"
  shows "push_entry edit v body es = Some (body @ encode_entry (entry_out edit (pv_section v) es))"
proof -
  obtain a b where r: "es_range es = (a, b)" by (cases "es_range es")
  have i: "5 \<le> a" "a \<le> b" "b \<le> length (pv_section v)" using assms r by (auto simp: es_inside_def)
  have n: "take 5 (drop (a - 5) (pv_section v)) ! k = pv_section v ! (a - 5 + k)" if "k < 5" for k
    using that i by simp
  have "a - 5 + 1 = a - 4" "a - 5 + 3 = a - 2" using i by simp_all
  with i n [of 1] n [of 3] show ?thesis
    by (simp add: push_entry_def r es_info_def entry_out_def es_bytes_def encode_entry_def push_loop_len_def
        pid_bytes_def len_bytes_def Let_def case_prod_unfold)
qed

lemma push_entries_val:
  assumes "\<forall>x\<in>set es. es_inside (length (pv_section v)) x"
  shows "foldl_panics (push_entry edit v) body es =
     Some (body @ encode_entries (map (entry_out edit (pv_section v)) es))"
  using assms by (induction es arbitrary: body) (simp_all add: push_entry_val encode_entries_def)

definition reencoded :: "pmt_edit \<Rightarrow> pmt_view \<Rightarrow> bool" where
  "reencoded edit v \<longleftrightarrow> (\<exists>es \<in> set (pv_es v). \<exists>e \<in> set (pe_es edit). edit_pid e = es_pid es \<and> re_encodes e)"

definition rebuilt_info :: "pmt_edit \<Rightarrow> pmt_view \<Rightarrow> bytes" where
  "rebuilt_info edit v =
     (let info = take (snd (pv_program_info v) - 12) (drop 12 (pv_section v)) in
      if reencoded edit v then program_descriptors info else info)"

definition rebuilt_body :: "pmt_edit \<Rightarrow> pmt_view \<Rightarrow> bytes" where
  "rebuilt_body edit v =
     (let sec = pv_section v in
      pmt_body (take 5 (drop 3 sec)) (sec ! 8)
        (case pe_pcr_pid edit of Some p \<Rightarrow> p | None \<Rightarrow> pv_pcr_pid v) (sec ! 10)
        (rebuilt_info edit v) (map (entry_out edit sec) (pv_es v)))"

lemma rebuild_val:
  assumes "parse_pmt sec = Some (Some v)"
  shows "rebuild_pmt_section sec edit =
     Some (if length (rebuilt_body edit v) + 4 > 1021 then None
           else Some (pmt_bytes (sec ! 1) (rebuilt_body edit v)))"
proof -
  have p: "16 \<le> length sec" "pv_section v = sec" "fst (pv_program_info v) = 12"
      "12 \<le> snd (pv_program_info v)" "snd (pv_program_info v) \<le> length sec"
      "\<forall>x\<in>set (pv_es v). es_inside (length (pv_section v)) x"
    using parse_pmt_sound [of sec] assms by auto
  then show ?thesis
    by (simp add: rebuild_pmt_section_def assms program_info_bytes_def push_entries_val
        PSI_MAX_SECTION_LENGTH_def rebuilt_body_def rebuilt_info_def reencoded_def pmt_body_def pmt_bytes_def
        pmt_head_def push_loop_len_def len_bytes_def pid_bytes_def Let_def)
qed

lemma no_panic_rebuild: "no_panic (rebuild_pmt_section sec edit)"
proof -
  obtain r where r: "parse_pmt sec = Some r" using parse_pmt_sound by blast
  then show ?thesis
    by (cases r) (simp add: rebuild_pmt_section_def, simp add: rebuild_val)
qed

end
