(* ===== verification/PmtEditCorrect.thy ===== *)
theory PmtEditCorrect
  imports PmtEditFacts
begin

text \<open>
  What PMT editing promises: a rebuilt section reads back as the edited view and carries a valid
  CRC, and the version a stage stamps changes exactly when the content does.
\<close>

section \<open>Rebuilt sections read back\<close>

lemma pid13_bound: "pid13 a b AND 0x1FFF = pid13 a b"
  by (rule bit_word_eqI) (auto simp: pid13_def low_masks bit_simps dest: bit_imp_le_length)

lemma rebuilt_head:
  assumes "length five = 5"
  shows "take 5 (drop 3 (pmt_bytes r1 (pmt_body five r8 pcr r10 info es))) = five"
  using assms by (simp add: pmt_bytes_def pmt_head_def pmt_body_def len_bytes_def)

text \<open>One stream of the view after the edit, with the PID cut to the 13 bits of its field.\<close>

definition edited_stream :: "pmt_edit \<Rightarrow> u8 \<times> u16 \<times> bytes \<Rightarrow> u8 \<times> u16 \<times> bytes" where
  "edited_stream edit s =
     (let r = edited edit (fst s) (fst (snd s)) (snd (snd s)) in
      (fst r, fst (snd r) AND 0x1FFF, snd (snd r)))"

lemma entry_stream_out: "entry_stream (entry_out edit sec es) = edited_stream edit (stream_of sec es)"
  by (simp add: entry_stream_def entry_out_def edited_stream_def stream_of_def Let_def)

lemma rebuilt_view:
  assumes "parse_pmt sec = Some (Some v)" "rebuild_pmt_section sec edit = Some (Some new)"
  shows "\<exists>v'. parse_pmt new = Some (Some v') \<and> pv_section v' = new \<and> pv_version v' = pv_version v \<and>
     pv_pcr_pid v' = (case pe_pcr_pid edit of Some p \<Rightarrow> p AND 0x1FFF | None \<Rightarrow> pv_pcr_pid v) \<and>
     program_info_bytes v' =
       map_option (\<lambda>info. if reencoded edit v then program_descriptors info else info) (program_info_bytes v) \<and>
     map (stream_of new) (pv_es v') = map (edited_stream edit) (map (stream_of sec) (pv_es v)) \<and>
     take 5 (drop 3 new) = take 5 (drop 3 sec) \<and> mpeg2_crc32 new = 0 \<and>
     (\<forall>s e. no_panic (rebuild_pmt_section s e))"
proof -
  let ?pcr = "case pe_pcr_pid edit of Some p \<Rightarrow> p | None \<Rightarrow> pv_pcr_pid v"
  let ?es = "map (entry_out edit sec) (pv_es v)"
  have p: "16 \<le> length sec" "sec ! 1 AND 0x80 \<noteq> 0" "pv_section v = sec" "fst (pv_program_info v) = 12"
      "12 \<le> snd (pv_program_info v)" "snd (pv_program_info v) \<le> length sec"
      "pv_version v = drop_bit 1 (sec ! 5) AND 0x1F" "pv_pcr_pid v = pid13 (sec ! 8) (sec ! 9)"
    using parse_pmt_sound [of sec] assms(1) by auto
  have five: "length (take 5 (drop 3 sec)) = 5" "take 5 (drop 3 sec) ! 2 = sec ! 5" using p(1) by auto
  have new: "new = pmt_bytes (sec ! 1) (rebuilt_body edit v)" and l: "length (rebuilt_body edit v) + 4 \<le> 1021"
    using assms(2) rebuild_val [OF assms(1), of edit] by (auto split: if_splits)
  have body: "rebuilt_body edit v = pmt_body (take 5 (drop 3 sec)) (sec ! 8) ?pcr (sec ! 10) (rebuilt_info edit v) ?es"
    using p(3) by (simp add: rebuilt_body_def Let_def)
  obtain v' where v: "parse_pmt new = Some (Some v')" "pv_section v' = new"
      "pv_version v' = drop_bit 1 (sec ! 5) AND 0x1F" "pv_pcr_pid v' = ?pcr AND 0x1FFF"
      "program_info_bytes v' = Some (rebuilt_info edit v)" "map (stream_of new) (pv_es v') = map entry_stream ?es"
    using parse_pmt_encoded [OF five(1) p(2), of "sec ! 8" ?pcr "sec ! 10" "rebuilt_info edit v" ?es] l
    unfolding new body five(2) by blast
  have info: "Some (rebuilt_info edit v) =
      map_option (\<lambda>info. if reencoded edit v then program_descriptors info else info) (program_info_bytes v)"
    using p by (simp add: rebuilt_info_def program_info_bytes_def Let_def)
  have "take 5 (drop 3 new) = take 5 (drop 3 sec)"
    unfolding new body by (rule rebuilt_head) (rule five(1))
  moreover have "map entry_stream ?es = map (edited_stream edit) (map (stream_of sec) (pv_es v))"
    by (simp add: entry_stream_out)
  moreover have "pv_pcr_pid v' = (case pe_pcr_pid edit of Some p \<Rightarrow> p AND 0x1FFF | None \<Rightarrow> pv_pcr_pid v)"
    using v(4) p(8) by (simp add: pid13_bound split: option.splits)
  moreover have "mpeg2_crc32 new = 0" unfolding new by (rule crc_pmt_bytes)
  ultimately show ?thesis using v p(7) info no_panic_rebuild by auto
qed

text \<open>Property C7.  A rebuilt PMT reads back as the edit plan says: the strict parser accepts it, every
  stream of the source appears in order with the type, PID and descriptors the plan gives it and a
  stream without an edit exactly as it was, the PCR PID is the forced one or the old one, the
  program number, version and section numbers are kept, the program descriptors are the source's
  less the rate descriptors when a stream is re-encoded, and the CRC verifies. Rebuilding never
  panics.\<close>

theorem rebuilt_pmt_reads_back:
  assumes "parse_pmt sec = Some (Some v)" "rebuild_pmt_section sec edit = Some (Some new)"
  shows "\<exists>v'. parse_pmt new = Some (Some v') \<and> pv_section v' = new \<and> pv_version v' = pv_version v \<and>
     pv_pcr_pid v' = (case pe_pcr_pid edit of Some p \<Rightarrow> p AND 0x1FFF | None \<Rightarrow> pv_pcr_pid v) \<and>
     program_info_bytes v' =
       map_option (\<lambda>info. if reencoded edit v then program_descriptors info else info) (program_info_bytes v) \<and>
     map (stream_of new) (pv_es v') = map (edited_stream edit) (map (stream_of sec) (pv_es v)) \<and>
     take 5 (drop 3 new) = take 5 (drop 3 sec) \<and> mpeg2_crc32 new = 0 \<and>
     (\<forall>s e. no_panic (rebuild_pmt_section s e))"
  by (rule rebuilt_view [OF assms])

text \<open>A PMT with a video stream and an AC-3 audio stream in the DVB convention.\<close>

definition sample_pmt :: bytes where
  "sample_pmt =
     [0x02, 0xB0, 0x1D, 0x00, 0x07, 0xC3, 0, 0, 0xE1, 0x00, 0xF0, 0x00,
      0x1B, 0xE1, 0x00, 0xF0, 0x00, 0x06, 0xE1, 0x01, 0xF0, 0x06, 0x6A, 0x01, 0x00, 0x52, 0x01, 0x05,
      1, 2, 3, 4]"

definition sample_edit :: pmt_edit where
  "sample_edit = \<lparr>pe_es = [Audio 0x101 Aac, Repid 0x100 0x200], pe_pcr_pid = Some 0x200,
     pe_no_additions = False\<rparr>"

theorem rebuilt_pmt_reads_back_witness:
  "\<exists>v new v'. parse_pmt sample_pmt = Some (Some v) \<and> rebuild_pmt_section sample_pmt sample_edit = Some (Some new) \<and>
     parse_pmt new = Some (Some v') \<and> pv_pcr_pid v' = 0x200 \<and> mpeg2_crc32 new = 0 \<and>
     map (stream_of new) (pv_es v') = [(0x1B, 0x200, []), (0x0F, 0x101, [0x52, 0x01, 0x05])]"
proof -
  let ?v = "\<lparr>pv_section = sample_pmt, pv_version = 1, pv_pcr_pid = 0x100, pv_program_info = (12, 12),
    pv_es = [\<lparr>es_stream_type = 0x1B, es_pid = 0x100, es_range = (17, 17)\<rparr>,
             \<lparr>es_stream_type = 0x06, es_pid = 0x101, es_range = (22, 28)\<rparr>]\<rparr>"
  have p: "parse_pmt sample_pmt = Some (Some ?v)" by code_simp
  have l: "length (rebuilt_body sample_edit ?v) + 4 \<le> 1021" by code_simp
  have r: "rebuild_pmt_section sample_pmt sample_edit = Some (Some (pmt_bytes (sample_pmt ! 1) (rebuilt_body sample_edit ?v)))"
    using rebuild_val [OF p, of sample_edit] l by (simp only: not_less [symmetric] if_False)
  have e: "map (edited_stream sample_edit) (map (stream_of sample_pmt) (pv_es ?v)) =
      [(0x1B, 0x200, []), (0x0F, 0x101, [0x52, 0x01, 0x05])]"
    by code_simp
  have c: "(case pe_pcr_pid sample_edit of Some p \<Rightarrow> p AND 0x1FFF | None \<Rightarrow> pv_pcr_pid ?v) = 0x200" by code_simp
  from rebuilt_pmt_reads_back [OF p r] obtain v' where
      "parse_pmt (pmt_bytes (sample_pmt ! 1) (rebuilt_body sample_edit ?v)) = Some (Some v')"
      "pv_pcr_pid v' = 0x200" "mpeg2_crc32 (pmt_bytes (sample_pmt ! 1) (rebuilt_body sample_edit ?v)) = 0"
      "map (stream_of (pmt_bytes (sample_pmt ! 1) (rebuilt_body sample_edit ?v))) (pv_es v') =
         [(0x1B, 0x200, []), (0x0F, 0x101, [0x52, 0x01, 0x05])]"
    unfolding e c by (elim exE conjE) (rule that)
  then show ?thesis by (intro exI conjI) (rule p r | assumption)+
qed

section \<open>Output versions\<close>

text \<open>What a section says apart from its version and its CRC, and the version it carries.\<close>

definition content :: "bytes \<Rightarrow> bytes" where
  "content sec = (take (length sec - 4) sec)[5 := sec ! 5 AND 0xC1]"

definition carried_version :: "bytes \<Rightarrow> u8" where
  "carried_version sec = drop_bit 1 (sec ! 5) AND 0x1F"

lemma recompute_crc_val:
  "4 \<le> length sec \<Longrightarrow> recompute_crc sec =
     Some (take (length sec - 4) sec @ to_be_bytes32 (mpeg2_crc32 (take (length sec - 4) sec)))"
  by (simp add: recompute_crc_def Let_def)

definition next_version :: "out_version \<Rightarrow> bytes \<Rightarrow> u8" where
  "next_version ov sec =
     (if (case ov_last_body ov of None \<Rightarrow> False | Some b \<Rightarrow> b \<noteq> content sec) \<or> ov_pending_bump ov
      then (ov_version ov + 1) AND 0x1F else ov_version ov)"

definition stamped_pmt :: "bytes \<Rightarrow> u8 \<Rightarrow> bytes" where
  "stamped_pmt sec version =
     (let body = (take (length sec - 4) sec)[5 := (sec ! 5 AND 0xC1) OR push_bit 1 version]
      in body @ to_be_bytes32 (mpeg2_crc32 body))"

lemma ov_stamp_val:
  assumes "12 \<le> length sec"
  shows "ov_stamp ov sec =
     Some (\<lparr>ov_version = next_version ov sec, ov_last_body = Some (content sec), ov_pending_bump = False\<rparr>,
           stamped_pmt sec (next_version ov sec))"
proof -
  have "take (length sec - 4) (sec[5 := x]) = (take (length sec - 4) sec)[5 := x]" for x
    by (simp add: take_update_swap)
  with assms show ?thesis
    by (cases ov; cases "ov_last_body ov")
       (auto simp: ov_stamp_def next_version_def content_def stamped_pmt_def recompute_crc_val Let_def)
qed

lemma version_bits:
  assumes "v AND 0x1F = v"
  shows "drop_bit 1 ((b AND 0xC1) OR push_bit 1 v) AND 0x1F = (v :: u8)"
    "((b AND 0xC1) OR push_bit 1 v) AND 0xC1 = b AND 0xC1"
proof -
  have v: "n < 5" if "bit v n" for n
    using that by (subst (asm) assms [symmetric]) (auto simp: low_masks bit_simps)
  show "drop_bit 1 ((b AND 0xC1) OR push_bit 1 v) AND 0x1F = v"
    by (rule bit_word_eqI)
       (auto simp: mask_splits low_masks bit_simps simp del: push_bit_Suc One_nat_def dest: v)
  show "((b AND 0xC1) OR push_bit 1 v) AND 0xC1 = b AND 0xC1"
    by (rule bit_word_eqI)
       (auto simp: mask_splits low_masks bit_simps simp del: push_bit_Suc One_nat_def dest: v)
qed

lemma next_version_differs: "(v + 1) AND 0x1F \<noteq> (v :: u8)"
proof
  assume h: "(v + 1) AND 0x1F = v"
  have "even ((v + 1) AND 0x1F) \<longleftrightarrow> even (v + 1)" by (simp only: even_and_iff) simp
  then show False unfolding h by simp
qed

inductive ov_reachable :: "out_version \<Rightarrow> bool" where
  fresh: "ov_reachable ov_new"
| bumped: "ov_reachable ov \<Longrightarrow> ov_reachable (ov_bump ov)"
| stamped: "ov_reachable ov \<Longrightarrow> ov_stamp ov sec = Some (ov', sec') \<Longrightarrow> ov_reachable ov'"

lemma five_bits: "(x AND 0x1F) AND 0x1F = (x AND 0x1F :: u8)"
  by (simp add: and.assoc)

lemma next_version_bits: "ov_version ov AND 0x1F = ov_version ov \<Longrightarrow> next_version ov sec AND 0x1F = next_version ov sec"
  by (simp add: next_version_def and.assoc)

lemma reachable_bits: "ov_reachable ov \<Longrightarrow> ov_version ov AND 0x1F = ov_version ov"
proof (induction rule: ov_reachable.induct)
  case (stamped ov sec ov' sec')
  show ?case
  proof (cases "12 \<le> length sec")
    case True
    with stamped show ?thesis by (auto simp: ov_stamp_val next_version_bits)
  next
    case False
    with stamped show ?thesis by (simp add: ov_stamp_def)
  qed
qed (simp_all add: ov_new_def ov_bump_def)

lemma stamped_pmt_facts:
  assumes "12 \<le> length sec" "v AND 0x1F = v"
  shows "carried_version (stamped_pmt sec v) = v" "content (stamped_pmt sec v) = content sec"
    "mpeg2_crc32 (stamped_pmt sec v) = 0" "length (stamped_pmt sec v) = length sec"
proof -
  let ?b = "(take (length sec - 4) sec)[5 := (sec ! 5 AND 0xC1) OR push_bit 1 v]"
  have s: "stamped_pmt sec v = ?b @ to_be_bytes32 (mpeg2_crc32 ?b)" by (simp add: stamped_pmt_def Let_def)
  have n: "(?b @ to_be_bytes32 (mpeg2_crc32 ?b)) ! 5 = (sec ! 5 AND 0xC1) OR push_bit 1 v"
  proof -
    have "5 < length sec - 4" using assms(1) by simp
    then show ?thesis by (simp add: nth_append)
  qed
  show "mpeg2_crc32 (stamped_pmt sec v) = 0" unfolding s by (rule crc_appended)
  show l: "length (stamped_pmt sec v) = length sec" using assms(1) by (simp add: s)
  show "carried_version (stamped_pmt sec v) = v"
    unfolding carried_version_def s n by (rule version_bits(1)) (rule assms(2))
  have t: "take (length sec - 4) (?b @ to_be_bytes32 (mpeg2_crc32 ?b)) = ?b" using assms(1) by simp
  show "content (stamped_pmt sec v) = content sec"
    unfolding content_def l unfolding s n t version_bits(2) [OF assms(2)] by simp
qed

text \<open>Property C37.  The output version follows the content: of two sections stamped one after the other the second
  carries the version of the first exactly when the two say the same apart from version and CRC, a
  forced bump in between always changes it, and what is stamped keeps its content and carries a
  valid CRC, whatever was stamped before.\<close>

theorem version_follows_content:
  assumes "ov_reachable ov" "12 \<le> length s1" "12 \<le> length s2"
    "ov_stamp ov s1 = Some (o1, t1)" "ov_stamp o1 s2 = Some (o2, t2)"
    "ov_stamp (ov_bump o1) s2 = Some (o3, t3)"
  shows "(carried_version t2 = carried_version t1 \<longleftrightarrow> content s2 = content s1) \<and>
     carried_version t3 \<noteq> carried_version t1 \<and>
     content t1 = content s1 \<and> content t2 = content s2 \<and> mpeg2_crc32 t1 = 0 \<and> mpeg2_crc32 t2 = 0"
proof -
  let ?v = "next_version ov s1"
  have o1: "o1 = \<lparr>ov_version = ?v, ov_last_body = Some (content s1), ov_pending_bump = False\<rparr>"
    and t1: "t1 = stamped_pmt s1 ?v"
    using assms(4) by (simp_all add: ov_stamp_val [OF assms(2)])
  have v1: "?v AND 0x1F = ?v" by (rule next_version_bits [OF reachable_bits [OF assms(1)]])
  have t2: "t2 = stamped_pmt s2 (next_version o1 s2)" and t3: "t3 = stamped_pmt s2 (next_version (ov_bump o1) s2)"
    using assms(5,6) by (simp_all add: ov_stamp_val [OF assms(3)])
  have v2: "next_version o1 s2 AND 0x1F = next_version o1 s2"
    by (rule next_version_bits) (simp add: o1 v1)
  have n2: "next_version o1 s2 = (if content s1 \<noteq> content s2 then (?v + 1) AND 0x1F else ?v)"
    by (simp add: next_version_def o1)
  have n3: "next_version (ov_bump o1) s2 = (?v + 1) AND 0x1F"
    by (simp add: next_version_def o1 ov_bump_def)
  have f3: "carried_version t3 = (?v + 1) AND 0x1F"
    unfolding t3 n3 by (rule stamped_pmt_facts(1) [OF assms(3) five_bits])
  show ?thesis
    using stamped_pmt_facts [OF assms(2) v1] stamped_pmt_facts [OF assms(3) v2] next_version_differs [of ?v]
    by (auto simp: t1 t2 f3 n2)
qed

theorem version_follows_content_witness:
  "\<exists>o1 t1 o2 t2. ov_stamp ov_new sample_pmt = Some (o1, t1) \<and> ov_stamp o1 sample_pmt = Some (o2, t2) \<and>
     carried_version t2 = carried_version t1 \<and> mpeg2_crc32 t2 = 0"
proof -
  have l: "12 \<le> length sample_pmt" by code_simp
  show ?thesis
    using version_follows_content [OF ov_reachable.fresh l l ov_stamp_val [OF l] ov_stamp_val [OF l] ov_stamp_val [OF l]]
      ov_stamp_val [OF l] by blast
qed

end
