(* ===== verification/PsiStage.thy ===== *)
theory PsiStage
  imports PmtEdit
begin

text \<open>
  The PMT-PID stage of \<open>src/src/engine/ts_pmt_edit.rs\<close>: it reassembles the sections of a payload
  unit, hands the complete unit to an editor and lays changed sections out again over packets. The
  buffer \<open>out\<close> of the source is passed in and returned; the one-shot log line is left out, its flag
  is kept.
\<close>

section \<open>Units\<close>

definition MAX_UNIT_PACKETS :: nat where "MAX_UNIT_PACKETS = 32"

record psi_unit =
  pu_packets :: "bytes list"
  pu_af_only :: "(nat \<times> bytes) list"
  pu_sections :: "bytes list"
  pu_changed :: bool

definition replace_section :: "psi_unit \<Rightarrow> nat \<Rightarrow> bytes \<Rightarrow> psi_unit panics" where
  "replace_section u i new = do {
     old \<leftarrow> idx (pu_sections u) i;
     if old \<noteq> new then do {
       secs \<leftarrow> put (pu_sections u) i new;
       Some (u\<lparr>pu_sections := secs, pu_changed := True\<rparr>) }
     else Some u }"

definition first_table_id :: "psi_unit \<Rightarrow> u8 option" where
  "first_table_id u =
     (case pu_sections u of [] \<Rightarrow> None | s # _ \<Rightarrow> (case s of [] \<Rightarrow> None | b # _ \<Rightarrow> Some b))"

section \<open>Adaptation fields\<close>

definition af_bytes :: "bytes \<Rightarrow> bytes option panics" where
  "af_bytes pkt = do {
     b3 \<leftarrow> idx pkt 3;
     if drop_bit 4 b3 AND 0x02 = 0 then Some None
     else do {
       b4 \<leftarrow> idx pkt 4;
       let len = unat b4 in
       if 5 + len > TS_PACKET_SIZE then Some None
       else do { af \<leftarrow> slice pkt 4 (5 + len); Some (Some af) } } }"

definition af_only_copy :: "bytes \<Rightarrow> bytes option panics" where
  "af_only_copy src = do {
     f \<leftarrow> af_bytes src;
     case f of None \<Rightarrow> Some None
     | Some af \<Rightarrow>
         if length af < 2 \<or> (af ! 1 = 0 \<and> (\<forall>b \<in> set (drop 2 af). b = 0xFF)) then Some None
         else do {
           let p = replicate TS_PACKET_SIZE 0xFF;
           hdr \<leftarrow> slice src 0 4;
           p \<leftarrow> put_slice p 0 4 hdr;
           b1 \<leftarrow> idx p 1;
           p \<leftarrow> put p 1 (b1 AND 0xBF);
           b3 \<leftarrow> idx p 3;
           p \<leftarrow> put p 3 ((b3 AND 0x0F) OR 0x20);
           p \<leftarrow> put p 4 183;
           body \<leftarrow> slice af 1 (length af);
           p \<leftarrow> put_slice p 5 (5 + length af - 1) body;
           Some (Some p) } }"

section \<open>Layout\<close>

text \<open>The offsets of the sections in their concatenation.\<close>

fun layout_starts :: "nat \<Rightarrow> bytes list \<Rightarrow> nat list" where
  "layout_starts k [] = []"
| "layout_starts k (s # ss) = k # layout_starts (k + length s) ss"

function skip_starts :: "nat list \<Rightarrow> nat \<Rightarrow> nat \<Rightarrow> nat" where
  "skip_starts starts next pos =
     (if next < length starts \<and> starts ! next < pos then skip_starts starts (next + 1) pos
      else next)"
  by pat_completeness auto
termination by (relation "measure (\<lambda>(starts, next, pos). length starts - next)") auto

declare skip_starts.simps [simp del]

text \<open>The header bits and the adaptation field of output packet \<open>i\<close>.\<close>

definition layout_template :: "bytes list \<Rightarrow> nat \<Rightarrow> ((u8 \<times> u8 \<times> u8) \<times> bytes option) panics" where
  "layout_template templates i =
     (if i < length templates then do {
        let t = templates ! i;
        t1 \<leftarrow> idx t 1; t2 \<leftarrow> idx t 2; t3 \<leftarrow> idx t 3;
        af \<leftarrow> af_bytes t;
        Some ((t1, t2, t3), af) }
      else do {
        t \<leftarrow> idx templates 0;
        t1 \<leftarrow> idx t 1; t2 \<leftarrow> idx t 2; t3 \<leftarrow> idx t 3;
        Some ((t1, t2, (t3 AND 0xC0) OR 0x10 OR (t3 AND 0x0F)), None) })"

text \<open>The packet with its header and adaptation field written, and the offset of its payload.\<close>

definition layout_header :: "(u8 \<times> u8 \<times> u8) \<times> bytes option \<Rightarrow> (bytes \<times> nat) panics" where
  "layout_header ha = do {
     let ((h0, h1, h2), af) = ha;
     let p = (replicate TS_PACKET_SIZE (0xFF :: u8))[0 := TS_SYNC_BYTE, 1 := h0 AND 0x3F, 2 := h1];
     let cc = h2 AND 0x0F;
     let plain = Some (p[3 := 0x10 OR cc], 4);
     case af of None \<Rightarrow> plain
     | Some af \<Rightarrow>
         if length af < TS_PACKET_SIZE - 5 then do {
           p \<leftarrow> put_slice (p[3 := 0x30 OR cc]) 4 (4 + length af) af;
           Some (p, 4 + length af) }
         else plain }"

text \<open>One round of the loop: the packet filled from \<open>pos\<close> on, and the next \<open>pos\<close> and \<open>next\<close>.\<close>

definition layout_packet ::
    "bytes list \<Rightarrow> bytes \<Rightarrow> nat list \<Rightarrow> nat \<Rightarrow> nat \<Rightarrow> nat \<Rightarrow> (bytes \<times> nat \<times> nat) panics" where
  "layout_packet templates data starts i pos next = do {
     ha \<leftarrow> layout_template templates i;
     pw \<leftarrow> layout_header ha;
     let (p, w) = pw;
     let cap = TS_PACKET_SIZE - w;
     let next = skip_starts starts next pos;
     let next_start = (if next < length starts then Some (starts ! next) else None);
     if (case next_start of Some s \<Rightarrow> s + 1 < pos + cap | None \<Rightarrow> False) then do {
       let s = starts ! next;
       b1 \<leftarrow> idx p 1;
       p \<leftarrow> put p 1 (b1 OR 0x40);
       p \<leftarrow> put p w (of_nat (s - pos));
       let n = min (cap - 1) (length data - pos);
       chunk \<leftarrow> slice data pos (pos + n);
       p \<leftarrow> put_slice p (w + 1) (w + 1 + n) chunk;
       Some (p, pos + n, next) }
     else do {
       let n = (if next_start = Some (pos + cap - 1) then cap - 1 else min cap (length data - pos));
       chunk \<leftarrow> slice data pos (pos + n);
       p \<leftarrow> put_slice p w (w + n) chunk;
       Some (p, pos + n, next) } }"

lemma layout_header_room: "layout_header ha = Some (p, w) \<Longrightarrow> w + 2 \<le> TS_PACKET_SIZE \<and> 4 \<le> w"
  by (auto simp: layout_header_def bind_eq_Some_conv Let_def split: prod.splits option.splits if_splits)

lemma layout_packet_advances:
  assumes "layout_packet templates data starts i pos next = Some (p, pos', next')" "pos < length data"
  shows "pos < pos'"
  using assms
  by (auto simp: layout_packet_def bind_eq_Some_conv Let_def split: prod.splits option.splits if_splits
      dest!: layout_header_room)

function layout_loop ::
    "bytes list \<Rightarrow> bytes \<Rightarrow> nat list \<Rightarrow> nat \<Rightarrow> nat \<Rightarrow> nat \<Rightarrow> bytes list panics" where
  "layout_loop templates data starts i pos next =
     (if pos < length data then do {
        r \<leftarrow> layout_packet templates data starts i pos next;
        rest \<leftarrow> layout_loop templates data starts (i + 1) (fst (snd r)) (snd (snd r));
        Some (fst r # rest) }
      else Some [])"
  by pat_completeness auto
termination
  by (relation "measure (\<lambda>(templates, data, starts, i, pos, next). length data - pos)")
     (auto dest!: layout_packet_advances)

declare layout_loop.simps [simp del]

text \<open>The packets past the templates get consecutive counters behind the last template.\<close>

fun renumber :: "u8 \<Rightarrow> bytes list \<Rightarrow> bytes list panics" where
  "renumber cc [] = Some []"
| "renumber cc (p # ps) = do {
     let cc = (cc + 1) AND 0x0F;
     b3 \<leftarrow> idx p 3;
     p \<leftarrow> put p 3 ((b3 AND 0xF0) OR cc);
     ps \<leftarrow> renumber cc ps;
     Some (p # ps) }"

definition layout :: "bytes list \<Rightarrow> bytes list \<Rightarrow> bytes list panics" where
  "layout sections templates = do {
     out \<leftarrow> layout_loop templates (concat sections) (layout_starts 0 sections) 0 0 0;
     if templates = [] then Some out
     else do {
       cc \<leftarrow> ts_cc (last templates);
       fresh \<leftarrow> renumber cc (drop (length templates) out);
       Some (take (length templates) out @ fresh) } }"

definition fits_source_packets_with :: "psi_unit \<Rightarrow> nat \<Rightarrow> bytes \<Rightarrow> bool panics" where
  "fits_source_packets_with u i new = do {
     pkts \<leftarrow> layout ((pu_sections u)[i := new]) (pu_packets u);
     Some (length pkts \<le> length (pu_packets u)) }"

definition rebuild_pmt_section_fitting :: "psi_unit \<Rightarrow> nat \<Rightarrow> pmt_edit \<Rightarrow> bytes option panics" where
  "rebuild_pmt_section_fitting u i edit = do {
     sec \<leftarrow> idx (pu_sections u) i;
     full \<leftarrow> rebuild_pmt_section sec edit;
     fits \<leftarrow> (case full of None \<Rightarrow> Some False | Some new \<Rightarrow> fits_source_packets_with u i new);
     if fits then Some full
     else rebuild_pmt_section sec (edit\<lparr>pe_no_additions := True\<rparr>) }"

section \<open>The stage\<close>

record psi_stage =
  ps_held :: "bytes list"
  ps_held_af :: "(nat \<times> bytes) list"
  ps_sections :: "bytes list"
  ps_inflight :: bytes
  ps_inflight_active :: bool
  ps_last_in_cc :: "u8 option"
  ps_last_in :: bytes
  ps_owned_cc :: bool
  ps_last_out_cc :: "u8 option"
  ps_dropped_packets :: nat
  ps_warned :: bool

definition ps_new :: psi_stage where
  "ps_new = \<lparr>ps_held = [], ps_held_af = [], ps_sections = [], ps_inflight = [],
     ps_inflight_active = False, ps_last_in_cc = None, ps_last_in = replicate TS_PACKET_SIZE 0,
     ps_owned_cc = False, ps_last_out_cc = None, ps_dropped_packets = 0, ps_warned = False\<rparr>"

definition write_packet :: "psi_stage \<Rightarrow> bytes \<Rightarrow> bytes \<Rightarrow> (psi_stage \<times> bytes) panics" where
  "write_packet s pkt out =
     (if length pkt \<noteq> TS_PACKET_SIZE then None
      else do {
        let p = pkt;
        b3 \<leftarrow> idx p 3;
        c \<leftarrow> ts_cc p;
        let has_payload = (drop_bit 4 b3 AND 0x01 \<noteq> 0);
        p \<leftarrow> (if ps_owned_cc s then
                put p 3 ((b3 AND 0xF0) OR
                  (case (has_payload, ps_last_out_cc s) of
                     (True, Some prev) \<Rightarrow> (prev + 1) AND 0x0F
                   | (True, None) \<Rightarrow> c
                   | (False, Some prev) \<Rightarrow> prev
                   | (False, None) \<Rightarrow> c))
              else Some p);
        c \<leftarrow> ts_cc p;
        let s = (if has_payload \<or> ps_last_out_cc s = None then s\<lparr>ps_last_out_cc := Some c\<rparr> else s);
        Some (s, out @ p) })"

definition write_all :: "psi_stage \<Rightarrow> bytes list \<Rightarrow> bytes \<Rightarrow> (psi_stage \<times> bytes) panics" where
  "write_all s pkts out = foldl_panics (\<lambda>so p. write_packet (fst so) p (snd so)) (s, out) pkts"

definition flush_held_af :: "psi_stage \<Rightarrow> bytes \<Rightarrow> (psi_stage \<times> bytes) panics" where
  "flush_held_af s out = write_all (s\<lparr>ps_held_af := []\<rparr>) (map snd (ps_held_af s)) out"

definition drop_held :: "psi_stage \<Rightarrow> nat \<Rightarrow> bytes \<Rightarrow> (psi_stage \<times> bytes) panics" where
  "drop_held s extra out =
     (let n = length (ps_held s) + extra;
          s = s\<lparr>ps_held := [], ps_sections := [], ps_inflight := [], ps_inflight_active := False\<rparr> in
      if n = 0 then flush_held_af s out
      else
        (let s = s\<lparr>ps_dropped_packets := ps_dropped_packets s + n\<rparr>;
             s = (if ps_last_out_cc s \<noteq> None then s\<lparr>ps_owned_cc := True\<rparr> else s) in do {
         so \<leftarrow> flush_held_af s out;
         Some ((fst so)\<lparr>ps_warned := True\<rparr>, snd so) }))"

text \<open>\<open>Err(())\<close> is the outer \<open>None\<close>.\<close>

definition inflight_needed :: "psi_stage \<Rightarrow> nat option option" where
  "inflight_needed s =
     (let b = ps_inflight s in
      if length b < 3 then Some None
      else
        (let len = len12 (b ! 1) (b ! 2) in
         case max_section_length (b ! 0) of
           Some m \<Rightarrow> if len \<le> m then Some (Some (3 + len)) else None
         | None \<Rightarrow> None))"

function walk_sections :: "psi_stage \<Rightarrow> bytes \<Rightarrow> nat \<Rightarrow> psi_stage" where
  "walk_sections s payload pos =
     (if pos < length payload \<and> payload ! pos \<noteq> 0xFF then
        (let remaining = length payload - pos;
             fly = s\<lparr>ps_inflight := drop pos payload, ps_inflight_active := True\<rparr> in
         if remaining < 3 then fly
         else
           (let len = len12 (payload ! (pos + 1)) (payload ! (pos + 2)) in
            case max_section_length (payload ! pos) of None \<Rightarrow> s
            | Some m \<Rightarrow>
                if len > m then s
                else
                  (let tot = 3 + len in
                   if tot \<le> remaining
                   then walk_sections
                          (s\<lparr>ps_sections := ps_sections s @ [take tot (drop pos payload)]\<rparr>)
                          payload (pos + tot)
                   else fly)))
      else s)"
  by pat_completeness auto
termination by (relation "measure (\<lambda>(s, payload, pos). length payload - pos)") auto

declare walk_sections.simps [simp del]

definition finish_inflight ::
    "psi_stage \<Rightarrow> nat \<Rightarrow> bytes \<Rightarrow> (bool \<times> psi_stage \<times> bytes) panics" where
  "finish_inflight s tot out =
     (let s = s\<lparr>ps_inflight := take tot (ps_inflight s)\<rparr>;
          b = ps_inflight s;
          long_form = (length b > 1 \<and> b ! 1 AND 0x80 \<noteq> 0) in
      if long_form \<and> mpeg2_crc32 b \<noteq> 0 then do {
        so \<leftarrow> drop_held s 0 out;
        Some (False, so) }
      else
        Some (True,
          s\<lparr>ps_inflight := [], ps_sections := ps_sections s @ [b], ps_inflight_active := False\<rparr>, out))"

text \<open>The end of \<open>push\<close>: a unit that grew too long is dropped, a complete one is handed out.\<close>

definition push_end :: "psi_stage \<Rightarrow> bytes \<Rightarrow> (psi_unit option \<times> psi_stage \<times> bytes) panics" where
  "push_end s out =
     (if length (ps_held s) > MAX_UNIT_PACKETS then do {
        so \<leftarrow> drop_held s 0 out;
        Some (None, so) }
      else if \<not> ps_inflight_active s \<and> ps_held s \<noteq> [] then
        Some (Some \<lparr>pu_packets = ps_held s, pu_af_only = ps_held_af s, pu_sections = ps_sections s,
                    pu_changed = False\<rparr>,
              s\<lparr>ps_held := [], ps_held_af := [], ps_sections := []\<rparr>, out)
      else Some (None, s, out))"

text \<open>The bytes before the pointer target end the section in flight exactly, or the unit is
  dropped.\<close>

definition end_inflight :: "psi_stage \<Rightarrow> bytes \<Rightarrow> nat \<Rightarrow> bytes \<Rightarrow> (psi_stage \<times> bytes) panics" where
  "end_inflight s payload sec_start out =
     (if ps_inflight_active s then do {
        tail \<leftarrow> slice payload 1 sec_start;
        let s = s\<lparr>ps_inflight := ps_inflight s @ tail\<rparr>;
        if inflight_needed s = Some (Some (length (ps_inflight s))) then do {
          r \<leftarrow> finish_inflight s (length (ps_inflight s)) out;
          Some (snd r) }
        else drop_held s 0 out }
      else Some (s, out))"

definition push_start ::
    "psi_stage \<Rightarrow> bytes \<Rightarrow> bytes \<Rightarrow> bytes \<Rightarrow> (psi_unit option \<times> psi_stage \<times> bytes) panics" where
  "push_start s pkt payload out = do {
     pointer \<leftarrow> idx payload 0;
     let sec_start = 1 + unat pointer;
     if sec_start > length payload then do {
       so \<leftarrow> drop_held s 1 out;
       Some (None, so) }
     else do {
       so \<leftarrow> end_inflight s payload sec_start out;
       let (s, out) = so;
       push_end (walk_sections (s\<lparr>ps_held := ps_held s @ [pkt]\<rparr>) payload sec_start) out } }"

definition push_continuation ::
    "psi_stage \<Rightarrow> bytes \<Rightarrow> bytes \<Rightarrow> bytes \<Rightarrow> (psi_unit option \<times> psi_stage \<times> bytes) panics" where
  "push_continuation s pkt payload out =
     (if \<not> ps_inflight_active s then
        (let s = s\<lparr>ps_dropped_packets := ps_dropped_packets s + 1\<rparr> in
         Some (None, (if ps_last_out_cc s \<noteq> None then s\<lparr>ps_owned_cc := True\<rparr> else s), out))
      else
        (let s = s\<lparr>ps_held := ps_held s @ [pkt], ps_inflight := ps_inflight s @ payload\<rparr> in
         case inflight_needed s of
           Some (Some tot) \<Rightarrow>
             if length (ps_inflight s) \<ge> tot then do {
               r \<leftarrow> finish_inflight s tot out;
               let (ok, s, out) = r;
               if ok then push_end s out else Some (None, s, out) }
             else push_end s out
         | Some None \<Rightarrow> push_end s out
         | None \<Rightarrow> do {
             so \<leftarrow> drop_held s 0 out;
             Some (None, so) }))"

definition ps_push :: "psi_stage \<Rightarrow> bytes \<Rightarrow> bytes \<Rightarrow> (psi_unit option \<times> psi_stage \<times> bytes) panics"
  where
  "ps_push s pkt out =
     (if length pkt \<noteq> TS_PACKET_SIZE then Some (None, s, out @ pkt)
      else do {
        sync \<leftarrow> idx pkt 0;
        if sync \<noteq> TS_SYNC_BYTE then Some (None, s, out @ pkt)
        else do {
          b3 \<leftarrow> idx pkt 3;
          let has_payload = (drop_bit 4 b3 AND 0x01 \<noteq> 0);
          off \<leftarrow> ts_payload_offset pkt;
          if \<not> has_payload \<or> off \<ge> TS_PACKET_SIZE then
            if ps_held s = [] then do {
              so \<leftarrow> write_packet s pkt out;
              Some (None, so) }
            else Some (None, s\<lparr>ps_held_af := ps_held_af s @ [(length (ps_held s), pkt)]\<rparr>, out)
          else do {
            cc \<leftarrow> ts_cc pkt;
            pusi \<leftarrow> ts_pusi pkt;
            if \<not> pusi \<and> ps_last_in_cc s = Some cc \<and> ps_last_in s = pkt then Some (None, s, out)
            else do {
              let s = s\<lparr>ps_last_in_cc := Some cc, ps_last_in := pkt\<rparr>;
              payload \<leftarrow> slice pkt off TS_PACKET_SIZE;
              if pusi then push_start s pkt payload out
              else push_continuation s pkt payload out } } } })"

section \<open>Emission\<close>

text \<open>The packets \<open>ps\<close> from index \<open>j\<close> on, each behind the held payload-less packets that belong
  in front of it; a \<open>None\<close> writes no packet of its own.\<close>

fun emit_run ::
    "psi_stage \<Rightarrow> (nat \<times> bytes) list \<Rightarrow> nat \<Rightarrow> bytes option list \<Rightarrow> bytes \<Rightarrow>
     (psi_stage \<times> (nat \<times> bytes) list \<times> bytes) panics" where
  "emit_run s af j [] out = Some (s, af, out)"
| "emit_run s af j (p # ps) out = do {
     so \<leftarrow> write_all s (map snd (takeWhile (\<lambda>(k, a). k \<le> j) af)) out;
     so \<leftarrow> (case p of None \<Rightarrow> Some so | Some q \<Rightarrow> write_packet (fst so) q (snd so));
     emit_run (fst so) (dropWhile (\<lambda>(k, a). k \<le> j) af) (Suc j) ps (snd so) }"

definition ps_emit :: "psi_stage \<Rightarrow> psi_unit \<Rightarrow> bytes \<Rightarrow> (psi_stage \<times> bytes) panics" where
  "ps_emit s u out =
     (if \<not> pu_changed u then do {
        (s, af, out) \<leftarrow> emit_run s (pu_af_only u) 0 (map Some (pu_packets u)) out;
        write_all s (map snd af) out }
      else do {
        pkts \<leftarrow> layout (pu_sections u) (pu_packets u);
        let s = (if length pkts \<noteq> length (pu_packets u) then s\<lparr>ps_owned_cc := True\<rparr> else s);
        (s, af, out) \<leftarrow> emit_run s (pu_af_only u) 0 (map Some pkts) out;
        surplus \<leftarrow> map_panics af_only_copy (drop (length pkts) (pu_packets u));
        (s, af, out) \<leftarrow> emit_run s af (length pkts) surplus out;
        write_all s (map snd af) out })"

text \<open>Re-stamping a cached unit.\<close>

fun restamp_push ::
    "psi_stage \<Rightarrow> psi_unit option \<Rightarrow> bytes list \<Rightarrow> bytes \<Rightarrow> (psi_unit option \<times> psi_stage \<times> bytes) panics"
  where
  "restamp_push s u [] out = Some (u, s, out)"
| "restamp_push s u (p # ps) out = do {
     (r, s, out) \<leftarrow> ps_push s p out;
     restamp_push s (case r of None \<Rightarrow> u | Some v \<Rightarrow> Some v) ps out }"

definition restamp_section :: "u8 \<Rightarrow> psi_unit \<Rightarrow> nat \<Rightarrow> psi_unit panics" where
  "restamp_section version u i = do {
     sec \<leftarrow> idx (pu_sections u) i;
     if (case sec of b # _ \<Rightarrow> b = 0x02 | [] \<Rightarrow> False) then do {
       r \<leftarrow> set_psi_version_at sec 0 version;
       if fst r then replace_section u i (snd r) else Some u }
     else Some u }"

definition restamp_pmt_unit :: "bytes list \<Rightarrow> u8 \<Rightarrow> bytes list panics" where
  "restamp_pmt_unit packets version = do {
     (unit, s, out) \<leftarrow> restamp_push ps_new None packets [];
     case unit of None \<Rightarrow> Some packets
     | Some u \<Rightarrow> do {
         u \<leftarrow> foldl_panics (restamp_section version) u [0..<length (pu_sections u)];
         so \<leftarrow> ps_emit s u out;
         Some (ts_chunks (snd so)) } }"

end
