(* ===== verification/PsiStagePush.thy ===== *)
theory PsiStagePush
  imports PsiStage TsAssemblerCorrect
begin

text \<open>
  The PMT-PID stage as a reader: sections cut into packets in any well-formed way come back whole
  and in order. A cut is described without positions, as what is left of the section in flight and
  the sections that follow it.
\<close>

section \<open>Packets and their payloads\<close>

definition payload_off :: "bytes \<Rightarrow> nat" where
  "payload_off pkt = (if af_bit (pkt ! 3) then 5 + unat (pkt ! 4) else 4)"

definition packet_carries :: "bytes \<Rightarrow> bool \<times> bytes \<Rightarrow> bool" where
  "packet_carries pkt c \<longleftrightarrow>
     length pkt = TS_PACKET_SIZE \<and> pkt ! 0 = TS_SYNC_BYTE \<and> payload_bit (pkt ! 3) \<and>
     (pkt ! 1 AND 0x40 \<noteq> 0) = fst c \<and> payload_off pkt < TS_PACKET_SIZE \<and>
     drop (payload_off pkt) pkt = snd c"

lemma payload_bit_iff: "payload_bit b \<longleftrightarrow> drop_bit 4 b AND 0x01 \<noteq> 0"
  by (simp add: payload_bit_def and.assoc)

lemma ts_payload_offset_val: "4 < length pkt \<Longrightarrow> ts_payload_offset pkt = Some (payload_off pkt)"
  by (simp add: ts_payload_offset_def ts_vals payload_off_def)

text \<open>The stage after the continuity bookkeeping of an accepted packet.\<close>

definition noted :: "psi_stage \<Rightarrow> bytes \<Rightarrow> psi_stage" where
  "noted s pkt = s\<lparr>ps_last_in_cc := Some (pkt ! 3 AND 0x0F), ps_last_in := pkt\<rparr>"

lemma noted_sel [simp]:
  "ps_held (noted s p) = ps_held s" "ps_held_af (noted s p) = ps_held_af s"
  "ps_sections (noted s p) = ps_sections s" "ps_inflight (noted s p) = ps_inflight s"
  "ps_inflight_active (noted s p) = ps_inflight_active s" "ps_last_in (noted s p) = p"
  "ps_dropped_packets (noted s p) = ps_dropped_packets s" "ps_owned_cc (noted s p) = ps_owned_cc s"
  "ps_last_out_cc (noted s p) = ps_last_out_cc s"
  by (simp_all add: noted_def)

lemma ps_push_val:
  assumes "packet_carries pkt (pusi, payload)" "pusi \<or> ps_last_in s \<noteq> pkt \<or> ps_last_in_cc s \<noteq> Some (pkt ! 3 AND 0x0F)"
  shows "ps_push s pkt out =
     (if pusi then push_start (noted s pkt) pkt payload out
      else push_continuation (noted s pkt) pkt payload out)"
proof -
  have l: "length pkt = 188" "pkt ! 0 = TS_SYNC_BYTE" "drop_bit 4 (pkt ! 3) AND 0x01 \<noteq> 0"
      "payload_off pkt < 188" "drop (payload_off pkt) pkt = payload" "(pkt ! 1 AND 0x40 \<noteq> 0) = pusi"
    using assms(1) by (auto simp: packet_carries_def payload_bit_iff)
  then have "idx pkt 0 = Some TS_SYNC_BYTE" "slice pkt (payload_off pkt) 188 = Some payload"
    by (auto simp: idx_def)
  with l assms(2) show ?thesis
    by (auto simp: ps_push_def ts_vals ts_payload_offset_val noted_def Let_def)
qed

section \<open>Cuts\<close>

text \<open>\<open>cuts y rest cs\<close>: the payloads \<open>cs\<close> carry the bytes \<open>y\<close> that are left of the section in
  flight and then the sections \<open>rest\<close>, nothing else. A payload without a unit start continues the
  section; one with a unit start points behind it, and sections follow, the last of them possibly
  cut. Stuffing stands only where no section is cut.\<close>

inductive cuts :: "bytes \<Rightarrow> bytes list \<Rightarrow> (bool \<times> bytes) list \<Rightarrow> bool" where
  cut_done: "cuts [] [] []"
| cut_more: "\<lbrakk>a \<noteq> []; pad \<noteq> [] \<longrightarrow> b = []; cuts b rest cs\<rbrakk> \<Longrightarrow> cuts (a @ b) rest ((False, a @ pad) # cs)"
| cut_start: "\<lbrakk>length y < 256; set pad \<subseteq> {0xFF}; full \<noteq> []; cuts [] rest cs\<rbrakk>
    \<Longrightarrow> cuts y (full @ rest) ((True, of_nat (length y) # y @ concat full @ pad) # cs)"
| cut_across: "\<lbrakk>length y < 256; px \<noteq> []; py \<noteq> []; cuts py rest cs\<rbrakk>
    \<Longrightarrow> cuts y (full @ (px @ py) # rest) ((True, of_nat (length y) # y @ concat full @ px) # cs)"

inductive_cases cuts_NilE: "cuts y rest []"

text \<open>A section that can be cut: its length is the declared one and a long-form section carries a
  valid CRC.\<close>

definition section_ok :: "bytes \<Rightarrow> bool" where
  "section_ok sec \<longleftrightarrow> whole_section sec \<and> (sec ! 1 AND 0x80 \<noteq> 0 \<longrightarrow> mpeg2_crc32 sec = 0)"

lemma whole_sectionD:
  assumes "whole_section sec"
  shows "3 \<le> length sec" "length sec = 3 + len12 (sec ! 1) (sec ! 2)" "sec \<noteq> []" "sec ! 0 \<noteq> 0xFF"
    "\<exists>m. max_section_length (sec ! 0) = Some m \<and> len12 (sec ! 1) (sec ! 2) \<le> m"
  using assms by (auto simp: whole_section_def max_section_length_def split: option.splits if_splits)

lemma inflight_whole:
  assumes "whole_section sec" "ps_inflight s = sec @ pad"
  shows "inflight_needed s = Some (Some (length sec))"
  using whole_sectionD [OF assms(1)] assms(2) by (auto simp: inflight_needed_def nth_append Let_def)

lemma inflight_part:
  assumes "whole_section sec" "sec = ps_inflight s @ r" "r \<noteq> []"
  shows "inflight_needed s = Some None \<or>
    inflight_needed s = Some (Some (length sec)) \<and> length (ps_inflight s) < length sec"
proof (cases "length (ps_inflight s) < 3")
  case False
  note w = whole_sectionD [OF assms(1)]
  have "ps_inflight s ! 0 = sec ! 0" "ps_inflight s ! 1 = sec ! 1" "ps_inflight s ! 2 = sec ! 2"
    using prefix_header [OF assms(1,2)] False by auto
  moreover have "length (ps_inflight s) < length sec" using assms(2,3) by simp
  ultimately show ?thesis using w(2,5) False by (auto simp: inflight_needed_def Let_def)
qed (simp add: inflight_needed_def Let_def)

lemma finish_ok:
  assumes "section_ok sec" "ps_inflight s = sec @ pad"
  shows "finish_inflight s (length sec) out =
     Some (True, s\<lparr>ps_inflight := [], ps_sections := ps_sections s @ [sec], ps_inflight_active := False\<rparr>, out)"
  using assms by (auto simp: finish_inflight_def section_ok_def Let_def)

lemma walk_stuffing: "set pad \<subseteq> {0xFF} \<Longrightarrow> walk_sections s (hdr @ pad) (length hdr) = s"
  by (subst walk_sections.simps) (cases pad, auto simp: nth_append)

lemma walk_whole:
  assumes "whole_section sec"
  shows "walk_sections s (hdr @ sec @ behind) (length hdr) =
     walk_sections (s\<lparr>ps_sections := ps_sections s @ [sec]\<rparr>) ((hdr @ sec) @ behind) (length (hdr @ sec))"
proof -
  note w = whole_sectionD [OF assms]
  have n: "(hdr @ sec @ behind) ! (length hdr + i) = sec ! i" if "i < 3" for i
    using that w(1) by (simp add: nth_append)
  obtain m where m: "max_section_length (sec ! 0) = Some m" "len12 (sec ! 1) (sec ! 2) \<le> m" using w(5) by blast
  show ?thesis
    by (subst walk_sections.simps)
       (use w(1,2,4) m n [of 0] n [of 1] n [of 2] in \<open>auto simp: Let_def\<close>)
qed

lemma walk_cut:
  assumes "whole_section (px @ py)" "px \<noteq> []" "py \<noteq> []"
  shows "walk_sections s (hdr @ px) (length hdr) = s\<lparr>ps_inflight := px, ps_inflight_active := True\<rparr>"
proof -
  note w = whole_sectionD [OF assms(1)]
  have n: "(hdr @ px) ! (length hdr + i) = (px @ py) ! i" if "i < length px" for i
    using that by (simp add: nth_append)
  obtain m where m: "max_section_length ((px @ py) ! 0) = Some m" "len12 ((px @ py) ! 1) ((px @ py) ! 2) \<le> m"
    using w(5) by blast
  have l: "length px < length (px @ py)" using assms(3) by simp
  show ?thesis
  proof (cases "length px < 3")
    case True
    with n [of 0] w(4) assms(2) show ?thesis by (subst walk_sections.simps) (auto simp: Let_def)
  next
    case False
    with n [of 0] n [of 1] n [of 2] w(2,4) m l assms(2) show ?thesis
      by (subst walk_sections.simps) (auto simp: Let_def)
  qed
qed

lemma walk_run:
  assumes "\<forall>sec\<in>set full. whole_section sec"
  shows "walk_sections s (hdr @ concat full @ behind) (length hdr) =
     walk_sections (s\<lparr>ps_sections := ps_sections s @ full\<rparr>) ((hdr @ concat full) @ behind) (length (hdr @ concat full))"
  using assms
proof (induction full arbitrary: s hdr)
  case (Cons sec full)
  have "walk_sections s (hdr @ concat (sec # full) @ behind) (length hdr) =
      walk_sections (s\<lparr>ps_sections := ps_sections s @ [sec]\<rparr>) ((hdr @ sec) @ concat full @ behind) (length (hdr @ sec))"
    using walk_whole [of sec s hdr "concat full @ behind"] Cons.prems by simp
  also note Cons.IH [of "s\<lparr>ps_sections := ps_sections s @ [sec]\<rparr>" "hdr @ sec"]
  finally show ?case using Cons.prems by simp
qed simp

section \<open>Reading a cut\<close>

text \<open>The bytes \<open>x\<close> of the current section have been read; with none, no unit is in progress.\<close>

definition reading :: "psi_stage \<Rightarrow> bytes \<Rightarrow> bool" where
  "reading s x \<longleftrightarrow>
     (if x = [] then \<not> ps_inflight_active s \<and> ps_held s = [] \<and> ps_sections s = []
      else ps_inflight_active s \<and> ps_inflight s = x \<and> ps_held s \<noteq> [])"

definition whole_so_far :: "bytes \<Rightarrow> bytes \<Rightarrow> bytes list" where
  "whole_so_far x y = (if x = [] then [] else [x @ y])"

text \<open>Every packet of a batch, with the units handed out.\<close>

fun push_units ::
    "psi_stage \<Rightarrow> bytes list \<Rightarrow> bytes \<Rightarrow> (psi_unit list \<times> psi_stage \<times> bytes) panics" where
  "push_units s [] out = Some ([], s, out)"
| "push_units s (p # ps) out = do {
     (r, s, out) \<leftarrow> ps_push s p out;
     (us, s, out) \<leftarrow> push_units s ps out;
     Some ((case r of None \<Rightarrow> us | Some u \<Rightarrow> u # us), s, out) }"

lemma push_end_mid:
  "ps_inflight_active s \<Longrightarrow> length (ps_held s) \<le> MAX_UNIT_PACKETS \<Longrightarrow> push_end s out = Some (None, s, out)"
  by (simp add: push_end_def)

lemma push_end_done:
  "\<not> ps_inflight_active s \<Longrightarrow> ps_held s \<noteq> [] \<Longrightarrow> length (ps_held s) \<le> MAX_UNIT_PACKETS \<Longrightarrow>
   push_end s out =
     Some (Some \<lparr>pu_packets = ps_held s, pu_af_only = ps_held_af s, pu_sections = ps_sections s, pu_changed = False\<rparr>,
           s\<lparr>ps_held := [], ps_held_af := [], ps_sections := []\<rparr>, out)"
  by (simp add: push_end_def)

text \<open>What one packet did: the unit it completed or none, and the stage after, which has read
  \<open>x'\<close> of the next section and lost nothing.\<close>

definition read_step ::
    "psi_stage \<Rightarrow> bytes \<Rightarrow> psi_unit option \<Rightarrow> psi_stage \<Rightarrow> bytes \<Rightarrow> bytes list \<Rightarrow> bool" where
  "read_step s pkt r s' x' secs \<longleftrightarrow>
     reading s' x' \<and> ps_last_in s' = pkt \<and> ps_dropped_packets s' = ps_dropped_packets s \<and>
     (case r of None \<Rightarrow> ps_held s' = ps_held s @ [pkt] \<and> ps_sections s' = ps_sections s @ secs \<and> x' \<noteq> []
      | Some u \<Rightarrow> pu_packets u = ps_held s @ [pkt] \<and> pu_sections u = ps_sections s @ secs \<and>
          \<not> pu_changed u \<and> x' = [])"

lemma read_more:
  assumes "section_ok (x @ a @ b)" "reading s x" "x \<noteq> []" "a \<noteq> []" "pad \<noteq> [] \<longrightarrow> b = []"
    "packet_carries pkt (False, a @ pad)" "ps_last_in s \<noteq> pkt" "length (ps_held s) < MAX_UNIT_PACKETS"
  shows "\<exists>r s'. ps_push s pkt out = Some (r, s', out) \<and>
     read_step s pkt r s' (if b = [] then [] else x @ a) (if b = [] then [x @ a] else [])"
proof -
  let ?s = "(noted s pkt)\<lparr>ps_held := ps_held s @ [pkt], ps_inflight := x @ a @ pad\<rparr>"
  have act: "ps_inflight_active s" "ps_inflight s = x" "ps_held s \<noteq> []"
    using assms(2,3) by (auto simp: reading_def)
  have w: "whole_section (x @ a @ b)" using assms(1) by (simp add: section_ok_def)
  have p: "ps_push s pkt out = push_continuation (noted s pkt) pkt (a @ pad) out"
    using ps_push_val [OF assms(6)] assms(7) by simp
  show ?thesis
  proof (cases "b = []")
    case True
    have n: "inflight_needed ?s = Some (Some (length (x @ a)))"
      by (rule inflight_whole) (use w True in simp_all)
    have f: "finish_inflight ?s (length (x @ a)) out =
        Some (True, ?s\<lparr>ps_inflight := [], ps_sections := ps_sections ?s @ [x @ a], ps_inflight_active := False\<rparr>, out)"
      by (rule finish_ok) (use assms(1) True in simp_all)
    show ?thesis
      using act n f assms(8) True
      by (simp add: p push_continuation_def push_end_done read_step_def reading_def Let_def)
  next
    case False
    then have pad: "pad = []" using assms(5) by simp
    have n: "inflight_needed ?s = Some None \<or>
        inflight_needed ?s = Some (Some (length (x @ a @ b))) \<and> length (ps_inflight ?s) < length (x @ a @ b)"
      by (rule inflight_part [OF w]) (use pad False in simp_all)
    then have "push_continuation (noted s pkt) pkt (a @ pad) out = push_end ?s out"
      using act pad by (auto simp: push_continuation_def Let_def)
    moreover have "push_end ?s out = Some (None, ?s, out)"
      using act assms(8) by (intro push_end_mid) simp_all
    ultimately show ?thesis
      using False pad assms(3) act by (simp add: p read_step_def reading_def)
  qed
qed

text \<open>The stage in front of the walk of a unit-start packet.\<close>

definition started :: "psi_stage \<Rightarrow> bytes \<Rightarrow> bytes \<Rightarrow> bytes \<Rightarrow> psi_stage" where
  "started s pkt x y =
     (if x = [] then noted s pkt
      else (noted s pkt)\<lparr>ps_inflight := [], ps_sections := ps_sections s @ [x @ y], ps_inflight_active := False\<rparr>)
       \<lparr>ps_held := ps_held s @ [pkt]\<rparr>"

lemma started_sel:
  assumes "reading s x"
  shows "\<not> ps_inflight_active (started s pkt x y)" "ps_held (started s pkt x y) = ps_held s @ [pkt]"
    "ps_sections (started s pkt x y) = ps_sections s @ whole_so_far x y" "ps_last_in (started s pkt x y) = pkt"
    "ps_dropped_packets (started s pkt x y) = ps_dropped_packets s"
  using assms by (auto simp: started_def reading_def whole_so_far_def)

lemma read_start:
  assumes "x \<noteq> [] \<longrightarrow> section_ok (x @ y)" "x = [] \<longrightarrow> y = []" "reading s x" "length y < 256"
    "packet_carries pkt (True, of_nat (length y) # y @ w)"
  shows "ps_push s pkt out =
     push_end (walk_sections (started s pkt x y) ((of_nat (length y) # y) @ w) (length (of_nat (length y) # y))) out"
proof -
  let ?pl = "of_nat (length y) # y @ w"
  have p: "ps_push s pkt out = push_start (noted s pkt) pkt ?pl out"
    using ps_push_val [OF assms(5)] by simp
  have u: "unat (of_nat (length y) :: u8) = length y" using assms(4) by (simp add: unat_of_nat)
  show ?thesis
  proof (cases "x = []")
    case True
    with assms(2,3) u show ?thesis by (simp add: p push_start_def end_inflight_def started_def reading_def Let_def)
  next
    case False
    let ?s = "(noted s pkt)\<lparr>ps_inflight := x @ y\<rparr>"
    have n: "inflight_needed ?s = Some (Some (length (x @ y)))"
      by (rule inflight_whole [where pad = "[]"]) (use assms(1) False in \<open>simp_all add: section_ok_def\<close>)
    have f: "finish_inflight ?s (length (x @ y)) out =
        Some (True, ?s\<lparr>ps_inflight := [], ps_sections := ps_sections ?s @ [x @ y], ps_inflight_active := False\<rparr>, out)"
      by (rule finish_ok [where pad = "[]"]) (use assms(1) False in simp_all)
    show ?thesis
      using False assms(3) u n f by (simp add: p push_start_def end_inflight_def started_def reading_def Let_def)
  qed
qed

lemma read_start_whole:
  assumes "x \<noteq> [] \<longrightarrow> section_ok (x @ y)" "x = [] \<longrightarrow> y = []" "reading s x" "length y < 256"
    "packet_carries pkt (True, of_nat (length y) # y @ concat full @ pad)" "set pad \<subseteq> {0xFF}"
    "\<forall>sec\<in>set full. section_ok sec" "length (ps_held s) < MAX_UNIT_PACKETS"
  shows "\<exists>r s'. ps_push s pkt out = Some (r, s', out) \<and> read_step s pkt r s' [] (whole_so_far x y @ full)"
proof -
  note st = started_sel [OF assms(3), of pkt y]
  have w: "\<forall>sec\<in>set full. whole_section sec" using assms(7) by (simp add: section_ok_def)
  let ?s = "(started s pkt x y)\<lparr>ps_sections := ps_sections (started s pkt x y) @ full\<rparr>"
  have "ps_push s pkt out = push_end ?s out"
    unfolding read_start [OF assms(1-5)] walk_run [OF w] walk_stuffing [OF assms(6)] ..
  also have "\<dots> = Some (Some \<lparr>pu_packets = ps_held ?s, pu_af_only = ps_held_af ?s, pu_sections = ps_sections ?s,
      pu_changed = False\<rparr>, ?s\<lparr>ps_held := [], ps_held_af := [], ps_sections := []\<rparr>, out)"
    by (rule push_end_done) (use st assms(8) in simp_all)
  finally show ?thesis using st by (simp add: read_step_def reading_def)
qed

lemma read_start_cut:
  assumes "x \<noteq> [] \<longrightarrow> section_ok (x @ y)" "x = [] \<longrightarrow> y = []" "reading s x" "length y < 256"
    "packet_carries pkt (True, of_nat (length y) # y @ concat full @ px)" "px \<noteq> []" "py \<noteq> []"
    "\<forall>sec\<in>set full. section_ok sec" "section_ok (px @ py)" "length (ps_held s) < MAX_UNIT_PACKETS"
  shows "\<exists>r s'. ps_push s pkt out = Some (r, s', out) \<and> read_step s pkt r s' px (whole_so_far x y @ full)"
proof -
  note st = started_sel [OF assms(3), of pkt y]
  have w: "\<forall>sec\<in>set full. whole_section sec" "whole_section (px @ py)"
    using assms(8,9) by (simp_all add: section_ok_def)
  let ?s = "(started s pkt x y)\<lparr>ps_sections := ps_sections (started s pkt x y) @ full,
      ps_inflight := px, ps_inflight_active := True\<rparr>"
  have "ps_push s pkt out = push_end ?s out"
    unfolding read_start [OF assms(1-5)] walk_run [OF w(1)] walk_cut [OF w(2) assms(6,7)] ..
  also have "\<dots> = Some (None, ?s, out)" by (rule push_end_mid) (use st assms(10) in simp_all)
  finally show ?thesis using st assms(6) by (simp add: read_step_def reading_def)
qed

text \<open>A packet that only continues a section differs from the packet before it.\<close>

fun no_repeats :: "bytes \<Rightarrow> bytes list \<Rightarrow> (bool \<times> bytes) list \<Rightarrow> bool" where
  "no_repeats prev (p # ps) (c # cs) \<longleftrightarrow> (fst c \<or> p \<noteq> prev) \<and> no_repeats p ps cs"
| "no_repeats prev _ _ \<longleftrightarrow> True"

text \<open>What is read in the end: every packet and every section of the cut, in order, in the units
  handed out.\<close>

definition read_all ::
    "psi_stage \<Rightarrow> bytes list \<Rightarrow> bytes \<Rightarrow> bytes list \<Rightarrow> bytes list \<Rightarrow> bytes list \<Rightarrow> bool" where
  "read_all s pkts out held pending secs \<longleftrightarrow>
     (\<exists>us s'. push_units s pkts out = Some (us, s', out) \<and> reading s' [] \<and>
        ps_dropped_packets s' = ps_dropped_packets s \<and> (\<forall>u\<in>set us. \<not> pu_changed u) \<and>
        concat (map pu_packets us) = held @ pkts \<and> concat (map pu_sections us) = pending @ secs)"

lemma read_all_step:
  assumes "ps_push s pkt out = Some (r, s', out)" "read_step s pkt r s' x' secs"
    "read_all s' pkts out (ps_held s') (ps_sections s') rest"
  shows "read_all s (pkt # pkts) out (ps_held s) (ps_sections s) (secs @ rest)"
proof -
  obtain us s2 where u: "push_units s' pkts out = Some (us, s2, out)" "reading s2 []"
      "ps_dropped_packets s2 = ps_dropped_packets s'" "\<forall>u\<in>set us. \<not> pu_changed u"
      "concat (map pu_packets us) = ps_held s' @ pkts" "concat (map pu_sections us) = ps_sections s' @ rest"
    using assms(3) by (auto simp: read_all_def)
  show ?thesis
  proof (cases r)
    case None
    with assms(1,2) u show ?thesis by (auto simp: read_all_def read_step_def)
  next
    case (Some v)
    then have "ps_held s' = []" "ps_sections s' = []"
      using assms(2) by (auto simp: read_step_def reading_def)
    with Some assms(1,2) u show ?thesis by (auto simp: read_all_def read_step_def)
  qed
qed

lemma read_step_held:
  "read_step s pkt r s' x' secs \<Longrightarrow> length (ps_held s') \<le> length (ps_held s) + 1 \<and> ps_last_in s' = pkt \<and> reading s' x'"
  by (auto simp: read_step_def reading_def split: option.splits)

theorem cut_is_read:
  assumes "cuts y rest cs" "list_all2 packet_carries pkts cs" "no_repeats (ps_last_in s) pkts cs"
    "reading s x" "x = [] \<longleftrightarrow> y = []" "\<forall>sec\<in>set (whole_so_far x y @ rest). section_ok sec"
    "length (ps_held s) + length pkts \<le> MAX_UNIT_PACKETS"
  shows "read_all s pkts out (ps_held s) (ps_sections s) (whole_so_far x y @ rest)"
  using assms
proof (induction y rest cs arbitrary: s x pkts rule: cuts.induct)
  case cut_done
  then show ?case by (simp add: read_all_def reading_def whole_so_far_def)
next
  case (cut_more a pad b rest cs)
  obtain p ps where p: "pkts = p # ps" "packet_carries p (False, a @ pad)" "list_all2 packet_carries ps cs"
    using cut_more.prems(1) by (auto simp: list_all2_Cons2)
  have x: "x \<noteq> []" using cut_more.hyps(1) cut_more.prems(4) by simp
  have l: "length (ps_held s) < MAX_UNIT_PACKETS" using cut_more.prems(6) p(1) by simp
  have ok: "section_ok (x @ a @ b)" using cut_more.prems(5) x by (simp add: whole_so_far_def)
  have np: "ps_last_in s \<noteq> p" "no_repeats p ps cs" using cut_more.prems(2) p(1) by auto
  let ?x = "if b = [] then [] else x @ a"
  obtain r s' where r: "ps_push s p out = Some (r, s', out)"
      "read_step s p r s' ?x (if b = [] then [x @ a] else [])"
    using read_more [OF ok cut_more.prems(3) x cut_more.hyps(1,2) p(2) np(1) l] by blast
  note h = read_step_held [OF r(2)]
  have "read_all s' ps out (ps_held s') (ps_sections s') (whole_so_far ?x b @ rest)"
    by (rule cut_more.IH)
       (use p np h x ok cut_more.prems(5,6) in \<open>auto simp: whole_so_far_def\<close>)
  from read_all_step [OF r this] show ?case
    using x by (simp add: p(1) whole_so_far_def split: if_splits)
next
  case (cut_start y pad full rest cs)
  obtain p ps where p: "pkts = p # ps" "packet_carries p (True, of_nat (length y) # y @ concat full @ pad)"
      "list_all2 packet_carries ps cs"
    using cut_start.prems(1) by (auto simp: list_all2_Cons2)
  have l: "length (ps_held s) < MAX_UNIT_PACKETS" using cut_start.prems(6) p(1) by simp
  have ok: "x \<noteq> [] \<longrightarrow> section_ok (x @ y)" "x = [] \<longrightarrow> y = []" "\<forall>sec\<in>set full. section_ok sec"
    using cut_start.prems(4,5) by (auto simp: whole_so_far_def)
  obtain r s' where r: "ps_push s p out = Some (r, s', out)" "read_step s p r s' [] (whole_so_far x y @ full)"
    using read_start_whole [OF ok(1,2) cut_start.prems(3) cut_start.hyps(1) p(2) cut_start.hyps(2) ok(3) l] by blast
  note h = read_step_held [OF r(2)]
  have "read_all s' ps out (ps_held s') (ps_sections s') (whole_so_far [] [] @ rest)"
    by (rule cut_start.IH) (use p h cut_start.prems in \<open>auto simp: whole_so_far_def\<close>)
  from read_all_step [OF r this] show ?case by (simp add: p(1) whole_so_far_def)
next
  case (cut_across y px py rest cs full)
  obtain p ps where p: "pkts = p # ps" "packet_carries p (True, of_nat (length y) # y @ concat full @ px)"
      "list_all2 packet_carries ps cs"
    using cut_across.prems(1) by (auto simp: list_all2_Cons2)
  have l: "length (ps_held s) < MAX_UNIT_PACKETS" using cut_across.prems(6) p(1) by simp
  have ok: "x \<noteq> [] \<longrightarrow> section_ok (x @ y)" "x = [] \<longrightarrow> y = []" "\<forall>sec\<in>set full. section_ok sec" "section_ok (px @ py)"
    using cut_across.prems(4,5) by (auto simp: whole_so_far_def)
  obtain r s' where r: "ps_push s p out = Some (r, s', out)" "read_step s p r s' px (whole_so_far x y @ full)"
    using read_start_cut [OF ok(1,2) cut_across.prems(3) cut_across.hyps(1) p(2) cut_across.hyps(2,3) ok(3,4) l] by blast
  note h = read_step_held [OF r(2)]
  have "read_all s' ps out (ps_held s') (ps_sections s') (whole_so_far px py @ rest)"
    by (rule cut_across.IH)
       (use p h ok cut_across.hyps(2,3) cut_across.prems in \<open>auto simp: whole_so_far_def\<close>)
  from read_all_step [OF r this] show ?case using cut_across.hyps(2) by (simp add: p(1) whole_so_far_def)
qed

end
