(* ===== verification/PsiStageLayout.thy ===== *)
theory PsiStageLayout
  imports PsiStagePush
begin

text \<open>
  The PMT-PID stage as a writer: \<open>layout\<close> always succeeds on whole packets, what it writes is a cut
  of the sections, and each packet keeps the header bits of its template.
\<close>

section \<open>Headers of output packets\<close>

definition templates_ok :: "bytes list \<Rightarrow> bool" where
  "templates_ok ts \<longleftrightarrow> ts \<noteq> [] \<and> (\<forall>t\<in>set ts. length t = TS_PACKET_SIZE)"

definition cc_of :: "bytes \<Rightarrow> u8" where
  "cc_of p = p ! 3 AND 0x0F"

definition af_ok :: "bytes option \<Rightarrow> bool" where
  "af_ok af \<longleftrightarrow> (case af of None \<Rightarrow> True | Some a \<Rightarrow> a \<noteq> [] \<and> unat (a ! 0) + 1 = length a)"

lemma af_bytes_val:
  "length pkt = 188 \<Longrightarrow> af_bytes pkt =
     Some (if drop_bit 4 (pkt ! 3) AND 0x02 = 0 \<or> unat (pkt ! 4) > 183 then None
           else Some (take (1 + unat (pkt ! 4)) (drop 4 pkt)))"
  by (auto simp: af_bytes_def Let_def)

lemma af_bytes_ok: "length pkt = 188 \<Longrightarrow> \<exists>af. af_bytes pkt = Some af \<and> af_ok af"
  by (auto simp: af_bytes_val af_ok_def)

lemma template_val:
  assumes "templates_ok ts"
  shows "\<exists>h0 h1 h2 af. layout_template ts i = Some ((h0, h1, h2), af) \<and> af_ok af \<and>
     (i < length ts \<longrightarrow> h2 = ts ! i ! 3)"
proof (cases "i < length ts")
  case True
  then have "length (ts ! i) = 188" using assms by (simp add: templates_ok_def)
  with True af_bytes_ok [of "ts ! i"] show ?thesis by (auto simp: layout_template_def Let_def)
next
  case False
  have "ts ! 0 \<in> set ts" "ts \<noteq> []" using assms by (auto simp: templates_ok_def)
  then have "idx ts 0 = Some (ts ! 0)" "length (ts ! 0) = 188"
    using assms by (auto simp: templates_ok_def)
  with False show ?thesis by (auto simp: layout_template_def af_ok_def)
qed

text \<open>A packet of which the payload is still stuffing.\<close>

definition header_ok :: "bytes \<Rightarrow> nat \<Rightarrow> bool" where
  "header_ok p w \<longleftrightarrow>
     length p = 188 \<and> p ! 0 = TS_SYNC_BYTE \<and> payload_bit (p ! 3) \<and> payload_off p = w \<and> w + 2 \<le> 188 \<and>
     4 \<le> w \<and> (af_bit (p ! 3) \<longrightarrow> 5 \<le> w) \<and> p ! 1 AND 0x40 = 0 \<and> drop w p = replicate (188 - w) 0xFF"

lemma af_control_bits:
  "payload_bit (0x10 OR (h AND 0x0F))" "\<not> af_bit (0x10 OR (h AND 0x0F))"
  "payload_bit (0x30 OR (h AND 0x0F))" "af_bit (0x30 OR (h AND 0x0F))"
  "(0x10 OR (h AND 0x0F)) AND 0x0F = h AND 0x0F" "(0x30 OR (h AND 0x0F)) AND 0x0F = h AND 0x0F"
  "(h AND 0x3F) AND 0x40 = 0"
proof -
  have d: "drop_bit 4 (0x10 OR (h AND 0x0F)) = 1" "drop_bit 4 (0x30 OR (h AND 0x0F)) = 3"
    by (rule bit_word_eqI, auto simp: low_masks bit_simps)+
  show "payload_bit (0x10 OR (h AND 0x0F))" "\<not> af_bit (0x10 OR (h AND 0x0F))"
    "payload_bit (0x30 OR (h AND 0x0F))" "af_bit (0x30 OR (h AND 0x0F))"
    unfolding payload_bit_def af_bit_def d by simp_all
  show "(0x10 OR (h AND 0x0F)) AND 0x0F = h AND 0x0F" "(0x30 OR (h AND 0x0F)) AND 0x0F = h AND 0x0F"
    "(h AND 0x3F) AND 0x40 = 0"
    by (simp_all add: bit.conj_disj_distrib2 and.assoc)
qed

lemma header_val:
  assumes "af_ok af"
  shows "\<exists>p w. layout_header ((h0, h1, h2), af) = Some (p, w) \<and> header_ok p w \<and> cc_of p = h2 AND 0x0F"
proof -
  let ?q = "(replicate 188 (0xFF :: u8))[0 := TS_SYNC_BYTE, 1 := h0 AND 0x3F, 2 := h1]"
  have plain: "header_ok (?q[3 := 0x10 OR (h2 AND 0x0F)]) 4 \<and> cc_of (?q[3 := 0x10 OR (h2 AND 0x0F)]) = h2 AND 0x0F"
    by (simp add: header_ok_def payload_off_def cc_of_def af_control_bits drop_update_cancel)
  show ?thesis
  proof (cases "\<exists>a. af = Some a \<and> length a < 183")
    case False
    then show ?thesis using plain by (cases af) (auto simp: layout_header_def Let_def)
  next
    case True
    then obtain a where a: "af = Some a" "length a < 183" by blast
    have an: "a \<noteq> []" "5 + unat (a ! 0) = 4 + length a" using assms a(1) by (auto simp: af_ok_def)
    let ?r = "?q[3 := 0x30 OR (h2 AND 0x0F)]"
    let ?p = "take 4 ?r @ a @ drop (4 + length a) ?r"
    have "layout_header ((h0, h1, h2), af) = Some (?p, 4 + length a)"
      using a by (simp add: layout_header_def Let_def)
    moreover have n: "?p ! i = ?r ! i" if "i < 4" for i
      using that by (simp add: nth_append)
    moreover have "?p ! 4 = a ! 0" using an(1) by (simp add: nth_append)
    moreover have "drop (4 + length a) ?p = replicate (184 - length a) 0xFF"
      by (simp add: drop_update_cancel)
    moreover have "length ?p = 188" using a(2) by simp
    ultimately have "header_ok ?p (4 + length a)" "cc_of ?p = h2 AND 0x0F"
      using a(2) an n [of 0] n [of 1] n [of 3]
      by (simp_all add: header_ok_def payload_off_def cc_of_def af_control_bits del: append_assoc)
    with \<open>layout_header ((h0, h1, h2), af) = _\<close> show ?thesis by blast
  qed
qed

lemma filled_carries:
  assumes "header_ok p w" "length payload = 188 - w"
  shows "packet_carries (take w (p[1 := b]) @ payload) (b AND 0x40 \<noteq> 0, payload)"
    "cc_of (take w (p[1 := b]) @ payload) = cc_of p"
proof -
  let ?p = "take w (p[1 := b]) @ payload"
  have h: "length p = 188" "4 \<le> w" "w + 2 \<le> 188" using assms(1) by (auto simp: header_ok_def)
  have n: "?p ! i = p[1 := b] ! i" if "i < w" for i
    using that h by (simp add: nth_append)
  have "?p ! 0 = p ! 0" "?p ! 1 = b" "?p ! 3 = p ! 3" using n [of 0] n [of 1] n [of 3] h by auto
  moreover have "?p ! 4 = p ! 4" if "af_bit (p ! 3)" using n [of 4] that assms(1) by (auto simp: header_ok_def)
  ultimately show "packet_carries ?p (b AND 0x40 \<noteq> 0, payload)" "cc_of ?p = cc_of p"
    using assms h by (auto simp: packet_carries_def header_ok_def payload_off_def cc_of_def)
qed

section \<open>Positions\<close>

lemma layout_starts_append:
  "layout_starts k (a @ b) = layout_starts k a @ layout_starts (k + length (concat a)) b"
  by (induction a arbitrary: k) (simp_all add: ac_simps)

lemma layout_starts_below:
  "\<forall>s\<in>set ss. s \<noteq> [] \<Longrightarrow> a \<in> set (layout_starts k ss) \<Longrightarrow> a < k + length (concat ss)"
  by (induction ss arbitrary: k) (auto, fastforce)

lemma skip_starts_at:
  assumes "next \<le> length A" "\<forall>a\<in>set A. a < pos" "B = [] \<or> pos \<le> B ! 0"
  shows "skip_starts (A @ B) next pos = length A"
  using assms(1)
proof (induction "length A - next" arbitrary: "next")
  case 0
  then have n: "next = length A" by simp
  show ?case unfolding n by (subst skip_starts.simps) (use assms(3) in \<open>auto simp: nth_append\<close>)
next
  case (Suc k)
  then have "next < length A" by simp
  moreover have "skip_starts (A @ B) (next + 1) pos = length A" using Suc by simp
  ultimately show ?case
    by (subst skip_starts.simps) (use assms(2) in \<open>auto simp: nth_append\<close>)
qed

text \<open>A prefix of a run of sections, cut at any byte.\<close>

lemma take_concat_split:
  assumes "m \<le> length (concat ss)" "\<forall>s\<in>set ss. s \<noteq> []"
  shows "\<exists>full px py r. take m (concat ss) = concat full @ px \<and> drop m (concat ss) = py @ concat r \<and>
     (px = [] \<and> py = [] \<and> ss = full @ r \<or> px \<noteq> [] \<and> py \<noteq> [] \<and> ss = full @ (px @ py) # r)"
  using assms
proof (induction ss arbitrary: m)
  case Nil
  have "take m (concat []) = concat [] @ [] \<and> drop m (concat []) = [] @ concat [] \<and>
     ([] = [] \<and> [] = [] \<and> [] = [] @ [])" by simp
  then show ?case by (metis append_Nil concat.simps(1) drop_Nil take_Nil)
next
  case (Cons s ss)
  show ?case
  proof (cases "length s \<le> m")
    case True
    have m: "m - length s \<le> length (concat ss)" using Cons.prems True by simp
    have ne: "\<forall>s\<in>set ss. s \<noteq> []" using Cons.prems by simp
    from Cons.IH [OF m ne] obtain full px py r where
        t: "take (m - length s) (concat ss) = concat full @ px" "drop (m - length s) (concat ss) = py @ concat r"
        "px = [] \<and> py = [] \<and> ss = full @ r \<or> px \<noteq> [] \<and> py \<noteq> [] \<and> ss = full @ (px @ py) # r" by blast
    show ?thesis
      by (rule exI [of _ "s # full"], rule exI [of _ px], rule exI [of _ py], rule exI [of _ r])
         (use t True in auto)
  next
    case False
    show ?thesis
    proof (cases "m = 0")
      case True
      show ?thesis
        by (rule exI [of _ "[]"], rule exI [of _ "[]"], rule exI [of _ "[]"], rule exI [of _ "s # ss"])
           (simp add: True)
    next
      case m: False
      show ?thesis
        by (rule exI [of _ "[]"], rule exI [of _ "take m s"], rule exI [of _ "drop m s"], rule exI [of _ ss])
           (use m False Cons.prems in auto)
    qed
  qed
qed

section \<open>One output packet\<close>

text \<open>The write position \<open>pos\<close> stands inside the data with \<open>y\<close> left of the current section and
  \<open>rest\<close> to come, and the search for the next section start has not passed it.\<close>

definition laying :: "bytes \<Rightarrow> nat list \<Rightarrow> nat \<Rightarrow> nat \<Rightarrow> bytes \<Rightarrow> bytes list \<Rightarrow> bool" where
  "laying data starts pos next y rest \<longleftrightarrow>
     pos \<le> length data \<and> drop pos data = y @ concat rest \<and> (\<forall>s\<in>set rest. s \<noteq> []) \<and>
     (\<exists>A. starts = A @ layout_starts (pos + length y) rest \<and> (\<forall>a\<in>set A. a < pos) \<and> next \<le> length A)"

lemma laying_next:
  assumes "laying data starts pos next y rest"
  shows "if rest = [] then \<not> skip_starts starts next pos < length starts
     else skip_starts starts next pos < length starts \<and> starts ! skip_starts starts next pos = pos + length y"
proof -
  obtain A where A: "starts = A @ layout_starts (pos + length y) rest" "\<forall>a\<in>set A. a < pos" "next \<le> length A"
    using assms by (auto simp: laying_def)
  have "skip_starts starts next pos = length A"
    unfolding A(1) by (rule skip_starts_at [OF A(3,2)]) (cases rest, auto)
  then show ?thesis using A(1) by (cases rest) auto
qed

lemma laying_move:
  assumes "laying data starts pos next y rest" "rest = full @ r \<and> px = [] \<and> py = [] \<or> rest = full @ (px @ py) # r \<and> px \<noteq> []"
    "n = length y + length (concat full) + length px" "pos < pos + n"
  shows "laying data starts (pos + n) (skip_starts starts next pos) py r"
proof -
  obtain A where A: "starts = A @ layout_starts (pos + length y) rest" "\<forall>a\<in>set A. a < pos" "next \<le> length A"
      "pos \<le> length data" "drop pos data = y @ concat rest" "\<forall>s\<in>set rest. s \<noteq> []"
    using assms(1) by (auto simp: laying_def)
  have sk: "skip_starts starts next pos = length A"
    unfolding A(1) by (rule skip_starts_at [OF A(3,2)]) (cases rest, auto)
  have dd: "drop (pos + n) data = drop n (y @ concat rest)" using A(5) by (metis add.commute drop_drop)
  have l: "length data - pos = length (y @ concat rest)" using A(5) by (metis length_drop)
  have below: "a < pos + length y + length (concat full)" if "a \<in> set (layout_starts (pos + length y) full)" for a
    using layout_starts_below [OF _ that] A(6) assms(2) by auto
  from assms(2) show ?thesis
  proof
    assume c: "rest = full @ r \<and> px = [] \<and> py = []"
    have s: "starts = (A @ layout_starts (pos + length y) full) @ layout_starts (pos + n + length py) r"
      using A(1) c assms(3) by (simp add: layout_starts_append ac_simps)
    have b: "\<forall>a\<in>set (A @ layout_starts (pos + length y) full). a < pos + n"
      using A(2) below c assms(3,4) by fastforce
    show ?thesis
      unfolding laying_def using s b c sk A(4,6) l dd assms(3)
      by (intro conjI exI [of _ "A @ layout_starts (pos + length y) full"]) auto
  next
    assume c: "rest = full @ (px @ py) # r \<and> px \<noteq> []"
    let ?B = "A @ layout_starts (pos + length y) full @ [pos + length y + length (concat full)]"
    have s: "starts = ?B @ layout_starts (pos + n + length py) r"
      using A(1) c assms(3) by (simp add: layout_starts_append ac_simps)
    have b: "\<forall>a\<in>set ?B. a < pos + n"
    proof
      fix a assume "a \<in> set ?B"
      moreover have "0 < length px" using c by simp
      ultimately show "a < pos + n" using A(2) below assms(3) by fastforce
    qed
    show ?thesis
      unfolding laying_def using s b c sk A(4,6) l dd assms(3)
      by (intro conjI exI [of _ ?B]) auto
  qed
qed

lemma laying_inside:
  assumes "laying data starts pos next (a @ b) rest" "a \<noteq> []"
  shows "laying data starts (pos + length a) (skip_starts starts next pos) b rest"
proof -
  obtain A where A: "starts = A @ layout_starts (pos + length (a @ b)) rest" "\<forall>x\<in>set A. x < pos" "next \<le> length A"
      "pos \<le> length data" "drop pos data = (a @ b) @ concat rest" "\<forall>s\<in>set rest. s \<noteq> []"
    using assms(1) by (auto simp: laying_def)
  have sk: "skip_starts starts next pos = length A"
    unfolding A(1) by (rule skip_starts_at [OF A(3,2)]) (cases rest, auto)
  have dd: "drop (pos + length a) data = b @ concat rest"
    using A(5) by (metis add.commute append.assoc append_eq_conv_conj drop_drop)
  have l: "length data - pos = length ((a @ b) @ concat rest)" using A(5) by (metis length_drop)
  show ?thesis
    unfolding laying_def using A l dd sk by (intro conjI exI [of _ A]) (auto simp: ac_simps)
qed

lemma drop_stuffing:
  assumes "header_ok p w" "w \<le> k"
  shows "drop k p = replicate (188 - k) 0xFF"
proof -
  have "drop k p = drop (k - w) (drop w p)" using assms(2) by simp
  also have "drop w p = replicate (188 - w) 0xFF" using assms(1) by (simp add: header_ok_def)
  finally show ?thesis using assms(2) by simp
qed

lemma put_continuation:
  assumes "header_ok p w" "w + length chunk \<le> 188"
  shows "put_slice p w (w + length chunk) chunk =
     Some (take w (p[1 := p ! 1]) @ chunk @ replicate (188 - w - length chunk) 0xFF)"
  using assms drop_stuffing [OF assms(1), of "w + length chunk"] by (simp add: header_ok_def)

lemma put_start:
  assumes "header_ok p w" "w + 1 + length chunk \<le> 188"
  shows "put_slice (p[1 := b, w := v]) (w + 1) (w + 1 + length chunk) chunk =
     Some (take w (p[1 := b]) @ v # chunk @ replicate (187 - w - length chunk) 0xFF)"
proof -
  have h: "length p = 188" "4 \<le> w" using assms(1) by (auto simp: header_ok_def)
  have "take (w + 1) (p[1 := b, w := v]) = take w (p[1 := b]) @ [v]"
    using h assms(2) by (simp add: take_Suc_conv_app_nth)
  moreover have "drop (w + 1 + length chunk) (p[1 := b, w := v]) = replicate (187 - w - length chunk) 0xFF"
    using drop_stuffing [OF assms(1), of "w + 1 + length chunk"] h by (simp add: drop_update_cancel)
  ultimately show ?thesis using h assms(2) by simp
qed

lemma start_bit: "((b :: u8) OR 0x40) AND 0x40 \<noteq> 0"
proof
  assume "(b OR 0x40) AND 0x40 = 0"
  then have "bit ((b OR 0x40) AND 0x40) 6 = bit (0 :: u8) 6" by simp
  then show False by (simp add: bit_simps)
qed

text \<open>What one round of the loop did.\<close>

definition laid ::
    "bytes \<Rightarrow> nat list \<Rightarrow> nat \<Rightarrow> nat \<Rightarrow> bytes \<Rightarrow> bytes list \<Rightarrow> (bytes \<times> nat \<times> nat) \<Rightarrow> (bool \<times> bytes) \<Rightarrow> bool" where
  "laid data starts pos next y rest r c \<longleftrightarrow>
     packet_carries (fst r) c \<and> pos < fst (snd r) \<and>
     (\<exists>y' rest'. laying data starts (fst (snd r)) (snd (snd r)) y' rest' \<and>
        (\<forall>cs. cuts y' rest' cs \<longrightarrow> cuts y rest (c # cs)))"

lemma laid_start:
  assumes lay: "laying data starts pos next y rest" and h: "header_ok p w" and y: "length y + 1 < 188 - w"
    and rest: "rest \<noteq> []" and n: "n = min (187 - w) (length data - pos)" and b: "b AND 0x40 \<noteq> 0"
  defines "c \<equiv> of_nat (length y) # take n (drop pos data) @ replicate (187 - w - n) 0xFF"
  shows "laid data starts pos next y rest (take w (p[1 := b]) @ c, pos + n, skip_starts starts next pos) (True, c)"
proof -
  have d: "drop pos data = y @ concat rest" "\<forall>s\<in>set rest. s \<noteq> []" using lay by (auto simp: laying_def)
  have l: "length data - pos = length y + length (concat rest)" using d(1) by (metis length_append length_drop)
  have "hd rest \<noteq> []" using rest d(2) by simp
  then have pos: "0 < length (concat rest)" using rest by (cases rest) auto
  then have ny: "length y < n" "n \<le> length y + length (concat rest)" "n \<le> 187 - w" using n y l by auto
  let ?m = "n - length y"
  have m: "?m \<le> length (concat rest)" using ny by simp
  obtain full px py r where t: "take ?m (concat rest) = concat full @ px" "drop ?m (concat rest) = py @ concat r"
      "px = [] \<and> py = [] \<and> rest = full @ r \<or> px \<noteq> [] \<and> py \<noteq> [] \<and> rest = full @ (px @ py) # r"
    using take_concat_split [OF m d(2)] by blast
  have ml: "?m = length (concat full) + length px" using arg_cong [OF t(1), of length] m by simp
  have nl: "n = length y + length (concat full) + length px" using ml ny(1) by simp
  have tk: "take n (drop pos data) = y @ concat full @ px" using t(1) ny(1) by (simp add: d(1))
  have carry: "packet_carries (take w (p[1 := b]) @ c) (True, c)"
    using filled_carries(1) [OF h, of c b] b ny h d l by (simp add: c_def header_ok_def)
  have lay': "laying data starts (pos + n) (skip_starts starts next pos) py r"
    by (rule laying_move [OF lay _ nl]) (use t(3) ny(1) in auto)
  have y256: "length y < 256" using y by simp
  have "cuts y rest ((True, c) # cs)" if cs: "cuts py r cs" for cs
    using t(3)
  proof
    assume e: "px = [] \<and> py = [] \<and> rest = full @ r"
    have "full \<noteq> []" using ml ny(1) e by auto
    then have "cuts y (full @ r) ((True, of_nat (length y) # y @ concat full @ replicate (187 - w - n) 0xFF) # cs)"
      using cs e by (intro cut_start y256) auto
    then show ?thesis using e tk by (simp add: c_def)
  next
    assume e: "px \<noteq> [] \<and> py \<noteq> [] \<and> rest = full @ (px @ py) # r"
    then have "n < length y + length (concat rest)" using nl by simp
    then have "187 - w - n = 0" using n l by auto
    then show ?thesis using cut_across [OF y256 _ _ cs, of px full] e tk by (simp add: c_def)
  qed
  with carry lay' ny(1) show ?thesis by (auto simp: laid_def)
qed

lemma laid_more:
  assumes lay: "laying data starts pos next y rest" and h: "header_ok p w"
    and n: "0 < n" "n \<le> length y" "n \<le> 188 - w" "n < 188 - w \<longrightarrow> n = length y"
  defines "c \<equiv> take n (drop pos data) @ replicate (188 - w - n) 0xFF"
  shows "laid data starts pos next y rest (take w (p[1 := p ! 1]) @ c, pos + n, skip_starts starts next pos) (False, c)"
proof -
  have d: "drop pos data = y @ concat rest" using lay by (auto simp: laying_def)
  have tk: "take n (drop pos data) = take n y" using n(2) by (simp add: d)
  have c: "c = take n y @ replicate (188 - w - n) 0xFF" by (simp only: c_def tk)
  have carry: "packet_carries (take w (p[1 := p ! 1]) @ c) (False, c)"
    using filled_carries(1) [OF h, of c "p ! 1"] h n by (simp add: c header_ok_def)
  have ne: "take n y \<noteq> []" using n(1,2) by (cases y) auto
  have lay': "laying data starts (pos + n) (skip_starts starts next pos) (drop n y) rest"
    using laying_inside [of data starts pos "next" "take n y" "drop n y" rest] lay ne n(2) by simp
  have "cuts y rest ((False, c) # cs)" if "cuts (drop n y) rest cs" for cs
    using cut_more [OF ne _ that, of "replicate (188 - w - n) 0xFF"] n(4) by (auto simp: c)
  with carry lay' n(1) show ?thesis by (auto simp: laid_def)
qed

lemma layout_packet_step:
  assumes ts: "templates_ok ts" and lay: "laying data starts pos next y rest" and more: "pos < length data"
  shows "\<exists>r c. layout_packet ts data starts i pos next = Some r \<and> laid data starts pos next y rest r c \<and>
     (i < length ts \<longrightarrow> cc_of (fst r) = cc_of (ts ! i))"
proof -
  obtain h0 h1 h2 af where t: "layout_template ts i = Some ((h0, h1, h2), af)" "af_ok af"
      "i < length ts \<longrightarrow> h2 = ts ! i ! 3"
    using template_val [OF ts, of i] by blast
  obtain p w where h: "layout_header ((h0, h1, h2), af) = Some (p, w)" "header_ok p w" "cc_of p = h2 AND 0x0F"
    using header_val [OF t(2)] by blast
  have cc: "i < length ts \<longrightarrow> cc_of p = cc_of (ts ! i)" using t(3) h(3) by (simp add: cc_of_def)
  have w: "length p = 188" "4 \<le> w" "w + 2 \<le> 188" using h(2) by (auto simp: header_ok_def)
  have d: "drop pos data = y @ concat rest" using lay by (auto simp: laying_def)
  have l: "length data - pos = length y + length (concat rest)" using d by (metis length_append length_drop)
  let ?k = "skip_starts starts next pos"
  note k = laying_next [OF lay]
  show ?thesis
  proof (cases "rest \<noteq> [] \<and> length y + 1 < 188 - w")
    case True
    then have k': "?k < length starts" "starts ! ?k = pos + length y" using k by auto
    let ?n = "min (187 - w) (length data - pos)" and ?b = "p ! 1 OR 0x40"
    let ?c = "of_nat (length y) # take ?n (drop pos data) @ replicate (187 - w - ?n) 0xFF"
    have s: "slice data pos (pos + ?n) = Some (take ?n (drop pos data))" using more by simp
    have "length (take ?n (drop pos data)) = ?n" by simp
    then have ps: "put_slice (p[1 := ?b, w := of_nat (length y)]) (w + 1) (w + 1 + ?n) (take ?n (drop pos data)) =
        Some (take w (p[1 := ?b]) @ ?c)"
      using put_start [OF h(2), of "take ?n (drop pos data)" ?b "of_nat (length y)"] w by simp
    have "layout_packet ts data starts i pos next = Some (take w (p[1 := ?b]) @ ?c, pos + ?n, ?k)"
      using True k' w s ps by (simp add: layout_packet_def t(1) h(1) Let_def del: slice_in put_slice_in)
    moreover have "laid data starts pos next y rest (take w (p[1 := ?b]) @ ?c, pos + ?n, ?k) (True, ?c)"
      by (rule laid_start [OF lay h(2)]) (use True start_bit in auto)
    moreover have "cc_of (take w (p[1 := ?b]) @ ?c) = cc_of p"
      by (rule filled_carries(2) [OF h(2)]) (use w l in auto)
    ultimately show ?thesis using cc by (metis fst_conv)
  next
    case False
    have far: "\<not> (case (if ?k < length starts then Some (starts ! ?k) else None) of
        Some s \<Rightarrow> s + 1 < pos + (188 - w) | None \<Rightarrow> False)"
      using False k by (auto split: if_splits)
    define n where "n = (if rest \<noteq> [] \<and> length y + 1 = 188 - w then 187 - w else min (188 - w) (length data - pos))"
    have ns: "(if (if ?k < length starts then Some (starts ! ?k) else None) = Some (pos + (188 - w) - 1)
        then 188 - w - 1 else min (188 - w) (length data - pos)) = n"
      unfolding n_def using k w by (auto split: if_splits)
    have nb: "0 < n" "n \<le> length y" "n \<le> 188 - w" "n < 188 - w \<longrightarrow> n = length y"
      unfolding n_def using False more w l by (auto split: if_splits)
    let ?c = "take n (drop pos data) @ replicate (188 - w - n) 0xFF"
    have s: "slice data pos (pos + n) = Some (take n (drop pos data))" using nb(2) l more by (intro slice_in [THEN trans]) simp_all
    have "length (take n (drop pos data)) = n" using nb(2) l by simp
    then have ps: "put_slice p w (w + n) (take n (drop pos data)) = Some (take w (p[1 := p ! 1]) @ ?c)"
      using put_continuation [OF h(2), of "take n (drop pos data)"] nb(3) w by (metis add.commute le_diff_conv2 add_leE)
    have "layout_packet ts data starts i pos next = Some (take w (p[1 := p ! 1]) @ ?c, pos + n, ?k)"
      using far s ps by (simp only: layout_packet_def t(1) h(1) Let_def bind.bind_lunit prod.case TS_PACKET_SIZE_val
          if_False ns)
    moreover have "laid data starts pos next y rest (take w (p[1 := p ! 1]) @ ?c, pos + n, ?k) (False, ?c)"
      by (rule laid_more [OF lay h(2) nb])
    moreover have "cc_of (take w (p[1 := p ! 1]) @ ?c) = cc_of p"
      by (rule filled_carries(2) [OF h(2)]) (use w l nb in auto)
    ultimately show ?thesis using cc by (metis fst_conv)
  qed
qed

section \<open>The whole layout\<close>

lemma layout_loop_cuts:
  assumes "templates_ok ts" "laying data starts pos next y rest"
  shows "\<exists>pkts cs. layout_loop ts data starts i pos next = Some pkts \<and> cuts y rest cs \<and>
     list_all2 packet_carries pkts cs \<and> (\<forall>k < length pkts. i + k < length ts \<longrightarrow> cc_of (pkts ! k) = cc_of (ts ! (i + k)))"
  using assms(2)
proof (induction "length data - pos" arbitrary: pos "next" y rest i rule: less_induct)
  case less
  show ?case
  proof (cases "pos < length data")
    case False
    then have "y @ concat rest = []" "\<forall>s\<in>set rest. s \<noteq> []" using less.prems by (auto simp: laying_def)
    then have "y = [] \<and> rest = []" by (cases rest) auto
    with False cut_done show ?thesis by (subst layout_loop.simps) auto
  next
    case True
    obtain r c where r: "layout_packet ts data starts i pos next = Some r" "laid data starts pos next y rest r c"
        "i < length ts \<longrightarrow> cc_of (fst r) = cc_of (ts ! i)"
      using layout_packet_step [OF assms(1) less.prems True] by blast
    obtain y' rest' where l: "packet_carries (fst r) c" "pos < fst (snd r)"
        "laying data starts (fst (snd r)) (snd (snd r)) y' rest'" "\<forall>cs. cuts y' rest' cs \<longrightarrow> cuts y rest (c # cs)"
      using r(2) by (auto simp: laid_def)
    have m: "length data - fst (snd r) < length data - pos" using True l(2) by simp
    obtain pkts cs where p: "layout_loop ts data starts (i + 1) (fst (snd r)) (snd (snd r)) = Some pkts"
        "cuts y' rest' cs" "list_all2 packet_carries pkts cs"
        "\<forall>k < length pkts. i + 1 + k < length ts \<longrightarrow> cc_of (pkts ! k) = cc_of (ts ! (i + 1 + k))"
      using less.hyps [OF m l(3)] by blast
    have "layout_loop ts data starts i pos next = Some (fst r # pkts)"
      using True r(1) p(1) by (subst layout_loop.simps) simp
    moreover have "cc_of ((fst r # pkts) ! k) = cc_of (ts ! (i + k))"
      if "k < length (fst r # pkts)" "i + k < length ts" for k
      using that r(3) p(4) by (cases k) auto
    ultimately show ?thesis using l p by (intro exI [of _ "fst r # pkts"] exI [of _ "c # cs"]) auto
  qed
qed

lemma cc_write_bits:
  "af_bit ((b AND 0xF0) OR (c AND 0x0F)) = af_bit b" "payload_bit ((b AND 0xF0) OR (c AND 0x0F)) = payload_bit b"
  "((b AND 0xF0) OR (c AND 0x0F)) AND 0x0F = c AND 0x0F"
proof -
  have d: "drop_bit 4 ((b AND 0xF0) OR (c AND 0x0F)) = drop_bit 4 b"
    by (rule bit_word_eqI) (auto simp: low_masks mask_splits bit_simps dest: bit_imp_le_length)
  show "af_bit ((b AND 0xF0) OR (c AND 0x0F)) = af_bit b" "payload_bit ((b AND 0xF0) OR (c AND 0x0F)) = payload_bit b"
    unfolding af_bit_def payload_bit_def d by (rule refl)+
  show "((b AND 0xF0) OR (c AND 0x0F)) AND 0x0F = c AND 0x0F"
    by (rule bit_word_eqI) (auto simp: low_masks mask_splits bit_simps)
qed

text \<open>A packet with another continuity counter carries what it carried.\<close>

definition with_cc :: "bytes \<Rightarrow> u8 \<Rightarrow> bytes" where
  "with_cc p c = p[3 := (p ! 3 AND 0xF0) OR (c AND 0x0F)]"

lemma with_cc_carries:
  assumes "packet_carries p c"
  shows "packet_carries (with_cc p d) c" "cc_of (with_cc p d) = d AND 0x0F"
proof -
  have l: "length p = 188" "4 \<le> payload_off p" using assms by (auto simp: packet_carries_def payload_off_def)
  have n: "with_cc p d ! i = (if i = 3 then (p ! 3 AND 0xF0) OR (d AND 0x0F) else p ! i)" for i
    using l(1) by (simp add: with_cc_def nth_list_update)
  have o: "payload_off (with_cc p d) = payload_off p" by (simp add: payload_off_def n cc_write_bits)
  show "cc_of (with_cc p d) = d AND 0x0F" by (simp add: cc_of_def n cc_write_bits)
  have "drop (payload_off p) (with_cc p d) = drop (payload_off p) p"
    unfolding with_cc_def using l(2) by (intro drop_update_cancel) simp
  then show "packet_carries (with_cc p d) c"
    using assms l(1) by (simp add: packet_carries_def n o cc_write_bits) (simp add: with_cc_def)
qed

lemma renumber_val:
  assumes "list_all2 packet_carries ps cs"
  shows "\<exists>qs. renumber cc ps = Some qs \<and> list_all2 packet_carries qs cs \<and> distinct_adj (cc # map cc_of qs)"
  using assms
proof (induction ps cs arbitrary: cc rule: list_all2_induct)
  case (Cons p ps c cs)
  let ?cc = "(cc + 1) AND 0x0F"
  have l: "length p = 188" using Cons(1) by (simp add: packet_carries_def)
  have e: "p[3 := (p ! 3 AND 0xF0) OR ?cc] = with_cc p (cc + 1)" by (simp add: with_cc_def)
  obtain qs where q: "renumber ?cc ps = Some qs" "list_all2 packet_carries qs cs" "distinct_adj (?cc # map cc_of qs)"
    using Cons.IH by blast
  have "renumber cc (p # ps) = Some (with_cc p (cc + 1) # qs)"
    using l q(1) e by (simp add: Let_def)
  moreover have "cc \<noteq> ?cc" using next_cc_differs [of cc] by metis
  ultimately show ?case
    using q with_cc_carries [OF Cons(1), of "cc + 1"] by (simp add: distinct_adj_Cons)
qed simp

lemma no_repeats_cc:
  assumes "distinct_adj (map cc_of pkts)" "pkts \<noteq> [] \<and> cs \<noteq> [] \<longrightarrow> fst (hd cs) \<or> hd pkts \<noteq> prev"
  shows "no_repeats prev pkts cs"
  using assms
proof (induction prev pkts cs rule: no_repeats.induct)
  case (1 prev p ps c cs)
  have "no_repeats p ps cs"
    by (rule 1) (use 1 in \<open>auto simp: distinct_adj_Cons neq_Nil_conv\<close>)
  with 1 show ?case by simp
qed simp_all

theorem layout_cuts:
  assumes "templates_ok ts" "\<forall>s\<in>set secs. s \<noteq> []"
  shows "\<exists>pkts cs. layout secs ts = Some pkts \<and> cuts [] secs cs \<and> list_all2 packet_carries pkts cs \<and>
     (distinct_adj (map cc_of ts) \<longrightarrow> distinct_adj (map cc_of pkts))"
proof -
  let ?n = "length ts"
  have lay: "laying (concat secs) (layout_starts 0 secs) 0 0 [] secs" using assms(2) by (simp add: laying_def)
  obtain out cs where o: "layout_loop ts (concat secs) (layout_starts 0 secs) 0 0 0 = Some out" "cuts [] secs cs"
      "list_all2 packet_carries out cs" "\<forall>k < length out. k < ?n \<longrightarrow> cc_of (out ! k) = cc_of (ts ! k)"
    using layout_loop_cuts [OF assms(1) lay, of 0] by auto
  have c: "list_all2 packet_carries (take ?n out) (take ?n cs)" "list_all2 packet_carries (drop ?n out) (drop ?n cs)"
    using o(3) by (auto intro: list_all2_takeI list_all2_dropI)
  have t: "last ts \<in> set ts" "ts \<noteq> []" using assms(1) by (auto simp: templates_ok_def)
  then have lc: "ts_cc (last ts) = Some (cc_of (last ts))"
    using assms(1) by (simp add: templates_ok_def ts_cc_val cc_of_def)
  obtain qs where q: "renumber (cc_of (last ts)) (drop ?n out) = Some qs" "list_all2 packet_carries qs (drop ?n cs)"
      "distinct_adj (cc_of (last ts) # map cc_of qs)"
    using renumber_val [OF c(2)] by blast
  have "layout secs ts = Some (take ?n out @ qs)"
    using t(2) by (simp add: layout_def o(1) lc q(1))
  moreover have "list_all2 packet_carries (take ?n out @ qs) cs"
    using list_all2_appendI [OF c(1) q(2)] by simp
  moreover have "distinct_adj (map cc_of (take ?n out @ qs))" if d: "distinct_adj (map cc_of ts)"
  proof -
    have m: "map cc_of (take ?n out) = take (length out) (map cc_of ts)"
      by (rule nth_equalityI) (use o(4) in auto)
    have dt: "distinct_adj (take (length out) (map cc_of ts))"
      using d by (metis append_take_drop_id distinct_adj_appendD1)
    show ?thesis
    proof (cases "length out \<le> ?n")
      case True
      then have "qs = []" using q(2) c(2) by (metis drop_all list_all2_lengthD length_0_conv)
      then show ?thesis using dt m by simp
    next
      case False
      then have "map cc_of (take ?n out) = map cc_of ts" using m by simp
      then show ?thesis
        using d q(3) t(2) by (auto simp: distinct_adj_append_iff distinct_adj_Cons last_map)
    qed
  qed
  ultimately show ?thesis using o(2) by blast
qed

end
