(* ===== verification/PsiStageFacts.thy ===== *)
theory PsiStageFacts
  imports PsiStagePush
begin

text \<open>
  The invariant of the PMT-PID stage and what a packet can do to it: it is held, completes a unit,
  is written at once, is a duplicate, or is dropped and counted. No packet of any content makes the
  stage panic.
\<close>

section \<open>Writing\<close>

text \<open>The stage apart from the counter it last wrote.\<close>

definition same_stage :: "psi_stage \<Rightarrow> psi_stage \<Rightarrow> bool" where
  "same_stage s s' \<longleftrightarrow> (\<exists>c. s' = s\<lparr>ps_last_out_cc := c\<rparr>)"

lemma same_stage_refl [simp]: "same_stage s s"
  unfolding same_stage_def by (rule exI [of _ "ps_last_out_cc s"]) simp

lemma same_stage_out [simp]: "same_stage s (s\<lparr>ps_last_out_cc := c\<rparr>)"
  by (auto simp: same_stage_def)

lemma same_stage_trans: "same_stage a b \<Longrightarrow> same_stage b c \<Longrightarrow> same_stage a c"
  by (auto simp: same_stage_def)

lemma same_stage_sel:
  assumes "same_stage s s'"
  shows "ps_held s' = ps_held s" "ps_held_af s' = ps_held_af s" "ps_sections s' = ps_sections s"
    "ps_inflight s' = ps_inflight s" "ps_inflight_active s' = ps_inflight_active s"
    "ps_last_in_cc s' = ps_last_in_cc s" "ps_last_in s' = ps_last_in s" "ps_owned_cc s' = ps_owned_cc s"
    "ps_dropped_packets s' = ps_dropped_packets s"
  using assms by (auto simp: same_stage_def)

lemma write_packet_val:
  assumes "length p = 188"
  shows "\<exists>s' q. write_packet s p out = Some (s', out @ q) \<and> same_stage s s' \<and> length q = 188 \<and>
     (\<not> ps_owned_cc s \<longrightarrow> q = p)"
  using assms by (auto simp: write_packet_def ts_vals Let_def)

lemma write_all_val:
  assumes "\<forall>p\<in>set ps. length p = 188"
  shows "\<exists>s' q. write_all s ps out = Some (s', out @ q) \<and> same_stage s s' \<and>
     (\<not> ps_owned_cc s \<longrightarrow> q = concat ps)"
  using assms
proof (induction ps arbitrary: s out)
  case Nil
  show ?case by (simp add: write_all_def)
next
  case (Cons p ps)
  obtain s1 q1 where w: "write_packet s p out = Some (s1, out @ q1)" "same_stage s s1" "\<not> ps_owned_cc s \<longrightarrow> q1 = p"
    using write_packet_val Cons.prems by (meson list.set_intros(1))
  obtain s2 q2 where r: "write_all s1 ps (out @ q1) = Some (s2, (out @ q1) @ q2)" "same_stage s1 s2"
      "\<not> ps_owned_cc s1 \<longrightarrow> q2 = concat ps"
    using Cons.IH [of s1 "out @ q1"] Cons.prems by auto
  have "write_all s (p # ps) out = Some (s2, out @ q1 @ q2)"
    using w(1) r(1) by (simp add: write_all_def)
  then show ?case
    using same_stage_trans [OF w(2) r(2)] w(3) r(3) same_stage_sel(8) [OF w(2)] by auto
qed

section \<open>The invariant\<close>

definition stage_inv :: "psi_stage \<Rightarrow> bool" where
  "stage_inv s \<longleftrightarrow>
     (\<forall>p\<in>set (ps_held s). length p = 188) \<and>
     (\<forall>a\<in>set (ps_held_af s). length (snd a) = 188 \<and> fst a \<le> length (ps_held s)) \<and>
     (ps_held s = [] \<longleftrightarrow> \<not> ps_inflight_active s) \<and> (ps_held s = [] \<longrightarrow> ps_held_af s = []) \<and>
     (ps_inflight_active s \<longrightarrow> incomplete (ps_inflight s)) \<and> length (ps_held s) \<le> MAX_UNIT_PACKETS"

lemma ps_new_inv: "stage_inv ps_new"
  by (simp add: stage_inv_def ps_new_def)

lemma drop_held_val:
  assumes "\<forall>a\<in>set (ps_held_af s). length (snd a) = 188" "0 < length (ps_held s) + extra"
  shows "\<exists>s' q. drop_held s extra out = Some (s', out @ q) \<and> ps_held s' = [] \<and> ps_held_af s' = [] \<and>
     ps_sections s' = [] \<and> \<not> ps_inflight_active s' \<and> ps_last_in s' = ps_last_in s \<and>
     ps_dropped_packets s' = ps_dropped_packets s + (length (ps_held s) + extra)"
proof -
  let ?n = "length (ps_held s) + extra"
  let ?a = "s\<lparr>ps_held := [], ps_sections := [], ps_inflight := [], ps_inflight_active := False,
      ps_dropped_packets := ps_dropped_packets s + ?n\<rparr>"
  let ?b = "if ps_last_out_cc s \<noteq> None then ?a\<lparr>ps_owned_cc := True\<rparr> else ?a"
  have l: "\<forall>p\<in>set (map snd (ps_held_af s)). length p = 188" using assms(1) by auto
  obtain s1 q where w: "write_all (?b\<lparr>ps_held_af := []\<rparr>) (map snd (ps_held_af s)) out = Some (s1, out @ q)"
      "same_stage (?b\<lparr>ps_held_af := []\<rparr>) s1"
    using write_all_val [OF l] by blast
  have "drop_held s extra out = Some (s1\<lparr>ps_warned := True\<rparr>, out @ q)"
    using assms(2) w(1) by (cases "ps_last_out_cc s") (auto simp: drop_held_def flush_held_af_def Let_def)
  moreover note same_stage_sel [OF w(2)]
  ultimately show ?thesis by auto
qed

text \<open>What one packet can do.\<close>

definition held_on ::
    "psi_stage \<Rightarrow> bytes \<Rightarrow> bytes \<Rightarrow> psi_unit option \<Rightarrow> psi_stage \<Rightarrow> bytes \<Rightarrow> bool" where
  "held_on s pkt out r s' out' \<longleftrightarrow>
     out' = out \<and> ps_owned_cc s' = ps_owned_cc s \<and> ps_dropped_packets s' = ps_dropped_packets s \<and>
     (case r of None \<Rightarrow> ps_held s' = ps_held s @ [pkt] \<and> ps_held_af s' = ps_held_af s
      | Some u \<Rightarrow> pu_packets u = ps_held s @ [pkt] \<and> pu_af_only u = ps_held_af s \<and> \<not> pu_changed u \<and>
          ps_held s' = [] \<and> ps_held_af s' = [])"

definition lost :: "psi_stage \<Rightarrow> psi_unit option \<Rightarrow> psi_stage \<Rightarrow> bool" where
  "lost s r s' \<longleftrightarrow> ps_dropped_packets s < ps_dropped_packets s' \<and>
     (case r of None \<Rightarrow> True
      | Some u \<Rightarrow> \<not> pu_changed u \<and> (\<forall>p\<in>set (pu_packets u). length p = 188) \<and> pu_packets u \<noteq> [] \<and>
          (\<forall>a\<in>set (pu_af_only u). length (snd a) = 188))"

lemma walk_sections_keeps:
  "ps_held (walk_sections s pl pos) = ps_held s \<and> ps_held_af (walk_sections s pl pos) = ps_held_af s \<and>
   ps_owned_cc (walk_sections s pl pos) = ps_owned_cc s \<and> ps_last_in (walk_sections s pl pos) = ps_last_in s \<and>
   ps_dropped_packets (walk_sections s pl pos) = ps_dropped_packets s \<and>
   (\<not> ps_inflight_active s \<longrightarrow> ps_inflight_active (walk_sections s pl pos) \<longrightarrow>
      incomplete (ps_inflight (walk_sections s pl pos)))"
proof (induction s pl pos rule: walk_sections.induct)
  case (1 s pl pos)
  let ?len = "len12 (pl ! (pos + 1)) (pl ! (pos + 2))"
  let ?s = "s\<lparr>ps_sections := ps_sections s @ [take (3 + ?len) (drop pos pl)]\<rparr>"
  show ?case
  proof (cases "pos < length pl \<and> pl ! pos \<noteq> 0xFF \<and> 3 \<le> length pl - pos \<and>
      (\<exists>m. max_section_length (pl ! pos) = Some m \<and> ?len \<le> m) \<and> 3 + ?len \<le> length pl - pos")
    case True
    then obtain m where m: "max_section_length (pl ! pos) = Some m" "?len \<le> m" by blast
    have w: "walk_sections s pl pos = walk_sections ?s pl (pos + (3 + ?len))"
      using True m by (subst walk_sections.simps) (simp add: Let_def)
    have "ps_held (walk_sections ?s pl (pos + (3 + ?len))) = ps_held ?s \<and>
        ps_held_af (walk_sections ?s pl (pos + (3 + ?len))) = ps_held_af ?s \<and>
        ps_owned_cc (walk_sections ?s pl (pos + (3 + ?len))) = ps_owned_cc ?s \<and>
        ps_last_in (walk_sections ?s pl (pos + (3 + ?len))) = ps_last_in ?s \<and>
        ps_dropped_packets (walk_sections ?s pl (pos + (3 + ?len))) = ps_dropped_packets ?s \<and>
        (\<not> ps_inflight_active ?s \<longrightarrow> ps_inflight_active (walk_sections ?s pl (pos + (3 + ?len))) \<longrightarrow>
          incomplete (ps_inflight (walk_sections ?s pl (pos + (3 + ?len)))))"
      by (rule 1) (use True m in auto)
    then show ?thesis unfolding w by simp
  next
    case False
    then show ?thesis
      by (subst (1 2 3 4 5 6 7) walk_sections.simps)
         (auto simp: Let_def incomplete_def split: option.splits)
  qed
qed

text \<open>A stage that has just taken a packet in and has yet to decide about the unit.\<close>

definition pending :: "psi_stage \<Rightarrow> bool" where
  "pending s \<longleftrightarrow>
     (\<forall>p\<in>set (ps_held s). length p = 188) \<and> ps_held s \<noteq> [] \<and>
     (\<forall>a\<in>set (ps_held_af s). length (snd a) = 188 \<and> fst a \<le> length (ps_held s)) \<and>
     (ps_inflight_active s \<longrightarrow> incomplete (ps_inflight s))"

lemma push_end_val:
  assumes "pending s1" "ps_held s1 = ps_held s @ [pkt]" "ps_held_af s1 = ps_held_af s"
    "ps_owned_cc s1 = ps_owned_cc s" "ps_dropped_packets s1 = ps_dropped_packets s"
  shows "\<exists>r s' out'. push_end s1 out = Some (r, s', out') \<and> stage_inv s' \<and> ps_last_in s' = ps_last_in s1 \<and>
     (held_on s pkt out r s' out' \<or> lost s r s')"
proof (cases "length (ps_held s1) > MAX_UNIT_PACKETS")
  case True
  obtain s' q where d: "drop_held s1 0 out = Some (s', out @ q)" "ps_held s' = []" "ps_held_af s' = []"
      "\<not> ps_inflight_active s'" "ps_last_in s' = ps_last_in s1"
      "ps_dropped_packets s' = ps_dropped_packets s1 + (length (ps_held s1) + 0)"
    using drop_held_val [of s1 0 out] assms(1) by (auto simp: pending_def)
  have "push_end s1 out = Some (None, s', out @ q)" using True d(1) by (simp add: push_end_def)
  moreover have "stage_inv s'" using d by (simp add: stage_inv_def)
  moreover have "lost s None s'" using d(6) assms by (simp add: lost_def)
  ultimately show ?thesis using d(5) by blast
next
  case len: False
  show ?thesis
  proof (cases "ps_inflight_active s1")
    case True
    then have "push_end s1 out = Some (None, s1, out)" using len by (intro push_end_mid) auto
    moreover have "stage_inv s1" using assms(1) True len by (auto simp: stage_inv_def pending_def)
    moreover have "held_on s pkt out None s1 out" using assms by (simp add: held_on_def)
    ultimately show ?thesis by blast
  next
    case False
    have e: "ps_held s1 \<noteq> []" using assms(2) by simp
    let ?u = "\<lparr>pu_packets = ps_held s1, pu_af_only = ps_held_af s1, pu_sections = ps_sections s1, pu_changed = False\<rparr>"
    let ?s = "s1\<lparr>ps_held := [], ps_held_af := [], ps_sections := []\<rparr>"
    have "push_end s1 out = Some (Some ?u, ?s, out)" using False e len by (intro push_end_done) auto
    moreover have "stage_inv ?s" using False by (simp add: stage_inv_def)
    moreover have "held_on s pkt out (Some ?u) ?s out" using assms by (simp add: held_on_def)
    ultimately show ?thesis by auto
  qed
qed

lemma push_end_lost:
  assumes "pending s1" "ps_dropped_packets s < ps_dropped_packets s1"
  shows "\<exists>r s' out'. push_end s1 out = Some (r, s', out') \<and> stage_inv s' \<and> ps_last_in s' = ps_last_in s1 \<and>
     lost s r s'"
proof -
  obtain hs h where e: "ps_held s1 = hs @ [h]" using assms(1) by (cases "ps_held s1" rule: rev_cases) (auto simp: pending_def)
  let ?s = "s1\<lparr>ps_held := hs\<rparr>"
  obtain r s' out' where p: "push_end s1 out = Some (r, s', out')" "stage_inv s'" "ps_last_in s' = ps_last_in s1"
      "held_on ?s h out r s' out' \<or> lost ?s r s'"
    using push_end_val [OF assms(1), of ?s h out] e by auto
  have "lost s r s'"
    using p(4) assms e
    by (cases r) (auto simp: held_on_def lost_def pending_def)
  with p show ?thesis by blast
qed

definition push_outcome ::
    "psi_stage \<Rightarrow> bytes \<Rightarrow> bytes \<Rightarrow> (psi_unit option \<times> psi_stage \<times> bytes) panics \<Rightarrow> bool" where
  "push_outcome s pkt out res \<longleftrightarrow>
     (\<exists>r s' out'. res = Some (r, s', out') \<and> stage_inv s' \<and> ps_last_in s' = pkt \<and>
        (held_on s pkt out r s' out' \<or> lost s r s'))"

lemma push_outcomeI:
  "res = Some (r, s', out') \<Longrightarrow> stage_inv s' \<Longrightarrow> ps_last_in s' = pkt \<Longrightarrow>
   held_on s pkt out r s' out' \<or> lost s r s' \<Longrightarrow> push_outcome s pkt out res"
  by (auto simp: push_outcome_def)

lemma finish_inflight_val:
  assumes "\<forall>a\<in>set (ps_held_af s). length (snd a) = 188" "ps_held s \<noteq> []"
  shows "(\<exists>b. finish_inflight s tot out =
       Some (True, s\<lparr>ps_inflight := [], ps_sections := b, ps_inflight_active := False\<rparr>, out)) \<or>
     (\<exists>s' q. finish_inflight s tot out = Some (False, s', out @ q) \<and> ps_held s' = [] \<and> ps_held_af s' = [] \<and>
        \<not> ps_inflight_active s' \<and> ps_last_in s' = ps_last_in s \<and> ps_dropped_packets s < ps_dropped_packets s')"
proof (cases "(length (take tot (ps_inflight s)) > 1 \<and> take tot (ps_inflight s) ! 1 AND 0x80 \<noteq> 0) \<and>
    mpeg2_crc32 (take tot (ps_inflight s)) \<noteq> 0")
  case True
  let ?s = "s\<lparr>ps_inflight := take tot (ps_inflight s)\<rparr>"
  obtain s' q where "drop_held ?s 0 out = Some (s', out @ q)" "ps_held s' = []" "ps_held_af s' = []"
      "\<not> ps_inflight_active s'" "ps_last_in s' = ps_last_in ?s"
      "ps_dropped_packets s' = ps_dropped_packets ?s + (length (ps_held ?s) + 0)"
    using drop_held_val [of ?s 0 out] assms by auto
  with True assms(2) show ?thesis by (auto simp: finish_inflight_def Let_def)
next
  case False
  then show ?thesis by (auto simp: finish_inflight_def Let_def)
qed

lemma push_continuation_outcome:
  assumes "stage_inv s" "length pkt = 188" "ps_last_in s = pkt"
  shows "push_outcome s pkt out (push_continuation s pkt pl out)"
proof (cases "ps_inflight_active s")
  case False
  let ?s = "s\<lparr>ps_dropped_packets := ps_dropped_packets s + 1\<rparr>"
  let ?t = "if ps_last_out_cc s \<noteq> None then ?s\<lparr>ps_owned_cc := True\<rparr> else ?s"
  show ?thesis
    by (rule push_outcomeI [where r = None and s' = ?t and out' = out])
       (use False assms in \<open>auto simp: push_continuation_def stage_inv_def lost_def Let_def\<close>)
next
  case True
  let ?s = "s\<lparr>ps_held := ps_held s @ [pkt], ps_inflight := ps_inflight s @ pl\<rparr>"
  have h: "ps_held ?s \<noteq> []" "\<forall>a\<in>set (ps_held_af ?s). length (snd a) = 188"
      "\<forall>p\<in>set (ps_held ?s). length p = 188" "\<forall>a\<in>set (ps_held_af ?s). fst a \<le> length (ps_held ?s)"
    using assms by (auto simp: stage_inv_def)
  show ?thesis
  proof (cases "inflight_needed ?s")
    case None
    obtain s' q where d: "drop_held ?s 0 out = Some (s', out @ q)" "ps_held s' = []" "ps_held_af s' = []"
        "\<not> ps_inflight_active s'" "ps_last_in s' = ps_last_in ?s"
        "ps_dropped_packets s' = ps_dropped_packets ?s + (length (ps_held ?s) + 0)"
      using drop_held_val [of ?s 0 out] h(2) by auto
    show ?thesis
      by (rule push_outcomeI [where r = None and s' = s' and out' = "out @ q"])
         (use None True d assms(3) in \<open>auto simp: push_continuation_def stage_inv_def lost_def Let_def\<close>)
  next
    case (Some need)
    show ?thesis
    proof (cases "\<exists>tot. need = Some tot \<and> tot \<le> length (ps_inflight ?s)")
      case False
      have inc: "incomplete (ps_inflight ?s)"
        using Some False by (auto simp: inflight_needed_def incomplete_def Let_def split: if_splits option.splits)
      have e: "push_continuation s pkt pl out = push_end ?s out"
        using True Some False by (cases need) (auto simp: push_continuation_def Let_def)
      have "pending ?s" using h inc by (auto simp: pending_def)
      then show ?thesis
        using push_end_val [of ?s s pkt out] assms(3) by (auto simp: e push_outcome_def)
    next
      case fin: True
      then obtain tot where t: "need = Some tot" "tot \<le> length (ps_inflight ?s)" by blast
      have e: "push_continuation s pkt pl out = do {
          (ok, s, out) \<leftarrow> finish_inflight ?s tot out;
          if ok then push_end s out else Some (None, s, out) }"
        using True Some t by (simp add: push_continuation_def Let_def case_prod_unfold)
      from finish_inflight_val [OF h(2,1), of tot out] show ?thesis
      proof (elim disjE exE conjE)
        fix b
        let ?f = "?s\<lparr>ps_inflight := [], ps_sections := b, ps_inflight_active := False\<rparr>"
        assume f: "finish_inflight ?s tot out = Some (True, ?f, out)"
        have "pending ?f" using h by (auto simp: pending_def)
        then show ?thesis
          using push_end_val [of ?f s pkt out] assms(3) by (auto simp: e f push_outcome_def)
      next
        fix s' q assume f: "finish_inflight ?s tot out = Some (False, s', out @ q)" "ps_held s' = []" "ps_held_af s' = []"
          "\<not> ps_inflight_active s'" "ps_last_in s' = ps_last_in ?s" "ps_dropped_packets ?s < ps_dropped_packets s'"
        show ?thesis
          by (rule push_outcomeI [where r = None and s' = s' and out' = "out @ q"])
             (use f assms(3) in \<open>auto simp: e stage_inv_def lost_def\<close>)
      qed
    qed
  qed
qed

text \<open>The unit-start packet is held behind whatever the end of the section in flight left.\<close>

lemma walk_pending:
  assumes "ps_held s1 = hs @ [pkt]" "\<forall>p\<in>set hs. length p = 188" "length pkt = 188" "\<not> ps_inflight_active s1"
    "\<forall>a\<in>set (ps_held_af s1). length (snd a) = 188 \<and> fst a \<le> length (ps_held s1)"
  shows "pending (walk_sections s1 pl pos)"
  using assms walk_sections_keeps [of s1 pl pos] by (auto simp: pending_def)

text \<open>The section in flight ends well, or the unit so far is dropped.\<close>

definition settled :: "psi_stage \<Rightarrow> bytes \<Rightarrow> psi_stage \<Rightarrow> bytes \<Rightarrow> bool" where
  "settled s out s1 out1 \<longleftrightarrow>
     \<not> ps_inflight_active s1 \<and> ps_last_in s1 = ps_last_in s \<and>
     ((\<exists>b i. s1 = s\<lparr>ps_inflight := i, ps_sections := b, ps_inflight_active := False\<rparr>) \<and> out1 = out \<or>
      ps_held s1 = [] \<and> ps_held_af s1 = [] \<and> ps_dropped_packets s < ps_dropped_packets s1)"

lemma end_inflight_settled:
  assumes "stage_inv s" "1 \<le> n" "n \<le> length pl"
  shows "\<exists>s1 out1. end_inflight s pl n out = Some (s1, out1) \<and> settled s out s1 out1"
proof (cases "ps_inflight_active s")
  case False
  have "\<exists>b i. s = s\<lparr>ps_inflight := i, ps_sections := b, ps_inflight_active := False\<rparr>"
    by (rule exI [of _ "ps_sections s"], rule exI [of _ "ps_inflight s"]) (use False in simp)
  with False show ?thesis by (simp add: end_inflight_def settled_def)
next
  case True
  let ?s = "s\<lparr>ps_inflight := ps_inflight s @ take (n - 1) (drop 1 pl)\<rparr>"
  have h: "\<forall>a\<in>set (ps_held_af ?s). length (snd a) = 188" "ps_held ?s \<noteq> []"
    using assms(1) True by (auto simp: stage_inv_def)
  have v: "end_inflight s pl n out =
      (if inflight_needed ?s = Some (Some (length (ps_inflight ?s))) then do {
         r \<leftarrow> finish_inflight ?s (length (ps_inflight ?s)) out; Some (snd r) }
       else drop_held ?s 0 out)"
    using True assms(2,3) by (simp add: end_inflight_def Let_def)
  show ?thesis
  proof (cases "inflight_needed ?s = Some (Some (length (ps_inflight ?s)))")
    case True
    show ?thesis
      unfolding v settled_def using True finish_inflight_val [OF h, of "length (ps_inflight ?s)" out]
      by (elim disjE exE conjE) auto
  next
    case False
    with drop_held_val [OF h(1), of 0 out] h(2) show ?thesis by (auto simp: v settled_def)
  qed
qed

lemma settled_outcome:
  assumes "stage_inv s" "length pkt = 188" "ps_last_in s = pkt" "settled s out s1 out1"
  shows "push_outcome s pkt out
     (push_end (walk_sections (s1\<lparr>ps_held := ps_held s1 @ [pkt]\<rparr>) pl n) out1)"
proof -
  let ?t = "s1\<lparr>ps_held := ps_held s1 @ [pkt]\<rparr>"
  let ?w = "walk_sections ?t pl n"
  note k = walk_sections_keeps [of ?t pl n]
  have st: "\<not> ps_inflight_active s1" "ps_last_in s1 = pkt" using assms(3,4) by (auto simp: settled_def)
  have af: "\<forall>a\<in>set (ps_held_af s). length (snd a) = 188 \<and> fst a \<le> length (ps_held s)"
      "\<forall>p\<in>set (ps_held s). length p = 188"
    using assms(1) by (auto simp: stage_inv_def)
  from assms(4) consider (ended) b i where "s1 = s\<lparr>ps_inflight := i, ps_sections := b, ps_inflight_active := False\<rparr>" "out1 = out"
    | (dropped) "ps_held s1 = []" "ps_held_af s1 = []" "ps_dropped_packets s < ps_dropped_packets s1"
    by (auto simp: settled_def)
  then show ?thesis
  proof cases
    case ended
    have "pending ?w" by (rule walk_pending) (use ended af assms(2) in auto)
    then show ?thesis
      using push_end_val [of ?w s pkt out] k ended st(2) by (auto simp: push_outcome_def)
  next
    case dropped
    have "pending ?w" by (rule walk_pending) (use dropped st(1) assms(2) in auto)
    then show ?thesis
      using push_end_lost [of ?w s out1] k dropped st(2) by (auto simp: push_outcome_def)
  qed
qed

lemma push_start_outcome:
  assumes "stage_inv s" "length pkt = 188" "ps_last_in s = pkt" "pl \<noteq> []"
  shows "push_outcome s pkt out (push_start s pkt pl out)"
proof -
  let ?n = "1 + unat (pl ! 0)"
  have i0: "idx pl 0 = Some (pl ! 0)" using assms(4) by simp
  show ?thesis
  proof (cases "?n > length pl")
    case True
    have af: "\<forall>a\<in>set (ps_held_af s). length (snd a) = 188" using assms(1) by (auto simp: stage_inv_def)
    obtain s' q where d: "drop_held s 1 out = Some (s', out @ q)" "ps_held s' = []" "ps_held_af s' = []"
        "\<not> ps_inflight_active s'" "ps_last_in s' = ps_last_in s"
        "ps_dropped_packets s' = ps_dropped_packets s + (length (ps_held s) + 1)"
      using drop_held_val [OF af, of 1 out] by auto
    show ?thesis
      by (rule push_outcomeI [where r = None and s' = s' and out' = "out @ q"])
         (use True d i0 assms(3) in \<open>auto simp: push_start_def stage_inv_def lost_def Let_def\<close>)
  next
    case False
    obtain s1 out1 where e: "end_inflight s pl ?n out = Some (s1, out1)" "settled s out s1 out1"
      using end_inflight_settled [OF assms(1), of ?n pl out] False by auto
    have "push_start s pkt pl out = push_end (walk_sections (s1\<lparr>ps_held := ps_held s1 @ [pkt]\<rparr>) pl ?n) out1"
      using False i0 e(1) by (simp add: push_start_def Let_def)
    with settled_outcome [OF assms(1-3) e(2)] show ?thesis by simp
  qed
qed

section \<open>One packet\<close>

text \<open>A packet without payload waits behind the held unit or is written at once.\<close>

definition passed_on ::
    "psi_stage \<Rightarrow> bytes \<Rightarrow> bytes \<Rightarrow> psi_unit option \<Rightarrow> psi_stage \<Rightarrow> bytes \<Rightarrow> bool" where
  "passed_on s pkt out r s' out' \<longleftrightarrow>
     r = None \<and> ps_owned_cc s' = ps_owned_cc s \<and> ps_dropped_packets s' = ps_dropped_packets s \<and>
     ps_held s' = ps_held s \<and> ps_last_in s' = ps_last_in s \<and>
     (if ps_held s = [] then ps_held_af s' = [] \<and> (\<not> ps_owned_cc s \<longrightarrow> out' = out @ pkt)
      else ps_held_af s' = ps_held_af s @ [(length (ps_held s), pkt)] \<and> out' = out)"

definition has_payload :: "bytes \<Rightarrow> bool" where
  "has_payload pkt \<longleftrightarrow> payload_bit (pkt ! 3) \<and> payload_off pkt < TS_PACKET_SIZE"

lemma noted_inv: "stage_inv s \<Longrightarrow> stage_inv (noted s pkt)"
  by (simp add: stage_inv_def)

lemma noted_outcome:
  "push_outcome (noted s pkt) pkt out res \<Longrightarrow> push_outcome s pkt out res"
  unfolding push_outcome_def held_on_def lost_def noted_sel .

theorem ps_push_outcome:
  assumes "stage_inv s" "length pkt = TS_PACKET_SIZE" "pkt ! 0 = TS_SYNC_BYTE"
  shows "\<exists>r s' out'. ps_push s pkt out = Some (r, s', out') \<and> stage_inv s' \<and>
     (if \<not> has_payload pkt then passed_on s pkt out r s' out'
      else r = None \<and> s' = s \<and> out' = out \<and> ps_last_in s = pkt \<or>
           ps_last_in s' = pkt \<and> (held_on s pkt out r s' out' \<or> lost s r s'))"
proof (cases "has_payload pkt")
  case True
  then have c: "packet_carries pkt (pkt ! 1 AND 0x40 \<noteq> 0, drop (payload_off pkt) pkt)"
    using assms(2,3) by (simp add: packet_carries_def has_payload_def)
  have ne: "drop (payload_off pkt) pkt \<noteq> []" using True assms(2) by (simp add: has_payload_def)
  have l: "length pkt = 188" "ps_last_in (noted s pkt) = pkt" using assms(2) by simp_all
  show ?thesis
  proof (cases "pkt ! 1 AND 0x40 = 0 \<and> ps_last_in s = pkt \<and> ps_last_in_cc s = Some (pkt ! 3 AND 0x0F)")
    case False
    then have "push_outcome s pkt out (ps_push s pkt out)"
      using ps_push_val [OF c, of s out] noted_outcome
        push_start_outcome [OF noted_inv [OF assms(1)] l ne] push_continuation_outcome [OF noted_inv [OF assms(1)] l]
      by auto
    with True show ?thesis by (auto simp: push_outcome_def)
  next
    case dup: True
    have "idx pkt 0 = Some (pkt ! 0)" "payload_off pkt < 188" "drop_bit 4 (pkt ! 3) AND 0x01 \<noteq> 0"
      using assms(2) True by (auto simp: idx_def has_payload_def payload_bit_iff)
    then have "ps_push s pkt out = Some (None, s, out)"
      using dup assms(2,3) by (simp add: ps_push_def ts_vals ts_payload_offset_val Let_def)
    with assms(1) dup True show ?thesis by auto
  qed
next
  case False
  have i: "idx pkt 0 = Some (pkt ! 0)" "length pkt = 188" using assms(2) by (auto simp: idx_def)
  have np: "drop_bit 4 (pkt ! 3) AND 0x01 = 0 \<or> 188 \<le> payload_off pkt"
    using False by (auto simp: has_payload_def payload_bit_iff)
  show ?thesis
  proof (cases "ps_held s = []")
    case True
    obtain s' q where w: "write_packet s pkt out = Some (s', out @ q)" "same_stage s s'" "\<not> ps_owned_cc s \<longrightarrow> q = pkt"
      using write_packet_val [OF i(2)] by blast
    have "ps_push s pkt out = Some (None, s', out @ q)"
      using True np i w(1) assms(3) by (auto simp: ps_push_def ts_vals ts_payload_offset_val Let_def)
    with False True w(3) assms(1) same_stage_sel [OF w(2)] show ?thesis
      by (auto simp: stage_inv_def passed_on_def)
  next
    case h: False
    let ?s = "s\<lparr>ps_held_af := ps_held_af s @ [(length (ps_held s), pkt)]\<rparr>"
    have "ps_push s pkt out = Some (None, ?s, out)"
      using h np i assms(3) by (auto simp: ps_push_def ts_vals ts_payload_offset_val Let_def)
    with False h assms(1) i(2) show ?thesis by (auto simp: stage_inv_def passed_on_def)
  qed
qed

end
