(* ===== verification/PsiStageCorrect.thy ===== *)
theory PsiStageCorrect
  imports PsiStageLayout PsiStageFacts
begin

text \<open>
  What the PMT-PID stage promises: sections it lays out are read back whole and in order by the next
  stage, and a stream nobody edits goes through byte for byte.
\<close>

section \<open>Laid out and read back\<close>

text \<open>Property C6.  Sections laid out over packets are read back exactly: whatever adaptation fields and lengths
  the template packets have and however the sections fall across packet ends, the layout succeeds,
  and a stage with no unit in progress that is fed the result hands out exactly these sections, in
  order, in unchanged units made of exactly these packets, drops nothing and holds nothing back.
  Needed are sections of their declared length, with a valid CRC where they have one, template
  counters that move, and at most 32 packets.\<close>

theorem relayout_reads_back:
  assumes "templates_ok ts" "distinct_adj (map cc_of ts)" "\<forall>sec\<in>set secs. section_ok sec" "reading s []"
  shows "\<exists>pkts. layout secs ts = Some pkts \<and>
     (length pkts \<le> MAX_UNIT_PACKETS \<longrightarrow>
        (\<exists>us s'. push_units s pkts out = Some (us, s', out) \<and> reading s' [] \<and>
           ps_dropped_packets s' = ps_dropped_packets s \<and> (\<forall>u\<in>set us. \<not> pu_changed u) \<and>
           concat (map pu_packets us) = pkts \<and> concat (map pu_sections us) = secs))"
proof -
  have ne: "\<forall>sec\<in>set secs. sec \<noteq> []" using assms(3) whole_sectionD(3) by (auto simp: section_ok_def)
  obtain pkts cs where l: "layout secs ts = Some pkts" "cuts [] secs cs" "list_all2 packet_carries pkts cs"
      "distinct_adj (map cc_of pkts)"
    using layout_cuts [OF assms(1) ne] assms(2) by blast
  have first: "cs \<noteq> [] \<longrightarrow> fst (hd cs)" using l(2) by (cases rule: cuts.cases) auto
  have nr: "no_repeats (ps_last_in s) pkts cs" by (rule no_repeats_cc [OF l(4)]) (use first in auto)
  have "read_all s pkts out (ps_held s) (ps_sections s) (whole_so_far [] [] @ secs)" if "length pkts \<le> MAX_UNIT_PACKETS"
    by (rule cut_is_read [OF l(2,3) nr assms(4)]) (use that assms(3,4) in \<open>auto simp: whole_so_far_def reading_def\<close>)
  with l(1) assms(4) show ?thesis by (auto simp: read_all_def whole_so_far_def reading_def)
qed

text \<open>A private section of 200 bytes and a short one over a single template packet with an
  adaptation field.\<close>

definition sample_template :: bytes where
  "sample_template = [0x47, 0x41, 0x00, 0x37, 0x07, 0x10, 1, 2, 3, 4, 5, 6] @ replicate 176 0"

definition sample_private :: bytes where
  "sample_private = [0xC0, 0x00, 0xC5] @ replicate 197 7"

theorem relayout_reads_back_witness:
  "\<exists>pkts us s'. layout [sample_private, [0xC1, 0, 1, 9]] [sample_template] = Some pkts \<and>
     push_units ps_new pkts [] = Some (us, s', []) \<and> concat (map pu_packets us) = pkts \<and>
     concat (map pu_sections us) = [sample_private, [0xC1, 0, 1, 9]]"
proof -
  have t: "templates_ok [sample_template]" by (simp add: templates_ok_def sample_template_def)
  have d: "distinct_adj (map cc_of [sample_template])" by simp
  have s: "\<forall>sec\<in>set [sample_private, [0xC1, 0, 1, 9]]. section_ok sec"
  proof -
    have "whole_section sample_private" "whole_section [0xC1, 0, 1, 9]" by code_simp+
    moreover have "sample_private ! 1 AND 0x80 = 0" "[0xC1, 0, 1, 9 :: u8] ! 1 AND 0x80 = 0" by code_simp+
    ultimately show ?thesis by (simp add: section_ok_def)
  qed
  have r: "reading ps_new []" by (simp add: reading_def ps_new_def)
  obtain pkts where p: "layout [sample_private, [0xC1, 0, 1, 9]] [sample_template] = Some pkts"
      "length pkts \<le> MAX_UNIT_PACKETS \<longrightarrow>
        (\<exists>us s'. push_units ps_new pkts [] = Some (us, s', []) \<and> reading s' [] \<and>
           ps_dropped_packets s' = ps_dropped_packets ps_new \<and> (\<forall>u\<in>set us. \<not> pu_changed u) \<and>
           concat (map pu_packets us) = pkts \<and> concat (map pu_sections us) = [sample_private, [0xC1, 0, 1, 9]])"
    using relayout_reads_back [OF t d s r, of "[]"] by blast
  have "map_option length (layout [sample_private, [0xC1, 0, 1, 9]] [sample_template]) = Some 2" by code_simp
  then have "length pkts \<le> MAX_UNIT_PACKETS" using p(1) by (simp add: MAX_UNIT_PACKETS_def)
  with p show ?thesis by blast
qed

section \<open>An unedited stream\<close>

text \<open>The held packets in their order of arrival: an entry \<open>(k, a)\<close> stands behind the first \<open>k\<close>
  payload packets.\<close>

fun merged :: "nat \<Rightarrow> bytes list \<Rightarrow> (nat \<times> bytes) list \<Rightarrow> bytes list" where
  "merged j [] af = map snd af"
| "merged j (p # ps) af =
     map snd (takeWhile (\<lambda>(k, a). k \<le> j) af) @ p # merged (Suc j) ps (dropWhile (\<lambda>(k, a). k \<le> j) af)"

lemma merged_payload:
  assumes "\<forall>a\<in>set af. fst a \<le> j + length ps"
  shows "merged j (ps @ [p]) af = merged j ps af @ [p]"
  using assms
proof (induction ps arbitrary: j af)
  case Nil
  then have t: "takeWhile (\<lambda>(k, a). k \<le> j) af = af" by (auto simp: takeWhile_eq_all_conv)
  have d: "dropWhile (\<lambda>(k, a). k \<le> j) af = []" using Nil by (auto simp: dropWhile_eq_Nil_conv)
  show ?case unfolding append_Nil merged.simps t d by simp
next
  case (Cons q ps)
  have "\<forall>a\<in>set (dropWhile (\<lambda>(k, a). k \<le> j) af). fst a \<le> Suc j + length ps"
    using Cons.prems by (auto dest: set_dropWhileD)
  with Cons.IH show ?case by simp
qed

lemma merged_waiting: "merged j ps (af @ [(j + length ps, a)]) = merged j ps af @ [a]"
proof (induction ps arbitrary: j af)
  case (Cons q ps)
  have "\<not> j + length (q # ps) \<le> j" by simp
  with Cons.IH [of "Suc j"] show ?case by (simp add: takeWhile_tail dropWhile_append3)
qed simp

definition waiting :: "psi_stage \<Rightarrow> bytes" where
  "waiting s = concat (merged 0 (ps_held s) (ps_held_af s))"

lemma emit_merged:
  assumes "\<forall>p\<in>set ps. length p = 188" "\<forall>a\<in>set af. length (snd a) = 188"
  shows "\<exists>s' q. (do { (s, af, out) \<leftarrow> emit_run s af j (map Some ps) out; write_all s (map snd af) out }) =
       Some (s', out @ q) \<and> same_stage s s' \<and> (\<not> ps_owned_cc s \<longrightarrow> q = concat (merged j ps af))"
  using assms
proof (induction ps arbitrary: s af j out)
  case Nil
  then show ?case using write_all_val [of "map snd af" s out] by auto
next
  case (Cons p ps)
  let ?t = "takeWhile (\<lambda>(k, a). k \<le> j) af" and ?d = "dropWhile (\<lambda>(k, a). k \<le> j) af"
  have l: "\<forall>q\<in>set (map snd ?t). length q = 188" "\<forall>a\<in>set ?d. length (snd a) = 188" "length p = 188"
    "\<forall>p\<in>set ps. length p = 188"
    using Cons.prems by (auto dest: set_takeWhileD set_dropWhileD)
  obtain s1 q1 where w1: "write_all s (map snd ?t) out = Some (s1, out @ q1)" "same_stage s s1"
      "\<not> ps_owned_cc s \<longrightarrow> q1 = concat (map snd ?t)"
    using write_all_val [OF l(1)] by blast
  obtain s2 q2 where w2: "write_packet s1 p (out @ q1) = Some (s2, (out @ q1) @ q2)" "same_stage s1 s2"
      "\<not> ps_owned_cc s1 \<longrightarrow> q2 = p"
    using write_packet_val [OF l(3)] by blast
  obtain s3 q3 where w3: "(do { (s, af, out) \<leftarrow> emit_run s2 ?d (Suc j) (map Some ps) ((out @ q1) @ q2);
        write_all s (map snd af) out }) = Some (s3, ((out @ q1) @ q2) @ q3)" "same_stage s2 s3"
      "\<not> ps_owned_cc s2 \<longrightarrow> q3 = concat (merged (Suc j) ps ?d)"
    using Cons.IH [OF l(4,2)] by blast
  have "(do { (s, af, out) \<leftarrow> emit_run s af j (map Some (p # ps)) out; write_all s (map snd af) out }) =
      Some (s3, out @ q1 @ q2 @ q3)"
    using w1(1) w2(1) w3(1) by simp
  moreover have "same_stage s s3" using w1(2) w2(2) w3(2) same_stage_trans by blast
  moreover have "q1 @ q2 @ q3 = concat (merged j (p # ps) af)" if "\<not> ps_owned_cc s"
    using that w1(2,3) w2(2,3) w3(3) same_stage_sel(8) by auto
  ultimately show ?case by blast
qed

text \<open>A stage whose owner changes nothing: every unit goes out as it came.\<close>

definition pass_packet :: "psi_stage \<Rightarrow> bytes \<Rightarrow> bytes \<Rightarrow> (psi_stage \<times> bytes) panics" where
  "pass_packet s pkt out = do {
     (r, s, out) \<leftarrow> ps_push s pkt out;
     case r of None \<Rightarrow> Some (s, out) | Some u \<Rightarrow> ps_emit s u out }"

fun pass_all :: "psi_stage \<Rightarrow> bytes list \<Rightarrow> bytes \<Rightarrow> (psi_stage \<times> bytes) panics" where
  "pass_all s [] out = Some (s, out)"
| "pass_all s (p # ps) out = do { (s, out) \<leftarrow> pass_packet s p out; pass_all s ps out }"

text \<open>One packet through an unedited stage: dropped and counted, or in its place behind what
  waited before it.\<close>

definition passed :: "psi_stage \<Rightarrow> bytes \<Rightarrow> bytes \<Rightarrow> psi_stage \<Rightarrow> bytes \<Rightarrow> bool" where
  "passed s pkt out s' out' \<longleftrightarrow>
     stage_inv s' \<and> ps_dropped_packets s \<le> ps_dropped_packets s' \<and>
     ps_last_in s' = (if has_payload pkt then pkt else ps_last_in s) \<and>
     (ps_dropped_packets s' = ps_dropped_packets s \<and> \<not> ps_owned_cc s \<and> (has_payload pkt \<longrightarrow> pkt \<noteq> ps_last_in s) \<longrightarrow>
        \<not> ps_owned_cc s' \<and> out' @ waiting s' = out @ waiting s @ pkt)"

lemma emit_unchanged:
  assumes "\<not> pu_changed u" "\<forall>p\<in>set (pu_packets u). length p = 188" "\<forall>a\<in>set (pu_af_only u). length (snd a) = 188"
  shows "\<exists>s' q. ps_emit s u out = Some (s', out @ q) \<and> same_stage s s' \<and>
     (\<not> ps_owned_cc s \<longrightarrow> q = concat (merged 0 (pu_packets u) (pu_af_only u)))"
  using emit_merged [OF assms(2,3), of s 0 out] assms(1) by (simp add: ps_emit_def)

lemma same_stage_inv: "same_stage s s' \<Longrightarrow> stage_inv s \<Longrightarrow> stage_inv s'"
  by (auto simp: stage_inv_def same_stage_sel)

lemma pass_packet_val:
  assumes "stage_inv s" "length pkt = TS_PACKET_SIZE" "pkt ! 0 = TS_SYNC_BYTE"
  shows "\<exists>s' out'. pass_packet s pkt out = Some (s', out') \<and> passed s pkt out s' out'"
proof -
  obtain r s1 out1 where p: "ps_push s pkt out = Some (r, s1, out1)" "stage_inv s1"
    and o: "if \<not> has_payload pkt then passed_on s pkt out r s1 out1
      else r = None \<and> s1 = s \<and> out1 = out \<and> ps_last_in s = pkt \<or>
           ps_last_in s1 = pkt \<and> (held_on s pkt out r s1 out1 \<or> lost s r s1)"
    using ps_push_outcome [OF assms] by blast
  have ks: "\<forall>a\<in>set (ps_held_af s). fst a \<le> 0 + length (ps_held s)" using assms(1) by (auto simp: stage_inv_def)
  have af: "\<forall>a\<in>set (ps_held_af s). length (snd a) = 188" "\<forall>p\<in>set (ps_held s). length p = 188"
      "ps_held s = [] \<longrightarrow> ps_held_af s = []"
    using assms(1) by (auto simp: stage_inv_def)
  note mp = merged_payload [OF ks, of pkt] and mw = merged_waiting [of 0 "ps_held s" "ps_held_af s" pkt]
  show ?thesis
  proof (cases r)
    case None
    have "passed s pkt out s1 out1"
      using o p(2) None mp mw af(3)
      by (auto simp: passed_def passed_on_def held_on_def lost_def waiting_def split: if_splits)
    with p(1) None show ?thesis by (simp add: pass_packet_def)
  next
    case (Some u)
    have pl: "has_payload pkt" "ps_last_in s1 = pkt" "held_on s pkt out r s1 out1 \<or> lost s r s1"
      using o Some by (auto simp: passed_on_def split: if_splits)
    have u: "\<not> pu_changed u" "\<forall>p\<in>set (pu_packets u). length p = 188" "\<forall>a\<in>set (pu_af_only u). length (snd a) = 188"
      using pl(3) Some af assms(2) by (auto simp: held_on_def lost_def)
    obtain s' q where e: "ps_emit s1 u out1 = Some (s', out1 @ q)" "same_stage s1 s'"
        "\<not> ps_owned_cc s1 \<longrightarrow> q = concat (merged 0 (pu_packets u) (pu_af_only u))"
      using emit_unchanged [OF u] by blast
    note k = same_stage_sel [OF e(2)]
    have "passed s pkt out s' (out1 @ q)"
      using pl e(3) same_stage_inv [OF e(2) p(2)] k Some mp
      by (auto simp: passed_def held_on_def lost_def waiting_def)
    with p(1) Some e(1) show ?thesis by (simp add: pass_packet_def)
  qed
qed

lemma pass_all_val:
  assumes "stage_inv s" "\<forall>p\<in>set pkts. length p = TS_PACKET_SIZE \<and> p ! 0 = TS_SYNC_BYTE"
  shows "\<exists>s' out'. pass_all s pkts out = Some (s', out') \<and> stage_inv s' \<and>
     ps_dropped_packets s \<le> ps_dropped_packets s' \<and>
     (ps_dropped_packets s' = ps_dropped_packets s \<and> \<not> ps_owned_cc s \<and>
      distinct_adj (ps_last_in s # filter has_payload pkts) \<longrightarrow>
        \<not> ps_owned_cc s' \<and> out' @ waiting s' = out @ waiting s @ concat pkts)"
  using assms
proof (induction pkts arbitrary: s out)
  case (Cons p pkts)
  obtain s1 out1 where p: "pass_packet s p out = Some (s1, out1)" "passed s p out s1 out1"
    using pass_packet_val [OF Cons.prems(1), of p out] Cons.prems(2) by auto
  have i1: "stage_inv s1" using p(2) by (simp add: passed_def)
  obtain s' out' where r: "pass_all s1 pkts out1 = Some (s', out')" "stage_inv s'"
      "ps_dropped_packets s1 \<le> ps_dropped_packets s'"
      "ps_dropped_packets s' = ps_dropped_packets s1 \<and> \<not> ps_owned_cc s1 \<and>
        distinct_adj (ps_last_in s1 # filter has_payload pkts) \<longrightarrow>
        \<not> ps_owned_cc s' \<and> out' @ waiting s' = out1 @ waiting s1 @ concat pkts"
    using Cons.IH [OF i1, of out1] Cons.prems(2) by auto
  have "\<not> ps_owned_cc s' \<and> out' @ waiting s' = out @ waiting s @ concat (p # pkts)"
    if h: "ps_dropped_packets s' = ps_dropped_packets s" "\<not> ps_owned_cc s"
      "distinct_adj (ps_last_in s # filter has_payload (p # pkts))"
  proof -
    have d: "ps_dropped_packets s1 = ps_dropped_packets s" using h(1) r(3) p(2) by (simp add: passed_def)
    have np: "has_payload p \<longrightarrow> p \<noteq> ps_last_in s" "distinct_adj (ps_last_in s1 # filter has_payload pkts)"
      using h(3) p(2) by (auto simp: passed_def split: if_splits)
    then have s1: "\<not> ps_owned_cc s1" "out1 @ waiting s1 = out @ waiting s @ p"
      using p(2) d h(2) by (auto simp: passed_def)
    then show ?thesis using r(4) np(2) h(1) d by (metis append.assoc concat.simps(2))
  qed
  then show ?case using p r by (auto simp: passed_def)
qed simp


definition sample_stream :: "bytes list" where
  "sample_stream =
     [ts_bytes 0x41 15 (0 # take 150 sample_private),
      [0x47, 0x01, 0x20, 0x2F, 183, 0x10, 1, 2, 3, 4, 5, 6] @ replicate 176 0xFF,
      ts_bytes 0x01 0 (drop 150 sample_private)]"


end
