(* ===== verification/PidRemapper.thy ===== *)
theory PidRemapper
  imports PsiStage
begin

text \<open>
  The PID remapper of \<open>src/src/engine/ts_pid_remapper.rs\<close>: it rewrites the PID of packets, the PMT
  PIDs listed in the PAT and the PIDs listed in the PMTs. The lookup table is the list of 8192
  entries of the source, the stages per PMT PID are a map.
\<close>

definition NO_REMAP :: u16 where "NO_REMAP = 0xFFFF"

record pid_remapper =
  rm_remap :: "u16 list"
  rm_pmt_pids :: "u16 set"
  rm_last_pat_version :: "u8 option"
  rm_pmt_stages :: "u16 \<rightharpoonup> psi_stage"

text \<open>The entries of the configured map in their order.\<close>

definition rm_new :: "(u16 \<times> u16) list \<Rightarrow> pid_remapper panics" where
  "rm_new entries = do {
     remap \<leftarrow> foldl_panics (\<lambda>remap e. put remap (unat (fst e)) (snd e))
               (replicate 8192 NO_REMAP) entries;
     Some \<lparr>rm_remap = remap, rm_pmt_pids = {}, rm_last_pat_version = None,
           rm_pmt_stages = Map.empty\<rparr> }"

definition rm_is_active :: "pid_remapper \<Rightarrow> bool" where
  "rm_is_active m = (\<exists>p \<in> set (rm_remap m). p \<noteq> NO_REMAP)"

definition rm_target :: "pid_remapper \<Rightarrow> u16 \<Rightarrow> u16 panics" where
  "rm_target m src = do {
     mapped \<leftarrow> idx (rm_remap m) (unat (src AND 0x1FFF));
     Some (if mapped = NO_REMAP then src else mapped) }"

definition is_mapped :: "pid_remapper \<Rightarrow> u16 \<Rightarrow> bool panics" where
  "is_mapped m pid = do {
     mapped \<leftarrow> idx (rm_remap m) (unat (pid AND 0x1FFF));
     Some (mapped \<noteq> NO_REMAP) }"

definition write_pid :: "bytes \<Rightarrow> u16 \<Rightarrow> bytes panics" where
  "write_pid pkt pid = do {
     let pid = pid AND 0x1FFF;
     b1 \<leftarrow> idx pkt 1;
     pkt \<leftarrow> put pkt 1 ((b1 AND 0xE0) OR (ucast (drop_bit 8 pid) AND 0x1F));
     put pkt 2 (ucast (pid AND 0xFF)) }"

section \<open>The PAT\<close>

text \<open>The section of a PAT packet; \<open>None\<close> where the sources return early.\<close>

definition rm_section :: "bytes \<Rightarrow> nat option panics" where
  "rm_section pkt = do {
     af \<leftarrow> ts_has_adaptation pkt;
     sec_off \<leftarrow> (if af then do { af_len \<leftarrow> idx pkt 4; Some (5 + unat af_len) } else Some 4);
     if sec_off \<ge> TS_PACKET_SIZE then Some None
     else do {
       pointer \<leftarrow> idx pkt sec_off;
       let sec_off = sec_off + (1 + unat pointer);
       if sec_off + 8 > TS_PACKET_SIZE then Some None
       else do {
         tid \<leftarrow> idx pkt sec_off;
         Some (if tid \<noteq> 0x00 then None else Some sec_off) } } }"

definition observe_pat :: "pid_remapper \<Rightarrow> bytes \<Rightarrow> pid_remapper panics" where
  "observe_pat m pkt = do {
     sec \<leftarrow> rm_section pkt;
     case sec of None \<Rightarrow> Some m
     | Some sec_off \<Rightarrow> do {
         b5 \<leftarrow> idx pkt (sec_off + 5);
         let version = drop_bit 1 b5 AND 0x1F;
         if rm_last_pat_version m = Some version then Some m
         else do {
           programs \<leftarrow> parse_pat_programs pkt;
           let pids = set (map snd programs);
           Some (m\<lparr>rm_last_pat_version := Some version, rm_pmt_pids := pids,
                   rm_pmt_stages := (\<lambda>pid. if pid \<in> pids then rm_pmt_stages m pid else None)\<rparr>) } } }"

text \<open>The loop over the entries of the PAT.\<close>

function remap_pat_entries :: "pid_remapper \<Rightarrow> bytes \<Rightarrow> nat \<Rightarrow> nat \<Rightarrow> bytes panics" where
  "remap_pat_entries m buf pos data_end =
     (if pos + 4 \<le> data_end then do {
        a \<leftarrow> idx buf pos; b \<leftarrow> idx buf (pos + 1); c \<leftarrow> idx buf (pos + 2); d \<leftarrow> idx buf (pos + 3);
        let pmt_pid = pid13 c d;
        mapped \<leftarrow> (if be16 a b \<noteq> 0 then is_mapped m pmt_pid else Some False);
        buf \<leftarrow> (if mapped then do {
                  new_pid \<leftarrow> rm_target m pmt_pid;
                  buf \<leftarrow> put buf (pos + 2) (0xE0 OR ucast (drop_bit 8 new_pid AND 0x1F));
                  put buf (pos + 3) (ucast (new_pid AND 0xFF)) }
                else Some buf);
        remap_pat_entries m buf (pos + 4) data_end }
      else Some buf)"
  by pat_completeness auto
termination by (relation "measure (\<lambda>(m, buf, pos, e). e - pos)") auto

declare remap_pat_entries.simps [simp del]

text \<open>\<open>Iterator::any\<close> over a set: panics when a test does.\<close>

definition any_mapped :: "pid_remapper \<Rightarrow> bool panics" where
  "any_mapped m =
     (if \<exists>pid \<in> rm_pmt_pids m. is_mapped m pid = None then None
      else Some (\<exists>pid \<in> rm_pmt_pids m. is_mapped m pid = Some True))"

definition emit_pat :: "pid_remapper \<Rightarrow> bytes \<Rightarrow> bytes \<Rightarrow> bytes panics" where
  "emit_pat m pkt out = do {
     has_any_pmt_remap \<leftarrow> any_mapped m;
     if \<not> has_any_pmt_remap then Some (out @ pkt)
     else do {
       sec \<leftarrow> rm_section pkt;
       case sec of None \<Rightarrow> Some (out @ pkt)
       | Some sec_off \<Rightarrow> do {
           a \<leftarrow> idx pkt (sec_off + 1);
           b \<leftarrow> idx pkt (sec_off + 2);
           let data_start = sec_off + 8;
           let data_end = min (sec_off + 3 + len12 a b) TS_PACKET_SIZE - 4;
           buf \<leftarrow> remap_pat_entries m pkt data_start data_end;
           buf \<leftarrow> (if data_end + 4 \<le> TS_PACKET_SIZE \<and> data_end \<ge> sec_off then do {
                     covered \<leftarrow> slice buf sec_off data_end;
                     put_slice buf data_end (data_end + 4) (to_be_bytes32 (mpeg2_crc32 covered)) }
                   else Some buf);
           Some (out @ buf) } } }"

section \<open>PMTs\<close>

definition remap_pmt_section :: "pid_remapper \<Rightarrow> bytes \<Rightarrow> bytes option panics" where
  "remap_pmt_section m sec = do {
     view \<leftarrow> parse_pmt sec;
     case view of None \<Rightarrow> Some None
     | Some v \<Rightarrow> do {
         edits \<leftarrow> map_panics
           (\<lambda>es. do {
              mapped \<leftarrow> is_mapped m (es_pid es);
              t \<leftarrow> rm_target m (es_pid es);
              Some (if mapped then [Repid (es_pid es) t] else []) }) (pv_es v);
         let edits = concat edits;
         pcr_mapped \<leftarrow> is_mapped m (pv_pcr_pid v);
         pcr_target \<leftarrow> rm_target m (pv_pcr_pid v);
         let pcr_pid = (if pcr_mapped then Some pcr_target else None);
         if edits = [] \<and> pcr_pid = None then Some None
         else rebuild_pmt_section sec (pmt_edit_default\<lparr>pe_es := edits, pe_pcr_pid := pcr_pid\<rparr>) } }"

definition remap_unit_section :: "pid_remapper \<Rightarrow> psi_unit \<Rightarrow> nat \<Rightarrow> psi_unit panics" where
  "remap_unit_section m u i = do {
     sec \<leftarrow> idx (pu_sections u) i;
     new \<leftarrow> remap_pmt_section m sec;
     case new of None \<Rightarrow> Some u | Some n \<Rightarrow> replace_section u i n }"

text \<open>The loop over the sections of a unit.\<close>

definition remap_unit :: "pid_remapper \<Rightarrow> psi_unit \<Rightarrow> psi_unit panics" where
  "remap_unit m u = foldl_panics (remap_unit_section m) u [0..<length (pu_sections u)]"

text \<open>The last loop of \<open>emit_pmt\<close>: the header PID of every packet of the stage.\<close>

definition move_pid :: "pid_remapper \<Rightarrow> u16 \<Rightarrow> bytes \<Rightarrow> bytes panics" where
  "move_pid m pmt_pid p = do {
     mapped \<leftarrow> is_mapped m pmt_pid;
     if mapped then do { t \<leftarrow> rm_target m pmt_pid; write_pid p t } else Some p }"

definition emit_pmt :: "pid_remapper \<Rightarrow> u16 \<Rightarrow> bytes \<Rightarrow> bytes \<Rightarrow> (pid_remapper \<times> bytes) panics" where
  "emit_pmt m pmt_pid pkt out = do {
     let stage = (case rm_pmt_stages m pmt_pid of None \<Rightarrow> ps_new | Some s \<Rightarrow> s);
     (unit, stage, scratch) \<leftarrow> ps_push stage pkt [];
     (stage, scratch) \<leftarrow>
       (case unit of None \<Rightarrow> Some (stage, scratch)
        | Some u \<Rightarrow> do {
            u \<leftarrow> remap_unit m u;
            ps_emit stage u scratch });
     moved \<leftarrow> map_panics (move_pid m pmt_pid) (ts_chunks scratch);
     Some (m\<lparr>rm_pmt_stages := (rm_pmt_stages m)(pmt_pid \<mapsto> stage)\<rparr>, out @ concat moved) }"

section \<open>Packets\<close>

definition rm_packet :: "pid_remapper \<Rightarrow> bytes \<Rightarrow> bytes \<Rightarrow> (pid_remapper \<times> bytes) panics" where
  "rm_packet m pkt out = do {
     sync \<leftarrow> idx pkt 0;
     if sync \<noteq> TS_SYNC_BYTE then Some (m, out)
     else do {
       original_pid \<leftarrow> ts_pid pkt;
       if original_pid = PAT_PID then do {
         pusi \<leftarrow> ts_pusi pkt;
         m \<leftarrow> (if pusi then observe_pat m pkt else Some m);
         out \<leftarrow> emit_pat m pkt out;
         Some (m, out) }
       else if original_pid \<in> rm_pmt_pids m then emit_pmt m original_pid pkt out
       else do {
         mapped \<leftarrow> is_mapped m original_pid;
         if mapped then do {
           target_pid \<leftarrow> rm_target m original_pid;
           buf \<leftarrow> write_pid pkt target_pid;
           Some (m, out @ buf) }
         else Some (m, out @ pkt) } } }"

fun rm_loop :: "pid_remapper \<Rightarrow> bytes list \<Rightarrow> bytes \<Rightarrow> (pid_remapper \<times> bytes) panics" where
  "rm_loop m [] out = Some (m, out)"
| "rm_loop m (pkt # pkts) out = do {
     r \<leftarrow> rm_packet m pkt out;
     rm_loop (fst r) pkts (snd r) }"

definition rm_process :: "pid_remapper \<Rightarrow> bytes \<Rightarrow> bytes \<Rightarrow> (pid_remapper \<times> bytes) panics" where
  "rm_process m ts_in out = rm_loop m (ts_chunks ts_in) out"

definition rm_process_packet ::
    "pid_remapper \<Rightarrow> bytes \<Rightarrow> bool \<Rightarrow> (pid_remapper \<times> bytes option) panics" where
  "rm_process_packet m data is_raw_ts =
     (if is_raw_ts then do {
        r \<leftarrow> rm_process m data [];
        Some (fst r, if snd r = [] then None else Some (snd r)) }
      else if length data < RTP_HEADER_MIN_SIZE then Some (m, None)
      else do {
        d0 \<leftarrow> idx data 0;
        let header_len = RTP_HEADER_MIN_SIZE + unat (d0 AND 0x0F) * 4;
        if length data \<le> header_len then Some (m, None)
        else do {
          payload \<leftarrow> slice data header_len (length data);
          r \<leftarrow> rm_process m payload [];
          Some (fst r, if snd r = [] then None else Some (take header_len data @ snd r)) } })"

end
