(* ===== verification/PidRemapperFacts.thy ===== *)
theory PidRemapperFacts
  imports PidRemapper PmtEditCorrect
begin

text \<open>
  Facts on the PID remapper: the lookup as a total function, the entries of a PAT and the streams
  of a PMT after the rewrite.
\<close>

section \<open>The lookup\<close>

definition remap_ok :: "pid_remapper \<Rightarrow> bool" where
  "remap_ok m \<longleftrightarrow> length (rm_remap m) = 8192 \<and> (\<forall>t\<in>set (rm_remap m). t = NO_REMAP \<or> t AND 0x1FFF = t)"

definition mapped :: "pid_remapper \<Rightarrow> u16 \<Rightarrow> bool" where
  "mapped m pid \<longleftrightarrow> rm_remap m ! unat (pid AND 0x1FFF) \<noteq> NO_REMAP"

definition tgt :: "pid_remapper \<Rightarrow> u16 \<Rightarrow> u16" where
  "tgt m pid = (if mapped m pid then rm_remap m ! unat (pid AND 0x1FFF) else pid)"

lemma pid_index: "unat (pid AND 0x1FFF :: u16) < 8192"
proof -
  have "pid AND 0x1FFF = take_bit 13 pid" by (simp only: low_masks take_bit_eq_mask)
  then have "unat (pid AND 0x1FFF) = take_bit 13 (unat pid)" by (metis unsigned_take_bit_eq)
  then show ?thesis using take_bit_nat_less_exp [of 13 "unat pid"] by simp
qed

lemma lookup_val:
  assumes "remap_ok m"
  shows "is_mapped m pid = Some (mapped m pid)" "rm_target m pid = Some (tgt m pid)"
  using assms pid_index [of pid] by (auto simp: is_mapped_def rm_target_def mapped_def tgt_def remap_ok_def)

lemma tgt_bits:
  assumes "remap_ok m" "pid AND 0x1FFF = pid"
  shows "tgt m pid AND 0x1FFF = tgt m pid"
  using assms pid_index [of pid] by (auto simp: tgt_def mapped_def remap_ok_def)

lemma fold_put_ok:
  assumes "foldl_panics (\<lambda>r e. put r (unat (fst e)) (snd e)) r es = Some r'" "length r = 8192"
    "\<forall>t\<in>set r. t = NO_REMAP \<or> t AND 0x1FFF = t" "\<forall>e\<in>set es. snd e AND 0x1FFF = snd e"
  shows "length r' = 8192 \<and> (\<forall>t\<in>set r'. t = NO_REMAP \<or> t AND 0x1FFF = t)"
  using assms
proof (induction es arbitrary: r)
  case (Cons e es)
  then obtain r1 where r1: "put r (unat (fst e)) (snd e) = Some r1"
      "foldl_panics (\<lambda>r e. put r (unat (fst e)) (snd e)) r1 es = Some r'"
    by (auto simp: bind_eq_Some_conv)
  then have "r1 = r[unat (fst e) := snd e]" by (simp add: put_Some_iff)
  then have "length r1 = 8192" "\<forall>t\<in>set r1. t = NO_REMAP \<or> t AND 0x1FFF = t"
    using Cons.prems set_update_subset_insert [of r "unat (fst e)" "snd e"] by auto
  with Cons.IH [OF r1(2)] Cons.prems(4) show ?case by simp
qed simp

lemma rm_new_ok:
  assumes "rm_new entries = Some m" "\<forall>e\<in>set entries. snd e AND 0x1FFF = snd e"
  shows "remap_ok m \<and> rm_pmt_stages m = Map.empty"
proof -
  obtain r where r: "foldl_panics (\<lambda>r e. put r (unat (fst e)) (snd e)) (replicate 8192 NO_REMAP) entries = Some r"
      "m = \<lparr>rm_remap = r, rm_pmt_pids = {}, rm_last_pat_version = None, rm_pmt_stages = Map.empty\<rparr>"
    using assms(1) by (auto simp: rm_new_def bind_eq_Some_conv)
  have "length r = 8192 \<and> (\<forall>t\<in>set r. t = NO_REMAP \<or> t AND 0x1FFF = t)"
    by (rule fold_put_ok [OF r(1) _ _ assms(2)]) simp_all
  with r(2) show ?thesis by (simp add: remap_ok_def)
qed

section \<open>Header PIDs\<close>

lemma mask8: "(0xFF :: u16) = mask 8"
  by (simp add: mask_eq_exp_minus_1)

lemma write_pid_val:
  assumes "3 \<le> length pkt"
  shows "write_pid pkt pid = Some (pkt[1 := (pkt ! 1 AND 0xE0) OR (ucast (drop_bit 8 pid) AND 0x1F), 2 := ucast pid])"
proof -
  have "ucast (drop_bit 8 (pid AND 0x1FFF)) AND 0x1F = (ucast (drop_bit 8 pid) AND 0x1F :: u8)"
    by (rule bit_word_eqI) (auto simp: low_masks bit_simps)
  moreover have "ucast ((pid AND 0x1FFF) AND 0xFF) = (ucast pid :: u8)"
    by (rule bit_word_eqI) (auto simp: low_masks mask8 bit_simps)
  ultimately show ?thesis using assms by (simp add: write_pid_def Let_def)
qed

lemma written_pid:
  assumes "3 \<le> length pkt" "write_pid pkt pid = Some q"
  shows "ts_pid q = Some (pid AND 0x1FFF)" "length q = length pkt" "\<forall>i. i \<noteq> 1 \<and> i \<noteq> 2 \<longrightarrow> q ! i = pkt ! i"
    "q ! 1 AND 0xE0 = pkt ! 1 AND 0xE0"
proof -
  have q: "q = pkt[1 := (pkt ! 1 AND 0xE0) OR (ucast (drop_bit 8 pid) AND 0x1F), 2 := ucast pid]"
    using assms by (simp add: write_pid_val)
  show "ts_pid q = Some (pid AND 0x1FFF)" using assms(1) by (simp add: q ts_vals pid13_edited)
  show "length q = length pkt" "\<forall>i. i \<noteq> 1 \<and> i \<noteq> 2 \<longrightarrow> q ! i = pkt ! i" by (simp_all add: q)
  have "q ! 1 = (pkt ! 1 AND 0xE0) OR (ucast (drop_bit 8 pid) AND 0x1F)" using assms(1) by (simp add: q)
  then show "q ! 1 AND 0xE0 = pkt ! 1 AND 0xE0"
    by (simp, intro bit_word_eqI) (auto simp: low_masks mask_splits bit_simps)
qed

section \<open>The entries of a PAT\<close>

lemma pat_entries_cong:
  assumes "length a = length b" "\<And>i. pos \<le> i \<Longrightarrow> i < e \<Longrightarrow> a ! i = b ! i" "e \<le> length a"
  shows "pat_entries a pos e = pat_entries b pos e"
  using assms
proof (induction a pos e arbitrary: b rule: pat_entries.induct)
  case (1 a pos e)
  show ?case
  proof (cases "pos + 4 \<le> e")
    case True
    have "pat_entries a (pos + 4) e = pat_entries b (pos + 4) e"
      using True 1(2,3,4)
      by (intro 1(1) [of "a ! pos" "a ! (pos + 1)" "a ! (pos + 2)" "a ! (pos + 3)"]) (auto simp: idx_def)
    with True 1(2,4) 1(3) [of pos] 1(3) [of "pos + 1"] 1(3) [of "pos + 2"] 1(3) [of "pos + 3"] show ?thesis
      by (subst (1 2) pat_entries.simps) simp
  next
    case False
    then show ?thesis by (subst (1 2) pat_entries.simps) simp
  qed
qed

definition moved_programs :: "pid_remapper \<Rightarrow> (u16 \<times> u16) list \<Rightarrow> (u16 \<times> u16) list" where
  "moved_programs m = map (\<lambda>p. (fst p, tgt m (snd p)))"

lemma pid13_reserved: "pid13 (0xE0 OR ucast (drop_bit 8 pid AND 0x1F)) (ucast (pid AND 0xFF)) = pid AND 0x1FFF"
proof (rule bit_word_eqI)
  fix n assume n: "n < LENGTH(16)"
  consider "n < 8" | "8 \<le> n \<and> n < 13" | "13 \<le> n" by linarith
  then show "bit (pid13 (0xE0 OR ucast (drop_bit 8 pid AND 0x1F)) (ucast (pid AND 0xFF))) n = bit (pid AND 0x1FFF) n"
    using n
    by cases (auto simp: pid13_def mask_splits low_masks mask8 bit_simps dest: bit_imp_le_length)
qed

text \<open>One entry: what is written at its position.\<close>

definition moved_entry :: "pid_remapper \<Rightarrow> bytes \<Rightarrow> nat \<Rightarrow> bytes" where
  "moved_entry m buf pos =
     (let pid = pid13 (buf ! (pos + 2)) (buf ! (pos + 3)) in
      if be16 (buf ! pos) (buf ! (pos + 1)) \<noteq> 0 \<and> mapped m pid
      then buf[pos + 2 := 0xE0 OR ucast (drop_bit 8 (tgt m pid) AND 0x1F), pos + 3 := ucast (tgt m pid AND 0xFF)]
      else buf)"

lemma moved_entry_facts:
  assumes "remap_ok m" "pos + 4 \<le> length buf"
  shows "length (moved_entry m buf pos) = length buf"
    "\<And>i. i \<noteq> pos + 2 \<Longrightarrow> i \<noteq> pos + 3 \<Longrightarrow> moved_entry m buf pos ! i = buf ! i"
    "pid13 (moved_entry m buf pos ! (pos + 2)) (moved_entry m buf pos ! (pos + 3)) =
       (if be16 (buf ! pos) (buf ! (pos + 1)) \<noteq> 0 then tgt m (pid13 (buf ! (pos + 2)) (buf ! (pos + 3)))
        else pid13 (buf ! (pos + 2)) (buf ! (pos + 3)))"
  using assms tgt_bits [OF assms(1) pid13_bound]
  by (auto simp: moved_entry_def Let_def pid13_reserved) (simp add: tgt_def)

lemma remap_pat_entries_val:
  assumes "remap_ok m" "e \<le> length buf"
  shows "\<exists>buf'. remap_pat_entries m buf pos e = Some buf' \<and> length buf' = length buf \<and>
     (\<forall>i. i < pos \<or> e \<le> i \<longrightarrow> buf' ! i = buf ! i) \<and>
     pat_entries buf' pos e = map_option (moved_programs m) (pat_entries buf pos e)"
  using assms(2)
proof (induction "e - pos" arbitrary: buf pos rule: less_induct)
  case less
  show ?case
  proof (cases "pos + 4 \<le> e")
    case False
    then show ?thesis by (subst remap_pat_entries.simps) (simp add: pat_entries.simps moved_programs_def)
  next
    case True
    let ?b = "moved_entry m buf pos"
    have in4: "pos + 4 \<le> length buf" using True less.prems by simp
    note mv = moved_entry_facts [OF assms(1) in4]
    have dec: "e - (pos + 4) < e - pos" using True by simp
    have eb: "e \<le> length ?b" using less.prems mv(1) by simp
    obtain buf' where r: "remap_pat_entries m ?b (pos + 4) e = Some buf'" "length buf' = length ?b"
        "\<forall>i. i < pos + 4 \<or> e \<le> i \<longrightarrow> buf' ! i = ?b ! i"
        "pat_entries buf' (pos + 4) e = map_option (moved_programs m) (pat_entries ?b (pos + 4) e)"
      using less.hyps [OF dec eb] by blast
    have step: "remap_pat_entries m buf pos e = remap_pat_entries m ?b (pos + 4) e"
      by (subst remap_pat_entries.simps)
         (use True in4 in \<open>auto simp: lookup_val [OF assms(1)] moved_entry_def Let_def\<close>)
    have same: "pat_entries ?b (pos + 4) e = pat_entries buf (pos + 4) e"
      by (rule pat_entries_cong) (use mv(1,2) eb in auto)
    have n: "buf' ! pos = buf ! pos" "buf' ! (pos + 1) = buf ! (pos + 1)"
        "pid13 (buf' ! (pos + 2)) (buf' ! (pos + 3)) = pid13 (?b ! (pos + 2)) (?b ! (pos + 3))"
      using r(3) mv(2) [of pos] mv(2) [of "pos + 1"] by auto
    obtain ps where ps: "pat_entries buf (pos + 4) e = Some ps"
      using no_panic_pat_entries [OF less.prems, of "pos + 4"] by (auto dest: no_panicE)
    have v: "pat_entries buf pos e = Some (if be16 (buf ! pos) (buf ! (pos + 1)) \<noteq> 0
        then (be16 (buf ! pos) (buf ! (pos + 1)), pid13 (buf ! (pos + 2)) (buf ! (pos + 3))) # ps else ps)"
      using True in4 ps by (subst pat_entries.simps) simp
    have v': "pat_entries buf' pos e = Some (if be16 (buf ! pos) (buf ! (pos + 1)) \<noteq> 0
        then (be16 (buf ! pos) (buf ! (pos + 1)), tgt m (pid13 (buf ! (pos + 2)) (buf ! (pos + 3)))) # moved_programs m ps
        else moved_programs m ps)"
      using True in4 ps same r(2,4) n mv(1,3) by (subst pat_entries.simps) simp
    have "\<forall>i. i < pos \<or> e \<le> i \<longrightarrow> buf' ! i = buf ! i" using r(3) mv(2) True by auto
    then show ?thesis using step r(1,2) mv(1) v v' by (auto simp: moved_programs_def)
  qed
qed

section \<open>The streams of a PMT\<close>

definition repids :: "pid_remapper \<Rightarrow> pmt_es list \<Rightarrow> es_edit list" where
  "repids m ess = concat (map (\<lambda>es. if mapped m (es_pid es) then [Repid (es_pid es) (tgt m (es_pid es))] else []) ess)"

lemma repids_val:
  assumes "remap_ok m"
  shows "map_panics (\<lambda>es. do { mapped \<leftarrow> is_mapped m (es_pid es); t \<leftarrow> rm_target m (es_pid es);
       Some (if mapped then [Repid (es_pid es) t] else []) }) ess =
     Some (map (\<lambda>es. if mapped m (es_pid es) then [Repid (es_pid es) (tgt m (es_pid es))] else []) ess)"
  by (induction ess) (simp_all add: lookup_val [OF assms])

lemma find_repid:
  "pid \<in> es_pid ` set ess \<Longrightarrow> find (\<lambda>e. edit_pid e = pid) (repids m ess) =
     (if mapped m pid then Some (Repid pid (tgt m pid)) else None)"
proof -
  have out: "find (\<lambda>e. edit_pid e = pid) (repids m ess) = None" if "pid \<notin> es_pid ` set ess \<or> \<not> mapped m pid" for ess
    using that by (induction ess) (auto simp: repids_def)
  assume "pid \<in> es_pid ` set ess"
  then show ?thesis
  proof (induction ess)
    case (Cons es ess)
    show ?case
    proof (cases "es_pid es = pid")
      case True
      then show ?thesis using out [of "es # ess"] by (auto simp: repids_def)
    next
      case False
      then show ?thesis using Cons by (auto simp: repids_def)
    qed
  qed simp
qed

lemma repids_rename: "e \<in> set (repids m ess) \<Longrightarrow> \<not> re_encodes e"
  by (induction ess) (auto simp: repids_def split: if_splits)

lemma edited_repids:
  assumes "pid \<in> es_pid ` set ess" "pe_es edit = repids m ess"
  shows "edited edit st pid info = (st, tgt m pid, info)"
  using find_repid [OF assms(1), of m] by (simp add: edited_def assms(2) tgt_def)

lemma parse_es_length:
  "parse_es sec e pos = Some (Some xs) \<Longrightarrow> pos \<le> e \<Longrightarrow>
   pos + sum_list (map (\<lambda>x. 5 + (snd (es_range x) - fst (es_range x))) xs) = e"
proof (induction sec e pos arbitrary: xs rule: parse_es.induct)
  case (1 sec e pos)
  let ?n = "pos + 5 + len12 (sec ! (pos + 3)) (sec ! (pos + 4))"
  show ?case
  proof (cases "pos < e")
    case False
    then show ?thesis using 1(2,3) by (subst (asm) parse_es.simps) simp
  next
    case True
    from 1(2) True obtain st a b c d rest where i: "pos + 5 \<le> e" "idx sec pos = Some st" "idx sec (pos + 1) = Some a"
        "idx sec (pos + 2) = Some b" "idx sec (pos + 3) = Some c" "idx sec (pos + 4) = Some d"
        "pos + 5 + len12 c d \<le> e" "parse_es sec e (pos + 5 + len12 c d) = Some (Some rest)"
        "xs = \<lparr>es_stream_type = st, es_pid = pid13 a b, es_range = (pos + 5, pos + 5 + len12 c d)\<rparr> # rest"
      by (subst (asm) parse_es.simps) (auto simp: bind_eq_Some_conv Let_def split: if_splits)
    have "pos + 5 + len12 c d + sum_list (map (\<lambda>x. 5 + (snd (es_range x) - fst (es_range x))) rest) = e"
      by (rule 1(1) [of st a b c d]) (use True i in auto)
    then show ?thesis using i(9) by simp
  qed
qed

lemma parse_es_pids:
  "parse_es sec e pos = Some (Some xs) \<Longrightarrow> x \<in> set xs \<Longrightarrow> es_pid x AND 0x1FFF = es_pid x"
proof (induction sec e pos arbitrary: xs rule: parse_es.induct)
  case (1 sec e pos)
  from 1(2,3) obtain st a b c d rest where i: "pos < e" "pos + 5 \<le> e" "idx sec pos = Some st" "idx sec (pos + 1) = Some a"
      "idx sec (pos + 2) = Some b" "idx sec (pos + 3) = Some c" "idx sec (pos + 4) = Some d"
      "pos + 5 + len12 c d \<le> e" "parse_es sec e (pos + 5 + len12 c d) = Some (Some rest)"
      "xs = \<lparr>es_stream_type = st, es_pid = pid13 a b, es_range = (pos + 5, pos + 5 + len12 c d)\<rparr> # rest"
    by (subst (asm) parse_es.simps) (auto simp: bind_eq_Some_conv Let_def split: if_splits)
  have "es_pid x AND 0x1FFF = es_pid x" if "x \<in> set rest"
    by (rule 1(1) [of st a b c d]) (use i that in auto)
  then show ?case using 1(3) i(10) by (auto simp: pid13_bound)
qed

lemma parse_pmt_pids:
  assumes "parse_pmt sec = Some (Some v)" "es \<in> set (pv_es v)"
  shows "es_pid es AND 0x1FFF = es_pid es"
proof -
  from assms(1) obtain e pos where "parse_es sec e pos = Some (Some (pv_es v))"
    by (auto simp: parse_pmt_def bind_eq_Some_conv Let_def split: if_splits)
  from parse_es_pids [OF this assms(2)] show ?thesis .
qed

lemma parse_pmt_length:
  assumes "parse_pmt sec = Some (Some v)"
  shows "snd (pv_program_info v) + sum_list (map (\<lambda>x. 5 + (snd (es_range x) - fst (es_range x))) (pv_es v)) \<le> 1020"
proof -
  from assms obtain es n where n: "n \<le> 1021" "13 \<le> n" "12 + len12 (sec ! 10) (sec ! 11) \<le> 3 + n - 4"
      "parse_es sec (3 + n - 4) (12 + len12 (sec ! 10) (sec ! 11)) = Some (Some es)"
      "snd (pv_program_info v) = 12 + len12 (sec ! 10) (sec ! 11)" "pv_es v = es"
    by (auto simp: parse_pmt_def bind_eq_Some_conv Let_def idx_Some_iff PSI_MAX_SECTION_LENGTH_def split: if_splits)
  show ?thesis using parse_es_length [OF n(4,3)] n(1,2) unfolding n(5,6) by simp
qed

lemma length_entries: "length (encode_entries es) = sum_list (map (\<lambda>e. 5 + length (en_info e)) es)"
  by (induction es) (simp_all add: encode_entries_def)

text \<open>Renaming keeps the size of a section, so the rebuild is never refused.\<close>

lemma renamed_fits:
  assumes "parse_pmt sec = Some (Some v)" "pe_es edit = repids m (pv_es v)"
  shows "length (rebuilt_body edit v) + 4 \<le> 1021"
proof -
  have p: "pv_section v = sec" "16 \<le> length sec" "12 \<le> snd (pv_program_info v)" "snd (pv_program_info v) \<le> length sec"
      "\<forall>x\<in>set (pv_es v). es_inside (length sec) x"
    using parse_pmt_sound [of sec] assms(1) by auto
  have nr: "\<not> reencoded edit v" using assms(2) repids_rename by (auto simp: reencoded_def)
  have "length (en_info (entry_out edit sec x)) = snd (es_range x) - fst (es_range x)" if "x \<in> set (pv_es v)" for x
  proof -
    have "es_pid x \<in> es_pid ` set (pv_es v)" using that by simp
    from edited_repids [OF this assms(2)] show ?thesis
      using that p(5) by (auto simp: entry_out_def Let_def es_bytes_def es_inside_def)
  qed
  then have e: "map (\<lambda>x. 5 + length (en_info x)) (map (entry_out edit sec) (pv_es v)) =
      map (\<lambda>x. 5 + (snd (es_range x) - fst (es_range x))) (pv_es v)" by simp
  have "length (rebuilt_body edit v) = 9 + (snd (pv_program_info v) - 12) +
      sum_list (map (\<lambda>x. 5 + (snd (es_range x) - fst (es_range x))) (pv_es v))"
  proof -
    have "length (encode_entries (map (entry_out edit sec) (pv_es v))) =
        sum_list (map (\<lambda>x. 5 + (snd (es_range x) - fst (es_range x))) (pv_es v))"
      unfolding length_entries e ..
    moreover have "length (take 5 (drop 3 sec)) = 5" using p(2) by simp
    moreover have "length (rebuilt_info edit v) = snd (pv_program_info v) - 12"
      using nr p by (simp add: rebuilt_info_def Let_def)
    ultimately show ?thesis
      unfolding rebuilt_body_def Let_def pmt_body_def length_append p(1) by (simp add: pid_bytes_def len_bytes_def)
  qed
  then show ?thesis using parse_pmt_length [OF assms(1)] p(3) by linarith
qed

text \<open>What a section says after the rewrite: every PID is its target.\<close>

definition moved_stream :: "pid_remapper \<Rightarrow> u8 \<times> u16 \<times> bytes \<Rightarrow> u8 \<times> u16 \<times> bytes" where
  "moved_stream m s = (fst s, tgt m (fst (snd s)), snd (snd s))"

definition moved_view :: "pid_remapper \<Rightarrow> bytes \<Rightarrow> pmt_view \<Rightarrow> bytes \<Rightarrow> bool" where
  "moved_view m sec v sec' \<longleftrightarrow>
     (\<exists>v'. parse_pmt sec' = Some (Some v') \<and> pv_version v' = pv_version v \<and>
        pv_pcr_pid v' = tgt m (pv_pcr_pid v) \<and> program_info_bytes v' = program_info_bytes v \<and>
        map (stream_of sec') (pv_es v') = map (moved_stream m) (map (stream_of sec) (pv_es v)) \<and>
        take 5 (drop 3 sec') = take 5 (drop 3 sec))"

lemma unmapped_view:
  assumes "parse_pmt sec = Some (Some v)" "repids m (pv_es v) = []" "\<not> mapped m (pv_pcr_pid v)"
  shows "moved_view m sec v sec"
proof -
  have "\<not> mapped m (es_pid es)" if "es \<in> set (pv_es v)" for es
    using that assms(2) by (auto simp: repids_def)
  then have "map (moved_stream m) (map (stream_of sec) (pv_es v)) = map (stream_of sec) (pv_es v)"
    by (simp add: moved_stream_def stream_of_def tgt_def)
  with assms show ?thesis unfolding moved_view_def by (intro exI [of _ v]) (simp add: tgt_def)
qed

lemma remap_pmt_section_val:
  assumes "remap_ok m" "parse_pmt sec = Some (Some v)"
  shows "\<exists>r. remap_pmt_section m sec = Some r \<and> moved_view m sec v (case r of None \<Rightarrow> sec | Some new \<Rightarrow> new) \<and>
     (\<forall>new. r = Some new \<longrightarrow> mpeg2_crc32 new = 0)"
proof -
  let ?edits = "repids m (pv_es v)"
  let ?pcr = "if mapped m (pv_pcr_pid v) then Some (tgt m (pv_pcr_pid v)) else None"
  let ?edit = "pmt_edit_default\<lparr>pe_es := ?edits, pe_pcr_pid := ?pcr\<rparr>"
  have val: "remap_pmt_section m sec =
      (if ?edits = [] \<and> ?pcr = None then Some None else rebuild_pmt_section sec ?edit)"
    unfolding remap_pmt_section_def repids_val [OF assms(1)]
    by (simp add: lookup_val [OF assms(1)] assms(2) repids_def [symmetric] Let_def
        del: concat_eq_Nil_conv Nil_eq_concat_conv)
  show ?thesis
  proof (cases "?edits = [] \<and> ?pcr = None")
    case True
    then show ?thesis using val unmapped_view [OF assms(2)] by (auto split: if_splits)
  next
    case False
    have pb: "pv_pcr_pid v AND 0x1FFF = pv_pcr_pid v" and ps: "pv_section v = sec"
      using parse_pmt_sound [of sec] assms(2) by (auto simp: pid13_bound)
    have "length (rebuilt_body ?edit v) + 4 \<le> 1021" by (rule renamed_fits [OF assms(2), where m = m]) simp
    then obtain new where new: "rebuild_pmt_section sec ?edit = Some (Some new)"
      using rebuild_val [OF assms(2), of ?edit] by auto
    obtain v' where v': "parse_pmt new = Some (Some v')" "pv_version v' = pv_version v"
        "pv_pcr_pid v' = (case ?pcr of Some p \<Rightarrow> p AND 0x1FFF | None \<Rightarrow> pv_pcr_pid v)"
        "program_info_bytes v' = map_option (\<lambda>i. if reencoded ?edit v then program_descriptors i else i) (program_info_bytes v)"
        "map (stream_of new) (pv_es v') = map (edited_stream ?edit) (map (stream_of sec) (pv_es v))"
        "take 5 (drop 3 new) = take 5 (drop 3 sec)" "mpeg2_crc32 new = 0"
      using rebuilt_view [OF assms(2) new] by auto
    have nr: "\<not> reencoded ?edit v" using repids_rename by (auto simp: reencoded_def)
    have pc: "pv_pcr_pid v' = tgt m (pv_pcr_pid v)"
      using v'(3) tgt_bits [OF assms(1) pb] by (auto simp: tgt_def)
    have "edited_stream ?edit (stream_of sec es) = moved_stream m (stream_of sec es)" if "es \<in> set (pv_es v)" for es
    proof -
      have "es_pid es AND 0x1FFF = es_pid es" using parse_pmt_pids [OF assms(2) that] .
      then have "tgt m (es_pid es) AND 0x1FFF = tgt m (es_pid es)" by (rule tgt_bits [OF assms(1)])
      moreover have "es_pid es \<in> es_pid ` set (pv_es v)" using that by simp
      ultimately show ?thesis
        using edited_repids [of "es_pid es" "pv_es v" ?edit m] by (simp add: edited_stream_def moved_stream_def stream_of_def)
    qed
    then have st: "map (stream_of new) (pv_es v') = map (moved_stream m) (map (stream_of sec) (pv_es v))"
      using v'(5) by simp
    have "program_info_bytes v' = program_info_bytes v" using v'(4) nr by (simp add: option.map_ident)
    then have "moved_view m sec v new" unfolding moved_view_def using v'(1,2,6) pc st by blast
    then show ?thesis using val False new v'(7) by auto
  qed
qed

end
