(* ===== verification/PsiStageTotal.thy ===== *)
theory PsiStageTotal
  imports PsiStageCorrect
begin

text \<open>
  An editor on the PMT-PID stage: every unit the stage hands out can be emitted whatever sections the
  editor put into it, so a stage with an editor never panics.
\<close>

section \<open>Sections are never empty\<close>

definition sections_ok :: "psi_stage \<Rightarrow> bool" where
  "sections_ok s \<longleftrightarrow> (\<forall>sec\<in>set (ps_sections s). sec \<noteq> [])"

lemma write_packet_same: "write_packet s p out = Some (s', out') \<Longrightarrow> same_stage s s'"
  using write_packet_val [of p s out] by (cases "length p = 188") (auto simp: write_packet_def)

lemma write_all_same: "write_all s ps out = Some (s', out') \<Longrightarrow> same_stage s s'"
proof (induction ps arbitrary: s out)
  case (Cons p ps)
  then obtain s1 o1 where "write_packet s p out = Some (s1, o1)" "write_all s1 ps o1 = Some (s', out')"
    by (auto simp: write_all_def bind_eq_Some_conv)
  with Cons.IH write_packet_same same_stage_trans show ?case by blast
qed (simp add: write_all_def)

lemma drop_held_empties: "drop_held s extra out = Some (s', out') \<Longrightarrow> ps_sections s' = []"
  by (auto simp: drop_held_def flush_held_af_def bind_eq_Some_conv Let_def split: if_splits
      dest!: write_all_same same_stage_sel(3))

lemma walk_sections_ok:
  "sections_ok s \<Longrightarrow> sections_ok (walk_sections s pl pos)"
proof (induction s pl pos rule: walk_sections.induct)
  case (1 s pl pos)
  let ?len = "len12 (pl ! (pos + 1)) (pl ! (pos + 2))"
  let ?s = "s\<lparr>ps_sections := ps_sections s @ [take (3 + ?len) (drop pos pl)]\<rparr>"
  show ?case
  proof (cases "pos < length pl \<and> pl ! pos \<noteq> 0xFF \<and> 3 \<le> length pl - pos \<and>
      (\<exists>m. max_section_length (pl ! pos) = Some m \<and> ?len \<le> m) \<and> 3 + ?len \<le> length pl - pos")
    case True
    then obtain m where m: "max_section_length (pl ! pos) = Some m" "?len \<le> m" by blast
    have w: "walk_sections s pl pos = walk_sections ?s pl (pos + (3 + ?len))"
      using True m by (subst walk_sections.simps) (simp add: Let_def)
    have "sections_ok ?s" using 1(2) True by (auto simp: sections_ok_def)
    then have "sections_ok (walk_sections ?s pl (pos + (3 + ?len)))" by (intro 1(1)) (use True m in auto)
    then show ?thesis unfolding w .
  next
    case False
    then show ?thesis
      using 1(2) by (subst walk_sections.simps) (auto simp: Let_def sections_ok_def split: option.splits)
  qed
qed

lemma finish_sections_ok:
  assumes "finish_inflight s tot out = Some (ok, s', out')" "sections_ok s" "1 \<le> tot" "ps_inflight s \<noteq> []"
  shows "sections_ok s'"
  using assms
  by (auto simp: finish_inflight_def sections_ok_def bind_eq_Some_conv Let_def split: if_splits
      dest!: drop_held_empties)

lemma push_end_sections:
  assumes "push_end s out = Some (r, s', out')" "sections_ok s"
  shows "sections_ok s' \<and> (\<forall>u. r = Some u \<longrightarrow> (\<forall>sec\<in>set (pu_sections u). sec \<noteq> []))"
  using assms
  by (auto simp: push_end_def sections_ok_def bind_eq_Some_conv split: if_splits dest!: drop_held_empties)

lemma needed_pos: "inflight_needed s = Some (Some tot) \<Longrightarrow> 3 \<le> tot \<and> ps_inflight s \<noteq> []"
  by (auto simp: inflight_needed_def Let_def split: if_splits option.splits)

lemma end_inflight_sections:
  assumes "end_inflight s pl n out = Some (s', out')" "sections_ok s"
  shows "sections_ok s'"
proof (cases "ps_inflight_active s")
  case True
  then obtain t where "(let s = s\<lparr>ps_inflight := ps_inflight s @ t\<rparr> in
      if inflight_needed s = Some (Some (length (ps_inflight s)))
      then do { r \<leftarrow> finish_inflight s (length (ps_inflight s)) out; Some (snd r) }
      else drop_held s 0 out) = Some (s', out')"
    using assms(1) by (auto simp: end_inflight_def bind_eq_Some_conv)
  then show ?thesis
    using assms(2) finish_sections_ok [of "s\<lparr>ps_inflight := ps_inflight s @ t\<rparr>"] drop_held_empties
      needed_pos [of "s\<lparr>ps_inflight := ps_inflight s @ t\<rparr>"]
    by (fastforce simp: Let_def sections_ok_def bind_eq_Some_conv split: if_splits)
qed (use assms in \<open>simp add: end_inflight_def\<close>)

text \<open>A stage and a unit without empty sections.\<close>

definition no_empty :: "psi_unit option \<Rightarrow> psi_stage \<Rightarrow> bool" where
  "no_empty r s \<longleftrightarrow> sections_ok s \<and> (\<forall>u. r = Some u \<longrightarrow> (\<forall>sec\<in>set (pu_sections u). sec \<noteq> []))"

lemma dropped_no_empty: "drop_held s extra out = Some (s', out') \<Longrightarrow> no_empty None s'"
  by (auto simp: no_empty_def sections_ok_def dest: drop_held_empties)

lemma push_start_sections:
  assumes "push_start s pkt pl out = Some (r, s', out')" "sections_ok s"
  shows "no_empty r s'"
proof (cases "1 + unat (pl ! 0) > length pl")
  case True
  with assms show ?thesis
    by (auto simp: push_start_def bind_eq_Some_conv idx_Some_iff Let_def intro: dropped_no_empty)
next
  case False
  let ?n = "1 + unat (pl ! 0)"
  from False assms(1) obtain s2 o2 where e: "end_inflight s pl ?n out = Some (s2, o2)"
      "push_end (walk_sections (s2\<lparr>ps_held := ps_held s2 @ [pkt]\<rparr>) pl ?n) o2 = Some (r, s', out')"
    by (auto simp: push_start_def bind_eq_Some_conv idx_Some_iff Let_def)
  have "sections_ok s2" by (rule end_inflight_sections [OF e(1) assms(2)])
  then have "sections_ok (walk_sections (s2\<lparr>ps_held := ps_held s2 @ [pkt]\<rparr>) pl ?n)"
    by (intro walk_sections_ok) (simp add: sections_ok_def)
  then show ?thesis using push_end_sections [OF e(2)] by (simp add: no_empty_def)
qed

lemma push_continuation_sections:
  assumes "push_continuation s pkt pl out = Some (r, s', out')" "sections_ok s"
  shows "no_empty r s'"
proof (cases "ps_inflight_active s")
  case False
  with assms show ?thesis by (auto simp: push_continuation_def Let_def no_empty_def sections_ok_def split: if_splits)
next
  case True
  let ?s = "s\<lparr>ps_held := ps_held s @ [pkt], ps_inflight := ps_inflight s @ pl\<rparr>"
  have so: "sections_ok ?s" using assms(2) by (simp add: sections_ok_def)
  show ?thesis
  proof (cases "\<exists>tot. inflight_needed ?s = Some (Some tot) \<and> tot \<le> length (ps_inflight ?s)")
    case fin: True
    then obtain tot where t: "inflight_needed ?s = Some (Some tot)" "tot \<le> length (ps_inflight ?s)" by blast
    from assms(1) True t obtain ok s1 o1 where f: "finish_inflight ?s tot out = Some (ok, s1, o1)"
        "(if ok then push_end s1 o1 else Some (None, s1, o1)) = Some (r, s', out')"
      by (auto simp: push_continuation_def bind_eq_Some_conv Let_def)
    have "sections_ok s1" by (rule finish_sections_ok [OF f(1) so]) (use needed_pos [OF t(1)] in auto)
    then show ?thesis
      using f(2) push_end_sections [of s1 o1] by (auto simp: no_empty_def split: if_splits)
  next
    case False
    have "push_continuation s pkt pl out = push_end ?s out \<or>
        push_continuation s pkt pl out = do { so \<leftarrow> drop_held ?s 0 out; Some (None, so) }"
      using True False by (auto simp: push_continuation_def Let_def split: option.splits)
    then show ?thesis
    proof
      assume "push_continuation s pkt pl out = push_end ?s out"
      with assms(1) have "push_end ?s out = Some (r, s', out')" by simp
      from push_end_sections [OF this so] show ?thesis by (simp add: no_empty_def)
    next
      assume "push_continuation s pkt pl out = do { so \<leftarrow> drop_held ?s 0 out; Some (None, so) }"
      with assms(1) have "r = None" "drop_held ?s 0 out = Some (s', out')" by (auto simp: bind_eq_Some_conv)
      with dropped_no_empty show ?thesis by simp
    qed
  qed
qed

lemma push_sections:
  assumes "ps_push s pkt out = Some (r, s', out')" "stage_inv s" "sections_ok s"
    "length pkt = TS_PACKET_SIZE" "pkt ! 0 = TS_SYNC_BYTE"
  shows "no_empty r s'"
proof (cases "has_payload pkt \<and> \<not> (pkt ! 1 AND 0x40 = 0 \<and> ps_last_in s = pkt \<and> ps_last_in_cc s = Some (pkt ! 3 AND 0x0F))")
  case True
  then have c: "packet_carries pkt (pkt ! 1 AND 0x40 \<noteq> 0, drop (payload_off pkt) pkt)"
    using assms(4,5) by (simp add: packet_carries_def has_payload_def)
  have noted: "sections_ok (noted s pkt)" using assms(3) by (simp add: sections_ok_def)
  have v: "(if pkt ! 1 AND 0x40 \<noteq> 0 then push_start (noted s pkt) pkt (drop (payload_off pkt) pkt) out
      else push_continuation (noted s pkt) pkt (drop (payload_off pkt) pkt) out) = Some (r, s', out')"
    using ps_push_val [OF c, of s out] assms(1) True by auto
  show ?thesis
  proof (cases "pkt ! 1 AND 0x40 \<noteq> 0")
    case True
    with v have "push_start (noted s pkt) pkt (drop (payload_off pkt) pkt) out = Some (r, s', out')" by simp
    from push_start_sections [OF this noted] show ?thesis .
  next
    case False
    with v have "push_continuation (noted s pkt) pkt (drop (payload_off pkt) pkt) out = Some (r, s', out')" by simp
    from push_continuation_sections [OF this noted] show ?thesis .
  qed
next
  case False
  have i: "idx pkt 0 = Some (pkt ! 0)" using assms(4) by (simp add: idx_def)
  have "r = None \<and> ps_sections s' = ps_sections s"
    using assms(1,4,5) False i
    by (auto simp: ps_push_def ts_vals ts_payload_offset_val has_payload_def payload_bit_iff bind_eq_Some_conv Let_def
        split: if_splits dest!: write_packet_same same_stage_sel(3))
  then show ?thesis using assms(3) by (simp add: no_empty_def sections_ok_def)
qed

section \<open>Any unit can be emitted\<close>

text \<open>What \<open>emit\<close> relies on: source packets to lay the sections out over, and no empty section.\<close>

definition unit_ok :: "psi_unit \<Rightarrow> bool" where
  "unit_ok u \<longleftrightarrow> templates_ok (pu_packets u) \<and> (\<forall>a\<in>set (pu_af_only u). length (snd a) = 188) \<and>
     (\<forall>sec\<in>set (pu_sections u). sec \<noteq> [])"

lemma af_only_copy_val:
  assumes "length src = 188"
  shows "\<exists>r. af_only_copy src = Some r \<and> (\<forall>p. r = Some p \<longrightarrow> length p = 188)"
proof (cases "drop_bit 4 (src ! 3) AND 0x02 = 0 \<or> unat (src ! 4) > 183")
  case True
  then show ?thesis using assms by (simp add: af_only_copy_def af_bytes_val)
next
  case False
  define af where "af = take (1 + unat (src ! 4)) (drop 4 src)"
  have l: "length af = 1 + unat (src ! 4)" "length af \<le> 184" using False assms by (auto simp: af_def)
  have e: "af_bytes src = Some (Some af)" using False assms by (simp add: af_bytes_val af_def)
  show ?thesis using l(2) assms by (auto simp: af_only_copy_def e Let_def)
qed

lemma af_only_copies:
  "\<forall>p\<in>set ps. length p = 188 \<Longrightarrow>
   \<exists>rs. map_panics af_only_copy ps = Some rs \<and> (\<forall>r\<in>set rs. \<forall>q. r = Some q \<longrightarrow> length q = 188)"
proof (induction ps)
  case (Cons p ps)
  obtain r where "af_only_copy p = Some r" "\<forall>q. r = Some q \<longrightarrow> length q = 188"
    using af_only_copy_val [of p] Cons.prems by auto
  with Cons show ?case by auto
qed simp

lemma emit_run_total:
  assumes "\<forall>p\<in>set ps. \<forall>q. p = Some q \<longrightarrow> length q = 188" "\<forall>a\<in>set af. length (snd a) = 188"
  shows "\<exists>s' af' q. emit_run s af j ps out = Some (s', af', out @ q) \<and> same_stage s s' \<and> set af' \<subseteq> set af"
  using assms
proof (induction ps arbitrary: s af j out)
  case (Cons p ps)
  let ?t = "takeWhile (\<lambda>(k, a). k \<le> j) af" and ?d = "dropWhile (\<lambda>(k, a). k \<le> j) af"
  have l: "\<forall>q\<in>set (map snd ?t). length q = 188" "\<forall>a\<in>set ?d. length (snd a) = 188"
    using Cons.prems by (auto dest: set_takeWhileD set_dropWhileD)
  obtain s1 q1 where w1: "write_all s (map snd ?t) out = Some (s1, out @ q1)" "same_stage s s1"
    using write_all_val [OF l(1)] by blast
  obtain s2 q2 where w2: "(case p of None \<Rightarrow> Some (s1, out @ q1) | Some q \<Rightarrow> write_packet s1 q (out @ q1)) =
      Some (s2, out @ q1 @ q2)" "same_stage s1 s2"
  proof (cases p)
    case None
    then show ?thesis using that [of s1 "[]"] by simp
  next
    case (Some q)
    then show ?thesis using write_packet_val [of q s1 "out @ q1"] Cons.prems(1) that by auto
  qed
  obtain s3 af3 q3 where w3: "emit_run s2 ?d (Suc j) ps (out @ q1 @ q2) = Some (s3, af3, (out @ q1 @ q2) @ q3)"
      "same_stage s2 s3" "set af3 \<subseteq> set ?d"
    using Cons.IH [of ?d s2 "Suc j" "out @ q1 @ q2"] Cons.prems(1) l(2) by auto
  have "emit_run s af j (p # ps) out = Some (s3, af3, out @ q1 @ q2 @ q3)"
    using w1(1) w2(1) w3(1) by (cases p) simp_all
  moreover have "set af3 \<subseteq> set af" using w3(3) by (auto dest: set_dropWhileD)
  ultimately show ?case using w1(2) w2(2) w3(2) same_stage_trans by blast
qed simp

text \<open>After an emission the stage is the one before it, up to the counter and its ownership.\<close>

definition emitted :: "psi_stage \<Rightarrow> psi_stage \<Rightarrow> bool" where
  "emitted s s' \<longleftrightarrow> (\<exists>own. same_stage (s\<lparr>ps_owned_cc := own\<rparr>) s')"

lemma emitted_inv: "emitted s s' \<Longrightarrow> stage_inv s \<and> sections_ok s \<Longrightarrow> stage_inv s' \<and> sections_ok s'"
  unfolding emitted_def same_stage_def by (elim exE) (simp add: sections_ok_def stage_inv_def)

lemma emit_changed_total:
  assumes "unit_ok u" "pu_changed u"
  shows "\<exists>s' q. ps_emit s u out = Some (s', out @ q) \<and> emitted s s'"
proof -
  have ne: "\<forall>sec\<in>set (pu_sections u). sec \<noteq> []" and ts: "templates_ok (pu_packets u)"
    and af: "\<forall>a\<in>set (pu_af_only u). length (snd a) = 188"
    using assms(1) by (auto simp: unit_ok_def)
  obtain pkts cs where l: "layout (pu_sections u) (pu_packets u) = Some pkts" "list_all2 packet_carries pkts cs"
    using layout_cuts [OF ts ne] by blast
  have lp: "\<forall>p\<in>set (map Some pkts). \<forall>q. p = Some q \<longrightarrow> length q = 188"
    using l(2) by (auto simp: list_all2_conv_all_nth in_set_conv_nth packet_carries_def)
  let ?s = "s\<lparr>ps_owned_cc := length pkts \<noteq> length (pu_packets u) \<or> ps_owned_cc s\<rparr>"
  have own: "(if length pkts \<noteq> length (pu_packets u) then s\<lparr>ps_owned_cc := True\<rparr> else s) = ?s" by simp
  obtain s1 af1 q1 where r1: "emit_run ?s (pu_af_only u) 0 (map Some pkts) out = Some (s1, af1, out @ q1)"
      "same_stage ?s s1" "set af1 \<subseteq> set (pu_af_only u)"
    using emit_run_total [OF lp af] by blast
  have af1: "\<forall>a\<in>set af1. length (snd a) = 188" using r1(3) af by auto
  have "\<forall>p\<in>set (drop (length pkts) (pu_packets u)). length p = 188"
    using ts by (auto simp: templates_ok_def dest: in_set_dropD)
  then obtain sur where sur: "map_panics af_only_copy (drop (length pkts) (pu_packets u)) = Some sur"
      "\<forall>r\<in>set sur. \<forall>q. r = Some q \<longrightarrow> length q = 188"
    using af_only_copies by blast
  obtain s2 af2 q2 where r2: "emit_run s1 af1 (length pkts) sur (out @ q1) = Some (s2, af2, (out @ q1) @ q2)"
      "same_stage s1 s2" "set af2 \<subseteq> set af1"
    using emit_run_total [OF sur(2) af1] by blast
  have "\<forall>p\<in>set (map snd af2). length p = 188" using r2(3) af1 by auto
  then obtain s3 q3 where r3: "write_all s2 (map snd af2) ((out @ q1) @ q2) = Some (s3, ((out @ q1) @ q2) @ q3)"
      "same_stage s2 s3"
    using write_all_val by blast
  have "ps_emit s u out = Some (s3, out @ q1 @ q2 @ q3)"
    unfolding ps_emit_def Let_def using assms(2) l(1) r1(1) sur(1) r2(1) r3(1) by (simp add: own)
  moreover have "same_stage ?s s3" using r1(2) r2(2) r3(2) same_stage_trans by blast
  ultimately show ?thesis unfolding emitted_def by blast
qed

lemma emit_total:
  assumes "unit_ok u"
  shows "\<exists>s' q. ps_emit s u out = Some (s', out @ q) \<and> emitted s s'"
proof (cases "pu_changed u")
  case True
  with emit_changed_total [OF assms] show ?thesis by blast
next
  case False
  have l: "\<forall>p\<in>set (pu_packets u). length p = 188" "\<forall>a\<in>set (pu_af_only u). length (snd a) = 188"
    using assms by (auto simp: unit_ok_def templates_ok_def)
  obtain s' q where e: "ps_emit s u out = Some (s', out @ q)" "same_stage s s'"
    using emit_unchanged [OF False l] by blast
  have "emitted s s'" unfolding emitted_def by (rule exI [of _ "ps_owned_cc s"]) (simp add: e(2))
  with e(1) show ?thesis by blast
qed

text \<open>One packet: the stage does not panic, and a unit it hands out can be emitted.\<close>

theorem push_unit_ok:
  assumes "stage_inv s" "sections_ok s" "length pkt = TS_PACKET_SIZE" "pkt ! 0 = TS_SYNC_BYTE"
  shows "\<exists>r s' out'. ps_push s pkt out = Some (r, s', out') \<and> stage_inv s' \<and> sections_ok s' \<and>
     (\<forall>u. r = Some u \<longrightarrow> unit_ok u \<and> \<not> pu_changed u)"
proof -
  obtain r s' out' where p: "ps_push s pkt out = Some (r, s', out')" "stage_inv s'"
    and o: "if \<not> has_payload pkt then passed_on s pkt out r s' out'
      else r = None \<and> s' = s \<and> out' = out \<and> ps_last_in s = pkt \<or>
           ps_last_in s' = pkt \<and> (held_on s pkt out r s' out' \<or> lost s r s')"
    using ps_push_outcome [OF assms(1,3,4)] by blast
  have n: "sections_ok s'" "\<forall>u. r = Some u \<longrightarrow> (\<forall>sec\<in>set (pu_sections u). sec \<noteq> [])"
    using push_sections [OF p(1) assms] by (auto simp: no_empty_def)
  have "templates_ok (pu_packets u) \<and> (\<forall>a\<in>set (pu_af_only u). length (snd a) = 188) \<and> \<not> pu_changed u"
    if u: "r = Some u" for u
  proof -
    have "held_on s pkt out (Some u) s' out' \<or> lost s (Some u) s'"
      using o u by (auto simp: passed_on_def split: if_splits)
    then show ?thesis
      using assms(1,3) by (auto simp: held_on_def lost_def stage_inv_def templates_ok_def)
  qed
  with n p show ?thesis by (auto simp: unit_ok_def)
qed

end
