(* ===== verification/PidRemapperCorrect.thy ===== *)
theory PidRemapperCorrect
  imports PidRemapperFacts PsiStageTotal
begin

text \<open>
  What the PID remapper promises: it never panics, every packet leaves on the target of its PID, and
  the PAT and the PMTs announce the same targets.
\<close>

section \<open>The PAT\<close>

definition sec_at :: "bytes \<Rightarrow> nat" where
  "sec_at pkt = payload_off pkt + (1 + unat (pkt ! payload_off pkt))"

definition has_pat :: "bytes \<Rightarrow> bool" where
  "has_pat pkt \<longleftrightarrow> payload_off pkt < 188 \<and> sec_at pkt + 8 \<le> 188 \<and> pkt ! sec_at pkt = 0"

definition sec_len :: "bytes \<Rightarrow> nat" where
  "sec_len pkt = len12 (pkt ! (sec_at pkt + 1)) (pkt ! (sec_at pkt + 2))"

definition entries_end :: "bytes \<Rightarrow> nat" where
  "entries_end pkt = min (sec_at pkt + 3 + sec_len pkt) 188 - 4"

text \<open>A packet that starts a unit with a whole PAT section.\<close>

definition pat_fits :: "bytes \<Rightarrow> bool" where
  "pat_fits pkt \<longleftrightarrow> pkt ! 1 AND 0x40 \<noteq> 0 \<and> has_pat pkt \<and> 9 \<le> sec_len pkt \<and> sec_at pkt + 3 + sec_len pkt \<le> 188"

lemma off_bounds: "4 \<le> payload_off pkt" "5 \<le> sec_at pkt"
  by (auto simp: payload_off_def sec_at_def)

lemma rm_section_val:
  assumes "length pkt = 188"
  shows "rm_section pkt = Some (if has_pat pkt then Some (sec_at pkt) else None)"
proof -
  have "(do { af \<leftarrow> ts_has_adaptation pkt;
     if af then do { af_len \<leftarrow> idx pkt 4; Some (5 + unat af_len) } else Some 4 }) = Some (payload_off pkt)"
    using assms by (simp add: ts_vals payload_off_def)
  then have "rm_section pkt =
     (if payload_off pkt \<ge> 188 then Some None
      else do { pointer \<leftarrow> idx pkt (payload_off pkt);
       let sec_off = payload_off pkt + (1 + unat pointer);
       if sec_off + 8 > 188 then Some None
       else do { tid \<leftarrow> idx pkt sec_off; Some (if tid \<noteq> 0x00 then None else Some sec_off) } })"
    using assms by (auto simp: rm_section_def ts_vals payload_off_def)
  then show ?thesis using assms by (auto simp: has_pat_def sec_at_def Let_def)
qed

lemma parse_pat_val:
  assumes "length pkt = 188"
  shows "parse_pat_programs pkt =
     (if pkt ! 1 AND 0x40 \<noteq> 0 \<and> has_pat pkt then pat_entries pkt (sec_at pkt + 8) (entries_end pkt) else Some [])"
  using assms
  by (auto simp: parse_pat_programs_def ts_vals ts_payload_offset_val has_pat_def sec_at_def sec_len_def
      entries_end_def Let_def)

lemma any_mapped_val:
  "remap_ok m \<Longrightarrow> any_mapped m = Some (\<exists>pid\<in>rm_pmt_pids m. mapped m pid)"
  by (simp add: any_mapped_def lookup_val)

text \<open>Two packets that agree up to a whole PAT section with other entries and another CRC.\<close>

lemma same_section:
  assumes "length p = 188" "length q = 188" "has_pat p" "\<forall>i < sec_at p + 8. q ! i = p ! i"
  shows "sec_at q = sec_at p" "has_pat q" "sec_len q = sec_len p" "entries_end q = entries_end p"
    "take 4 q = take 4 p"
proof -
  have b: "payload_off p < sec_at p" "5 \<le> sec_at p" using off_bounds by (auto simp: sec_at_def)
  have off: "payload_off q = payload_off p" unfolding payload_off_def using assms(4) b(2) by simp
  have "q ! payload_off p = p ! payload_off p" using assms(4) b by simp
  with off show s: "sec_at q = sec_at p" by (simp add: sec_at_def)
  show "has_pat q" using assms(3,4) off s by (simp add: has_pat_def)
  show l: "sec_len q = sec_len p" using assms(4) s by (simp add: sec_len_def)
  show "entries_end q = entries_end p" using s l by (simp add: entries_end_def)
  show "take 4 q = take 4 p" by (rule nth_take_lemma) (use assms b in auto)
qed

text \<open>The packet after the entries and the CRC were written.\<close>

lemma emit_pat_val:
  assumes "remap_ok m" "length pkt = 188"
  shows "\<exists>q. emit_pat m pkt out = Some (out @ q) \<and> length q = 188 \<and> take 4 q = take 4 pkt \<and>
     ((\<forall>pid\<in>rm_pmt_pids m. \<not> mapped m pid) \<longrightarrow> q = pkt) \<and>
     ((\<exists>pid\<in>rm_pmt_pids m. mapped m pid) \<and> pat_fits pkt \<longrightarrow>
        parse_pat_programs q = map_option (moved_programs m) (parse_pat_programs pkt) \<and>
        verify_psi_crc q (sec_at pkt) = Some True \<and> take (sec_at pkt + 8) q = take (sec_at pkt + 8) pkt)"
proof (cases "(\<exists>pid\<in>rm_pmt_pids m. mapped m pid) \<and> has_pat pkt")
  case False
  then have "emit_pat m pkt out = Some (out @ pkt)"
    using assms by (auto simp: emit_pat_def any_mapped_val rm_section_val)
  with False assms(2) show ?thesis by (auto simp: pat_fits_def)
next
  case True
  let ?s = "sec_at pkt" and ?e = "entries_end pkt"
  have s8: "?s + 8 \<le> 188" using True by (simp add: has_pat_def)
  have e: "?e + 4 \<le> 188" "?e \<le> length pkt" using assms(2) by (auto simp: entries_end_def)
  obtain buf where b: "remap_pat_entries m pkt (?s + 8) ?e = Some buf" "length buf = 188"
      "\<forall>i. i < ?s + 8 \<or> ?e \<le> i \<longrightarrow> buf ! i = pkt ! i"
      "pat_entries buf (?s + 8) ?e = map_option (moved_programs m) (pat_entries pkt (?s + 8) ?e)"
    using remap_pat_entries_val [OF assms(1) e(2), of "?s + 8"] assms(2) by auto
  define crc where "crc = to_be_bytes32 (mpeg2_crc32 (take (?e - ?s) (drop ?s buf)))"
  define q where "q = (if ?s \<le> ?e then take ?e buf @ crc @ drop (?e + 4) buf else buf)"
  have lc: "length crc = 4" by (simp add: crc_def to_be_bytes32_def)
  have lq: "length q = 188" using b(2) lc e by (simp add: q_def)
  have lo: "q ! i = buf ! i" if "i < ?e \<or> \<not> ?s \<le> ?e" for i
    using that b(2) e by (auto simp: q_def nth_append)
  have "slice buf ?s ?e = Some (take (?e - ?s) (drop ?s buf))" if "?s \<le> ?e"
    using that b(2) e by simp
  moreover have "put_slice buf ?e (?e + 4) crc = Some (take ?e buf @ crc @ drop (?e + 4) buf)"
    using b(2) e lc by simp
  moreover have "min (?s + 3 + len12 (pkt ! Suc ?s) (pkt ! Suc (Suc ?s))) 188 - 4 = ?e"
    by (simp add: entries_end_def sec_len_def)
  ultimately have "emit_pat m pkt out = Some (out @ q)"
    using True assms s8 b(1) e(1)
    by (simp add: emit_pat_def any_mapped_val rm_section_val q_def crc_def Let_def del: put_slice_in slice_in)
  moreover have "take 4 q = take 4 pkt"
  proof (intro nth_take_lemma allI impI)
    fix i :: nat assume "i < 4"
    with off_bounds(2) [of pkt] have "i < ?s" by linarith
    then show "q ! i = pkt ! i" using lo [of i] b(3) by (cases "?s \<le> ?e") auto
  qed (use lq assms(2) in auto)
  moreover have "parse_pat_programs q = map_option (moved_programs m) (parse_pat_programs pkt) \<and>
      verify_psi_crc q ?s = Some True \<and> take (?s + 8) q = take (?s + 8) pkt" if f: "pat_fits pkt"
  proof -
    have ee: "?e + 4 = ?s + 3 + sec_len pkt" "?s + 8 \<le> ?e" using f by (auto simp: pat_fits_def entries_end_def)
    then have h: "\<forall>i < ?s + 8. q ! i = pkt ! i" using lo b(3) by simp
    note same = same_section [OF assms(2) lq _ h]
    have c: "has_pat pkt" "pkt ! 1 AND 0x40 \<noteq> 0" using f by (auto simp: pat_fits_def)
    have "q ! 1 = pkt ! 1" using h by simp
    then have "parse_pat_programs q = pat_entries q (?s + 8) ?e"
      using same(1,2,4) c by (simp add: parse_pat_val lq)
    also have "\<dots> = pat_entries buf (?s + 8) ?e"
      by (rule pat_entries_cong) (use lq b(2) lo e(1) in auto)
    finally have parse: "parse_pat_programs q = map_option (moved_programs m) (parse_pat_programs pkt)"
      using b(4) c assms(2) by (simp add: parse_pat_val)
    have sec: "take (3 + sec_len pkt) (drop ?s q) = take (?e - ?s) (drop ?s buf) @ crc"
    proof -
      have q: "q = take ?e buf @ crc @ drop (?e + 4) buf" using ee(2) by (simp add: q_def)
      have "drop ?s q = take (?e - ?s) (drop ?s buf) @ crc @ drop (?e + 4) buf"
        unfolding q using ee(2) b(2) e(1) by (simp add: drop_take)
      moreover have "3 + sec_len pkt = (?e - ?s) + 4" "length (take (?e - ?s) (drop ?s buf)) = ?e - ?s"
        using ee b(2) e(1) by auto
      ultimately show ?thesis using lc by simp
    qed
    have "len12 (q ! (?s + 1)) (q ! (?s + 2)) = sec_len pkt" using h by (simp add: sec_len_def)
    then have "verify_psi_crc q ?s = Some True"
      using lq s8 ee e(1) sec by (simp add: verify_psi_crc_def crc_def crc_appended)
    moreover have "take (?s + 8) q = take (?s + 8) pkt"
      by (rule nth_take_lemma) (use h lq s8 assms(2) in auto)
    ultimately show ?thesis using parse by blast
  qed
  ultimately show ?thesis using True lq by blast
qed

section \<open>The sections of a unit\<close>

definition moved_section :: "pid_remapper \<Rightarrow> bytes \<Rightarrow> bytes" where
  "moved_section m sec = (case remap_pmt_section m sec of Some (Some new) \<Rightarrow> new | _ \<Rightarrow> sec)"

text \<open>A PMT says the targets of what it said; any other section stays as it is.\<close>

definition section_moved :: "pid_remapper \<Rightarrow> bytes \<Rightarrow> bytes \<Rightarrow> bool" where
  "section_moved m sec sec' \<longleftrightarrow>
     (case parse_pmt sec of Some (Some v) \<Rightarrow> moved_view m sec v sec' | _ \<Rightarrow> sec' = sec)"

lemma moved_section_val:
  assumes "remap_ok m"
  shows "(\<exists>r. remap_pmt_section m sec = Some r \<and> moved_section m sec = (case r of None \<Rightarrow> sec | Some new \<Rightarrow> new)) \<and>
     section_moved m sec (moved_section m sec) \<and> (moved_section m sec \<noteq> sec \<longrightarrow> mpeg2_crc32 (moved_section m sec) = 0)"
proof -
  obtain r where r: "parse_pmt sec = Some r" using parse_pmt_sound [of sec] by blast
  show ?thesis
  proof (cases r)
    case None
    then have "remap_pmt_section m sec = Some None" using r by (simp add: remap_pmt_section_def)
    with r None show ?thesis by (auto simp: moved_section_def section_moved_def)
  next
    case (Some v)
    with r have p: "parse_pmt sec = Some (Some v)" by simp
    obtain n where n: "remap_pmt_section m sec = Some n" "moved_view m sec v (case n of None \<Rightarrow> sec | Some new \<Rightarrow> new)"
        "\<forall>new. n = Some new \<longrightarrow> mpeg2_crc32 new = 0"
      using remap_pmt_section_val [OF assms p] by blast
    have "moved_section m sec = (case n of None \<Rightarrow> sec | Some new \<Rightarrow> new)" by (simp add: moved_section_def n(1))
    with n p show ?thesis by (auto simp: section_moved_def split: option.splits)
  qed
qed

lemma moved_section_nonempty:
  assumes "remap_ok m" "sec \<noteq> []"
  shows "moved_section m sec \<noteq> []"
proof -
  have "16 \<le> length s" if "parse_pmt s = Some (Some v)" for s v using parse_pmt_sound [of s] that by auto
  then have "sec' \<noteq> []" if "moved_view m sec v sec'" for v sec'
    using that by (fastforce simp: moved_view_def)
  then show ?thesis
    using moved_section_val [OF assms(1), of sec] assms(2) by (auto simp: section_moved_def split: option.splits)
qed

lemma remap_unit_section_val:
  assumes "remap_ok m" "i < length (pu_sections u)"
  shows "remap_unit_section m u i =
     Some (if moved_section m (pu_sections u ! i) = pu_sections u ! i then u
           else u\<lparr>pu_sections := (pu_sections u)[i := moved_section m (pu_sections u ! i)], pu_changed := True\<rparr>)"
proof -
  obtain r where "remap_pmt_section m (pu_sections u ! i) = Some r"
      "moved_section m (pu_sections u ! i) = (case r of None \<Rightarrow> pu_sections u ! i | Some new \<Rightarrow> new)"
    using moved_section_val [OF assms(1), of "pu_sections u ! i"] by blast
  then show ?thesis
    using assms(2) by (cases r) (auto simp: remap_unit_section_def replace_section_def)
qed

lemma fold_sections:
  assumes "remap_ok m" "distinct is" "\<forall>i\<in>set is. i < length (pu_sections u)"
  shows "\<exists>u'. foldl_panics (remap_unit_section m) u is = Some u' \<and> pu_packets u' = pu_packets u \<and>
     pu_af_only u' = pu_af_only u \<and> length (pu_sections u') = length (pu_sections u) \<and>
     (\<forall>j < length (pu_sections u). pu_sections u' ! j =
        (if j \<in> set is then moved_section m (pu_sections u ! j) else pu_sections u ! j)) \<and>
     (pu_changed u' \<longleftrightarrow> pu_changed u \<or> pu_sections u' \<noteq> pu_sections u)"
  using assms(2,3)
proof (induction "is" arbitrary: u)
  case (Cons i ks)
  let ?new = "moved_section m (pu_sections u ! i)"
  define u1 where "u1 = (if ?new = pu_sections u ! i then u
      else u\<lparr>pu_sections := (pu_sections u)[i := ?new], pu_changed := True\<rparr>)"
  have i: "i < length (pu_sections u)" "i \<notin> set ks" using Cons.prems by auto
  have s1: "pu_sections u1 = (pu_sections u)[i := ?new]" "pu_packets u1 = pu_packets u" "pu_af_only u1 = pu_af_only u"
      "pu_changed u1 \<longleftrightarrow> pu_changed u \<or> ?new \<noteq> pu_sections u ! i"
    by (auto simp: u1_def)
  have l1: "\<forall>k\<in>set ks. k < length (pu_sections u1)" using Cons.prems s1(1) by simp
  obtain u' where u': "foldl_panics (remap_unit_section m) u1 ks = Some u'" "pu_packets u' = pu_packets u1"
      "pu_af_only u' = pu_af_only u1" "length (pu_sections u') = length (pu_sections u1)"
      "\<forall>j < length (pu_sections u1). pu_sections u' ! j =
        (if j \<in> set ks then moved_section m (pu_sections u1 ! j) else pu_sections u1 ! j)"
      "pu_changed u' \<longleftrightarrow> pu_changed u1 \<or> pu_sections u' \<noteq> pu_sections u1"
    using Cons.IH [OF _ l1] Cons.prems(1) by auto
  have "foldl_panics (remap_unit_section m) u (i # ks) = Some u'"
    using remap_unit_section_val [OF assms(1) i(1)] u'(1) by (simp add: u1_def)
  moreover have el: "pu_sections u' ! j = (if j \<in> set (i # ks) then moved_section m (pu_sections u ! j) else pu_sections u ! j)"
    if "j < length (pu_sections u)" for j
    using that u'(5) s1(1) i by (cases "j = i") auto
  moreover have "pu_changed u' \<longleftrightarrow> pu_changed u \<or> pu_sections u' \<noteq> pu_sections u"
  proof (cases "?new = pu_sections u ! i")
    case True
    then have "pu_sections u1 = pu_sections u" using s1(1) by simp
    then show ?thesis using u'(6) s1(4) True by simp
  next
    case False
    then have "pu_sections u' ! i \<noteq> pu_sections u ! i" using el i(1) by simp
    then show ?thesis using False s1(4) u'(6) by auto
  qed
  ultimately show ?case using u' s1 by simp
qed simp

lemma remap_unit_val:
  assumes "remap_ok m" "\<not> pu_changed u"
  shows "\<exists>u'. remap_unit m u = Some u' \<and> pu_packets u' = pu_packets u \<and> pu_af_only u' = pu_af_only u \<and>
     pu_sections u' = map (moved_section m) (pu_sections u) \<and> (pu_changed u' \<longleftrightarrow> pu_sections u' \<noteq> pu_sections u)"
proof -
  obtain u' where u': "remap_unit m u = Some u'" "pu_packets u' = pu_packets u" "pu_af_only u' = pu_af_only u"
      "length (pu_sections u') = length (pu_sections u)"
      "\<forall>j < length (pu_sections u). pu_sections u' ! j = moved_section m (pu_sections u ! j)"
      "pu_changed u' \<longleftrightarrow> pu_sections u' \<noteq> pu_sections u"
    using fold_sections [OF assms(1), of "[0..<length (pu_sections u)]" u] assms(2) by (auto simp: remap_unit_def)
  have "pu_sections u' = map (moved_section m) (pu_sections u)"
    by (rule nth_equalityI) (use u'(4,5) in auto)
  with u' show ?thesis by blast
qed

lemma remapped_unit_ok:
  assumes "remap_ok m" "unit_ok u" "\<not> pu_changed u"
  shows "\<exists>u'. remap_unit m u = Some u' \<and> unit_ok u'"
  using remap_unit_val [OF assms(1,3)] assms(2) moved_section_nonempty [OF assms(1)]
  by (auto simp: unit_ok_def)

section \<open>Packets\<close>

definition rm_inv :: "pid_remapper \<Rightarrow> bool" where
  "rm_inv m \<longleftrightarrow> remap_ok m \<and> (\<forall>pid s. rm_pmt_stages m pid = Some s \<longrightarrow> stage_inv s \<and> sections_ok s)"

lemma move_pid_all:
  assumes "remap_ok m" "\<forall>p\<in>set ps. length p = 188"
  shows "\<exists>qs. map_panics (move_pid m pid) ps = Some qs \<and>
     (\<forall>q\<in>set qs. length q = 188 \<and> (mapped m pid \<longrightarrow> ts_pid q = Some (tgt m pid AND 0x1FFF)))"
  using assms(2)
proof (induction ps)
  case (Cons p ps)
  have l: "3 \<le> length p" using Cons.prems by simp
  obtain q where q: "move_pid m pid p = Some q" "length q = 188" "mapped m pid \<longrightarrow> ts_pid q = Some (tgt m pid AND 0x1FFF)"
  proof (cases "mapped m pid")
    case True
    obtain q where "write_pid p (tgt m pid) = Some q" using write_pid_val [OF l] by blast
    with True that written_pid [OF l this] Cons.prems show ?thesis
      by (simp add: move_pid_def lookup_val [OF assms(1)])
  next
    case False
    with that Cons.prems show ?thesis by (simp add: move_pid_def lookup_val [OF assms(1)])
  qed
  with Cons show ?case by auto
qed simp

lemma emit_pmt_val:
  assumes "rm_inv m" "length pkt = 188" "pkt ! 0 = TS_SYNC_BYTE"
  shows "\<exists>m' qs. emit_pmt m pid pkt out = Some (m', out @ concat qs) \<and> rm_inv m' \<and> rm_remap m' = rm_remap m \<and>
     rm_pmt_pids m' = rm_pmt_pids m \<and>
     (\<forall>q\<in>set qs. length q = 188 \<and> (mapped m pid \<longrightarrow> ts_pid q = Some (tgt m pid AND 0x1FFF)))"
proof -
  define st where "st = (case rm_pmt_stages m pid of None \<Rightarrow> ps_new | Some s \<Rightarrow> s)"
  have ok: "remap_ok m" using assms(1) by (simp add: rm_inv_def)
  have "sections_ok ps_new" by (simp add: sections_ok_def ps_new_def)
  then have st: "stage_inv st" "sections_ok st"
    using assms(1) ps_new_inv by (auto simp: rm_inv_def st_def split: option.splits)
  obtain r s1 o1 where p: "ps_push st pkt [] = Some (r, s1, o1)" "stage_inv s1" "sections_ok s1"
      "\<forall>u. r = Some u \<longrightarrow> unit_ok u \<and> \<not> pu_changed u"
    using push_unit_ok [OF st, of pkt "[]"] assms(2,3) by auto
  obtain s2 o2 where e: "(case r of None \<Rightarrow> Some (s1, o1)
        | Some u \<Rightarrow> do { u \<leftarrow> remap_unit m u; ps_emit s1 u o1 }) =
      Some (s2, o2)" "stage_inv s2 \<and> sections_ok s2"
  proof (cases r)
    case None
    then show ?thesis using that p by simp
  next
    case (Some u)
    then obtain u' where u': "remap_unit m u = Some u'" "unit_ok u'"
      using remapped_unit_ok [OF ok] p(4) by blast
    obtain s2 q where "ps_emit s1 u' o1 = Some (s2, o1 @ q)" "emitted s1 s2" using emit_total [OF u'(2)] by blast
    then show ?thesis
      using that [of s2 "o1 @ q"] Some u'(1) emitted_inv p(2,3) by simp
  qed
  have "\<forall>p\<in>set (ts_chunks o2). length p = 188" using length_ts_chunks by simp
  then obtain qs where qs: "map_panics (move_pid m pid) (ts_chunks o2) = Some qs"
      "\<forall>q\<in>set qs. length q = 188 \<and> (mapped m pid \<longrightarrow> ts_pid q = Some (tgt m pid AND 0x1FFF))"
    using move_pid_all [OF ok] by blast
  let ?m = "m\<lparr>rm_pmt_stages := (rm_pmt_stages m)(pid \<mapsto> s2)\<rparr>"
  have "emit_pmt m pid pkt out = Some (?m, out @ concat qs)"
    unfolding emit_pmt_def Let_def st_def [symmetric] using p(1) e(1) qs(1) by simp
  moreover have "rm_inv ?m" using assms(1) e(2) by (auto simp: rm_inv_def remap_ok_def)
  ultimately show ?thesis using qs(2) by (intro exI [of _ ?m] exI [of _ qs]) simp
qed

lemma observe_pat_val:
  assumes "rm_inv m" "length pkt = 188"
  shows "\<exists>m'. observe_pat m pkt = Some m' \<and> rm_inv m' \<and> rm_remap m' = rm_remap m \<and>
     (m' = m \<or> (\<exists>ps. parse_pat_programs pkt = Some ps \<and> rm_pmt_pids m' = snd ` set ps))"
proof (cases "has_pat pkt")
  case False
  then show ?thesis using assms by (simp add: observe_pat_def rm_section_val)
next
  case True
  then have i: "sec_at pkt + 5 < length pkt" using assms(2) by (simp add: has_pat_def)
  obtain ps where ps: "parse_pat_programs pkt = Some ps"
    using no_panic_parse_pat [of pkt] assms(2) by (auto dest: no_panicE)
  show ?thesis
  proof (cases "rm_last_pat_version m = Some (drop_bit 1 (pkt ! (sec_at pkt + 5)) AND 0x1F)")
    case same: True
    with True i assms show ?thesis by (simp add: observe_pat_def rm_section_val Let_def)
  next
    case False
    let ?m = "m\<lparr>rm_last_pat_version := Some (drop_bit 1 (pkt ! (sec_at pkt + 5)) AND 0x1F),
        rm_pmt_pids := set (map snd ps), rm_pmt_stages := (\<lambda>pid. if pid \<in> set (map snd ps) then rm_pmt_stages m pid else None)\<rparr>"
    have "observe_pat m pkt = Some ?m"
      using True False i assms ps by (simp add: observe_pat_def rm_section_val Let_def)
    moreover have "rm_inv ?m" using assms(1) by (auto simp: rm_inv_def remap_ok_def)
    ultimately show ?thesis using ps by (intro exI [of _ ?m]) simp
  qed
qed

text \<open>One packet and what leaves for it. \<open>m\<close> is the remapper before the packet, \<open>m'\<close> the one
  after it.\<close>

definition pat_moved :: "pid_remapper \<Rightarrow> pid_remapper \<Rightarrow> bytes \<Rightarrow> bytes \<Rightarrow> bool" where
  "pat_moved m m' pkt q \<longleftrightarrow>
     take 4 q = take 4 pkt \<and>
     (pat_fits pkt \<longrightarrow>
        (\<exists>ps. parse_pat_programs pkt = Some ps \<and>
           (snd ` set ps \<subseteq> rm_pmt_pids m' \<longrightarrow>
              parse_pat_programs q = Some (moved_programs m ps) \<and>
              (q \<noteq> pkt \<longrightarrow> verify_psi_crc q (sec_at pkt) = Some True))))"

definition remapped :: "pid_remapper \<Rightarrow> bytes \<Rightarrow> bytes list \<Rightarrow> pid_remapper \<Rightarrow> bool" where
  "remapped m pkt qs m' \<longleftrightarrow>
     (\<forall>q\<in>set qs. length q = 188) \<and>
     (let pid = pid13 (pkt ! 1) (pkt ! 2) in
      if pkt ! 0 \<noteq> TS_SYNC_BYTE then qs = []
      else if pid = PAT_PID then \<exists>q. qs = [q] \<and> pat_moved m m' pkt q
      else if pid \<in> rm_pmt_pids m then mapped m pid \<longrightarrow> (\<forall>q\<in>set qs. ts_pid q = Some (tgt m pid))
      else \<exists>q. qs = [q] \<and> ts_pid q = Some (tgt m pid) \<and> q ! 1 AND 0xE0 = pkt ! 1 AND 0xE0 \<and>
             (\<forall>i. i \<noteq> 1 \<and> i \<noteq> 2 \<longrightarrow> q ! i = pkt ! i))"

lemma unmapped_programs: "\<forall>p\<in>snd ` set ps. \<not> mapped m p \<Longrightarrow> moved_programs m ps = ps"
  by (simp add: moved_programs_def tgt_def map_idI)

lemma tgt_cong: "rm_remap m' = rm_remap m \<Longrightarrow> tgt m' = tgt m \<and> mapped m' = mapped m"
  by (simp add: tgt_def mapped_def fun_eq_iff)

lemma rm_pat_val:
  assumes "rm_inv m" "length pkt = 188"
  shows "\<exists>m' q. (do { pusi \<leftarrow> ts_pusi pkt; m \<leftarrow> (if pusi then observe_pat m pkt else Some m);
       out \<leftarrow> emit_pat m pkt out; Some (m, out) }) = Some (m', out @ q) \<and> rm_inv m' \<and> rm_remap m' = rm_remap m \<and>
     length q = 188 \<and> pat_moved m m' pkt q"
proof -
  obtain m' where m': "(if pkt ! 1 AND 0x40 \<noteq> 0 then observe_pat m pkt else Some m) = Some m'" "rm_inv m'"
      "rm_remap m' = rm_remap m"
    using observe_pat_val [OF assms] assms(1) by (cases "pkt ! 1 AND 0x40 = 0") auto
  have ok: "remap_ok m'" using m'(2) by (simp add: rm_inv_def)
  note tg = tgt_cong [OF m'(3)]
  obtain q where q: "emit_pat m' pkt out = Some (out @ q)" "length q = 188" "take 4 q = take 4 pkt"
      "(\<forall>pid\<in>rm_pmt_pids m'. \<not> mapped m' pid) \<longrightarrow> q = pkt"
      "(\<exists>pid\<in>rm_pmt_pids m'. mapped m' pid) \<and> pat_fits pkt \<longrightarrow>
        parse_pat_programs q = map_option (moved_programs m') (parse_pat_programs pkt) \<and>
        verify_psi_crc q (sec_at pkt) = Some True"
    using emit_pat_val [OF ok assms(2), of out] by blast
  obtain ps where ps: "parse_pat_programs pkt = Some ps"
    using no_panic_parse_pat [of pkt] assms(2) by (auto dest: no_panicE)
  have mv: "moved_programs m' = moved_programs m" using tg by (simp add: moved_programs_def fun_eq_iff)
  have "pat_moved m m' pkt q"
  proof (cases "\<exists>pid\<in>rm_pmt_pids m'. mapped m' pid")
    case True
    then show ?thesis using q(3,5) ps mv by (auto simp: pat_moved_def)
  next
    case False
    then have "q = pkt" using q(4) by blast
    moreover have "moved_programs m ps = ps" if "snd ` set ps \<subseteq> rm_pmt_pids m'"
      by (rule unmapped_programs) (use that False tg in auto)
    ultimately show ?thesis using ps by (auto simp: pat_moved_def)
  qed
  then show ?thesis using m' q(1,2) assms(2) by (auto simp: ts_vals)
qed

lemma rm_packet_val:
  assumes "rm_inv m" "length pkt = 188"
  shows "\<exists>m' qs. rm_packet m pkt out = Some (m', out @ concat qs) \<and> rm_inv m' \<and> rm_remap m' = rm_remap m \<and>
     remapped m pkt qs m'"
proof -
  let ?pid = "pid13 (pkt ! 1) (pkt ! 2)"
  have ok: "remap_ok m" using assms(1) by (simp add: rm_inv_def)
  have i: "idx pkt 0 = Some (pkt ! 0)" "ts_pid pkt = Some ?pid" using assms(2) by (auto simp: idx_def ts_vals)
  have tb: "tgt m ?pid AND 0x1FFF = tgt m ?pid" by (rule tgt_bits [OF ok pid13_bound])
  consider "pkt ! 0 \<noteq> TS_SYNC_BYTE" | "pkt ! 0 = TS_SYNC_BYTE" "?pid = PAT_PID"
    | "pkt ! 0 = TS_SYNC_BYTE" "?pid \<noteq> PAT_PID" "?pid \<in> rm_pmt_pids m"
    | "pkt ! 0 = TS_SYNC_BYTE" "?pid \<noteq> PAT_PID" "?pid \<notin> rm_pmt_pids m" by blast
  then show ?thesis
  proof cases
    case 1
    then show ?thesis using assms(1) i
      by (intro exI [of _ m] exI [of _ "[]"]) (simp add: rm_packet_def remapped_def)
  next
    case 2
    obtain m' q where r: "(do { pusi \<leftarrow> ts_pusi pkt; m \<leftarrow> (if pusi then observe_pat m pkt else Some m);
         out \<leftarrow> emit_pat m pkt out; Some (m, out) }) = Some (m', out @ q)" "rm_inv m'" "rm_remap m' = rm_remap m"
        "length q = 188" "pat_moved m m' pkt q"
      using rm_pat_val [OF assms] by blast
    have "rm_packet m pkt out = Some (m', out @ concat [q])" using 2 i r(1) by (simp add: rm_packet_def)
    moreover have "remapped m pkt [q] m'" using 2 r(4,5) by (simp add: remapped_def)
    ultimately show ?thesis using r(2,3) by blast
  next
    case 3
    then have e: "rm_packet m pkt out = emit_pmt m ?pid pkt out" using i by (simp add: rm_packet_def)
    obtain m' qs where r: "emit_pmt m ?pid pkt out = Some (m', out @ concat qs)" "rm_inv m'" "rm_remap m' = rm_remap m"
        "\<forall>q\<in>set qs. length q = 188 \<and> (mapped m ?pid \<longrightarrow> ts_pid q = Some (tgt m ?pid AND 0x1FFF))"
      using emit_pmt_val [OF assms 3(1), of ?pid out] by blast
    have "remapped m pkt qs m'" using 3 r(4) tb by (simp add: remapped_def Let_def)
    with e r show ?thesis by auto
  next
    case 4
    show ?thesis
    proof (cases "mapped m ?pid")
      case True
      have l3: "3 \<le> length pkt" using assms(2) by simp
      obtain q where q: "write_pid pkt (tgt m ?pid) = Some q" using write_pid_val [OF l3] by blast
      have "rm_packet m pkt out = Some (m, out @ concat [q])"
        using 4 i q True by (simp add: rm_packet_def lookup_val [OF ok])
      moreover have "remapped m pkt [q] m"
        using 4 written_pid [OF l3 q] tb assms(2) by (simp add: remapped_def)
      ultimately show ?thesis using assms(1) by blast
    next
      case False
      have "rm_packet m pkt out = Some (m, out @ concat [pkt])"
        using 4 i False by (simp add: rm_packet_def lookup_val [OF ok])
      moreover have "remapped m pkt [pkt] m"
        using 4 False i(2) assms(2) by (simp add: remapped_def tgt_def)
      ultimately show ?thesis using assms(1) by blast
    qed
  qed
qed

section \<open>Streams\<close>

lemma rm_loop_val:
  assumes "rm_inv m" "\<forall>p\<in>set pkts. length p = 188"
  shows "\<exists>ms qss. rm_loop m pkts out = Some (last (m # ms), out @ concat (concat qss)) \<and> rm_inv (last (m # ms)) \<and>
     length ms = length pkts \<and> length qss = length pkts \<and>
     (\<forall>i < length pkts. rm_remap (ms ! i) = rm_remap m \<and> remapped ((m # ms) ! i) (pkts ! i) (qss ! i) (ms ! i))"
  using assms
proof (induction pkts arbitrary: m out)
  case Nil
  then show ?case by (intro exI [of _ "[]"]) simp
next
  case (Cons p pkts)
  obtain m1 qs where s: "rm_packet m p out = Some (m1, out @ concat qs)" "rm_inv m1" "rm_remap m1 = rm_remap m"
      "remapped m p qs m1"
    using rm_packet_val [OF Cons.prems(1), of p out] Cons.prems(2) by auto
  obtain ms qss where r: "rm_loop m1 pkts (out @ concat qs) = Some (last (m1 # ms), (out @ concat qs) @ concat (concat qss))"
      "rm_inv (last (m1 # ms))" "length ms = length pkts" "length qss = length pkts"
      "\<forall>i < length pkts. rm_remap (ms ! i) = rm_remap m1 \<and> remapped ((m1 # ms) ! i) (pkts ! i) (qss ! i) (ms ! i)"
    using Cons.IH [OF s(2), of "out @ concat qs"] Cons.prems(2) by auto
  have "rm_loop m (p # pkts) out = Some (last (m # m1 # ms), out @ concat (concat (qs # qss)))"
    using s(1) r(1) by simp
  moreover have "rm_remap ((m1 # ms) ! i) = rm_remap m \<and>
      remapped ((m # m1 # ms) ! i) ((p # pkts) ! i) ((qs # qss) ! i) ((m1 # ms) ! i)"
    if "i < length (p # pkts)" for i
    using that s(3,4) r(5) by (cases i) auto
  ultimately show ?case
    using r(2,3,4) by (intro exI [of _ "m1 # ms"] exI [of _ "qs # qss"]) simp
qed

lemma rm_loop_append:
  "rm_loop m (a @ b) out = do { (m, out) \<leftarrow> rm_loop m a out; rm_loop m b out }"
  by (induction a arbitrary: m out) (simp_all add: split_beta Option.bind_assoc)

text \<open>Buffers one after the other, the output collected.\<close>

fun rm_stream :: "pid_remapper \<Rightarrow> bytes list \<Rightarrow> bytes \<Rightarrow> (pid_remapper \<times> bytes) panics" where
  "rm_stream m [] out = Some (m, out)"
| "rm_stream m (buf # bufs) out = do { (m, out) \<leftarrow> rm_process m buf out; rm_stream m bufs out }"

lemma rm_stream_loop: "rm_stream m bufs out = rm_loop m (concat (map ts_chunks bufs)) out"
proof (induction bufs arbitrary: m out)
  case (Cons buf bufs)
  then show ?case by (cases "rm_loop m (ts_chunks buf) out") (auto simp: rm_process_def rm_loop_append)
qed simp

text \<open>The table is the configured map.\<close>

lemma fold_put_nth:
  assumes "foldl_panics (\<lambda>r e. put r (unat (fst e)) (snd e)) r es = Some r'" "distinct (map fst es)"
  shows "(\<forall>e\<in>set es. unat (fst e) < length r \<and> r' ! unat (fst e) = snd e) \<and> length r' = length r \<and>
     (\<forall>i. (\<forall>e\<in>set es. unat (fst e) \<noteq> i) \<longrightarrow> r' ! i = r ! i)"
  using assms
proof (induction es arbitrary: r)
  case (Cons e es)
  then obtain r1 where r1: "put r (unat (fst e)) (snd e) = Some r1"
      "foldl_panics (\<lambda>r e. put r (unat (fst e)) (snd e)) r1 es = Some r'"
    by (auto simp: bind_eq_Some_conv)
  then have p: "unat (fst e) < length r" "r1 = r[unat (fst e) := snd e]" by (auto simp: put_Some_iff)
  have ne: "\<forall>d\<in>set es. unat (fst d) \<noteq> unat (fst e)" 
  proof
    fix d assume "d \<in> set es"
    then have "fst d \<noteq> fst e" using Cons.prems(2) by (auto simp: image_iff)
    then show "unat (fst d) \<noteq> unat (fst e)" by (simp add: word_unat_eq_iff)
  qed
  have "(\<forall>e\<in>set es. unat (fst e) < length r1 \<and> r' ! unat (fst e) = snd e) \<and> length r' = length r1 \<and>
     (\<forall>i. (\<forall>e\<in>set es. unat (fst e) \<noteq> i) \<longrightarrow> r' ! i = r1 ! i)"
    using Cons.IH [OF r1(2)] Cons.prems(2) by simp
  with p ne show ?case by simp
qed simp

lemma masked_small: "unat (p :: u16) < 8192 \<Longrightarrow> p AND 0x1FFF = p"
proof -
  assume "unat p < 8192"
  then have "take_bit 13 (unat p) = unat p" by (simp add: take_bit_nat_eq_self_iff)
  then have "take_bit 13 p = p" by (metis unsigned_take_bit_eq word_unat_eq_iff)
  then show ?thesis by (simp only: low_masks take_bit_eq_mask)
qed

lemma rm_new_tgt:
  assumes "rm_new entries = Some m" "distinct (map fst entries)" "\<forall>e\<in>set entries. snd e AND 0x1FFF = snd e"
  shows "(\<forall>e\<in>set entries. tgt m (fst e) = snd e) \<and>
     (\<forall>pid. pid AND 0x1FFF = pid \<and> pid \<notin> fst ` set entries \<longrightarrow> tgt m pid = pid)"
proof -
  obtain r where r: "foldl_panics (\<lambda>r e. put r (unat (fst e)) (snd e)) (replicate 8192 NO_REMAP) entries = Some r"
      "rm_remap m = r"
    using assms(1) by (auto simp: rm_new_def bind_eq_Some_conv)
  note f = fold_put_nth [OF r(1) assms(2)]
  have "tgt m (fst e) = snd e" if e: "e \<in> set entries" for e
  proof -
    have "fst e AND 0x1FFF = fst e" using f e by (intro masked_small) simp
    moreover have "snd e \<noteq> NO_REMAP" using assms(3) e by (auto simp: NO_REMAP_def)
    ultimately show ?thesis using f e r(2) by (simp add: tgt_def mapped_def)
  qed
  moreover have "tgt m pid = pid" if p: "pid AND 0x1FFF = pid" "pid \<notin> fst ` set entries" for pid
  proof -
    have "unat pid < 8192" using pid_index [of pid] p(1) by simp
    moreover have "\<forall>e\<in>set entries. unat (fst e) \<noteq> unat pid" using p(2) by (metis image_eqI word_unat_eq_iff)
    ultimately have "r ! unat pid = NO_REMAP" using f by simp
    then show ?thesis using p(1) r(2) by (simp add: tgt_def mapped_def)
  qed
  ultimately show ?thesis by blast
qed


text \<open>PID 0x100 moved to 0x200.\<close>

lemma sample_remapper: "\<exists>m. rm_new [(0x100, 0x200)] = Some m \<and> rm_pmt_pids m = {}"
proof -
  have "put (replicate 8192 NO_REMAP) 256 0x200 = Some ((replicate 8192 NO_REMAP)[256 := 0x200])"
    by (rule put_in) (simp only: length_replicate)
  then show ?thesis by (simp add: rm_new_def)
qed


text \<open>Property C10.  PMTs follow the map: in a unit the stage hands out every section is rewritten on its own, the
  source packets stay as templates, and the unit counts as changed exactly when a section differs.
  A PMT section then reads as the same PMT with the PCR PID and the PID of every stream replaced by
  their targets, stream types, descriptors, program number and version kept, and a changed section
  has a valid CRC; any other section stays byte for byte, and the unit can always be emitted.\<close>

theorem pmt_sections_follow_the_map:
  assumes "rm_new entries = Some m" "\<forall>e\<in>set entries. snd e AND 0x1FFF = snd e" "unit_ok u" "\<not> pu_changed u"
  shows "\<exists>u'. remap_unit m u = Some u' \<and> pu_packets u' = pu_packets u \<and> pu_af_only u' = pu_af_only u \<and>
     (pu_changed u' \<longleftrightarrow> pu_sections u' \<noteq> pu_sections u) \<and>
     list_all2 (section_moved m) (pu_sections u) (pu_sections u') \<and>
     list_all2 (\<lambda>sec sec'. sec' \<noteq> sec \<longrightarrow> mpeg2_crc32 sec' = 0) (pu_sections u) (pu_sections u') \<and>
     (\<exists>s' q. ps_emit s u' out = Some (s', out @ q))"
proof -
  have ok: "remap_ok m" using rm_new_ok [OF assms(1,2)] by blast
  obtain u' where u': "remap_unit m u = Some u'" "pu_packets u' = pu_packets u" "pu_af_only u' = pu_af_only u"
      "pu_sections u' = map (moved_section m) (pu_sections u)" "pu_changed u' \<longleftrightarrow> pu_sections u' \<noteq> pu_sections u"
    using remap_unit_val [OF ok assms(4)] by blast
  have "unit_ok u'" using remapped_unit_ok [OF ok assms(3,4)] u'(1) by simp
  then have "\<exists>s' q. ps_emit s u' out = Some (s', out @ q)" using emit_total by blast
  moreover have "list_all2 (section_moved m) (pu_sections u) (pu_sections u')"
    "list_all2 (\<lambda>sec sec'. sec' \<noteq> sec \<longrightarrow> mpeg2_crc32 sec' = 0) (pu_sections u) (pu_sections u')"
    using moved_section_val [OF ok] u'(4) by (auto simp: list_all2_conv_all_nth)
  ultimately show ?thesis using u' by blast
qed

definition sample_unit :: psi_unit where
  "sample_unit = \<lparr>pu_packets = [ts_bytes 0x41 0 (0 # sample_pmt)], pu_af_only = [],
     pu_sections = [sample_pmt], pu_changed = False\<rparr>"

theorem pmt_sections_follow_the_map_witness:
  "\<exists>m u' sec v. rm_new [(0x100, 0x200)] = Some m \<and> remap_unit m sample_unit = Some u' \<and> pu_sections u' = [sec] \<and>
     parse_pmt sec = Some (Some v) \<and> pv_pcr_pid v = 0x200 \<and>
     map (stream_of sec) (pv_es v) = [(0x1B, 0x200, []), (0x06, 0x101, [0x6A, 0x01, 0x00, 0x52, 0x01, 0x05])]"
proof -
  let ?v = "\<lparr>pv_section = sample_pmt, pv_version = 1, pv_pcr_pid = 0x100, pv_program_info = (12, 12),
    pv_es = [\<lparr>es_stream_type = 0x1B, es_pid = 0x100, es_range = (17, 17)\<rparr>,
             \<lparr>es_stream_type = 0x06, es_pid = 0x101, es_range = (22, 28)\<rparr>]\<rparr>"
  have p: "parse_pmt sample_pmt = Some (Some ?v)" by code_simp
  have st: "map (stream_of sample_pmt) (pv_es ?v) =
      [(0x1B, 0x100, []), (0x06, 0x101, [0x6A, 0x01, 0x00, 0x52, 0x01, 0x05])]" by code_simp
  obtain m where m: "rm_new [(0x100, 0x200)] = Some m" using sample_remapper by blast
  have a: "\<forall>e\<in>set [(0x100 :: u16, 0x200 :: u16)]. snd e AND 0x1FFF = snd e" by simp
  have t: "tgt m 0x100 = 0x200" "tgt m 0x101 = 0x101" using rm_new_tgt [OF m _ a] by auto
  have u: "unit_ok sample_unit" "\<not> pu_changed sample_unit"
    by (code_simp, simp add: sample_unit_def)
  obtain u' where u': "remap_unit m sample_unit = Some u'"
      "list_all2 (section_moved m) (pu_sections sample_unit) (pu_sections u')"
    using pmt_sections_follow_the_map [OF m a u] by blast
  then obtain sec where sec: "pu_sections u' = [sec]" "section_moved m sample_pmt sec"
    by (auto simp: sample_unit_def list_all2_Cons1)
  then obtain v where "parse_pmt sec = Some (Some v)" "pv_pcr_pid v = tgt m (pv_pcr_pid ?v)"
      "map (stream_of sec) (pv_es v) = map (moved_stream m) (map (stream_of sample_pmt) (pv_es ?v))"
    using p by (auto simp: section_moved_def moved_view_def)
  then show ?thesis using m u'(1) sec(1) t unfolding st by (auto simp: moved_stream_def)
qed

end
