(* ===== verification/ContinuityFixer.thy ===== *)
theory ContinuityFixer
  imports PsiStage TsAssembler
begin

text \<open>
  The input-switch fixer of \<open>src/src/engine/ts_continuity_fixer.rs\<close>: a cache of the tables of every
  input, the discontinuity indicators a switch or a source jump leaves pending, and the packets a
  switch injects. Identifiers of inputs are strings, a \<open>HashMap\<close> is a map; where the sources
  iterate over one, the order of iteration is an argument. Log lines are left out.
\<close>

datatype process_result = Unchanged | Rewritten bytes

section \<open>The tables of an input\<close>

record input_psi_cache =
  ic_cached_pat :: "bytes option"
  ic_cached_pmts :: "u16 \<rightharpoonup> bytes list"
  ic_pmt_pending :: "u16 \<rightharpoonup> pmt_unit_collector"
  ic_pmt_pids :: "u16 set"

definition ic_new :: input_psi_cache where
  "ic_new = \<lparr>ic_cached_pat = None, ic_cached_pmts = Map.empty, ic_pmt_pending = Map.empty,
     ic_pmt_pids = {}\<rparr>"

definition observe_psi :: "input_psi_cache \<Rightarrow> bytes \<Rightarrow> input_psi_cache panics" where
  "observe_psi c pkt = do {
     pid \<leftarrow> ts_pid pkt;
     pusi \<leftarrow> (if pid = PAT_PID then ts_pusi pkt else Some False);
     if pid = PAT_PID \<and> pusi then do {
       pids \<leftarrow> parse_pat_pmt_pids pkt;
       let keep = (\<lambda>k. k \<in> set pids);
       Some (c\<lparr>ic_cached_pat := Some pkt,
               ic_cached_pmts := (\<lambda>k. if keep k then ic_cached_pmts c k else None),
               ic_pmt_pending := (\<lambda>k. if keep k then ic_pmt_pending c k else None),
               ic_pmt_pids := set pids\<rparr>) }
     else if pid \<in> ic_pmt_pids c then do {
       let collector = (case ic_pmt_pending c pid of None \<Rightarrow> pc_default | Some p \<Rightarrow> p);
       (unit, shown, collector) \<leftarrow> pc_push_packet collector pkt;
       let c = c\<lparr>ic_pmt_pending := (ic_pmt_pending c)(pid \<mapsto> collector)\<rparr>;
       Some (case unit of None \<Rightarrow> c
             | Some u \<Rightarrow> c\<lparr>ic_cached_pmts := (ic_cached_pmts c)(pid \<mapsto> u)\<rparr>) }
     else Some c }"

section \<open>The fixer\<close>

record continuity_fixer =
  cf_input_psi :: "string \<rightharpoonup> input_psi_cache"
  cf_next_psi_version :: u8
  cf_pending_di_on_pcr :: bool
  cf_pending_di_pids :: "(u16 \<times> u64 option) list"

definition PENDING_DI_TIMEOUT_US :: u64 where "PENDING_DI_TIMEOUT_US = 1000000"

definition cf_new :: continuity_fixer where
  "cf_new = \<lparr>cf_input_psi = Map.empty, cf_next_psi_version = 0, cf_pending_di_on_pcr = False,
     cf_pending_di_pids = []\<rparr>"

text \<open>The first entry of the PID gets a fresh timeout, or a new one is pushed at the end.\<close>

fun arm_pid_in :: "u16 \<Rightarrow> (u16 \<times> u64 option) list \<Rightarrow> (u16 \<times> u64 option) list" where
  "arm_pid_in pid [] = [(pid, None)]"
| "arm_pid_in pid ((p, lapses) # xs) =
     (if p = pid then (p, None) # xs else (p, lapses) # arm_pid_in pid xs)"

definition arm_pid :: "continuity_fixer \<Rightarrow> u16 \<Rightarrow> continuity_fixer" where
  "arm_pid f pid = f\<lparr>cf_pending_di_pids := arm_pid_in pid (cf_pending_di_pids f)\<rparr>"

definition signal_source_discontinuity :: "continuity_fixer \<Rightarrow> u16 \<Rightarrow> continuity_fixer" where
  "signal_source_discontinuity f pcr_pid = arm_pid f pcr_pid"

text \<open>\<open>Vec::swap_remove\<close>.\<close>

definition swap_remove :: "'a list \<Rightarrow> nat \<Rightarrow> 'a list" where
  "swap_remove xs i = (if i + 1 = length xs then butlast xs else (butlast xs)[i := last xs])"

text \<open>The answer, and the two pending fields after it.\<close>

definition take_pending_di ::
    "bool \<Rightarrow> (u16 \<times> u64 option) list \<Rightarrow> u16 \<Rightarrow> bool \<times> bool \<times> (u16 \<times> u64 option) list" where
  "take_pending_di on_pcr pids pid =
     (let (targeted, pids) =
        (case position (\<lambda>e. fst e = pid) pids of
           Some i \<Rightarrow> (True, swap_remove pids i)
         | None \<Rightarrow> (False, pids))
      in (on_pcr \<or> targeted, False, pids))"

definition forget_input :: "continuity_fixer \<Rightarrow> string \<Rightarrow> continuity_fixer" where
  "forget_input f input_id = f\<lparr>cf_input_psi := (cf_input_psi f)(input_id := None)\<rparr>"

text \<open>The cache of an input, created on first use.\<close>

definition psi_of :: "continuity_fixer \<Rightarrow> string \<Rightarrow> input_psi_cache" where
  "psi_of f input_id = (case cf_input_psi f input_id of Some psi \<Rightarrow> psi | None \<Rightarrow> ic_new)"

fun observe_all :: "input_psi_cache \<Rightarrow> bytes list \<Rightarrow> input_psi_cache panics" where
  "observe_all psi [] = Some psi"
| "observe_all psi (pkt # pkts) = do {
     sync \<leftarrow> idx pkt 0;
     psi \<leftarrow> (if sync \<noteq> TS_SYNC_BYTE then Some psi else observe_psi psi pkt);
     observe_all psi pkts }"

definition observe_passive ::
    "continuity_fixer \<Rightarrow> string \<Rightarrow> rtp_packet \<Rightarrow> continuity_fixer panics" where
  "observe_passive f input_id packet = do {
     ts_data \<leftarrow> strip_rtp_header (pk_data packet) (pk_is_raw_ts packet);
     psi \<leftarrow> observe_all (psi_of f input_id) (ts_chunks ts_data);
     Some (f\<lparr>cf_input_psi := (cf_input_psi f)(input_id \<mapsto> psi)\<rparr>) }"

section \<open>Switching\<close>

definition note_pcr_pid :: "u16 list \<Rightarrow> bytes \<Rightarrow> u16 list" where
  "note_pcr_pid pids sec =
     (if sec \<noteq> [] \<and> sec ! 0 = 0x02 \<and> length sec \<ge> 16 \<and> mpeg2_crc32 sec = 0 then
        (let pid = be16 (sec ! 8) (sec ! 9) AND 0x1FFF in
         if pid \<noteq> NULL_PID \<and> pid \<notin> set pids then pids @ [pid] else pids)
      else pids)"

fun pcr_pids_unit :: "section_assembler \<Rightarrow> u16 list \<Rightarrow> bytes list \<Rightarrow> u16 list panics" where
  "pcr_pids_unit asm pids [] = Some pids"
| "pcr_pids_unit asm pids (pkt # unit) = do {
     asm \<leftarrow> sa_push_packet asm pkt;
     pcr_pids_unit asm (foldl note_pcr_pid pids (completed asm)) unit }"

definition pcr_pids :: "bytes list list \<Rightarrow> u16 list panics" where
  "pcr_pids units = foldl_panics (pcr_pids_unit sa_new) [] units"

text \<open>An injected packet.\<close>

definition raw_item :: "bytes \<Rightarrow> rtp_packet" where
  "raw_item data = \<lparr>pk_data = data, pk_sequence_number = 0, pk_rtp_timestamp = 0,
     pk_recv_time_us = 0, pk_is_raw_ts = True, pk_upstream_seq = None, pk_upstream_leg_id = None,
     pk_sender_timestamp_us = None\<rparr>"

text \<open>\<open>order\<close> is the order in which the map of the cached PMTs is iterated.\<close>

definition on_switch ::
    "u16 list \<Rightarrow> continuity_fixer \<Rightarrow> string \<Rightarrow> (continuity_fixer \<times> rtp_packet list) panics" where
  "on_switch order f new_input_id =
     (let stamp = (cf_next_psi_version f + 1) AND 0x1F;
          f = f\<lparr>cf_pending_di_on_pcr := True, cf_next_psi_version := stamp\<rparr> in
      case cf_input_psi f new_input_id of None \<Rightarrow> Some (f, [])
      | Some psi \<Rightarrow> do {
          let cached_pmts = List.map_filter (ic_cached_pmts psi) order;
          pids \<leftarrow> pcr_pids cached_pmts;
          let f = foldl arm_pid f pids;
          pat \<leftarrow> (case ic_cached_pat psi of None \<Rightarrow> Some []
                  | Some pat \<Rightarrow> do { pat \<leftarrow> set_psi_version pat stamp; Some [pat] });
          pmts \<leftarrow> map_panics (\<lambda>unit. restamp_pmt_unit unit stamp) cached_pmts;
          Some (f, map raw_item (pat @ concat pmts)) })"

section \<open>The active input\<close>

text \<open>The timeouts of the armed PIDs at \<open>now_us\<close>.\<close>

definition lapse_pending :: "u64 \<Rightarrow> (u16 \<times> u64 option) list \<Rightarrow> (u16 \<times> u64 option) list" where
  "lapse_pending now_us pids =
     filter (\<lambda>e. case snd e of None \<Rightarrow> True | Some at \<Rightarrow> now_us < at)
       (map (\<lambda>e. (fst e, case snd e of None \<Rightarrow> Some (now_us + PENDING_DI_TIMEOUT_US) | Some at \<Rightarrow> Some at)) pids)"

text \<open>The variables of the packet loop.\<close>

record fix_state =
  fx_psi :: input_psi_cache
  fx_on_pcr :: bool
  fx_pids :: "(u16 \<times> u64 option) list"
  fx_out :: "bytes option"

definition mark_di :: "bytes \<Rightarrow> nat \<Rightarrow> bytes option \<Rightarrow> bytes panics" where
  "mark_di data at out = do {
     let buf = (case out of None \<Rightarrow> data | Some b \<Rightarrow> b);
     pkt \<leftarrow> slice buf at (at + TS_PACKET_SIZE);
     (marked, pkt) \<leftarrow> set_discontinuity_indicator pkt;
     put_slice buf at (at + TS_PACKET_SIZE) pkt }"

definition fix_packet :: "bytes \<Rightarrow> nat \<Rightarrow> bytes \<Rightarrow> fix_state \<Rightarrow> fix_state panics" where
  "fix_packet data at pkt x = do {
     sync \<leftarrow> idx pkt 0;
     if sync \<noteq> TS_SYNC_BYTE then Some x
     else do {
       psi \<leftarrow> observe_psi (fx_psi x) pkt;
       let x = x\<lparr>fx_psi := psi\<rparr>;
       pid \<leftarrow> ts_pid pkt;
       pcr \<leftarrow> (if (fx_on_pcr x \<or> fx_pids x \<noteq> []) \<and> pid \<noteq> NULL_PID then extract_pcr pkt else Some None);
       case pcr of None \<Rightarrow> Some x
       | Some _ \<Rightarrow> do {
           let (take, on_pcr, pids) = take_pending_di (fx_on_pcr x) (fx_pids x) pid;
           let x = x\<lparr>fx_on_pcr := on_pcr, fx_pids := pids\<rparr>;
           if take then do {
             buf \<leftarrow> mark_di data at (fx_out x);
             Some (x\<lparr>fx_out := Some buf\<rparr>) }
           else Some x } } }"

fun fix_loop :: "bytes \<Rightarrow> nat \<Rightarrow> bytes list \<Rightarrow> fix_state \<Rightarrow> fix_state panics" where
  "fix_loop data at [] x = Some x"
| "fix_loop data at (pkt # pkts) x = do {
     x \<leftarrow> fix_packet data at pkt x;
     fix_loop data (at + TS_PACKET_SIZE) pkts x }"

definition process_packet_at ::
    "continuity_fixer \<Rightarrow> string \<Rightarrow> rtp_packet \<Rightarrow> u64 \<Rightarrow> (continuity_fixer \<times> process_result) panics" where
  "process_packet_at f input_id packet now_us = do {
     let pids = (if cf_pending_di_pids f \<noteq> [] then lapse_pending now_us (cf_pending_di_pids f)
                 else cf_pending_di_pids f);
     ts_data \<leftarrow> strip_rtp_header (pk_data packet) (pk_is_raw_ts packet);
     let ts_start = length (pk_data packet) - length ts_data;
     x \<leftarrow> fix_loop (pk_data packet) ts_start (ts_chunks ts_data)
           \<lparr>fx_psi = psi_of f input_id, fx_on_pcr = cf_pending_di_on_pcr f, fx_pids = pids, fx_out = None\<rparr>;
     Some (f\<lparr>cf_input_psi := (cf_input_psi f)(input_id \<mapsto> fx_psi x), cf_pending_di_on_pcr := fx_on_pcr x,
             cf_pending_di_pids := fx_pids x\<rparr>,
           case fx_out x of Some buf \<Rightarrow> Rewritten buf | None \<Rightarrow> Unchanged) }"

text \<open>The clock is an argument; it is read only while a PID is armed.\<close>

definition process_packet ::
    "u64 \<Rightarrow> continuity_fixer \<Rightarrow> string \<Rightarrow> rtp_packet \<Rightarrow> (continuity_fixer \<times> process_result) panics" where
  "process_packet clock f input_id packet =
     process_packet_at f input_id packet (if cf_pending_di_pids f = [] then 0 else clock)"

end
