(* ===== verification/FlowFraming.thy ===== *)
theory FlowFraming
  imports ContinuityFixer "HOL-Library.AList"
begin

text \<open>
  The framing of a flow: \<open>FlowFraming\<close> and the framing of a switch's tables
  (\<open>src/src/engine/ts_continuity_fixer.rs\<close>), the bundling of packets (\<open>engine/packet.rs\<close>) and the RTP
  header of the flow (\<open>RtpWrapState\<close> of \<open>engine/output_rtp.rs\<close>). The random sequence number and SSRC a
  header starts with are arguments; the framing of the inputs is an association list.
\<close>

section \<open>The RTP header of the flow\<close>

definition RTP_PT_MP2T :: u8 where "RTP_PT_MP2T = 33"

definition MAX_TS_STEP :: u32 where "MAX_TS_STEP = 10 * 90000"

record rtp_wrap_state =
  rw_seq :: u16
  rw_ssrc :: u32
  rw_last_ts :: u32
  rw_last_src :: "u32 option"
  rw_offset :: u32

definition rw_new :: "u16 \<Rightarrow> u32 \<Rightarrow> rtp_wrap_state" where
  "rw_new seq ssrc = \<lparr>rw_seq = seq, rw_ssrc = ssrc, rw_last_ts = 0, rw_last_src = None, rw_offset = 0\<rparr>"

text \<open>The timestamp on the timeline of the flow.\<close>

definition wrap_timestamp :: "rtp_wrap_state \<Rightarrow> u32 \<Rightarrow> u32 \<times> rtp_wrap_state" where
  "wrap_timestamp w rtp_ts =
     (if rtp_ts = 0 then (rw_last_ts w, w)
      else
        (let w = (case rw_last_src w of None \<Rightarrow> w
                  | Some prev \<Rightarrow>
                      if rtp_ts - prev > MAX_TS_STEP then w\<lparr>rw_offset := rw_last_ts w - rtp_ts\<rparr> else w);
             w = w\<lparr>rw_last_src := Some rtp_ts\<rparr>
         in (rtp_ts + rw_offset w, w)))"

definition build_header :: "rtp_wrap_state \<Rightarrow> u32 \<Rightarrow> bytes \<times> rtp_wrap_state" where
  "build_header w rtp_ts =
     (let (ts, w) = wrap_timestamp w rtp_ts;
          w = w\<lparr>rw_last_ts := ts\<rparr>
      in ([0x80, RTP_PT_MP2T, hi8 (rw_seq w), lo8 (rw_seq w)] @ to_be_bytes32 ts @ to_be_bytes32 (rw_ssrc w),
          w\<lparr>rw_seq := rw_seq w + 1\<rparr>))"

section \<open>Datagrams\<close>

definition TS_PACKETS_PER_ITEM :: nat where "TS_PACKETS_PER_ITEM = 7"

definition EDGE_RTP_TS_PACKETS :: nat where "EDGE_RTP_TS_PACKETS = 6"

text \<open>\<open>slice::chunks\<close>.\<close>

function chunks :: "nat \<Rightarrow> 'a list \<Rightarrow> 'a list list" where
  "chunks n xs = (if xs = [] \<or> n = 0 then [] else take n xs # chunks n (drop n xs))"
  by pat_completeness auto
termination by (relation "measure (\<lambda>(n, xs). length xs)") auto

declare chunks.simps [simp del]

definition bundle_ts_packets :: "bytes list \<Rightarrow> bytes list" where
  "bundle_ts_packets packets =
     (if length packets \<le> 1 then packets else map concat (chunks TS_PACKETS_PER_ITEM packets))"

definition edge_rtp_datagram ::
    "bytes \<Rightarrow> u8 \<Rightarrow> u16 \<Rightarrow> u32 \<Rightarrow> u32 \<Rightarrow> rtp_packet \<Rightarrow> int option \<Rightarrow> rtp_packet" where
  "edge_rtp_datagram ts payload_type seq timestamp ssrc template sender_timestamp_us =
     \<lparr>pk_data = [0x80, payload_type AND 0x7F] @ [hi8 seq, lo8 seq] @ to_be_bytes32 timestamp @
        to_be_bytes32 ssrc @ ts,
      pk_sequence_number = seq, pk_rtp_timestamp = timestamp, pk_recv_time_us = pk_recv_time_us template,
      pk_is_raw_ts = False, pk_upstream_seq = None, pk_upstream_leg_id = None,
      pk_sender_timestamp_us = sender_timestamp_us\<rparr>"

definition frame_switch_psi :: "rtp_packet list \<Rightarrow> rtp_packet \<Rightarrow> rtp_packet list" where
  "frame_switch_psi injected first =
     (if pk_is_raw_ts first \<or> injected = [] then injected
      else
        (let header = pk_data first in
         if length header < RTP_HEADER_MIN_SIZE \<or> drop_bit 6 (header ! 0) \<noteq> 2 then []
         else
           (let payload_type = header ! 1 AND 0x7F;
                seq = be16 (header ! 2) (header ! 3);
                timestamp = be32 (header ! 4) (header ! 5) (header ! 6) (header ! 7);
                ssrc = be32 (header ! 8) (header ! 9) (header ! 10) (header ! 11);
                ts = concat (map pk_data injected);
                cs = chunks (EDGE_RTP_TS_PACKETS * TS_PACKET_SIZE) ts;
                n = of_nat (length cs)
            in map (\<lambda>(chunk, i). edge_rtp_datagram chunk payload_type (seq - (n - of_nat i)) timestamp ssrc
                      first None)
                 (zip cs [0..<length cs]))))"

definition bundle_switch_psi :: "rtp_packet list \<Rightarrow> rtp_packet \<Rightarrow> rtp_packet list" where
  "bundle_switch_psi injected first =
     map (\<lambda>data. \<lparr>pk_data = data, pk_sequence_number = 0, pk_rtp_timestamp = pk_rtp_timestamp first,
             pk_recv_time_us = pk_recv_time_us first, pk_is_raw_ts = True, pk_upstream_seq = None,
             pk_upstream_leg_id = None, pk_sender_timestamp_us = None\<rparr>)
       (bundle_ts_packets (map pk_data injected))"

section \<open>The framing of a flow\<close>

record flow_framing =
  ff_raw_ts :: "bool option"
  ff_inputs :: "(string \<times> bool) list"
  ff_wrap :: rtp_wrap_state

definition ff_new :: "u16 \<Rightarrow> u32 \<Rightarrow> flow_framing" where
  "ff_new seq ssrc = \<lparr>ff_raw_ts = None, ff_inputs = [], ff_wrap = rw_new seq ssrc\<rparr>"

text \<open>A raw datagram of NULL packets alone says nothing about the framing.\<close>

definition null_only :: "rtp_packet \<Rightarrow> bool panics" where
  "null_only pkt = (if pk_is_raw_ts pkt then is_null_ts_only (pk_data pkt) else Some False)"

definition ff_note :: "flow_framing \<Rightarrow> string \<Rightarrow> rtp_packet \<Rightarrow> flow_framing panics" where
  "ff_note f input_id pkt = do {
     null \<leftarrow> null_only pkt;
     Some (if \<not> null \<and> map_of (ff_inputs f) input_id \<noteq> Some (pk_is_raw_ts pkt)
           then f\<lparr>ff_inputs := AList.update input_id (pk_is_raw_ts pkt) (ff_inputs f)\<rparr> else f) }"

definition ff_observe :: "flow_framing \<Rightarrow> string \<Rightarrow> rtp_packet \<Rightarrow> flow_framing panics" where
  "ff_observe f input_id pkt = do {
     f \<leftarrow> ff_note f input_id pkt;
     null \<leftarrow> (if ff_raw_ts f = None then null_only pkt else Some True);
     Some (if ff_raw_ts f = None \<and> \<not> null then f\<lparr>ff_raw_ts := Some (pk_is_raw_ts pkt)\<rparr> else f) }"

definition ff_forget :: "flow_framing \<Rightarrow> string \<Rightarrow> flow_framing" where
  "ff_forget f input_id =
     (let f = f\<lparr>ff_inputs := AList.delete input_id (ff_inputs f)\<rparr> in
      case ff_raw_ts f of None \<Rightarrow> f
      | Some raw \<Rightarrow> if raw \<notin> snd ` set (ff_inputs f) then f\<lparr>ff_raw_ts := None\<rparr> else f)"

definition ff_passes :: "flow_framing \<Rightarrow> rtp_packet \<Rightarrow> bool" where
  "ff_passes f pkt = (case ff_raw_ts f of None \<Rightarrow> True | Some raw \<Rightarrow> raw = pk_is_raw_ts pkt)"

text \<open>The chunks of a raw item, each under the next header; the first one takes the sender
  timestamp.\<close>

fun wrap_chunks ::
    "rtp_packet \<Rightarrow> rtp_wrap_state \<Rightarrow> int option \<Rightarrow> bytes list \<Rightarrow> (rtp_packet list \<times> rtp_wrap_state) panics" where
  "wrap_chunks pkt w sender [] = Some ([], w)"
| "wrap_chunks pkt w sender (chunk # cs) = do {
     let (header, w) = build_header w (pk_rtp_timestamp pkt);
     h1 \<leftarrow> idx header 1; h2 \<leftarrow> idx header 2; h3 \<leftarrow> idx header 3;
     h4 \<leftarrow> idx header 4; h5 \<leftarrow> idx header 5; h6 \<leftarrow> idx header 6; h7 \<leftarrow> idx header 7;
     h8 \<leftarrow> idx header 8; h9 \<leftarrow> idx header 9; h10 \<leftarrow> idx header 10; h11 \<leftarrow> idx header 11;
     (rest, w) \<leftarrow> wrap_chunks pkt w None cs;
     Some (edge_rtp_datagram chunk h1 (be16 h2 h3) (be32 h4 h5 h6 h7) (be32 h8 h9 h10 h11) pkt sender # rest,
           w) }"

text \<open>The packets handed to \<open>emit\<close>, in order.\<close>

definition ff_conform :: "flow_framing \<Rightarrow> rtp_packet \<Rightarrow> (rtp_packet list \<times> flow_framing) panics" where
  "ff_conform f pkt =
     (if ff_raw_ts f = Some True \<and> \<not> pk_is_raw_ts pkt then do {
        ts \<leftarrow> strip_rtp_header (pk_data pkt) (pk_is_raw_ts pkt);
        let start = length (pk_data pkt) - length ts;
        Some (if start < length (pk_data pkt)
              then [pkt\<lparr>pk_data := drop start (pk_data pkt), pk_is_raw_ts := True\<rparr>] else [], f) }
      else if ff_raw_ts f = Some False \<and> pk_is_raw_ts pkt then do {
        (out, w) \<leftarrow> wrap_chunks pkt (ff_wrap f) (pk_sender_timestamp_us pkt)
                     (chunks (TS_PACKETS_PER_ITEM * TS_PACKET_SIZE) (pk_data pkt));
        Some (out, f\<lparr>ff_wrap := w\<rparr>) }
      else Some ([pkt], f))"

end
