(* ===== verification/FixerTask.thy ===== *)
theory FixerTask
  imports FlowFraming
begin

text \<open>
  The task that owns the fixer and the framing of a flow, and the forwarders that feed it
  (\<open>FixerCommand\<close>, \<open>ts_fixer_task\<close>, \<open>fix_active_packet\<close> and \<open>spawn_input_forwarder\<close> of
  \<open>src/src/engine/flow.rs\<close>). One command is one step; the packets handed to the broadcast channel are
  the result of the step. The clock and the iteration order of the cached PMTs are arguments.
\<close>

section \<open>The fixer task\<close>

definition null_ts_packet :: rtp_packet where
  "null_ts_packet =
     raw_item (concat (replicate 7 ([0x47, 0x1F, 0xFF, 0x10] @ replicate 184 0xFF)))"

datatype fixer_command =
    ActivePacket string rtp_packet
  | PassivePacket string rtp_packet
  | Switch string rtp_packet
  | OpaquePacket rtp_packet
  | Keepalive
  | SignalSourceDiscontinuity u16
  | DropInputPsi string

record fixer_task =
  ft_fixer :: continuity_fixer
  ft_framing :: flow_framing
  ft_active_ts :: bool

definition ft_new :: "u16 \<Rightarrow> u32 \<Rightarrow> fixer_task" where
  "ft_new seq ssrc = \<lparr>ft_fixer = cf_new, ft_framing = ff_new seq ssrc, ft_active_ts = True\<rparr>"

definition fix_active_packet ::
    "u64 \<Rightarrow> continuity_fixer \<Rightarrow> string \<Rightarrow> rtp_packet \<Rightarrow> (continuity_fixer \<times> rtp_packet) panics" where
  "fix_active_packet clock fixer input_id pkt = do {
     (fixer, r) \<leftarrow> process_packet clock fixer input_id pkt;
     Some (fixer, case r of Rewritten fixed_data \<Rightarrow> pkt\<lparr>pk_data := fixed_data\<rparr> | Unchanged \<Rightarrow> pkt) }"

text \<open>The packet of the active input, from \<open>fix_active_packet\<close> to the channel.\<close>

definition ft_forward ::
    "u64 \<Rightarrow> fixer_task \<Rightarrow> string \<Rightarrow> rtp_packet \<Rightarrow> (fixer_task \<times> rtp_packet list) panics" where
  "ft_forward clock t input_id pkt = do {
     (fixer, pkt) \<leftarrow> fix_active_packet clock (ft_fixer t) input_id pkt;
     (out, framing) \<leftarrow> ff_conform (ft_framing t) pkt;
     Some (t\<lparr>ft_fixer := fixer, ft_framing := framing\<rparr>, out) }"

fun conform_all :: "flow_framing \<Rightarrow> rtp_packet list \<Rightarrow> (rtp_packet list \<times> flow_framing) panics" where
  "conform_all f [] = Some ([], f)"
| "conform_all f (pkt # pkts) = do {
     (out, f) \<leftarrow> ff_conform f pkt;
     (rest, f) \<leftarrow> conform_all f pkts;
     Some (out @ rest, f) }"

fun ft_step ::
    "u64 \<Rightarrow> u16 list \<Rightarrow> fixer_task \<Rightarrow> fixer_command \<Rightarrow> (fixer_task \<times> rtp_packet list) panics" where
  "ft_step clock order t (ActivePacket input_id pkt) = do {
     framing \<leftarrow> ff_observe (ft_framing t) input_id pkt;
     ft_forward clock (t\<lparr>ft_active_ts := True, ft_framing := framing\<rparr>) input_id pkt }"
| "ft_step clock order t (PassivePacket input_id pkt) = do {
     framing \<leftarrow> ff_note (ft_framing t) input_id pkt;
     fixer \<leftarrow> observe_passive (ft_fixer t) input_id pkt;
     Some (t\<lparr>ft_framing := framing, ft_fixer := fixer\<rparr>, []) }"
| "ft_step clock order t (Switch input_id pkt) = do {
     framing \<leftarrow> ff_observe (ft_framing t) input_id pkt;
     (fixer, injected) \<leftarrow> on_switch order (ft_fixer t) input_id;
     let injected = (if ff_passes framing pkt then frame_switch_psi injected pkt
                     else bundle_switch_psi injected pkt);
     (psi, framing) \<leftarrow> conform_all framing injected;
     (t, out) \<leftarrow> ft_forward clock \<lparr>ft_fixer = fixer, ft_framing = framing, ft_active_ts = True\<rparr> input_id pkt;
     Some (t, psi @ out) }"
| "ft_step clock order t (OpaquePacket pkt) = Some (t\<lparr>ft_active_ts := False\<rparr>, [pkt])"
| "ft_step clock order t Keepalive = Some (t, [null_ts_packet])"
| "ft_step clock order t (SignalSourceDiscontinuity pcr_pid) =
     Some (if ft_active_ts t then t\<lparr>ft_fixer := signal_source_discontinuity (ft_fixer t) pcr_pid\<rparr> else t, [])"
| "ft_step clock order t (DropInputPsi input_id) =
     Some (t\<lparr>ft_fixer := forget_input (ft_fixer t) input_id, ft_framing := ff_forget (ft_framing t) input_id\<rparr>, [])"

section \<open>The forwarder of an input\<close>

text \<open>\<open>fw_idr\<close> is the flag shared with the encoder of the input; the counters of refused commands are
  one per kind.\<close>

record forwarder =
  fw_input_id :: string
  fw_ts_carrier :: bool
  fw_was_active :: bool
  fw_idr :: bool
  fw_bytes :: u64
  fw_packets :: u64

datatype refused = ActiveFull | SwitchFull | PassiveFull | KeepaliveFull

text \<open>A packet of the input arrives while \<open>active\<close> is the active input and the queue has room or
  not: the command the queue takes, and the refusal that is counted.\<close>

definition fw_packet ::
    "forwarder \<Rightarrow> string \<Rightarrow> bool \<Rightarrow> rtp_packet \<Rightarrow> forwarder \<times> fixer_command option \<times> refused option" where
  "fw_packet w active room pkt =
     (let w = w\<lparr>fw_bytes := fw_bytes w + of_nat (length (pk_data pkt)), fw_packets := fw_packets w + 1\<rparr>;
          is_active = (active = fw_input_id w);
          became_active = (is_active \<and> \<not> fw_was_active w);
          w = w\<lparr>fw_was_active := is_active\<rparr>;
          w = (if became_active then w\<lparr>fw_idr := True\<rparr> else w) in
      if is_active then
        (let (cmd, full) =
           (if \<not> fw_ts_carrier w then (OpaquePacket pkt, ActiveFull)
            else if became_active then (Switch (fw_input_id w) pkt, SwitchFull)
            else (ActivePacket (fw_input_id w) pkt, ActiveFull))
         in if room then (w, Some cmd, None)
            else (if became_active then w\<lparr>fw_was_active := False\<rparr> else w, None, Some full))
      else if fw_ts_carrier w then
        if room then (w, Some (PassivePacket (fw_input_id w) pkt), None) else (w, None, Some PassiveFull)
      else (w, None, None))"

definition fw_keepalive :: "forwarder \<Rightarrow> string \<Rightarrow> bool \<Rightarrow> fixer_command option \<times> refused option" where
  "fw_keepalive w active room =
     (if fw_ts_carrier w \<and> active = fw_input_id w then
        if room then (Some Keepalive, None) else (None, Some KeepaliveFull)
      else (None, None))"

end
