(* ===== verification/FlowFramingCorrect.thy ===== *)
theory FlowFramingCorrect
  imports FlowFraming TsPsiCorrect
begin

text \<open>
  What the framing of a flow promises: a converted datagram carries the transport packets it was
  made of, in order, under one consistent RTP stream.
\<close>

section \<open>Chunks\<close>

lemma concat_chunks: "0 < n \<Longrightarrow> concat (chunks n xs) = xs"
proof (induction n xs rule: chunks.induct)
  case (1 n xs)
  then show ?case by (cases "xs = []") (simp_all add: chunks.simps [of n xs] chunks.simps [of n "[]"])
qed

lemma chunks_sizes: "c \<in> set (chunks n xs) \<Longrightarrow> c \<noteq> [] \<and> length c \<le> n"
proof (induction n xs rule: chunks.induct)
  case (1 n xs)
  show ?case
  proof (cases "xs = [] \<or> n = 0")
    case True
    then show ?thesis using 1(2) by (subst (asm) chunks.simps) auto
  next
    case False
    have e: "chunks n xs = take n xs # chunks n (drop n xs)" using False by (subst chunks.simps) simp
    show ?thesis using 1(1) [OF False] 1(2) False unfolding e by auto
  qed
qed

lemma chunks_Nil_iff: "0 < n \<Longrightarrow> chunks n xs = [] \<longleftrightarrow> xs = []"
  by (subst chunks.simps) simp

section \<open>Datagrams of the edge\<close>

lemmas be32_bytes = be32_byte32 [unfolded One_nat_def]

text \<open>An RTP datagram without CSRC list and extension under the given header fields.\<close>

definition rtp_framed :: "u8 \<Rightarrow> u16 \<Rightarrow> u32 \<Rightarrow> u32 \<Rightarrow> bytes \<Rightarrow> rtp_packet \<Rightarrow> bool" where
  "rtp_framed pt seq ts ssrc payload p \<longleftrightarrow>
     \<not> pk_is_raw_ts p \<and> pk_data p ! 0 = 0x80 \<and> pk_data p ! 1 = pt AND 0x7F \<and>
     parse_rtp_sequence_number (pk_data p) = Some seq \<and> pk_sequence_number p = seq \<and>
     be32 (pk_data p ! 4) (pk_data p ! 5) (pk_data p ! 6) (pk_data p ! 7) = ts \<and> pk_rtp_timestamp p = ts \<and>
     be32 (pk_data p ! 8) (pk_data p ! 9) (pk_data p ! 10) (pk_data p ! 11) = ssrc \<and>
     strip_rtp_header (pk_data p) False = Some payload \<and> length (pk_data p) = 12 + length payload"

lemma edge_framed: "rtp_framed pt seq ts ssrc payload (edge_rtp_datagram payload pt seq ts ssrc template sender)"
  by (simp add: rtp_framed_def edge_rtp_datagram_def parse_rtp_sequence_number_def RTP_HEADER_MIN_SIZE_def
      to_be_bytes32_def strip_rtp_header_def be32_bytes Let_def)

section \<open>The tables of a switch\<close>

text \<open>Property C36.  The tables of a switch run into the stream of the new input: where its first datagram is RTP,
  every injected datagram has the payload type, timestamp and SSRC of that datagram, the sequence
  numbers are consecutive (modulo 2^16) and end right before the one of that datagram, no datagram
  holds more than six packets' bytes, none is empty, and put together they carry exactly the
  injected tables in order.\<close>

theorem switch_psi_runs_into_the_stream:
  assumes "\<not> pk_is_raw_ts first" "12 \<le> length (pk_data first)" "drop_bit 6 (pk_data first ! 0) = 2" "injected \<noteq> []"
  shows "\<exists>payloads. concat payloads = concat (map pk_data injected) \<and>
     (\<forall>c\<in>set payloads. c \<noteq> [] \<and> length c \<le> 6 * TS_PACKET_SIZE) \<and>
     length (frame_switch_psi injected first) = length payloads \<and>
     (\<forall>i < length payloads. rtp_framed (pk_data first ! 1) (be16 (pk_data first ! 2) (pk_data first ! 3) - of_nat (length payloads - i))
        (be32 (pk_data first ! 4) (pk_data first ! 5) (pk_data first ! 6) (pk_data first ! 7))
        (be32 (pk_data first ! 8) (pk_data first ! 9) (pk_data first ! 10) (pk_data first ! 11))
        (payloads ! i) (frame_switch_psi injected first ! i))"
proof -
  define cs where "cs = chunks (EDGE_RTP_TS_PACKETS * TS_PACKET_SIZE) (concat (map pk_data injected))"
  let ?h = "pk_data first"
  let ?seq = "be16 (?h ! 2) (?h ! 3)" and ?ts = "be32 (?h ! 4) (?h ! 5) (?h ! 6) (?h ! 7)"
    and ?ssrc = "be32 (?h ! 8) (?h ! 9) (?h ! 10) (?h ! 11)"
  have f: "frame_switch_psi injected first =
      map (\<lambda>(chunk, i). edge_rtp_datagram chunk (?h ! 1 AND 0x7F) (?seq - (of_nat (length cs) - of_nat i)) ?ts ?ssrc first None)
        (zip cs [0..<length cs])"
    using assms by (simp add: frame_switch_psi_def Let_def cs_def RTP_HEADER_MIN_SIZE_def)
  have pt: "rtp_framed (?h ! 1) = rtp_framed (?h ! 1 AND 0x7F)"
    by (intro ext) (simp add: rtp_framed_def and.assoc)
  have "rtp_framed (?h ! 1) (?seq - of_nat (length cs - i)) ?ts ?ssrc (cs ! i) (frame_switch_psi injected first ! i)"
    if "i < length cs" for i
  proof -
    have "of_nat (length cs) - of_nat i = (of_nat (length cs - i) :: u16)" using that by (simp add: of_nat_diff)
    then have "frame_switch_psi injected first ! i =
        edge_rtp_datagram (cs ! i) (?h ! 1 AND 0x7F) (?seq - of_nat (length cs - i)) ?ts ?ssrc first None"
      unfolding f using that by simp
    then show ?thesis unfolding pt using edge_framed by metis
  qed
  moreover have "length (frame_switch_psi injected first) = length cs" unfolding f by simp
  moreover have "concat cs = concat (map pk_data injected)" unfolding cs_def by (rule concat_chunks) (simp add: EDGE_RTP_TS_PACKETS_def)
  moreover have "\<forall>c\<in>set cs. c \<noteq> [] \<and> length c \<le> 6 * TS_PACKET_SIZE"
    using chunks_sizes unfolding cs_def EDGE_RTP_TS_PACKETS_def by blast
  ultimately show ?thesis by blast
qed

theorem switch_psi_runs_into_the_stream_witness:
  "\<exists>p. frame_switch_psi [raw_item (replicate 188 1)] (edge_rtp_datagram [] 33 7 1000 5 (raw_item []) None) = [p] \<and>
     rtp_framed 33 6 1000 5 (replicate 188 1) p"
proof -
  let ?first = "edge_rtp_datagram [] 33 7 1000 5 (raw_item []) None" and ?inj = "[raw_item (replicate 188 1)]"
  have a: "\<not> pk_is_raw_ts ?first" "12 \<le> length (pk_data ?first)" "drop_bit 6 (pk_data ?first ! 0) = 2" "?inj \<noteq> []"
    by (simp_all add: edge_rtp_datagram_def to_be_bytes32_def)
  have h: "pk_data ?first ! 1 = 33" "be16 (pk_data ?first ! 2) (pk_data ?first ! 3) = 7"
      "be32 (pk_data ?first ! 4) (pk_data ?first ! 5) (pk_data ?first ! 6) (pk_data ?first ! 7) = 1000"
      "be32 (pk_data ?first ! 8) (pk_data ?first ! 9) (pk_data ?first ! 10) (pk_data ?first ! 11) = 5"
    by code_simp+
  obtain payloads where p: "concat payloads = concat (map pk_data ?inj)"
      "length (frame_switch_psi ?inj ?first) = length payloads"
      "\<forall>i < length payloads. rtp_framed 33 (7 - of_nat (length payloads - i)) 1000 5 (payloads ! i) (frame_switch_psi ?inj ?first ! i)"
    using switch_psi_runs_into_the_stream [OF a] unfolding h by (elim exE conjE) (rule that)
  define out where "out = frame_switch_psi ?inj ?first"
  have "length out = 1" unfolding out_def by code_simp
  then obtain c q where c: "payloads = [c]" "out = [q]"
    using p(2) [folded out_def] by (auto simp: length_Suc_conv)
  have "c = replicate 188 1" using p(1) c(1) by (simp add: raw_item_def)
  moreover have "rtp_framed 33 6 1000 5 c q" using p(3) [folded out_def] c by simp
  ultimately show ?thesis using c(2) unfolding out_def by blast
qed

section \<open>Conforming a datagram\<close>

lemma built_header:
  "build_header w ts = ([0x80, 33, hi8 (rw_seq w), lo8 (rw_seq w)] @ to_be_bytes32 (fst (wrap_timestamp w ts)) @
     to_be_bytes32 (rw_ssrc w), (snd (wrap_timestamp w ts))\<lparr>rw_last_ts := fst (wrap_timestamp w ts), rw_seq := rw_seq w + 1\<rparr>)"
proof -
  have "rw_seq (snd (wrap_timestamp w ts)) = rw_seq w" "rw_ssrc (snd (wrap_timestamp w ts)) = rw_ssrc w"
    by (auto simp: wrap_timestamp_def Let_def split: option.splits)
  then show ?thesis by (simp add: build_header_def Let_def RTP_PT_MP2T_def split_beta)
qed

lemma wrap_chunks_val:
  "\<exists>ps w'. wrap_chunks pkt w sender cs = Some (ps, w') \<and> length ps = length cs \<and> rw_ssrc w' = rw_ssrc w \<and>
     rw_seq w' = rw_seq w + of_nat (length cs) \<and>
     (\<forall>i < length cs. \<exists>ts. rtp_framed 33 (rw_seq w + of_nat i) ts (rw_ssrc w) (cs ! i) (ps ! i) \<and>
        pk_sender_timestamp_us (ps ! i) = (if i = 0 then sender else None))"
proof (induction cs arbitrary: w sender)
  case (Cons c cs)
  define ts where "ts = fst (wrap_timestamp w (pk_rtp_timestamp pkt))"
  define w1 where "w1 = (snd (wrap_timestamp w (pk_rtp_timestamp pkt)))\<lparr>rw_last_ts := ts, rw_seq := rw_seq w + 1\<rparr>"
  have b: "build_header w (pk_rtp_timestamp pkt) =
      ([0x80, 33, hi8 (rw_seq w), lo8 (rw_seq w)] @ to_be_bytes32 ts @ to_be_bytes32 (rw_ssrc w), w1)"
    using built_header by (simp add: ts_def w1_def)
  have w1: "rw_seq w1 = rw_seq w + 1" "rw_ssrc w1 = rw_ssrc w"
    by (auto simp: w1_def wrap_timestamp_def Let_def split: option.splits)
  obtain ps w' where r: "wrap_chunks pkt w1 None cs = Some (ps, w')" "length ps = length cs" "rw_ssrc w' = rw_ssrc w1"
      "rw_seq w' = rw_seq w1 + of_nat (length cs)"
      "\<forall>i < length cs. \<exists>ts. rtp_framed 33 (rw_seq w1 + of_nat i) ts (rw_ssrc w1) (cs ! i) (ps ! i) \<and>
        pk_sender_timestamp_us (ps ! i) = None"
    using Cons.IH [of w1 None] by auto
  let ?p = "edge_rtp_datagram c 33 (rw_seq w) ts (rw_ssrc w) pkt sender"
  have e: "wrap_chunks pkt w sender (c # cs) = Some (?p # ps, w')"
    using r(1) by (simp add: b to_be_bytes32_def be32_bytes)
  have "\<exists>ts. rtp_framed 33 (rw_seq w + of_nat i) ts (rw_ssrc w) ((c # cs) ! i) ((?p # ps) ! i) \<and>
      pk_sender_timestamp_us ((?p # ps) ! i) = (if i = 0 then sender else None)" if i: "i < length (c # cs)" for i
  proof (cases i)
    case 0
    then show ?thesis using edge_framed [of 33 "rw_seq w" ts "rw_ssrc w" c pkt sender]
      by (auto simp: edge_rtp_datagram_def)
  next
    case (Suc k)
    then show ?thesis using r(5) i w1 by (simp add: add.assoc)
  qed
  then show ?case using e r(2-4) w1 by (intro exI [of _ "?p # ps"] exI [of _ w']) (simp add: add.assoc)
qed simp

lemma strip_is_suffix:
  "\<exists>ts n. strip_rtp_header data raw = Some ts \<and> ts = drop n data \<and> n = length data - length ts"
proof -
  obtain ts where ts: "strip_rtp_header data raw = Some ts" using no_panicE [OF no_panic_strip_rtp] by blast
  define Q where "Q t \<longleftrightarrow> (\<exists>n. t = drop n data)" for t
  have q: "Q data" "Q []" "Q (drop n data)" for n
    unfolding Q_def using drop_0 [of data] drop_all [of data "length data"] by (metis, metis order_refl, blast)
  have "Q ts" using ts q by (auto simp: strip_rtp_header_def bind_eq_Some_conv Let_def split: if_splits)
  then obtain n where "ts = drop n data" by (auto simp: Q_def)
  then have "ts = drop (min n (length data)) data \<and> min n (length data) = length data - length ts"
    by (cases "n \<le> length data") (auto simp: min_def)
  with ts show ?thesis by blast
qed

text \<open>The transport bytes of a datagram, whatever its framing.\<close>

definition ts_of :: "rtp_packet \<Rightarrow> bytes" where
  "ts_of p = the (strip_rtp_header (pk_data p) (pk_is_raw_ts p))"

lemma ts_of_raw: "pk_is_raw_ts p \<Longrightarrow> ts_of p = pk_data p"
  by (simp add: ts_of_def strip_rtp_header_def)

lemma ts_of_framed: "rtp_framed pt seq ts ssrc payload p \<Longrightarrow> ts_of p = payload"
  by (simp add: rtp_framed_def ts_of_def)

text \<open>A datagram put into the framing of the flow.\<close>

definition conformed :: "flow_framing \<Rightarrow> rtp_packet \<Rightarrow> rtp_packet list \<Rightarrow> flow_framing \<Rightarrow> bool" where
  "conformed f pkt out f' \<longleftrightarrow>
     ff_raw_ts f' = ff_raw_ts f \<and> ff_inputs f' = ff_inputs f \<and> rw_ssrc (ff_wrap f') = rw_ssrc (ff_wrap f) \<and>
     concat (map ts_of out) = ts_of pkt \<and>
     (\<forall>raw. ff_raw_ts f = Some raw \<longrightarrow> (\<forall>p\<in>set out. pk_is_raw_ts p = raw)) \<and>
     (if ff_passes f pkt then out = [pkt] \<and> f' = f
      else if pk_is_raw_ts pkt then
        rw_seq (ff_wrap f') = rw_seq (ff_wrap f) + of_nat (length out) \<and>
        (\<forall>i < length out. \<exists>ts c. length c \<le> 7 * TS_PACKET_SIZE \<and>
           rtp_framed 33 (rw_seq (ff_wrap f) + of_nat i) ts (rw_ssrc (ff_wrap f)) c (out ! i))
      else f' = f \<and> length out \<le> 1)"

lemma conform_val: "\<exists>out f'. ff_conform f pkt = Some (out, f') \<and> conformed f pkt out f'"
proof -
  consider "ff_passes f pkt" | "ff_raw_ts f = Some True" "\<not> pk_is_raw_ts pkt" | "ff_raw_ts f = Some False" "pk_is_raw_ts pkt"
    by (cases "ff_raw_ts f") (auto simp: ff_passes_def)
  then show ?thesis
  proof cases
    case 1
    then have "ff_conform f pkt = Some ([pkt], f)" by (auto simp: ff_conform_def ff_passes_def)
    with 1 show ?thesis by (auto simp: conformed_def ff_passes_def split: option.splits)
  next
    case 2
    obtain ts n where s: "strip_rtp_header (pk_data pkt) (pk_is_raw_ts pkt) = Some ts" "ts = drop n (pk_data pkt)"
        "n = length (pk_data pkt) - length ts"
      using strip_is_suffix by blast
    define out where "out = (if n < length (pk_data pkt)
        then [pkt\<lparr>pk_data := drop n (pk_data pkt), pk_is_raw_ts := True\<rparr>] else [])"
    have "ff_conform f pkt = Some (out, f)"
      using 2 s(1) by (simp add: ff_conform_def out_def Let_def flip: s(3))
    moreover have "concat (map ts_of out) = ts_of pkt"
      using s(1,2) by (auto simp: out_def ts_of_def strip_rtp_header_def)
    ultimately show ?thesis using 2 by (auto simp: conformed_def ff_passes_def out_def)
  next
    case 3
    define cs where "cs = chunks (TS_PACKETS_PER_ITEM * TS_PACKET_SIZE) (pk_data pkt)"
    obtain ps w' where w: "wrap_chunks pkt (ff_wrap f) (pk_sender_timestamp_us pkt) cs = Some (ps, w')"
        "length ps = length cs" "rw_ssrc w' = rw_ssrc (ff_wrap f)" "rw_seq w' = rw_seq (ff_wrap f) + of_nat (length cs)"
        "\<forall>i < length cs. \<exists>ts. rtp_framed 33 (rw_seq (ff_wrap f) + of_nat i) ts (rw_ssrc (ff_wrap f)) (cs ! i) (ps ! i)"
      using wrap_chunks_val [of pkt "ff_wrap f" "pk_sender_timestamp_us pkt" cs] by blast
    have c: "ff_conform f pkt = Some (ps, f\<lparr>ff_wrap := w'\<rparr>)"
      using 3 w(1) by (simp add: ff_conform_def cs_def)
    have "map ts_of ps = cs"
      by (rule nth_equalityI) (use w(2,5) ts_of_framed in fastforce)+
    then have tsc: "concat (map ts_of ps) = ts_of pkt"
      using 3 concat_chunks [of "TS_PACKETS_PER_ITEM * TS_PACKET_SIZE" "pk_data pkt"]
      by (simp add: cs_def ts_of_raw TS_PACKETS_PER_ITEM_def)
    have raw: "\<forall>p\<in>set ps. \<not> pk_is_raw_ts p"
      using w(2,5) by (fastforce simp: in_set_conv_nth rtp_framed_def)
    have sz: "length (cs ! i) \<le> 7 * TS_PACKET_SIZE" if "i < length cs" for i
      using chunks_sizes [OF nth_mem [OF that [unfolded cs_def]]] by (simp add: cs_def TS_PACKETS_PER_ITEM_def)
    have "\<exists>ts c. length c \<le> 7 * TS_PACKET_SIZE \<and>
        rtp_framed 33 (rw_seq (ff_wrap f) + of_nat i) ts (rw_ssrc (ff_wrap f)) c (ps ! i)" if "i < length ps" for i
      using w(2,5) sz that by metis
    then have "conformed f pkt ps (f\<lparr>ff_wrap := w'\<rparr>)"
      using 3 tsc raw w(2-4) by (simp add: conformed_def ff_passes_def)
    with c show ?thesis by blast
  qed
qed

lemma null_only_val: "\<exists>b. null_only pkt = Some b"
proof -
  have "\<exists>b. all_panics (\<lambda>pkt. do { s \<leftarrow> idx pkt 0;
        if s = TS_SYNC_BYTE then do { p \<leftarrow> ts_pid pkt; Some (p = NULL_PID) } else Some False }) ps = Some b"
    if "\<forall>p\<in>set ps. length p = TS_PACKET_SIZE" for ps
    using that
  proof (induction ps)
    case (Cons p ps)
    let ?test = "\<lambda>pkt. do { s \<leftarrow> idx pkt 0;
        if s = TS_SYNC_BYTE then do { p \<leftarrow> ts_pid pkt; Some (p = NULL_PID) } else Some False }"
    obtain b where b: "all_panics ?test ps = Some b" using Cons by auto
    have "idx p 0 = Some (p ! 0)" "ts_pid p = Some (pid13 (p ! 1) (p ! 2))" using Cons.prems by (auto simp: idx_def ts_vals)
    then have "all_panics ?test (p # ps) = Some ((p ! 0 = TS_SYNC_BYTE \<and> pid13 (p ! 1) (p ! 2) = NULL_PID) \<and> b)"
      using b by auto
    then show ?case by blast
  qed (auto intro: exI [of _ True])
  then obtain b where "all_panics (\<lambda>pkt. do { s \<leftarrow> idx pkt 0;
        if s = TS_SYNC_BYTE then do { p \<leftarrow> ts_pid pkt; Some (p = NULL_PID) } else Some False }) (ts_chunks (pk_data pkt)) = Some b"
    using length_ts_chunks by blast
  then have "null_only pkt = Some (pk_is_raw_ts pkt \<and> pk_data pkt \<noteq> [] \<and> length (pk_data pkt) mod TS_PACKET_SIZE = 0 \<and> b)"
    by (auto simp: null_only_def is_null_ts_only_def)
  then show ?thesis by blast
qed

text \<open>Noting a datagram settles a framing that is not settled and never changes one that is.\<close>

lemma observe_val:
  "\<exists>f' null. null_only pkt = Some null \<and> ff_observe f input_id pkt = Some f' \<and> ff_wrap f' = ff_wrap f \<and>
     ff_raw_ts f' = (if ff_raw_ts f = None \<and> \<not> null then Some (pk_is_raw_ts pkt) else ff_raw_ts f) \<and>
     map_of (ff_inputs f') input_id = (if null then map_of (ff_inputs f) input_id else Some (pk_is_raw_ts pkt))"
proof -
  obtain null where n: "null_only pkt = Some null" using null_only_val by blast
  then show ?thesis
    by (auto simp: ff_observe_def ff_note_def n update_conv')
qed

lemma note_val:
  "\<exists>f'. ff_note f input_id pkt = Some f' \<and> ff_wrap f' = ff_wrap f \<and> ff_raw_ts f' = ff_raw_ts f"
  using null_only_val [of pkt] by (auto simp: ff_note_def)

end
