(* ===== verification/ContinuityFixerFacts.thy ===== *)
theory ContinuityFixerFacts
  imports ContinuityFixer TsCollector PsiStageTotal FlowFramingCorrect "HOL-Library.Multiset"
begin

text \<open>
  The pending discontinuity indicators as a set, and the loop over the packets of a datagram against
  that abstract view.
\<close>

section \<open>Armed PIDs\<close>

definition armed :: "(u16 \<times> u64 option) list \<Rightarrow> u16 set" where
  "armed pids = fst ` set pids"

definition pids_ok :: "(u16 \<times> u64 option) list \<Rightarrow> bool" where
  "pids_ok pids \<longleftrightarrow> distinct (map fst pids)"

lemma arm_pid_in_val:
  "armed (arm_pid_in pid pids) = insert pid (armed pids) \<and> (pids_ok pids \<longrightarrow> pids_ok (arm_pid_in pid pids)) \<and>
   (pid, None) \<in> set (arm_pid_in pid pids)"
proof (induction pid pids rule: arm_pid_in.induct)
  case (2 pid p lapses xs)
  then show ?case by (auto simp: armed_def pids_ok_def)
qed (simp add: armed_def pids_ok_def)

lemma mset_swap_remove:
  assumes "i < length xs"
  shows "mset (swap_remove xs i) = mset (remove1 (xs ! i) xs)"
proof -
  have ne: "xs \<noteq> []" using assms by auto
  have split: "mset xs = add_mset (last xs) (mset (butlast xs))"
  proof -
    have "mset xs = mset (butlast xs @ [last xs])" using ne by simp
    then show ?thesis by (simp del: append_butlast_last_id)
  qed
  show ?thesis
  proof (cases "i + 1 = length xs")
    case True
    then have "xs ! i = last xs" using ne by (metis add_diff_cancel_right' last_conv_nth)
    with True split show ?thesis by (simp add: swap_remove_def)
  next
    case False
    then have i: "i < length (butlast xs)" using assms by simp
    then have n: "butlast xs ! i = xs ! i" by (simp add: nth_butlast)
    have "mset ((butlast xs)[i := last xs]) = add_mset (last xs) (mset (butlast xs) - {#xs ! i#})"
      using mset_update [OF i] n by simp
    moreover have "xs ! i \<in># mset (butlast xs)" using i n by (metis nth_mem set_mset_mset)
    ultimately show ?thesis using False split by (simp add: swap_remove_def)
  qed
qed

lemma position_val:
  "(case position p xs of Some i \<Rightarrow> i < length xs \<and> p (xs ! i) | None \<Rightarrow> \<forall>x\<in>set xs. \<not> p x)"
proof (induction xs)
  case (Cons x xs)
  then show ?case by (cases "position p xs") auto
qed simp

lemma remove1_keys:
  "distinct (map fst xs) \<Longrightarrow> x \<in> set xs \<Longrightarrow>
   distinct (map fst (remove1 x xs)) \<and> fst ` set (remove1 x xs) = fst ` set xs - {fst x}"
  by (induction xs) (auto simp: rev_image_eqI)

lemma take_pending_di_val:
  assumes "pids_ok pids"
  shows "\<exists>pids'. take_pending_di on_pcr pids pid = (on_pcr \<or> pid \<in> armed pids, False, pids') \<and> pids_ok pids' \<and>
     armed pids' = armed pids - {pid} \<and> (set pids' \<subseteq> set pids)"
proof (cases "position (\<lambda>e. fst e = pid) pids")
  case None
  then have "pid \<notin> armed pids" using position_val [where p = "\<lambda>e. fst e = pid" and xs = pids] by (auto simp: armed_def)
  with None assms show ?thesis by (auto simp: take_pending_di_def)
next
  case (Some i)
  then have i: "i < length pids" "fst (pids ! i) = pid" using position_val [where p = "\<lambda>e. fst e = pid" and xs = pids] by auto
  have m: "mset (swap_remove pids i) = mset (remove1 (pids ! i) pids)" by (rule mset_swap_remove [OF i(1)])
  have k: "distinct (map fst (remove1 (pids ! i) pids))" "fst ` set (remove1 (pids ! i) pids) = fst ` set pids - {pid}"
    using remove1_keys [of pids "pids ! i"] assms i by (auto simp: pids_ok_def)
  have s: "set (swap_remove pids i) = set (remove1 (pids ! i) pids)" using m by (rule mset_eq_setD)
  have "mset (map fst (swap_remove pids i)) = mset (map fst (remove1 (pids ! i) pids))" using m by simp
  then have "distinct (map fst (swap_remove pids i))" using k(1) mset_eq_imp_distinct_iff by blast
  moreover have "pid \<in> armed pids" using i by (auto simp: armed_def)
  ultimately show ?thesis
    using Some k(2) s set_remove1_subset [of "pids ! i" pids] by (simp add: take_pending_di_def armed_def pids_ok_def)
qed

section \<open>The packets that carry a clock\<close>

definition pid_of :: "bytes \<Rightarrow> u16" where
  "pid_of pkt = pid13 (pkt ! 1) (pkt ! 2)"

definition has_clock :: "bytes \<Rightarrow> bool" where
  "has_clock pkt \<longleftrightarrow> pkt ! 0 = TS_SYNC_BYTE \<and> pid_of pkt \<noteq> NULL_PID \<and> carries_pcr pkt"

text \<open>Position and PID of every clock sample of consecutive packets.\<close>

fun clocks :: "nat \<Rightarrow> bytes list \<Rightarrow> (nat \<times> u16) list" where
  "clocks at [] = []"
| "clocks at (pkt # pkts) = (if has_clock pkt then [(at, pid_of pkt)] else []) @ clocks (at + TS_PACKET_SIZE) pkts"

text \<open>The specification: which samples take an indicator, and what is pending after them.\<close>

fun marks :: "bool \<Rightarrow> u16 set \<Rightarrow> (nat \<times> u16) list \<Rightarrow> nat list" where
  "marks first pids [] = []"
| "marks first pids ((at, pid) # cs) =
     (if first \<or> pid \<in> pids then at # marks False (pids - {pid}) cs else marks first pids cs)"

definition first_after :: "bool \<Rightarrow> (nat \<times> u16) list \<Rightarrow> bool" where
  "first_after first cs \<longleftrightarrow> first \<and> cs = []"

definition armed_after :: "u16 set \<Rightarrow> (nat \<times> u16) list \<Rightarrow> u16 set" where
  "armed_after pids cs = pids - snd ` set cs"

text \<open>The datagram with the indicator set in the packets at the given positions.\<close>

definition with_di :: "bytes \<Rightarrow> nat list \<Rightarrow> bytes" where
  "with_di data ats = foldl (\<lambda>b at. b[at + 5 := b ! (at + 5) OR 0x80]) data ats"

lemma length_with_di [simp]: "length (with_di data ats) = length data"
  unfolding with_di_def by (induction ats arbitrary: data) simp_all

lemma with_di_snoc: "with_di data (ats @ [at]) = (with_di data ats)[at + 5 := with_di data ats ! (at + 5) OR 0x80]"
  by (simp add: with_di_def)

lemma with_di_behind:
  "\<forall>a\<in>set ats. a + TS_PACKET_SIZE \<le> at \<Longrightarrow> drop at (with_di data ats) = drop at data"
proof (induction ats rule: rev_induct)
  case (snoc a ats)
  then show ?case by (simp add: with_di_snoc)
qed (simp add: with_di_def)

definition out_of :: "bytes \<Rightarrow> nat list \<Rightarrow> bytes option" where
  "out_of data ats = (if ats = [] then None else Some (with_di data ats))"

lemma out_of_buf: "(case out_of data ats of None \<Rightarrow> data | Some b \<Rightarrow> b) = with_di data ats"
  by (simp add: out_of_def with_di_def)

lemma mark_di_val:
  assumes "at + 188 \<le> length data" "take 188 (drop at data) = pkt" "carries_pcr pkt"
    "\<forall>a\<in>set ats. a + TS_PACKET_SIZE \<le> at"
  shows "mark_di data at (out_of data ats) = out_of data (ats @ [at])"
proof -
  let ?b = "with_di data ats"
  have l: "length pkt = 188" using assms(1,2) by auto
  have lb: "length ?b = length data" by simp
  have p: "take 188 (drop at ?b) = pkt" using assms(2) with_di_behind [OF assms(4)] by simp
  have n5: "pkt ! 5 = ?b ! (at + 5)" using p assms(1) by auto
  have d: "set_discontinuity_indicator pkt = Some (True, pkt[5 := pkt ! 5 OR 0x80])"
    using assms(3) l by (auto simp: set_discontinuity_indicator_def ts_vals carries_pcr_def)
  have "take at ?b @ pkt[5 := pkt ! 5 OR 0x80] @ drop (at + 188) ?b = ?b[at + 5 := ?b ! (at + 5) OR 0x80]"
  proof (rule nth_equalityI)
    show "length (take at ?b @ pkt[5 := pkt ! 5 OR 0x80] @ drop (at + 188) ?b) = length (?b[at + 5 := ?b ! (at + 5) OR 0x80])"
      using assms(1) l by simp
    fix i assume "i < length (take at ?b @ pkt[5 := pkt ! 5 OR 0x80] @ drop (at + 188) ?b)"
    then have i: "i < length data" using assms(1) l by simp
    have pn: "pkt ! k = ?b ! (at + k)" if "k < 188" for k using p that assms(1) by auto
    show "(take at ?b @ pkt[5 := pkt ! 5 OR 0x80] @ drop (at + 188) ?b) ! i = ?b[at + 5 := ?b ! (at + 5) OR 0x80] ! i"
      using assms(1) l i pn [of "i - at"] n5
      by (auto simp: nth_append nth_list_update)
  qed
  then show ?thesis
    using assms(1) l p d
    unfolding mark_di_def out_of_buf Let_def by (simp add: out_of_def with_di_snoc)
qed

section \<open>The tables of an input\<close>

definition psi_ok :: "input_psi_cache \<Rightarrow> bool" where
  "psi_ok c \<longleftrightarrow> (\<forall>p. ic_cached_pat c = Some p \<longrightarrow> length p = TS_PACKET_SIZE \<and> p ! 1 AND 0x40 \<noteq> 0) \<and>
     (\<forall>pid u. ic_cached_pmts c pid = Some u \<longrightarrow> u \<noteq> [] \<and> (\<forall>p\<in>set u. length p = TS_PACKET_SIZE)) \<and>
     (\<forall>pid col. ic_pmt_pending c pid = Some col \<longrightarrow> (\<exists>h. collector_history h col))"

lemma psi_ok_new: "psi_ok ic_new"
  by (simp add: psi_ok_def ic_new_def)

lemma history_lengths: "collector_history h c \<Longrightarrow> \<forall>x\<in>set h. length (fst x) = TS_PACKET_SIZE"
  by (induction rule: collector_history.induct) auto

lemma collected_packets:
  assumes "collector_history h c" "length pkt = TS_PACKET_SIZE"
  shows "\<exists>u shown c'. pc_push_packet c pkt = Some (u, shown, c') \<and> collector_history (h @ [(pkt, shown)]) c' \<and>
     (\<forall>unit. u = Some unit \<longrightarrow> unit \<noteq> [] \<and> (\<forall>p\<in>set unit. length p = TS_PACKET_SIZE))"
proof -
  obtain u shown c' where s: "pc_push_packet c pkt = Some (u, shown, c')"
      "\<forall>unit. u = Some unit \<longrightarrow> good_unit (h @ [(pkt, shown)]) unit"
    using collector_step [OF collector_history_inv [OF assms(1)] assms(2)] by blast
  have h: "collector_history (h @ [(pkt, shown)]) c'" by (rule collector_history.fed [OF assms s(1)])
  have "unit \<noteq> [] \<and> (\<forall>p\<in>set unit. length p = TS_PACKET_SIZE)" if "u = Some unit" for unit
  proof -
    have "good_unit (h @ [(pkt, shown)]) unit" using s(2) that by blast
    then obtain h1 h2 where "h @ [(pkt, shown)] = h1 @ h2" "unit = map fst h2" "unit \<noteq> []"
      unfolding good_unit_def collecting_def by blast
    moreover have "set h2 \<subseteq> set (h @ [(pkt, shown)])" using calculation(1) by (metis Un_upper2 set_append)
    ultimately show ?thesis using history_lengths [OF h] by auto
  qed
  with s(1) h show ?thesis by blast
qed

lemma observe_psi_val:
  assumes "psi_ok c" "length pkt = TS_PACKET_SIZE"
  shows "\<exists>c'. observe_psi c pkt = Some c' \<and> psi_ok c'"
proof -
  have v: "ts_pid pkt = Some (pid_of pkt)" "ts_pusi pkt = Some (pkt ! 1 AND 0x40 \<noteq> 0)"
    using assms(2) by (simp_all add: ts_vals pid_of_def)
  consider "pid_of pkt = PAT_PID" "pkt ! 1 AND 0x40 \<noteq> 0"
    | "\<not> (pid_of pkt = PAT_PID \<and> pkt ! 1 AND 0x40 \<noteq> 0)" "pid_of pkt \<in> ic_pmt_pids c"
    | "\<not> (pid_of pkt = PAT_PID \<and> pkt ! 1 AND 0x40 \<noteq> 0)" "pid_of pkt \<notin> ic_pmt_pids c" by blast
  then show ?thesis
  proof cases
    case 1
    obtain ps where ps: "parse_pat_programs pkt = Some ps"
      using no_panicE [OF no_panic_parse_pat] assms(2) by (metis order_refl)
    then have "parse_pat_pmt_pids pkt = Some (map snd ps)" by (simp add: parse_pat_pmt_pids_def)
    with 1 v assms show ?thesis by (auto simp: observe_psi_def psi_ok_def Let_def)
  next
    case 2
    define col where "col = (case ic_pmt_pending c (pid_of pkt) of None \<Rightarrow> pc_default | Some p \<Rightarrow> p)"
    have "\<exists>h. collector_history h col"
      using assms(1) collector_history.start by (cases "ic_pmt_pending c (pid_of pkt)") (auto simp: col_def psi_ok_def)
    then obtain u shown col' h' where p: "pc_push_packet col pkt = Some (u, shown, col')" "collector_history h' col'"
        "\<forall>unit. u = Some unit \<longrightarrow> unit \<noteq> [] \<and> (\<forall>p\<in>set unit. length p = TS_PACKET_SIZE)"
      using collected_packets assms(2) by blast
    let ?c = "c\<lparr>ic_pmt_pending := (ic_pmt_pending c)(pid_of pkt \<mapsto> col')\<rparr>"
    let ?c' = "case u of None \<Rightarrow> ?c | Some u \<Rightarrow> ?c\<lparr>ic_cached_pmts := (ic_cached_pmts ?c)(pid_of pkt \<mapsto> u)\<rparr>"
    define b where "b = (pid_of pkt = PAT_PID \<and> pkt ! 1 AND 0x40 \<noteq> 0)"
    have b: "(if pid_of pkt = PAT_PID then ts_pusi pkt else Some False) = Some b" "\<not> (pid_of pkt = PAT_PID \<and> b)"
      using 2(1) v(2) by (auto simp: b_def)
    have "observe_psi c pkt = Some ?c'"
      unfolding observe_psi_def v(1) Let_def bind.bind_lunit b(1) col_def [symmetric] p(1)
      by (simp only: b(2) 2(2) if_True if_False bind.bind_lunit prod.case)
    moreover have "psi_ok ?c'"
      using assms(1) p(2,3) by (cases u) (auto simp: psi_ok_def)
    ultimately show ?thesis by blast
  next
    case 3
    with v assms show ?thesis by (auto simp: observe_psi_def)
  qed
qed

section \<open>The packet loop\<close>

lemma fix_packet_val:
  assumes "pids_ok (fx_pids x)" "psi_ok (fx_psi x)" "at + 188 \<le> length data" "take 188 (drop at data) = pkt"
    "fx_out x = out_of data ats" "\<forall>a\<in>set ats. a + TS_PACKET_SIZE \<le> at"
  shows "\<exists>x'. fix_packet data at pkt x = Some x' \<and> pids_ok (fx_pids x') \<and> psi_ok (fx_psi x') \<and>
     set (fx_pids x') \<subseteq> set (fx_pids x) \<and>
     armed (fx_pids x') = (if has_clock pkt then armed (fx_pids x) - {pid_of pkt} else armed (fx_pids x)) \<and>
     fx_on_pcr x' = (fx_on_pcr x \<and> \<not> has_clock pkt) \<and>
     fx_out x' = out_of data (if has_clock pkt \<and> (fx_on_pcr x \<or> pid_of pkt \<in> armed (fx_pids x)) then ats @ [at] else ats)"
proof -
  have l: "length pkt = TS_PACKET_SIZE" using assms(3,4) by auto
  have v: "idx pkt 0 = Some (pkt ! 0)" "ts_pid pkt = Some (pid_of pkt)" using l by (auto simp: idx_def ts_vals pid_of_def)
  obtain psi where psi: "observe_psi (fx_psi x) pkt = Some psi" "psi_ok psi" using observe_psi_val [OF assms(2) l] by blast
  have pcr: "\<exists>r. extract_pcr pkt = Some r \<and> (r = None \<longleftrightarrow> \<not> carries_pcr pkt)" using l by (auto simp: extract_pcr_val)
  consider "pkt ! 0 \<noteq> TS_SYNC_BYTE"
    | "pkt ! 0 = TS_SYNC_BYTE" "\<not> ((fx_on_pcr x \<or> fx_pids x \<noteq> []) \<and> has_clock pkt)"
    | "(fx_on_pcr x \<or> fx_pids x \<noteq> [])" "has_clock pkt" by blast
  then show ?thesis
  proof cases
    case 1
    then have "fix_packet data at pkt x = Some x" by (simp add: fix_packet_def v)
    with 1 assms show ?thesis by (auto simp: has_clock_def)
  next
    case 2
    then have "fix_packet data at pkt x = Some (x\<lparr>fx_psi := psi\<rparr>)"
      using v psi(1) pcr by (auto simp: fix_packet_def Let_def has_clock_def)
    moreover have "has_clock pkt \<longrightarrow> \<not> fx_on_pcr x \<and> armed (fx_pids x) = {}" using 2 by (auto simp: armed_def)
    ultimately show ?thesis using assms psi(2) by (intro exI [of _ "x\<lparr>fx_psi := psi\<rparr>"]) auto
  next
    case 3
    then have c: "pkt ! 0 = TS_SYNC_BYTE" "pid_of pkt \<noteq> NULL_PID" "carries_pcr pkt" by (auto simp: has_clock_def)
    obtain r where r: "extract_pcr pkt = Some (Some r)" using pcr c(3) by auto
    obtain pids' where t: "take_pending_di (fx_on_pcr x) (fx_pids x) (pid_of pkt) =
        (fx_on_pcr x \<or> pid_of pkt \<in> armed (fx_pids x), False, pids')" "pids_ok pids'"
        "armed pids' = armed (fx_pids x) - {pid_of pkt}" "set pids' \<subseteq> set (fx_pids x)"
      using take_pending_di_val [OF assms(1)] by blast
    note m = mark_di_val [OF assms(3,4) c(3) assms(6)]
    show ?thesis
    proof (cases "fx_on_pcr x \<or> pid_of pkt \<in> armed (fx_pids x)")
      case True
      have "out_of data (ats @ [at]) = Some (with_di data (ats @ [at]))" by (simp add: out_of_def)
      then have "fix_packet data at pkt x =
          Some (x\<lparr>fx_psi := psi, fx_on_pcr := False, fx_pids := pids', fx_out := out_of data (ats @ [at])\<rparr>)"
        using 3 c v psi(1) r t(1) m True assms(5) by (simp add: fix_packet_def Let_def)
      with 3 True t psi(2) show ?thesis by auto
    next
      case False
      then have "fix_packet data at pkt x = Some (x\<lparr>fx_psi := psi, fx_on_pcr := False, fx_pids := pids'\<rparr>)"
        using 3 c v psi(1) r t(1) by (simp add: fix_packet_def Let_def)
      with 3 False t psi(2) assms(5) show ?thesis by auto
    qed
  qed
qed

lemma fix_loop_val:
  assumes "pids_ok (fx_pids x)" "psi_ok (fx_psi x)" "drop at data = concat pkts @ rest" "\<forall>p\<in>set pkts. length p = 188"
    "fx_out x = out_of data ats" "\<forall>a\<in>set ats. a + TS_PACKET_SIZE \<le> at"
  shows "\<exists>x'. fix_loop data at pkts x = Some x' \<and> pids_ok (fx_pids x') \<and> psi_ok (fx_psi x') \<and>
     set (fx_pids x') \<subseteq> set (fx_pids x) \<and>
     armed (fx_pids x') = armed_after (armed (fx_pids x)) (clocks at pkts) \<and>
     fx_on_pcr x' = first_after (fx_on_pcr x) (clocks at pkts) \<and>
     fx_out x' = out_of data (ats @ marks (fx_on_pcr x) (armed (fx_pids x)) (clocks at pkts))"
  using assms
proof (induction pkts arbitrary: at x ats)
  case Nil
  then show ?case by (simp add: armed_after_def first_after_def)
next
  case (Cons p pkts)
  have p: "length p = 188" using Cons.prems(4) by simp
  have "length (drop at data) = 188 + length (concat pkts @ rest)" using Cons.prems(3) p by simp
  then have at: "at + 188 \<le> length data" by simp
  have tk: "take 188 (drop at data) = p" using Cons.prems(3) p by simp
  have "drop (at + 188) data = drop 188 (drop at data)" by (simp add: add.commute)
  then have nx: "drop (at + 188) data = concat pkts @ rest" using Cons.prems(3) p by simp
  let ?ats = "if has_clock p \<and> (fx_on_pcr x \<or> pid_of p \<in> armed (fx_pids x)) then ats @ [at] else ats"
  obtain x1 where x1: "fix_packet data at p x = Some x1" "pids_ok (fx_pids x1)" "psi_ok (fx_psi x1)"
      "set (fx_pids x1) \<subseteq> set (fx_pids x)"
      "armed (fx_pids x1) = (if has_clock p then armed (fx_pids x) - {pid_of p} else armed (fx_pids x))"
      "fx_on_pcr x1 = (fx_on_pcr x \<and> \<not> has_clock p)" "fx_out x1 = out_of data ?ats"
    using fix_packet_val [OF Cons.prems(1,2) at tk Cons.prems(5,6)] by blast
  have b: "\<forall>a\<in>set ?ats. a + TS_PACKET_SIZE \<le> at + 188" using Cons.prems(6) by auto
  have l: "\<forall>p\<in>set pkts. length p = 188" using Cons.prems(4) by simp
  obtain x' where x': "fix_loop data (at + 188) pkts x1 = Some x'" "pids_ok (fx_pids x')" "psi_ok (fx_psi x')"
      "set (fx_pids x') \<subseteq> set (fx_pids x1)"
      "armed (fx_pids x') = armed_after (armed (fx_pids x1)) (clocks (at + 188) pkts)"
      "fx_on_pcr x' = first_after (fx_on_pcr x1) (clocks (at + 188) pkts)"
      "fx_out x' = out_of data (?ats @ marks (fx_on_pcr x1) (armed (fx_pids x1)) (clocks (at + 188) pkts))"
    using Cons.IH [OF x1(2,3) nx l x1(7) b] by blast
  have "fix_loop data at (p # pkts) x = Some x'" using x1(1) x'(1) by simp
  moreover have "armed (fx_pids x') = armed_after (armed (fx_pids x)) (clocks at (p # pkts))"
    using x'(5) x1(5) by (auto simp: armed_after_def)
  moreover have "fx_on_pcr x' = first_after (fx_on_pcr x) (clocks at (p # pkts))"
    using x'(6) x1(6) by (auto simp: first_after_def)
  moreover have "?ats @ marks (fx_on_pcr x1) (armed (fx_pids x1)) (clocks (at + 188) pkts) =
      ats @ marks (fx_on_pcr x) (armed (fx_pids x)) (clocks at (p # pkts))"
    using x1(5,6) by simp
  ultimately show ?case using x'(2,3,4,7) x1(4) by auto
qed

end
