(* ===== verification/ContinuityFixerCorrect.thy ===== *)
theory ContinuityFixerCorrect
  imports ContinuityFixerFacts PmtEditCorrect
begin

text \<open>
  What the input-switch fixer promises: it never panics, changes a datagram only by setting
  discontinuity indicators, one for each clock that is due one, and a switch announces the tables of
  the new input under a fresh version.
\<close>

section \<open>Re-stamping a cached unit\<close>

lemma push_any:
  assumes "stage_inv s" "sections_ok s" "length pkt = TS_PACKET_SIZE"
  shows "\<exists>r s' out'. ps_push s pkt out = Some (r, s', out') \<and> stage_inv s' \<and> sections_ok s' \<and>
     (\<forall>u. r = Some u \<longrightarrow> unit_ok u)"
proof (cases "pkt ! 0 = TS_SYNC_BYTE")
  case True
  then show ?thesis using push_unit_ok [OF assms(1,2,3)] by blast
next
  case False
  have "idx pkt 0 = Some (pkt ! 0)" using assms(3) by (simp add: idx_def)
  with False assms show ?thesis by (simp add: ps_push_def)
qed

lemma restamp_push_val:
  assumes "stage_inv s" "sections_ok s" "\<forall>p\<in>set ps. length p = TS_PACKET_SIZE" "\<forall>v. u = Some v \<longrightarrow> unit_ok v"
  shows "\<exists>r s' out'. restamp_push s u ps out = Some (r, s', out') \<and> (\<forall>v. r = Some v \<longrightarrow> unit_ok v)"
  using assms
proof (induction ps arbitrary: s u out)
  case (Cons p ps)
  obtain r s1 o1 where p: "ps_push s p out = Some (r, s1, o1)" "stage_inv s1" "sections_ok s1" "\<forall>u. r = Some u \<longrightarrow> unit_ok u"
    using push_any [OF Cons.prems(1,2), of p out] Cons.prems(3) by auto
  have u: "\<forall>v. (case r of None \<Rightarrow> u | Some v \<Rightarrow> Some v) = Some v \<longrightarrow> unit_ok v"
    using p(4) Cons.prems(4) by (auto split: option.splits)
  show ?case using Cons.IH [OF p(2,3) _ u, of o1] Cons.prems(3) p(1) by simp
qed simp

lemma length_stamped:
  "stampable buf s \<Longrightarrow> length (stamped buf s (len12 (buf ! (s + 1)) (buf ! (s + 2))) v) = length buf"
  using nth_stamped(2) [of buf s 0 v] by (cases buf) (auto simp: stampable_def)

lemma restamp_section_val:
  assumes "i < length (pu_sections u)" "unit_ok u"
  shows "\<exists>u'. restamp_section v u i = Some u' \<and> unit_ok u' \<and> length (pu_sections u') = length (pu_sections u)"
proof -
  let ?sec = "pu_sections u ! i"
  have ne: "?sec \<noteq> []" using assms by (auto simp: unit_ok_def)
  obtain b sec' where s: "set_psi_version_at ?sec 0 v = Some (b, sec')" "b \<longrightarrow> length sec' = length ?sec"
  proof (cases "stampable ?sec 0")
    case True
    have "set_psi_version_at ?sec 0 v = Some (True, stamped ?sec 0 (len12 (?sec ! (0 + 1)) (?sec ! (0 + 2))) v)"
      using True by (simp add: set_psi_version_at_val)
    with that length_stamped [OF True] show ?thesis by blast
  next
    case False
    with that show ?thesis by (simp add: set_psi_version_at_val)
  qed
  have "\<exists>u'. replace_section u i sec' = Some u' \<and> unit_ok u' \<and> length (pu_sections u') = length (pu_sections u)" if b
  proof -
    have "sec' \<noteq> []" using s(2) that ne by auto
    then show ?thesis
      using assms set_update_subset_insert [of "pu_sections u" i sec']
      by (auto simp: replace_section_def unit_ok_def)
  qed
  then show ?thesis using assms s(1) by (cases b) (auto simp: restamp_section_def split: list.split)
qed

lemma restamp_sections_val:
  assumes "\<forall>i\<in>set is. i < length (pu_sections u)" "unit_ok u"
  shows "\<exists>u'. foldl_panics (restamp_section v) u is = Some u' \<and> unit_ok u'"
  using assms
proof (induction "is" arbitrary: u)
  case (Cons i ks)
  obtain u1 where u1: "restamp_section v u i = Some u1" "unit_ok u1" "length (pu_sections u1) = length (pu_sections u)"
    using restamp_section_val [of i u v] Cons.prems by auto
  obtain u' where "foldl_panics (restamp_section v) u1 ks = Some u'" "unit_ok u'"
    using Cons.IH [of u1] Cons.prems(1) u1(2,3) by auto
  with u1(1) show ?case by simp
qed simp

lemma restamp_val:
  assumes "\<forall>p\<in>set ps. length p = TS_PACKET_SIZE"
  shows "\<exists>qs. restamp_pmt_unit ps v = Some qs \<and> (\<forall>q\<in>set qs. length q = TS_PACKET_SIZE)"
proof -
  have new: "stage_inv ps_new" "sections_ok ps_new" using ps_new_inv by (auto simp: sections_ok_def ps_new_def)
  have none: "\<forall>w. None = Some w \<longrightarrow> unit_ok w" by simp
  obtain r s out where r: "restamp_push ps_new None ps [] = Some (r, s, out)" "\<forall>w. r = Some w \<longrightarrow> unit_ok w"
    using restamp_push_val [OF new assms none] by blast
  show ?thesis
  proof (cases r)
    case None
    with r(1) assms show ?thesis by (simp add: restamp_pmt_unit_def)
  next
    case (Some u)
    obtain u' where u': "foldl_panics (restamp_section v) u [0..<length (pu_sections u)] = Some u'" "unit_ok u'"
      using restamp_sections_val [of "[0..<length (pu_sections u)]" u v] r(2) Some by auto
    obtain s' q where "ps_emit s u' out = Some (s', out @ q)" using emit_total [OF u'(2)] by blast
    with r(1) Some u'(1) length_ts_chunks show ?thesis by (simp add: restamp_pmt_unit_def)
  qed
qed

section \<open>Any operation\<close>

definition fixer_ok :: "continuity_fixer \<Rightarrow> bool" where
  "fixer_ok f \<longleftrightarrow> pids_ok (cf_pending_di_pids f) \<and> (\<forall>i psi. cf_input_psi f i = Some psi \<longrightarrow> psi_ok psi) \<and>
     cf_next_psi_version f AND 0x1F = cf_next_psi_version f"

lemma fixer_ok_new: "fixer_ok cf_new"
  by (simp add: fixer_ok_def cf_new_def pids_ok_def)

lemma psi_of_ok: "fixer_ok f \<Longrightarrow> psi_ok (psi_of f input_id)"
  using psi_ok_new by (auto simp: fixer_ok_def psi_of_def split: option.splits)

lemma arm_pid_ok:
  "fixer_ok f \<Longrightarrow> fixer_ok (arm_pid f pid)" "cf_input_psi (arm_pid f pid) = cf_input_psi f"
  "cf_pending_di_on_pcr (arm_pid f pid) = cf_pending_di_on_pcr f"
  "cf_next_psi_version (arm_pid f pid) = cf_next_psi_version f"
  "armed (cf_pending_di_pids (arm_pid f pid)) = insert pid (armed (cf_pending_di_pids f))"
  using arm_pid_in_val [of pid "cf_pending_di_pids f"] by (auto simp: arm_pid_def fixer_ok_def)

lemma arm_all:
  "(fixer_ok f \<longrightarrow> fixer_ok (foldl arm_pid f pids)) \<and> cf_input_psi (foldl arm_pid f pids) = cf_input_psi f \<and>
   cf_pending_di_on_pcr (foldl arm_pid f pids) = cf_pending_di_on_pcr f \<and>
   cf_next_psi_version (foldl arm_pid f pids) = cf_next_psi_version f \<and>
   armed (cf_pending_di_pids (foldl arm_pid f pids)) = set pids \<union> armed (cf_pending_di_pids f)"
  by (induction pids arbitrary: f) (simp_all add: arm_pid_ok)

lemma arm_pid_in_fresh: "(p, None) \<in> set xs \<or> p = q \<Longrightarrow> (p, None) \<in> set (arm_pid_in q xs)"
proof (induction q xs rule: arm_pid_in.induct)
  case (2 pid p' lapses xs)
  then show ?case by auto
qed simp

lemma arm_all_fresh:
  "(p, None) \<in> set (cf_pending_di_pids f) \<or> p \<in> set pids \<Longrightarrow> (p, None) \<in> set (cf_pending_di_pids (foldl arm_pid f pids))"
proof (induction pids arbitrary: f)
  case (Cons q pids)
  have "(p, None) \<in> set (cf_pending_di_pids (arm_pid f q)) \<or> p \<in> set pids"
    using Cons.prems arm_pid_in_fresh [of p "cf_pending_di_pids f" q] by (auto simp: arm_pid_def)
  from Cons.IH [OF this] show ?case by simp
qed simp

lemma observe_all_val:
  assumes "psi_ok c" "\<forall>p\<in>set pkts. length p = TS_PACKET_SIZE"
  shows "\<exists>c'. observe_all c pkts = Some c' \<and> psi_ok c'"
  using assms
proof (induction pkts arbitrary: c)
  case (Cons p pkts)
  obtain c1 where c1: "(if p ! 0 \<noteq> TS_SYNC_BYTE then Some c else observe_psi c p) = Some c1" "psi_ok c1"
    using observe_psi_val [OF Cons.prems(1), of p] Cons.prems by (cases "p ! 0 = TS_SYNC_BYTE") auto
  have "idx p 0 = Some (p ! 0)" using Cons.prems(2) by (simp add: idx_def)
  with c1 Cons.IH [OF c1(2)] Cons.prems(2) show ?case by simp
qed simp

lemma strip_val: "strip_rtp_header (pk_data p) (pk_is_raw_ts p) = Some (ts_of p)"
  using no_panicE [OF no_panic_strip_rtp [of "pk_data p" "pk_is_raw_ts p"]] by (auto simp: ts_of_def)

lemma observe_passive_val:
  assumes "fixer_ok f"
  shows "\<exists>f'. observe_passive f input_id pkt = Some f' \<and> fixer_ok f' \<and>
     cf_pending_di_pids f' = cf_pending_di_pids f \<and> cf_pending_di_on_pcr f' = cf_pending_di_on_pcr f \<and>
     cf_next_psi_version f' = cf_next_psi_version f"
  using observe_all_val [OF psi_of_ok [OF assms, of input_id] length_ts_chunks, of "ts_of pkt"] assms
  by (auto simp: observe_passive_def strip_val fixer_ok_def)

section \<open>The active input\<close>

text \<open>The PIDs that are due an indicator at the time \<open>now\<close>.\<close>

definition due :: "u64 \<Rightarrow> continuity_fixer \<Rightarrow> u16 set" where
  "due now f = {pid. \<exists>l. (pid, l) \<in> set (cf_pending_di_pids f) \<and> (\<forall>at. l = Some at \<longrightarrow> now < at)}"

lemma lapse_val:
  assumes "pids_ok pids" "uint now < 2 ^ 63"
  shows "pids_ok (lapse_pending now pids) \<and>
     armed (lapse_pending now pids) = {pid. \<exists>l. (pid, l) \<in> set pids \<and> (\<forall>at. l = Some at \<longrightarrow> now < at)}"
proof -
  have fresh: "now < now + PENDING_DI_TIMEOUT_US"
  proof -
    have "uint (now + PENDING_DI_TIMEOUT_US) = uint now + 1000000"
      using assms(2) by (simp add: PENDING_DI_TIMEOUT_US_def uint_word_ariths)
    then show ?thesis by (simp add: word_less_def)
  qed
  have "map fst (map (\<lambda>e. (fst e, case snd e of None \<Rightarrow> Some (now + PENDING_DI_TIMEOUT_US) | Some at \<Rightarrow> Some at)) pids) = map fst pids"
    by simp
  then have "pids_ok (lapse_pending now pids)"
    using assms(1) unfolding pids_ok_def lapse_pending_def by (metis (no_types, lifting) distinct_map_filter)
  moreover have "armed (lapse_pending now pids) = {pid. \<exists>l. (pid, l) \<in> set pids \<and> (\<forall>at. l = Some at \<longrightarrow> now < at)}"
    using fresh by (force simp: armed_def lapse_pending_def split: option.splits)
  ultimately show ?thesis by blast
qed

lemma ts_chunks_prefix: "\<exists>rest. ts = concat (ts_chunks ts) @ rest"
proof (induction ts rule: ts_chunks.induct)
  case (1 ts)
  show ?case
  proof (cases "length ts < TS_PACKET_SIZE")
    case True
    then show ?thesis by (subst ts_chunks.simps) simp
  next
    case False
    obtain rest where "drop TS_PACKET_SIZE ts = concat (ts_chunks (drop TS_PACKET_SIZE ts)) @ rest"
      using 1 [OF False] by blast
    then have "ts = take TS_PACKET_SIZE ts @ concat (ts_chunks (drop TS_PACKET_SIZE ts)) @ rest"
      by (metis append_take_drop_id)
    with False show ?thesis by (subst ts_chunks.simps) auto
  qed
qed

text \<open>The clock samples of a datagram and their positions.\<close>

definition samples :: "rtp_packet \<Rightarrow> (nat \<times> u16) list" where
  "samples p = clocks (length (pk_data p) - length (ts_of p)) (ts_chunks (ts_of p))"

lemma process_packet_val:
  assumes "fixer_ok f" "uint now < 2 ^ 63"
  shows "\<exists>f'. process_packet now f input_id pkt =
       Some (f', case out_of (pk_data pkt) (marks (cf_pending_di_on_pcr f) (due now f) (samples pkt)) of
         None \<Rightarrow> Unchanged | Some b \<Rightarrow> Rewritten b) \<and> fixer_ok f' \<and>
     cf_next_psi_version f' = cf_next_psi_version f \<and>
     cf_pending_di_on_pcr f' = first_after (cf_pending_di_on_pcr f) (samples pkt) \<and>
     armed (cf_pending_di_pids f') = armed_after (due now f) (samples pkt)"
proof -
  define now' where "now' = (if cf_pending_di_pids f = [] then 0 else now)"
  define pids where "pids = (if cf_pending_di_pids f \<noteq> [] then lapse_pending now' (cf_pending_di_pids f) else cf_pending_di_pids f)"
  have pids: "pids_ok pids" "armed pids = due now f"
    using lapse_val [OF _ assms(2), of "cf_pending_di_pids f"] assms(1)
    by (auto simp: pids_def now'_def fixer_ok_def due_def armed_def)
  define start where "start = length (pk_data pkt) - length (ts_of pkt)"
  obtain n where n: "ts_of pkt = drop n (pk_data pkt)" "n = start"
    using strip_is_suffix [of "pk_data pkt" "pk_is_raw_ts pkt"] by (auto simp: strip_val start_def)
  obtain rest where rest: "drop start (pk_data pkt) = concat (ts_chunks (ts_of pkt)) @ rest"
    using ts_chunks_prefix [of "ts_of pkt"] n by metis
  let ?x = "\<lparr>fx_psi = psi_of f input_id, fx_on_pcr = cf_pending_di_on_pcr f, fx_pids = pids, fx_out = None\<rparr>"
  have l: "\<forall>p\<in>set (ts_chunks (ts_of pkt)). length p = 188" using length_ts_chunks by simp
  obtain x where x: "fix_loop (pk_data pkt) start (ts_chunks (ts_of pkt)) ?x = Some x" "pids_ok (fx_pids x)" "psi_ok (fx_psi x)"
      "armed (fx_pids x) = armed_after (due now f) (samples pkt)"
      "fx_on_pcr x = first_after (cf_pending_di_on_pcr f) (samples pkt)"
      "fx_out x = out_of (pk_data pkt) (marks (cf_pending_di_on_pcr f) (due now f) (samples pkt))"
    using fix_loop_val [of ?x start "pk_data pkt" "ts_chunks (ts_of pkt)" rest "[]"] pids psi_of_ok [OF assms(1)] rest l
    by (auto simp: out_of_def samples_def start_def)
  have "process_packet now f input_id pkt = Some (f\<lparr>cf_input_psi := (cf_input_psi f)(input_id \<mapsto> fx_psi x),
      cf_pending_di_on_pcr := fx_on_pcr x, cf_pending_di_pids := fx_pids x\<rparr>,
      case fx_out x of None \<Rightarrow> Unchanged | Some b \<Rightarrow> Rewritten b)"
    using x(1) unfolding process_packet_def process_packet_at_def now'_def [symmetric] pids_def [symmetric] Let_def strip_val
    by (simp add: start_def)
  moreover have "fixer_ok (f\<lparr>cf_input_psi := (cf_input_psi f)(input_id \<mapsto> fx_psi x), cf_pending_di_on_pcr := fx_on_pcr x,
      cf_pending_di_pids := fx_pids x\<rparr>)"
    using assms(1) x(2,3) by (auto simp: fixer_ok_def)
  ultimately show ?thesis using x(4-6) by simp
qed

section \<open>A switch\<close>

text \<open>The sections a fresh assembler completes on a unit, and the PMTs among them.\<close>

fun sections_of :: "section_assembler \<Rightarrow> bytes list \<Rightarrow> bytes list panics" where
  "sections_of asm [] = Some []"
| "sections_of asm (pkt # unit) = do {
     asm \<leftarrow> sa_push_packet asm pkt;
     rest \<leftarrow> sections_of asm unit;
     Some (completed asm @ rest) }"

definition valid_pmt :: "bytes \<Rightarrow> bool" where
  "valid_pmt sec \<longleftrightarrow> sec \<noteq> [] \<and> sec ! 0 = 0x02 \<and> 16 \<le> length sec \<and> mpeg2_crc32 sec = 0"

definition pcr_pid_of :: "bytes \<Rightarrow> u16" where
  "pcr_pid_of sec = be16 (sec ! 8) (sec ! 9) AND 0x1FFF"

definition clocks_named :: "bytes list \<Rightarrow> u16 set" where
  "clocks_named unit =
     (case sections_of sa_new unit of None \<Rightarrow> {}
      | Some secs \<Rightarrow> pcr_pid_of ` {sec \<in> set secs. valid_pmt sec} - {NULL_PID})"

lemma fold_note:
  "set (foldl note_pcr_pid pids secs) = set pids \<union> (pcr_pid_of ` {sec \<in> set secs. valid_pmt sec} - {NULL_PID})"
proof (induction secs arbitrary: pids)
  case (Cons sec secs)
  have "set (note_pcr_pid pids sec) = set pids \<union> (if valid_pmt sec then {pcr_pid_of sec} - {NULL_PID} else {})"
    by (auto simp: note_pcr_pid_def valid_pmt_def pcr_pid_of_def Let_def)
  then show ?case using Cons.IH [of "note_pcr_pid pids sec"] by auto
qed simp

lemma pcr_pids_unit_val:
  "\<exists>secs. sections_of asm unit = Some secs \<and> pcr_pids_unit asm pids unit = Some (foldl note_pcr_pid pids secs)"
proof (induction unit arbitrary: asm pids)
  case (Cons p unit)
  obtain asm' where a: "sa_push_packet asm p = Some asm'" using no_panicE [OF no_panic_push_packet] by blast
  obtain secs where "sections_of asm' unit = Some secs"
      "pcr_pids_unit asm' (foldl note_pcr_pid pids (completed asm')) unit =
        Some (foldl note_pcr_pid (foldl note_pcr_pid pids (completed asm')) secs)"
    using Cons.IH by blast
  with a show ?case by (intro exI [of _ "completed asm' @ secs"]) simp
qed simp

lemma pcr_pids_val: "\<exists>pids. pcr_pids units = Some pids \<and> set pids = (\<Union>u\<in>set units. clocks_named u)"
proof -
  have "\<exists>pids. foldl_panics (pcr_pids_unit sa_new) ps units = Some pids \<and>
      set pids = set ps \<union> (\<Union>u\<in>set units. clocks_named u)" for ps
  proof (induction units arbitrary: ps)
    case (Cons u units)
    obtain secs where s: "sections_of sa_new u = Some secs" "pcr_pids_unit sa_new ps u = Some (foldl note_pcr_pid ps secs)"
      using pcr_pids_unit_val by blast
    have "set (foldl note_pcr_pid ps secs) = set ps \<union> clocks_named u" by (simp add: fold_note clocks_named_def s(1))
    with s(2) Cons.IH [of "foldl note_pcr_pid ps secs"] show ?case by auto
  qed simp
  from this [of "[]"] show ?thesis by (simp add: pcr_pids_def)
qed

text \<open>The first section of a packet carries a version under a valid CRC, if it is a long-form section
  that ends in the packet.\<close>

definition announces :: "bytes \<Rightarrow> bytes \<Rightarrow> u8 \<Rightarrow> bool" where
  "announces pat pat' version \<longleftrightarrow> length pat' = length pat \<and>
     (\<forall>it first. sections_in_packet pat = Some it \<and> fst (psi_next it) = Some first \<and> stampable pat (start first) \<longrightarrow>
        (let s = start first; len = len12 (pat ! (s + 1)) (pat ! (s + 2)) in
         drop_bit 1 (pat' ! (s + 5)) AND 0x1F = version \<and> mpeg2_crc32 (take (3 + len) (drop s pat')) = 0))"

lemma set_psi_version_val:
  assumes "length pat = TS_PACKET_SIZE" "pat ! 1 AND 0x40 \<noteq> 0" "v AND 0x1F = v"
  shows "\<exists>pat'. set_psi_version pat v = Some pat' \<and> announces pat pat' v"
proof -
  obtain it where it: "sections_in_packet pat = Some it" using no_panicE [OF no_panic_sections] assms(1) by (metis order_refl)
  have pusi: "ts_pusi pat = Some True" using assms by (simp add: ts_vals)
  show ?thesis
  proof (cases "\<exists>first. fst (psi_next it) = Some first \<and> stampable pat (start first)")
    case True
    then obtain first where f: "fst (psi_next it) = Some first" "stampable pat (start first)" by blast
    let ?s = "start first" and ?len = "len12 (pat ! (start first + 1)) (pat ! (start first + 2))"
    have ne: "0 < length pat" using assms(1) by simp
    have "set_psi_version pat v = Some (stamped pat ?s ?len v)"
      using assms(1) it pusi f by (simp add: set_psi_version_def set_psi_version_at_val)
    moreover have "announces pat (stamped pat ?s ?len v) v"
      using it f nth_stamped(2,3) [OF f(2) ne, of v] stamped_section_crc [OF f(2), of v] version_field(1) [of "pat ! (?s + 5)" v] assms(3)
      by (simp add: announces_def Let_def)
    ultimately show ?thesis by blast
  next
    case False
    then have "set_psi_version pat v = Some pat"
      using assms(1) it pusi by (auto simp: set_psi_version_def set_psi_version_at_val split: option.splits)
    with False it show ?thesis by (auto simp: announces_def)
  qed
qed

lemma restamp_all:
  "\<forall>u\<in>set us. \<forall>p\<in>set u. length p = TS_PACKET_SIZE \<Longrightarrow>
   \<exists>qss. map_panics (\<lambda>unit. restamp_pmt_unit unit v) us = Some qss \<and> (\<forall>q\<in>set (concat qss). length q = TS_PACKET_SIZE)"
proof (induction us)
  case (Cons u us)
  obtain qs where "restamp_pmt_unit u v = Some qs" "\<forall>q\<in>set qs. length q = TS_PACKET_SIZE"
    using restamp_val [of u v] Cons.prems by auto
  with Cons show ?case by auto
qed simp

lemma on_switch_val:
  assumes "fixer_ok f"
  defines "v \<equiv> (cf_next_psi_version f + 1) AND 0x1F"
  shows "\<exists>f' inj. on_switch order f input_id = Some (f', map raw_item inj) \<and> fixer_ok f' \<and>
     cf_next_psi_version f' = v \<and> cf_pending_di_on_pcr f' \<and> cf_input_psi f' = cf_input_psi f \<and>
     (\<forall>p\<in>set inj. length p = TS_PACKET_SIZE) \<and> (cf_input_psi f input_id = None \<longrightarrow> inj = []) \<and>
     (\<forall>psi. cf_input_psi f input_id = Some psi \<longrightarrow>
        (\<forall>pat. ic_cached_pat psi = Some pat \<longrightarrow> inj \<noteq> [] \<and> announces pat (hd inj) v) \<and>
        (\<forall>pid\<in>set order. \<forall>unit. ic_cached_pmts psi pid = Some unit \<longrightarrow>
           (\<forall>c\<in>clocks_named unit. (c, None) \<in> set (cf_pending_di_pids f'))))"
proof -
  let ?f = "f\<lparr>cf_pending_di_on_pcr := True, cf_next_psi_version := v\<rparr>"
  have vb: "v AND 0x1F = v" by (simp add: v_def and.assoc)
  have ok: "fixer_ok ?f" using assms(1) vb by (simp add: fixer_ok_def)
  show ?thesis
  proof (cases "cf_input_psi f input_id")
    case None
    then have "on_switch order f input_id = Some (?f, map raw_item [])" by (simp add: on_switch_def Let_def v_def)
    with None ok show ?thesis by (intro exI [of _ ?f] exI [of _ "[]"]) simp
  next
    case (Some psi)
    have psi: "psi_ok psi" using assms(1) Some by (simp add: fixer_ok_def)
    define us where "us = List.map_filter (ic_cached_pmts psi) order"
    have us: "\<forall>u\<in>set us. \<forall>p\<in>set u. length p = TS_PACKET_SIZE"
      using psi by (auto simp: us_def psi_ok_def List.map_filter_def)
    obtain pids where pids: "pcr_pids us = Some pids" "set pids = (\<Union>u\<in>set us. clocks_named u)" using pcr_pids_val by blast
    obtain pat where pat: "(case ic_cached_pat psi of None \<Rightarrow> Some []
          | Some pat \<Rightarrow> do { pat \<leftarrow> set_psi_version pat v; Some [pat] }) = Some pat"
        "\<forall>p. ic_cached_pat psi = Some p \<longrightarrow> (\<exists>p'. pat = [p'] \<and> announces p p' v)" "\<forall>p\<in>set pat. length p = TS_PACKET_SIZE"
    proof (cases "ic_cached_pat psi")
      case None
      then show ?thesis using that [of "[]"] by simp
    next
      case (Some p)
      then have "length p = TS_PACKET_SIZE" "p ! 1 AND 0x40 \<noteq> 0" using psi by (auto simp: psi_ok_def)
      from set_psi_version_val [OF this vb] this(1) Some that show ?thesis by (auto simp: announces_def)
    qed
    obtain qss where q: "map_panics (\<lambda>unit. restamp_pmt_unit unit v) us = Some qss" "\<forall>q\<in>set (concat qss). length q = TS_PACKET_SIZE"
      using restamp_all [OF us] by blast
    have e: "on_switch order f input_id = Some (foldl arm_pid ?f pids, map raw_item (pat @ concat qss))"
      unfolding on_switch_def Let_def v_def [symmetric] using Some pids(1) pat(1) q(1)
      by (simp add: us_def [symmetric])
    have "clocks_named unit \<subseteq> set pids" if "pid \<in> set order" "ic_cached_pmts psi pid = Some unit" for pid unit
    proof -
      have "unit \<in> set us" using that by (force simp: us_def List.map_filter_def)
      then show ?thesis using pids(2) by blast
    qed
    then show ?thesis
      using e Some arm_all [of ?f pids] arm_all_fresh [where f = ?f and pids = pids] ok pat(2,3) q(2)
      by (intro exI [of _ "foldl arm_pid ?f pids"] exI [of _ "pat @ concat qss"]) auto
  qed
qed

section \<open>The promises\<close>

text \<open>A fixer after any sequence of operations.\<close>

inductive fixer_reach :: "continuity_fixer \<Rightarrow> bool" where
  new: "fixer_reach cf_new"
| signal: "fixer_reach f \<Longrightarrow> fixer_reach (signal_source_discontinuity f pid)"
| forget: "fixer_reach f \<Longrightarrow> fixer_reach (forget_input f input_id)"
| observed: "fixer_reach f \<Longrightarrow> observe_passive f input_id pkt = Some f' \<Longrightarrow> fixer_reach f'"
| switched: "fixer_reach f \<Longrightarrow> on_switch order f input_id = Some (f', injected) \<Longrightarrow> fixer_reach f'"
| processed: "fixer_reach f \<Longrightarrow> uint now < 2 ^ 63 \<Longrightarrow> process_packet now f input_id pkt = Some (f', r) \<Longrightarrow> fixer_reach f'"

lemma fixer_reach_ok: "fixer_reach f \<Longrightarrow> fixer_ok f"
proof (induction rule: fixer_reach.induct)
  case new
  show ?case by (rule fixer_ok_new)
next
  case (signal f pid)
  then show ?case by (simp add: signal_source_discontinuity_def arm_pid_ok(1))
next
  case (forget f input_id)
  then show ?case by (auto simp: forget_input_def fixer_ok_def)
next
  case (observed f input_id pkt f')
  then show ?case using observe_passive_val [OF observed.IH, of input_id pkt] by auto
next
  case (switched f order input_id f' injected)
  then show ?case using on_switch_val [OF switched.IH, of order input_id] by auto
next
  case (processed f now input_id pkt f' r)
  then show ?case using process_packet_val [OF processed.IH processed.hyps(2), of input_id pkt] by auto
qed

lemma marks_iff:
  "at \<in> set (marks first pids cs) \<longleftrightarrow>
     (\<exists>pre pid post. cs = pre @ (at, pid) # post \<and> (first \<and> pre = [] \<or> pid \<in> pids \<and> pid \<notin> snd ` set pre))"
proof (induction first pids cs rule: marks.induct)
  case (2 first pids a p cs)
  have split: "(\<exists>pre pid post. (a, p) # cs = pre @ (at, pid) # post \<and> (first \<and> pre = [] \<or> pid \<in> pids \<and> pid \<notin> snd ` set pre)) \<longleftrightarrow>
      at = a \<and> (first \<or> p \<in> pids) \<or>
      (\<exists>pre pid post. cs = pre @ (at, pid) # post \<and> pid \<in> pids \<and> pid \<noteq> p \<and> pid \<notin> snd ` set pre)" (is "?L \<longleftrightarrow> ?R")
  proof
    assume ?L
    then obtain pre pid post where h: "(a, p) # cs = pre @ (at, pid) # post" "first \<and> pre = [] \<or> pid \<in> pids \<and> pid \<notin> snd ` set pre"
      by blast
    show ?R
    proof (cases pre)
      case Nil
      with h show ?thesis by auto
    next
      case (Cons x pre')
      with h have "cs = pre' @ (at, pid) # post" "x = (a, p)" "pid \<in> pids" "pid \<notin> snd ` set pre" by auto
      with Cons show ?thesis by (intro disjI2 exI [of _ pre'] exI [of _ pid] exI [of _ post]) auto
    qed
  next
    assume ?R
    then show ?L
    proof
      assume "at = a \<and> (first \<or> p \<in> pids)"
      then show ?L by (intro exI [of _ "[]"] exI [of _ p] exI [of _ cs]) auto
    next
      assume "\<exists>pre pid post. cs = pre @ (at, pid) # post \<and> pid \<in> pids \<and> pid \<noteq> p \<and> pid \<notin> snd ` set pre"
      then obtain pre pid post where "cs = pre @ (at, pid) # post" "pid \<in> pids" "pid \<noteq> p" "pid \<notin> snd ` set pre" by blast
      then show ?L by (intro exI [of _ "(a, p) # pre"] exI [of _ pid] exI [of _ post]) auto
    qed
  qed
  show ?case
  proof (cases "first \<or> p \<in> pids")
    case True
    then show ?thesis using 2(1) [OF True] unfolding split by auto
  next
    case False
    then show ?thesis using 2(2) [OF False] unfolding split by auto
  qed
qed simp

lemma clocks_sound:
  "(at, pid) \<in> set (clocks s pkts) \<Longrightarrow>
   \<exists>i < length pkts. at = s + i * TS_PACKET_SIZE \<and> has_clock (pkts ! i) \<and> pid = pid_of (pkts ! i)"
proof (induction pkts arbitrary: s)
  case (Cons p pkts)
  show ?case
  proof (cases "(at, pid) \<in> set (clocks (s + TS_PACKET_SIZE) pkts)")
    case True
    from Cons.IH [OF this] obtain i where "i < length pkts" "at = s + TS_PACKET_SIZE + i * TS_PACKET_SIZE"
        "has_clock (pkts ! i)" "pid = pid_of (pkts ! i)" by blast
    then show ?thesis by (intro exI [of _ "Suc i"]) simp
  next
    case False
    with Cons.prems show ?thesis by (intro exI [of _ 0]) (auto split: if_splits)
  qed
qed simp

lemma with_di_nth:
  assumes "i < length data"
  shows "with_di data ats ! i = (if i \<in> (\<lambda>a. a + 5) ` set ats then data ! i OR 0x80 else data ! i)"
proof (induction ats rule: rev_induct)
  case (snoc a ats)
  have "(x OR 0x80) OR 0x80 = (x OR 0x80 :: u8)" for x by (simp add: or.assoc)
  with snoc assms show ?case by (cases "i = a + 5") (auto simp: with_di_snoc)
qed (simp add: with_di_def)

text \<open>Property C17.  The fixer gives each clock that is due one exactly one discontinuity indicator and changes
  nothing else: after any sequence of operations, a datagram of the active input is processed
  without panic; the indicator goes to the first clock sample overall if a switch is pending, and to
  the first sample of each PID that was armed and has not lapsed, and to no other packet; the
  datagram is otherwise byte for byte the one received and is passed on as it is when no sample was
  due. Afterwards the switch stays pending exactly if there was no sample, and a PID stays armed
  exactly if it was due and had none.\<close>

theorem fixer_marks_each_clock_once:
  assumes "fixer_reach f" "uint now < 2 ^ 63"
  shows "\<exists>f' r ats. process_packet now f input_id pkt = Some (f', r) \<and>
     (\<forall>at. at \<in> set ats \<longleftrightarrow>
        (\<exists>pre pid post. samples pkt = pre @ (at, pid) # post \<and>
           (cf_pending_di_on_pcr f \<and> pre = [] \<or> pid \<in> due now f \<and> pid \<notin> snd ` set pre))) \<and>
     (\<forall>at\<in>set ats. \<exists>i < length (ts_chunks (ts_of pkt)).
        at = length (pk_data pkt) - length (ts_of pkt) + i * TS_PACKET_SIZE \<and> has_clock (ts_chunks (ts_of pkt) ! i)) \<and>
     (if ats = [] then r = Unchanged
      else \<exists>buf. r = Rewritten buf \<and> length buf = length (pk_data pkt) \<and>
        (\<forall>i < length buf. buf ! i = (if i \<in> (\<lambda>at. at + 5) ` set ats then pk_data pkt ! i OR 0x80 else pk_data pkt ! i))) \<and>
     (cf_pending_di_on_pcr f' \<longleftrightarrow> cf_pending_di_on_pcr f \<and> samples pkt = []) \<and>
     armed (cf_pending_di_pids f') = due now f - snd ` set (samples pkt)"
proof -
  define ats where "ats = marks (cf_pending_di_on_pcr f) (due now f) (samples pkt)"
  obtain f' where p: "process_packet now f input_id pkt =
       Some (f', case out_of (pk_data pkt) ats of None \<Rightarrow> Unchanged | Some b \<Rightarrow> Rewritten b)"
      "cf_pending_di_on_pcr f' = first_after (cf_pending_di_on_pcr f) (samples pkt)"
      "armed (cf_pending_di_pids f') = armed_after (due now f) (samples pkt)"
    using process_packet_val [OF fixer_reach_ok [OF assms(1)] assms(2)] unfolding ats_def by blast
  have m: "at \<in> set ats \<longleftrightarrow> (\<exists>pre pid post. samples pkt = pre @ (at, pid) # post \<and>
      (cf_pending_di_on_pcr f \<and> pre = [] \<or> pid \<in> due now f \<and> pid \<notin> snd ` set pre))" for at
    unfolding ats_def by (rule marks_iff)
  have "\<exists>i < length (ts_chunks (ts_of pkt)).
      at = length (pk_data pkt) - length (ts_of pkt) + i * TS_PACKET_SIZE \<and> has_clock (ts_chunks (ts_of pkt) ! i)"
    if at: "at \<in> set ats" for at
  proof -
    obtain pre pid post where "samples pkt = pre @ (at, pid) # post" using at m [of at] by blast
    then have "(at, pid) \<in> set (samples pkt)" by simp
    from clocks_sound [OF this [unfolded samples_def]] show ?thesis by blast
  qed
  moreover have "if ats = [] then (case out_of (pk_data pkt) ats of None \<Rightarrow> Unchanged | Some b \<Rightarrow> Rewritten b) = Unchanged
      else \<exists>buf. (case out_of (pk_data pkt) ats of None \<Rightarrow> Unchanged | Some b \<Rightarrow> Rewritten b) = Rewritten buf \<and>
        length buf = length (pk_data pkt) \<and>
        (\<forall>i < length buf. buf ! i = (if i \<in> (\<lambda>at. at + 5) ` set ats then pk_data pkt ! i OR 0x80 else pk_data pkt ! i))"
    by (simp add: out_of_def with_di_nth)
  ultimately show ?thesis
    using p m by (intro exI conjI) (auto simp: first_after_def armed_after_def)
qed

text \<open>A source jump on PID 0x100, and its next clock sample.\<close>

definition sample_clock :: rtp_packet where
  "sample_clock = raw_item ([0x47, 0x01, 0x00, 0x30, 7, 0x10, 0, 0, 0, 0, 0, 0] @ replicate 176 0)"

theorem fixer_marks_each_clock_once_witness:
  "\<exists>f' buf. process_packet 5 (signal_source_discontinuity cf_new 0x100) ''a'' sample_clock = Some (f', Rewritten buf) \<and>
     buf ! 5 = 0x90 \<and> armed (cf_pending_di_pids f') = {}"
proof -
  let ?f = "signal_source_discontinuity cf_new 0x100"
  have r: "fixer_reach ?f" by (intro fixer_reach.intros)
  have now: "uint (5 :: u64) < 2 ^ 63" by simp
  have d: "due 5 ?f = {0x100}" by (auto simp: due_def signal_source_discontinuity_def arm_pid_def cf_new_def)
  have s: "samples sample_clock = [(0, 0x100)]" by code_simp
  obtain f' res ats where p: "process_packet 5 ?f ''a'' sample_clock = Some (f', res)"
      "\<forall>at. at \<in> set ats \<longleftrightarrow> (\<exists>pre pid post. [(0, 0x100 :: u16)] = pre @ (at, pid) # post \<and>
           (cf_pending_di_on_pcr ?f \<and> pre = [] \<or> pid \<in> {0x100} \<and> pid \<notin> snd ` set pre))"
      "if ats = [] then res = Unchanged
       else \<exists>buf. res = Rewritten buf \<and> length buf = length (pk_data sample_clock) \<and>
        (\<forall>i < length buf. buf ! i = (if i \<in> (\<lambda>at. at + 5) ` set ats then pk_data sample_clock ! i OR 0x80 else pk_data sample_clock ! i))"
      "armed (cf_pending_di_pids f') = {0x100} - snd ` set [(0 :: nat, 0x100)]"
    using fixer_marks_each_clock_once [OF r now, of "''a''" sample_clock] unfolding d s by (elim exE conjE) (rule that)
  have "(0 :: nat) \<in> set ats" unfolding p(2) [rule_format]
    by (intro exI [of _ "[]"] exI [of _ "0x100"]) simp
  then have a: "ats \<noteq> []" "5 \<in> (\<lambda>at. at + 5) ` set ats" by (auto simp: image_iff)
  have l: "length (pk_data sample_clock) = 188" by (simp add: sample_clock_def raw_item_def)
  obtain buf where b: "res = Rewritten buf" "length buf = 188"
      "\<forall>i < length buf. buf ! i = (if i \<in> (\<lambda>at. at + 5) ` set ats then pk_data sample_clock ! i OR 0x80 else pk_data sample_clock ! i)"
    using p(3) a(1) l by auto
  have "buf ! 5 = pk_data sample_clock ! 5 OR 0x80" using b(3) [rule_format, of 5] b(2) a(2) by simp
  moreover have "pk_data sample_clock ! 5 OR 0x80 = 0x90" by code_simp
  moreover note b(1)
  ultimately show ?thesis using p(1,4) by auto
qed


text \<open>An input that has sent its PAT.\<close>

definition sample_pat :: rtp_packet where
  "sample_pat = raw_item ([0x47, 0x40, 0x00, 0x10, 0, 0x00, 0xB0, 0x0D, 0x00, 0x01, 0xC1, 0, 0, 0, 1, 0xE1, 0x00, 1, 2, 3, 4] @ replicate 167 0xFF)"


end
