(* ===== verification/FixerTaskCorrect.thy ===== *)
theory FixerTaskCorrect
  imports FixerTask ContinuityFixerCorrect
begin

text \<open>
  The fixer task as a whole: every command is handled without panic, the flow stays in one framing
  and carries the bytes of its active input, and no input goes on air without a switch.
\<close>

section \<open>The task\<close>

lemma conform_all_val:
  "\<exists>out f'. conform_all f pkts = Some (out, f') \<and> ff_raw_ts f' = ff_raw_ts f \<and>
     concat (map ts_of out) = concat (map ts_of pkts) \<and>
     (\<forall>raw. ff_raw_ts f = Some raw \<longrightarrow> (\<forall>p\<in>set out. pk_is_raw_ts p = raw))"
proof (induction pkts arbitrary: f)
  case (Cons p pkts)
  obtain out1 f1 where c: "ff_conform f p = Some (out1, f1)" "conformed f p out1 f1" using conform_val by blast
  obtain out2 f2 where r: "conform_all f1 pkts = Some (out2, f2)" "ff_raw_ts f2 = ff_raw_ts f1"
      "concat (map ts_of out2) = concat (map ts_of pkts)" "\<forall>raw. ff_raw_ts f1 = Some raw \<longrightarrow> (\<forall>p\<in>set out2. pk_is_raw_ts p = raw)"
    using Cons.IH by blast
  from c(2) have "ff_raw_ts f1 = ff_raw_ts f" "concat (map ts_of out1) = ts_of p"
      "\<forall>raw. ff_raw_ts f = Some raw \<longrightarrow> (\<forall>p\<in>set out1. pk_is_raw_ts p = raw)"
    by (auto simp: conformed_def)
  with c(1) r show ?case by (intro exI [of _ "out1 @ out2"] exI [of _ f2]) auto
qed simp

lemma concat_bundle: "concat (bundle_ts_packets ps) = concat ps"
proof -
  have "concat (map concat xss) = concat (concat xss)" for xss :: "bytes list list"
    by (induction xss) simp_all
  then show ?thesis by (simp add: bundle_ts_packets_def concat_chunks TS_PACKETS_PER_ITEM_def)
qed

text \<open>An RTP datagram with a header the tables of a switch can be framed with.\<close>

definition usable_header :: "rtp_packet \<Rightarrow> bool" where
  "usable_header p \<longleftrightarrow> pk_is_raw_ts p \<or> 12 \<le> length (pk_data p) \<and> drop_bit 6 (pk_data p ! 0) = 2"

lemma framed_tables:
  assumes "\<forall>p\<in>set injected. pk_is_raw_ts p" "usable_header first"
  shows "concat (map ts_of (frame_switch_psi injected first)) = concat (map pk_data injected)"
proof (cases "pk_is_raw_ts first \<or> injected = []")
  case True
  then have "frame_switch_psi injected first = injected" by (simp add: frame_switch_psi_def)
  moreover have "map ts_of injected = map pk_data injected" using assms(1) by (simp add: ts_of_raw)
  ultimately show ?thesis by (simp only:)
next
  case False
  define cs where "cs = chunks (EDGE_RTP_TS_PACKETS * TS_PACKET_SIZE) (concat (map pk_data injected))"
  have e: "ts_of (edge_rtp_datagram c pt seq ts ssrc tpl sender) = c" for c pt seq ts ssrc tpl sender
    using ts_of_framed [OF edge_framed] .
  have "map ts_of (frame_switch_psi injected first) = cs"
    using False assms(2) unfolding usable_header_def
    by (simp add: frame_switch_psi_def Let_def cs_def RTP_HEADER_MIN_SIZE_def e comp_def split_beta)
  then show ?thesis unfolding cs_def by (simp add: concat_chunks EDGE_RTP_TS_PACKETS_def)
qed

lemma bundled_tables: "concat (map ts_of (bundle_switch_psi injected first)) = concat (map pk_data injected)"
  by (simp add: bundle_switch_psi_def comp_def ts_of_raw concat_bundle)

text \<open>The datagram as the fixer hands it on.\<close>

definition fixed :: "rtp_packet \<Rightarrow> process_result \<Rightarrow> rtp_packet" where
  "fixed pkt r = (case r of Rewritten data \<Rightarrow> pkt\<lparr>pk_data := data\<rparr> | Unchanged \<Rightarrow> pkt)"

definition task_ok :: "fixer_task \<Rightarrow> bool" where
  "task_ok t \<longleftrightarrow> fixer_ok (ft_fixer t)"

lemma ft_forward_val:
  assumes "fixer_ok (ft_fixer t)" "uint clock < 2 ^ 63"
  shows "\<exists>t' out r f'. ft_forward clock t input_id pkt = Some (t', out) \<and>
     process_packet clock (ft_fixer t) input_id pkt = Some (f', r) \<and> ft_fixer t' = f' \<and> fixer_ok f' \<and>
     ff_raw_ts (ft_framing t') = ff_raw_ts (ft_framing t) \<and> concat (map ts_of out) = ts_of (fixed pkt r) \<and>
     (\<forall>raw. ff_raw_ts (ft_framing t) = Some raw \<longrightarrow> (\<forall>p\<in>set out. pk_is_raw_ts p = raw))"
proof -
  obtain f' r where p: "process_packet clock (ft_fixer t) input_id pkt = Some (f', r)" "fixer_ok f'"
    using process_packet_val [OF assms] by blast
  obtain out fr where c: "ff_conform (ft_framing t) (fixed pkt r) = Some (out, fr)" "conformed (ft_framing t) (fixed pkt r) out fr"
    using conform_val by blast
  have "ft_forward clock t input_id pkt = Some (t\<lparr>ft_fixer := f', ft_framing := fr\<rparr>, out)"
    using p(1) c(1) by (cases r) (simp_all add: ft_forward_def fix_active_packet_def fixed_def)
  with p c(2) show ?thesis by (auto simp: conformed_def)
qed

text \<open>What one command does.\<close>

definition handled :: "u64 \<Rightarrow> u16 list \<Rightarrow> fixer_task \<Rightarrow> fixer_command \<Rightarrow> fixer_task \<Rightarrow> rtp_packet list \<Rightarrow> bool" where
  "handled clock order t cmd t' out \<longleftrightarrow>
     (case cmd of
        ActivePacket input_id pkt \<Rightarrow>
          (\<exists>f' r. process_packet clock (ft_fixer t) input_id pkt = Some (f', r) \<and> concat (map ts_of out) = ts_of (fixed pkt r))
      | Switch input_id pkt \<Rightarrow>
          (\<exists>f1 injected f' r psi media. on_switch order (ft_fixer t) input_id = Some (f1, injected) \<and>
             process_packet clock f1 input_id pkt = Some (f', r) \<and> out = psi @ media \<and>
             (usable_header pkt \<longrightarrow> concat (map ts_of psi) = concat (map pk_data injected)) \<and>
             concat (map ts_of media) = ts_of (fixed pkt r))
      | PassivePacket input_id pkt \<Rightarrow> out = []
      | OpaquePacket pkt \<Rightarrow> out = [pkt]
      | Keepalive \<Rightarrow> out = [null_ts_packet] \<and> t' = t
      | SignalSourceDiscontinuity pid \<Rightarrow> out = [] \<and> (\<not> ft_active_ts t \<longrightarrow> t' = t)
      | DropInputPsi input_id \<Rightarrow> out = [])"

definition media :: "fixer_command \<Rightarrow> bool" where
  "media cmd \<longleftrightarrow> (case cmd of ActivePacket _ _ \<Rightarrow> True | Switch _ _ \<Rightarrow> True | _ \<Rightarrow> False)"

definition one_framing :: "fixer_task \<Rightarrow> fixer_command \<Rightarrow> fixer_task \<Rightarrow> rtp_packet list \<Rightarrow> bool" where
  "one_framing t cmd t' out \<longleftrightarrow>
     (\<forall>raw. media cmd \<and> ff_raw_ts (ft_framing t') = Some raw \<longrightarrow> (\<forall>p\<in>set out. pk_is_raw_ts p = raw)) \<and>
     (\<forall>raw. ff_raw_ts (ft_framing t) = Some raw \<and> (\<forall>i. cmd \<noteq> DropInputPsi i) \<longrightarrow> ff_raw_ts (ft_framing t') = Some raw)"

lemma ft_switch_val:
  assumes "fixer_ok (ft_fixer t)" "uint clock < 2 ^ 63"
  shows "\<exists>t' out. ft_step clock order t (Switch input_id pkt) = Some (t', out) \<and> fixer_ok (ft_fixer t') \<and>
     handled clock order t (Switch input_id pkt) t' out \<and> one_framing t (Switch input_id pkt) t' out"
proof -
  obtain fr where fr: "ff_observe (ft_framing t) input_id pkt = Some fr"
      "\<forall>raw. ff_raw_ts (ft_framing t) = Some raw \<longrightarrow> ff_raw_ts fr = Some raw"
    using observe_val [of pkt "ft_framing t" input_id] by auto
  obtain f1 pkts where s: "on_switch order (ft_fixer t) input_id = Some (f1, map raw_item pkts)" "fixer_ok f1"
    using on_switch_val [OF assms(1)] by blast
  define psi where "psi = (if ff_passes fr pkt then frame_switch_psi (map raw_item pkts) pkt else bundle_switch_psi (map raw_item pkts) pkt)"
  have raw: "\<forall>p\<in>set (map raw_item pkts). pk_is_raw_ts p" by (auto simp: raw_item_def)
  have psi: "concat (map ts_of psi) = concat (map pk_data (map raw_item pkts))" if "usable_header pkt"
    using framed_tables [OF raw that] bundled_tables by (simp add: psi_def)
  obtain out1 fr1 where c: "conform_all fr psi = Some (out1, fr1)" "ff_raw_ts fr1 = ff_raw_ts fr"
      "concat (map ts_of out1) = concat (map ts_of psi)" "\<forall>raw. ff_raw_ts fr = Some raw \<longrightarrow> (\<forall>p\<in>set out1. pk_is_raw_ts p = raw)"
    using conform_all_val by blast
  let ?t = "\<lparr>ft_fixer = f1, ft_framing = fr1, ft_active_ts = True\<rparr>"
  have okt: "fixer_ok (ft_fixer ?t)" using s(2) by simp
  obtain t' out2 r f' where w: "ft_forward clock ?t input_id pkt = Some (t', out2)"
      "process_packet clock f1 input_id pkt = Some (f', r)" "ft_fixer t' = f'" "fixer_ok f'"
      "ff_raw_ts (ft_framing t') = ff_raw_ts fr1" "concat (map ts_of out2) = ts_of (fixed pkt r)"
      "\<forall>raw. ff_raw_ts fr1 = Some raw \<longrightarrow> (\<forall>p\<in>set out2. pk_is_raw_ts p = raw)"
    using ft_forward_val [OF okt assms(2), of input_id pkt] by auto
  have "ft_step clock order t (Switch input_id pkt) = Some (t', out1 @ out2)"
    using fr(1) s(1) c(1) w(1) by (simp add: psi_def [symmetric])
  moreover have "handled clock order t (Switch input_id pkt) t' (out1 @ out2)"
    unfolding handled_def fixer_command.case
    by (intro exI conjI impI, rule s(1), rule w(2), rule refl) (use w(6) c(3) psi in auto)
  moreover have "one_framing t (Switch input_id pkt) t' (out1 @ out2)"
    unfolding one_framing_def using fr(2) c(2,4) w(5,7) by auto
  ultimately show ?thesis using w(3,4) by blast
qed

lemma ft_active_val:
  assumes "fixer_ok (ft_fixer t)" "uint clock < 2 ^ 63"
  shows "\<exists>t' out. ft_step clock order t (ActivePacket input_id pkt) = Some (t', out) \<and> fixer_ok (ft_fixer t') \<and>
     handled clock order t (ActivePacket input_id pkt) t' out \<and> one_framing t (ActivePacket input_id pkt) t' out"
proof -
  obtain fr where fr: "ff_observe (ft_framing t) input_id pkt = Some fr"
      "\<forall>raw. ff_raw_ts (ft_framing t) = Some raw \<longrightarrow> ff_raw_ts fr = Some raw"
    using observe_val [of pkt "ft_framing t" input_id] by auto
  let ?t = "t\<lparr>ft_active_ts := True, ft_framing := fr\<rparr>"
  have okt: "fixer_ok (ft_fixer ?t)" using assms(1) by simp
  obtain t' out r f' where w: "ft_forward clock ?t input_id pkt = Some (t', out)"
      "process_packet clock (ft_fixer t) input_id pkt = Some (f', r)" "ft_fixer t' = f'" "fixer_ok f'"
      "ff_raw_ts (ft_framing t') = ff_raw_ts fr" "concat (map ts_of out) = ts_of (fixed pkt r)"
      "\<forall>raw. ff_raw_ts fr = Some raw \<longrightarrow> (\<forall>p\<in>set out. pk_is_raw_ts p = raw)"
    using ft_forward_val [OF okt assms(2), of input_id pkt] by auto
  have "ft_step clock order t (ActivePacket input_id pkt) = Some (t', out)" using fr(1) w(1) by simp
  moreover have "handled clock order t (ActivePacket input_id pkt) t' out" unfolding handled_def using w(2,6) by auto
  moreover have "one_framing t (ActivePacket input_id pkt) t' out" unfolding one_framing_def using fr(2) w(5,7) by auto
  ultimately show ?thesis using w(3,4) by blast
qed

lemma ft_step_val:
  assumes "fixer_ok (ft_fixer t)" "uint clock < 2 ^ 63"
  shows "\<exists>t' out. ft_step clock order t cmd = Some (t', out) \<and> fixer_ok (ft_fixer t') \<and>
     handled clock order t cmd t' out \<and> one_framing t cmd t' out"
proof (cases cmd)
  case (ActivePacket input_id pkt)
  with ft_active_val [OF assms] show ?thesis by blast
next
  case (Switch input_id pkt)
  with ft_switch_val [OF assms] show ?thesis by blast
next
  case (PassivePacket input_id pkt)
  obtain fr where "ff_note (ft_framing t) input_id pkt = Some fr" "ff_raw_ts fr = ff_raw_ts (ft_framing t)"
    using note_val by blast
  moreover obtain f' where "observe_passive (ft_fixer t) input_id pkt = Some f'" "fixer_ok f'"
    using observe_passive_val [OF assms(1)] by blast
  ultimately show ?thesis using PassivePacket by (auto simp: handled_def one_framing_def media_def)
next
  case (SignalSourceDiscontinuity pid)
  then show ?thesis
    using assms(1) arm_pid_ok(1) by (auto simp: handled_def one_framing_def media_def signal_source_discontinuity_def)
next
  case (DropInputPsi input_id)
  then show ?thesis
    using assms(1) by (auto simp: handled_def one_framing_def media_def forget_input_def fixer_ok_def)
qed (use assms in \<open>auto simp: handled_def one_framing_def media_def\<close>)

text \<open>The task after any sequence of commands.\<close>

inductive task_reach :: "fixer_task \<Rightarrow> bool" where
  started: "task_reach (ft_new seq ssrc)"
| stepped: "task_reach t \<Longrightarrow> uint clock < 2 ^ 63 \<Longrightarrow> ft_step clock order t cmd = Some (t', out) \<Longrightarrow> task_reach t'"

lemma task_reach_ok: "task_reach t \<Longrightarrow> fixer_ok (ft_fixer t)"
proof (induction rule: task_reach.induct)
  case (started seq ssrc)
  then show ?case using fixer_ok_new by (simp add: ft_new_def)
next
  case (stepped t clock order cmd t' out)
  then show ?case using ft_step_val [OF stepped.IH stepped.hyps(2), of order cmd] by auto
qed


text \<open>A raw datagram on a flow that an RTP datagram has settled.\<close>

definition sample_rtp :: rtp_packet where
  "sample_rtp = edge_rtp_datagram (pk_data sample_clock) 33 7 1000 5 (raw_item []) None"


section \<open>The forwarders\<close>

text \<open>Packets of one input as its forwarder sees them: the active input and whether the queue had
  room. The outcome of each is whether the input was active and the command the queue took.\<close>

fun fw_run :: "forwarder \<Rightarrow> (string \<times> bool \<times> rtp_packet) list \<Rightarrow> (bool \<times> fixer_command option) list" where
  "fw_run w [] = []"
| "fw_run w ((active, room, pkt) # evs) =
     (let (w', cmd, refused) = fw_packet w active room pkt in (active = fw_input_id w, cmd) # fw_run w' evs)"

lemma length_fw_run: "length (fw_run w evs) = length evs"
proof (induction evs arbitrary: w)
  case (Cons ev evs)
  then show ?case by (cases ev) (simp add: split_beta Let_def)
qed simp

text \<open>Since the forwarder last saw its input passive, the queue has taken a switch to it.\<close>

definition announced :: "string \<Rightarrow> (bool \<times> fixer_command option) list \<Rightarrow> bool" where
  "announced input_id h \<longleftrightarrow>
     (\<exists>h1 pkt h2. h = h1 @ (True, Some (Switch input_id pkt)) # h2 \<and> (\<forall>e\<in>set h2. fst e))"

lemma announced_more: "announced i h \<Longrightarrow> fst e \<Longrightarrow> announced i (h @ [e])"
  unfolding announced_def by (elim exE) (rule exI, rule exI, rule exI, auto)

lemma announced_now: "announced i (h @ [(True, Some (Switch i pkt))])"
  unfolding announced_def by (intro exI [of _ h] exI [of _ pkt] exI [of _ "[]"]) simp

lemma fw_run_announced:
  assumes "fw_ts_carrier w" "fw_was_active w \<longrightarrow> announced (fw_input_id w) h"
  shows "\<forall>k pkt. k < length evs \<and> snd (fw_run w evs ! k) = Some (ActivePacket (fw_input_id w) pkt) \<longrightarrow>
     announced (fw_input_id w) (h @ take k (fw_run w evs))"
  using assms
proof (induction evs arbitrary: w h)
  case (Cons ev evs)
  obtain active room p where ev: "ev = (active, room, p)" by (cases ev)
  define w' cmd refused where d: "w' = fst (fw_packet w active room p)" "cmd = fst (snd (fw_packet w active room p))"
      "refused = snd (snd (fw_packet w active room p))"
  have r: "fw_run w (ev # evs) = (active = fw_input_id w, cmd) # fw_run w' evs"
    by (simp add: ev d split_beta Let_def)
  have w': "fw_ts_carrier w'" "fw_input_id w' = fw_input_id w"
    using Cons.prems(1) by (auto simp: d fw_packet_def Let_def)
  have first: "announced (fw_input_id w) h" if "cmd = Some (ActivePacket (fw_input_id w) q)" for q
    using that Cons.prems by (auto simp: d fw_packet_def Let_def split: if_splits)
  have n: "fw_was_active w' \<longrightarrow> announced (fw_input_id w) (h @ [(active = fw_input_id w, cmd)])"
  proof
    assume a: "fw_was_active w'"
    then have act: "active = fw_input_id w" by (auto simp: d fw_packet_def Let_def split: if_splits)
    show "announced (fw_input_id w) (h @ [(active = fw_input_id w, cmd)])"
    proof (cases "fw_was_active w")
      case True
      then show ?thesis using Cons.prems(2) act by (intro announced_more) auto
    next
      case False
      then have "cmd = Some (Switch (fw_input_id w) p)"
        using a act Cons.prems(1) by (auto simp: d fw_packet_def Let_def split: if_splits)
      then show ?thesis using act announced_now by simp
    qed
  qed
  have ih: "\<forall>k q. k < length evs \<and> snd (fw_run w' evs ! k) = Some (ActivePacket (fw_input_id w) q) \<longrightarrow>
      announced (fw_input_id w) ((h @ [(active = fw_input_id w, cmd)]) @ take k (fw_run w' evs))"
    using Cons.IH [of w' "h @ [(active = fw_input_id w, cmd)]"] w' n by simp
  show ?case
  proof (intro allI impI, elim conjE)
    fix k q assume k: "k < length (ev # evs)" "snd (fw_run w (ev # evs) ! k) = Some (ActivePacket (fw_input_id w) q)"
    show "announced (fw_input_id w) (h @ take k (fw_run w (ev # evs)))"
    proof (cases k)
      case 0
      with k(2) first r show ?thesis by simp
    next
      case (Suc j)
      then have "j < length evs" "snd (fw_run w' evs ! j) = Some (ActivePacket (fw_input_id w) q)" using k r by auto
      with ih have "announced (fw_input_id w) ((h @ [(active = fw_input_id w, cmd)]) @ take j (fw_run w' evs))" by blast
      then show ?thesis using Suc r by simp
    qed
  qed
qed simp

text \<open>Property C35.  An input the forwarder saw passive goes on air with a switch: however the queue refuses
  commands, an active packet is taken from it only after a switch to the input was taken, with the
  input active at every packet since. A switch the queue refused is offered again with the next
  packet.\<close>

theorem switch_survives_a_full_queue:
  assumes "fw_ts_carrier w" "\<not> fw_was_active w" "k < length evs"
    "snd (fw_run w evs ! k) = Some (ActivePacket (fw_input_id w) pkt)"
  shows "\<exists>j < k. \<exists>p. fw_run w evs ! j = (True, Some (Switch (fw_input_id w) p)) \<and> (\<forall>i. j < i \<and> i < k \<longrightarrow> fst (fw_run w evs ! i))"
proof -
  have "\<forall>k pkt. k < length evs \<and> snd (fw_run w evs ! k) = Some (ActivePacket (fw_input_id w) pkt) \<longrightarrow>
      announced (fw_input_id w) ([] @ take k (fw_run w evs))"
    by (rule fw_run_announced) (use assms in auto)
  then have "announced (fw_input_id w) ([] @ take k (fw_run w evs))" using assms(3,4) by blast
  then obtain h1 p h2 where h: "take k (fw_run w evs) = h1 @ (True, Some (Switch (fw_input_id w) p)) # h2" "\<forall>e\<in>set h2. fst e"
    by (auto simp: announced_def)
  have "length (fw_run w evs) = length evs"
    by (rule length_fw_run)
  then have l: "length (take k (fw_run w evs)) = k" using assms(3) by simp
  have n: "fw_run w evs ! i = (h1 @ (True, Some (Switch (fw_input_id w) p)) # h2) ! i" if "i < k" for i
    using that h(1) by (metis nth_take)
  have len: "length h1 + 1 + length h2 = k" using l h(1) by simp
  have "fst (fw_run w evs ! i)" if "length h1 < i" "i < k" for i
  proof -
    have "(h1 @ (True, Some (Switch (fw_input_id w) p)) # h2) ! i = h2 ! (i - length h1 - 1)"
      using that by (simp add: nth_append nth_Cons')
    moreover have "h2 ! (i - length h1 - 1) \<in> set h2" using that len by (intro nth_mem) linarith
    ultimately show ?thesis using h(2) n [OF that(2)] by simp
  qed
  moreover have "fw_run w evs ! length h1 = (True, Some (Switch (fw_input_id w) p))" using n [of "length h1"] len by simp
  ultimately show ?thesis using len by (intro exI [of _ "length h1"] conjI exI [of _ p]) auto
qed

text \<open>The queue is full when the input becomes active; the switch goes with its second packet.\<close>

definition sample_forwarder :: "string \<Rightarrow> forwarder" where
  "sample_forwarder input_id = \<lparr>fw_input_id = input_id, fw_ts_carrier = True, fw_was_active = False, fw_idr = False,
     fw_bytes = 0, fw_packets = 0\<rparr>"

theorem switch_survives_a_full_queue_witness:
  "\<exists>j < 2. \<exists>p. fw_run (sample_forwarder ''a'')
      [(''a'', False, sample_clock), (''a'', True, sample_clock), (''a'', True, sample_clock)] ! j = (True, Some (Switch ''a'' p))"
proof -
  let ?w = "sample_forwarder ''a''"
  let ?evs = "[(''a'', False, sample_clock), (''a'', True, sample_clock), (''a'', True, sample_clock)]"
  have i: "fw_input_id ?w = ''a''" "fw_ts_carrier ?w" "\<not> fw_was_active ?w" by (simp_all add: sample_forwarder_def)
  have k: "2 < length ?evs" "snd (fw_run ?w ?evs ! 2) = Some (ActivePacket (fw_input_id ?w) sample_clock)"
    by (simp, simp add: fw_packet_def sample_forwarder_def Let_def numeral_2_eq_2)
  show ?thesis using switch_survives_a_full_queue [OF i(2,3) k] unfolding i(1) by blast
qed

text \<open>A forwarder learns that its input was passive only from a packet that arrives meanwhile. An
  input that is silent while another one is on air returns without a switch: no tables are injected
  and no indicator is armed for its clock, although the task has switched away from it.\<close>

lemma silent_input_returns_unannounced:
  fixes p q r :: rtp_packet
  defines "a1 \<equiv> fw_packet (sample_forwarder ''a'') ''a'' True p"
    and "b1 \<equiv> fw_packet (sample_forwarder ''b'') ''b'' True q"
  shows "fst (snd a1) = Some (Switch ''a'' p)" "fst (snd b1) = Some (Switch ''b'' q)"
    "fst (snd (fw_packet (fst a1) ''a'' True r)) = Some (ActivePacket ''a'' r)"
  unfolding a1_def b1_def by (simp_all add: fw_packet_def sample_forwarder_def Let_def)

end
