(* ===== verification/RustResult.thy ===== *)
theory RustResult
  imports RustSlice
begin

text \<open>
  Fallible Rust functions: a \<open>Result\<close> whose computation may panic. \<open>None\<close> is the panic, as in
  the slice theory; \<open>ok\<close> and \<open>err\<close> are the two variants of the result and \<open>and_then\<close> is the
  \<open>?\<close> operator with the code that follows it. A congruence rule makes the facts about the first
  computation available in the termination proofs of recursive functions written with it.
\<close>

type_synonym ('e, 'a) fallible = "('e + 'a) panics"

definition ok :: "'a \<Rightarrow> ('e, 'a) fallible" where
  "ok x = Some (Inr x)"

definition err :: "'e \<Rightarrow> ('e, 'a) fallible" where
  "err e = Some (Inl e)"

definition and_then :: "('e, 'a) fallible \<Rightarrow> ('a \<Rightarrow> ('e, 'b) fallible) \<Rightarrow> ('e, 'b) fallible" where
  "and_then m f = (case m of None \<Rightarrow> None | Some (Inl e) \<Rightarrow> Some (Inl e) | Some (Inr x) \<Rightarrow> f x)"

text \<open>A computation that can only panic, used where a result is expected.\<close>

definition unless_panic :: "'a panics \<Rightarrow> ('e, 'a) fallible" where
  "unless_panic m = map_option Inr m"

lemma and_then_cong [fundef_cong]:
  assumes "m = m'" and "\<And>x. m' = ok x \<Longrightarrow> f x = g x"
  shows "and_then m f = and_then m' g"
  using assms by (auto simp: and_then_def ok_def split: option.splits sum.splits)

lemma and_then_ok [simp]: "and_then (ok x) f = f x"
  and and_then_err [simp]: "and_then (err e) f = err e"
  and and_then_None [simp]: "and_then None f = None"
  by (simp_all add: and_then_def ok_def err_def)

lemma unless_panic_Some [simp]: "unless_panic (Some x) = ok x" and unless_panic_None [simp]: "unless_panic None = None"
  by (simp_all add: unless_panic_def ok_def)

lemma ok_inject [simp]: "ok x = ok y \<longleftrightarrow> x = y"
  and err_inject [simp]: "err e = err e' \<longleftrightarrow> e = e'"
  and ok_not_err [simp]: "ok x \<noteq> err e" "err e \<noteq> ok x"
  and ok_not_None [simp]: "ok x \<noteq> None" "None \<noteq> ok x"
  and err_not_None [simp]: "err e \<noteq> None" "None \<noteq> err e"
  by (auto simp: ok_def err_def)

lemma and_then_eq_ok: "and_then m f = ok y \<longleftrightarrow> (\<exists>x. m = ok x \<and> f x = ok y)"
  by (auto simp: and_then_def ok_def split: option.splits sum.splits)

lemma unless_panic_eq_ok [simp]: "unless_panic m = ok x \<longleftrightarrow> m = Some x"
  by (auto simp: unless_panic_def ok_def)

lemma fallible_cases:
  obtains (panic) "m = None" | (ok) x where "m = ok x" | (err) e where "m = err e"
  unfolding ok_def err_def by (metis option.exhaust sum.exhaust)

lemma no_panic_ok [simp]: "no_panic (ok x)" and no_panic_err [simp]: "no_panic (err e)"
  by (simp_all add: ok_def err_def)

lemma no_panic_and_then [no_panic_simps]:
  "no_panic (and_then m f) \<longleftrightarrow> no_panic m \<and> (\<forall>x. m = ok x \<longrightarrow> no_panic (f x))"
  by (cases m rule: fallible_cases) auto

lemma no_panic_unless_panic [no_panic_simps]: "no_panic (unless_panic m) \<longleftrightarrow> no_panic m"
  by (cases m) auto

end
