(* ===== verification/Amf0.thy ===== *)
theory Amf0
  imports RustResult
begin

text \<open>
  The AMF0 codec of the RTMP input and output (\<open>engine/rtmp/amf0.rs\<close>). A Rust string is the list
  of its UTF-8 bytes and an \<open>f64\<close> is its 64-bit pattern. \<open>String::from_utf8_lossy\<close> is written out:
  it replaces every maximal ill-formed sequence by U+FFFD. The decoder threads the value budget
  and can stop with an error or, in principle, panic on a slice; both are values of the model.
\<close>

section \<open>UTF-8\<close>

definition is_cont :: "u8 \<Rightarrow> bool" where
  "is_cont b \<longleftrightarrow> b AND 0xC0 = 0x80"

definition utf8_char_width :: "u8 \<Rightarrow> nat" where
  "utf8_char_width b =
     (if b < 0x80 then 1 else if b < 0xC2 then 0 else if b < 0xE0 then 2 else if b < 0xF0 then 3
      else if b < 0xF5 then 4 else 0)"

text \<open>The second bytes a leading byte of a three- or four-byte sequence admits.\<close>

definition second_ok :: "u8 \<Rightarrow> u8 \<Rightarrow> bool" where
  "second_ok b c \<longleftrightarrow>
     (if b = 0xE0 then 0xA0 \<le> c \<and> c \<le> 0xBF
      else if b = 0xED then 0x80 \<le> c \<and> c \<le> 0x9F
      else if b = 0xF0 then 0x90 \<le> c \<and> c \<le> 0xBF
      else if b = 0xF4 then 0x80 \<le> c \<and> c \<le> 0x8F
      else 0x80 \<le> c \<and> c \<le> 0xBF)"

text \<open>The sequence at the head of the bytes: whether it is a character, and how many bytes it or
  the ill-formed sequence takes. A byte past the end reads as zero.\<close>

definition utf8_head :: "bytes \<Rightarrow> bool \<times> nat" where
  "utf8_head bs =
     (let b = byte_at bs 0; w = utf8_char_width b in
      if w = 1 then (True, 1)
      else if w = 2 then (if is_cont (byte_at bs 1) then (True, 2) else (False, 1))
      else if w = 3 then
        (if \<not> second_ok b (byte_at bs 1) then (False, 1)
         else if \<not> is_cont (byte_at bs 2) then (False, 2) else (True, 3))
      else if w = 4 then
        (if \<not> second_ok b (byte_at bs 1) then (False, 1)
         else if \<not> is_cont (byte_at bs 2) then (False, 2)
         else if \<not> is_cont (byte_at bs 3) then (False, 3) else (True, 4))
      else (False, 1))"

lemma utf8_head_pos: "0 < snd (utf8_head bs)"
  by (simp add: utf8_head_def Let_def)

function from_utf8_lossy :: "bytes \<Rightarrow> bytes" where
  "from_utf8_lossy bs =
     (if bs = [] then []
      else (if fst (utf8_head bs) then take (snd (utf8_head bs)) bs else [0xEF, 0xBF, 0xBD]) @
           from_utf8_lossy (drop (snd (utf8_head bs)) bs))"
  by pat_completeness auto

termination
  by (relation "measure length") (auto simp: utf8_head_pos)

function utf8_valid :: "bytes \<Rightarrow> bool" where
  "utf8_valid bs \<longleftrightarrow>
     (if bs = [] then True
      else if fst (utf8_head bs) then utf8_valid (drop (snd (utf8_head bs)) bs) else False)"
  by pat_completeness auto

termination
  by (relation "measure length") (auto simp: utf8_head_pos)

declare from_utf8_lossy.simps [simp del] utf8_valid.simps [simp del]

section \<open>Values\<close>

datatype amf0_value =
  AmfNumber u64
| AmfBoolean bool
| AmfString bytes
| AmfObject "(bytes \<times> amf0_value) list"
| AmfNull

definition as_str :: "amf0_value \<Rightarrow> bytes option" where
  "as_str v = (case v of AmfString s \<Rightarrow> Some s | _ \<Rightarrow> None)"

definition as_f64 :: "amf0_value \<Rightarrow> u64 option" where
  "as_f64 v = (case v of AmfNumber n \<Rightarrow> Some n | _ \<Rightarrow> None)"

definition get_property :: "amf0_value \<Rightarrow> bytes \<Rightarrow> amf0_value option" where
  "get_property v key =
     (case v of AmfObject props \<Rightarrow> map_option snd (find (\<lambda>(k, _). k = key) props) | _ \<Rightarrow> None)"

definition MARKER_NUMBER :: u8 where "MARKER_NUMBER = 0x00"
definition MARKER_BOOLEAN :: u8 where "MARKER_BOOLEAN = 0x01"
definition MARKER_STRING :: u8 where "MARKER_STRING = 0x02"
definition MARKER_OBJECT :: u8 where "MARKER_OBJECT = 0x03"
definition MARKER_NULL :: u8 where "MARKER_NULL = 0x05"
definition MARKER_OBJECT_END :: u8 where "MARKER_OBJECT_END = 0x09"

lemmas amf0_markers = MARKER_NUMBER_def MARKER_BOOLEAN_def MARKER_STRING_def MARKER_OBJECT_def
  MARKER_NULL_def MARKER_OBJECT_END_def

section \<open>Encoder\<close>

text \<open>\<open>put_u16\<close>, \<open>put_f64\<close> and \<open>f64::from_be_bytes\<close>.\<close>

definition put_u16 :: "u16 \<Rightarrow> bytes" where
  "put_u16 w = [hi8 w, lo8 w]"

definition put_u64 :: "u64 \<Rightarrow> bytes" where
  "put_u64 w = map (\<lambda>k. ucast (drop_bit (8 * k) w)) [7, 6, 5, 4, 3, 2, 1, 0]"

definition u64_from_be :: "bytes \<Rightarrow> u64" where
  "u64_from_be bs = foldl (\<lambda>acc b. push_bit 8 acc OR ucast b) 0 bs"

definition encode_raw_string :: "bytes \<Rightarrow> bytes" where
  "encode_raw_string s = put_u16 (of_nat (length s)) @ s"

definition encode_string :: "bytes \<Rightarrow> bytes" where
  "encode_string s = MARKER_STRING # encode_raw_string s"

text \<open>The bytes \<open>encode\<close> appends to the buffer.\<close>

fun encode :: "amf0_value \<Rightarrow> bytes" and encode_props :: "(bytes \<times> amf0_value) list \<Rightarrow> bytes" where
  "encode (AmfNumber n) = MARKER_NUMBER # put_u64 n"
| "encode (AmfBoolean b) = [MARKER_BOOLEAN, if b then 1 else 0]"
| "encode (AmfString s) = encode_string s"
| "encode (AmfObject props) =
     MARKER_OBJECT # encode_props props @ put_u16 0 @ [MARKER_OBJECT_END]"
| "encode AmfNull = [MARKER_NULL]"
| "encode_props [] = []"
| "encode_props ((key, val) # props) = encode_raw_string key @ encode val @ encode_props props"

definition encode_values :: "amf0_value list \<Rightarrow> bytes" where
  "encode_values values = concat (map encode values)"

section \<open>Decoder\<close>

datatype amf0_error =
  DepthExceeded
| ValuesExceeded
| UnexpectedEnd
| NeedBytes
| KeyFailed amf0_error
| ValueFailed amf0_error

definition MAX_AMF0_DEPTH :: nat where "MAX_AMF0_DEPTH = 32"
definition MAX_AMF0_VALUES :: nat where "MAX_AMF0_VALUES = 50000"

text \<open>The message of the error subtracts the position from the length.\<close>

definition ensure_remaining :: "bytes \<Rightarrow> nat \<Rightarrow> nat \<Rightarrow> (amf0_error, unit) fallible" where
  "ensure_remaining data pos need =
     (if pos + need > length data
      then (if pos \<le> length data then err NeedBytes else None)
      else ok ())"

definition decode_raw_string :: "bytes \<Rightarrow> nat \<Rightarrow> (amf0_error, bytes \<times> nat) fallible" where
  "decode_raw_string data pos =
     and_then (ensure_remaining data pos 2) (\<lambda>_.
     and_then (unless_panic (idx data pos)) (\<lambda>b0.
     and_then (unless_panic (idx data (pos + 1))) (\<lambda>b1.
     let len = unat (be16 b0 b1); start = pos + 2 in
     and_then (ensure_remaining data start len) (\<lambda>_.
     and_then (unless_panic (slice data start (start + len))) (\<lambda>s.
     ok (from_utf8_lossy s, start + len))))))"

text \<open>\<open>anyhow::Context\<close>: the error is wrapped, success and panic are kept.\<close>

definition with_context :: "('e \<Rightarrow> 'e) \<Rightarrow> ('e, 'a) fallible \<Rightarrow> ('e, 'a) fallible" where
  "with_context c m = map_option (map_sum c id) m"

lemma with_context_ok [simp]: "with_context c m = ok x \<longleftrightarrow> m = ok x"
  by (cases m rule: fallible_cases) (auto simp: with_context_def ok_def err_def)

lemma with_context_of_ok [simp]: "with_context c (ok x) = ok x"
  by simp

lemma no_panic_with_context [no_panic_simps]: "no_panic (with_context c m) \<longleftrightarrow> no_panic m"
  by (simp add: no_panic_def with_context_def)

text \<open>The test for the object end: a short-circuit conjunction of bounded reads.\<close>

definition at_object_end :: "bytes \<Rightarrow> nat \<Rightarrow> bool panics" where
  "at_object_end data pos =
     (if pos + 3 \<le> length data then do {
        b0 \<leftarrow> idx data pos;
        b1 \<leftarrow> idx data (pos + 1);
        b2 \<leftarrow> idx data (pos + 2);
        Some (b0 = 0x00 \<and> b1 = 0x00 \<and> b2 = MARKER_OBJECT_END)
      } else Some False)"

function decode_value ::
    "bytes \<Rightarrow> nat \<Rightarrow> nat \<Rightarrow> nat \<Rightarrow> (amf0_error, amf0_value \<times> nat \<times> nat) fallible"
  and decode_object ::
    "bytes \<Rightarrow> nat \<Rightarrow> nat \<Rightarrow> nat \<Rightarrow> (bytes \<times> amf0_value) list \<Rightarrow>
     (amf0_error, amf0_value \<times> nat \<times> nat) fallible" where
  "decode_value data pos depth budget =
     (if depth > MAX_AMF0_DEPTH then err DepthExceeded
      else if budget = 0 then err ValuesExceeded
      else if pos \<ge> length data then err UnexpectedEnd
      else and_then (unless_panic (idx data pos)) (\<lambda>marker.
        if marker = MARKER_NUMBER then
          and_then (ensure_remaining data (pos + 1) 8) (\<lambda>_.
          and_then (unless_panic (slice data (pos + 1) (pos + 9))) (\<lambda>s.
          ok (AmfNumber (u64_from_be s), pos + 9, budget - 1)))
        else if marker = MARKER_BOOLEAN then
          and_then (ensure_remaining data (pos + 1) 1) (\<lambda>_.
          and_then (unless_panic (idx data (pos + 1))) (\<lambda>b.
          ok (AmfBoolean (b \<noteq> 0), pos + 2, budget - 1)))
        else if marker = MARKER_STRING then
          and_then (decode_raw_string data (pos + 1)) (\<lambda>(s, new_pos).
          ok (AmfString s, new_pos, budget - 1))
        else if marker = MARKER_OBJECT then decode_object data (pos + 1) depth (budget - 1) []
        else if marker = MARKER_NULL then ok (AmfNull, pos + 1, budget - 1)
        else if marker = 0x08 then
          and_then (ensure_remaining data (pos + 1) 4) (\<lambda>_.
          decode_object data (pos + 5) depth (budget - 1) [])
        else ok (AmfNull, length data, budget - 1)))"
| "decode_object data pos depth budget props =
     and_then (unless_panic (at_object_end data pos)) (\<lambda>at_end.
     if at_end then ok (AmfObject props, pos + 3, budget)
     else
       and_then (with_context KeyFailed (decode_raw_string data pos)) (\<lambda>(key, pos1).
       and_then (with_context ValueFailed (decode_value data pos1 (depth + 1) budget))
         (\<lambda>(val, pos2, budget2).
       if pos2 \<ge> length data then ok (AmfObject (props @ [(key, val)]), pos2, budget2)
       else decode_object data pos2 depth budget2 (props @ [(key, val)]))))"
  by pat_completeness auto

text \<open>Before termination is known: a decoded value has used some of the budget.\<close>

lemma decode_budget_partial:
  "decode_value_decode_object_dom (Inl (data, pos, depth, budget)) \<Longrightarrow>
     (\<forall>v p b. decode_value data pos depth budget = ok (v, p, b) \<longrightarrow> b < budget)"
  "decode_value_decode_object_dom (Inr (data, pos, depth, budget, props)) \<Longrightarrow>
     (\<forall>v p b. decode_object data pos depth budget props = ok (v, p, b) \<longrightarrow> b \<le> budget)"
proof (induction data pos depth budget and data pos depth budget props
    rule: decode_value_decode_object.pinduct)
  case (1 data pos depth budget)
  note IH = 1(2,3)
  show ?case
  proof (intro allI impI)
    fix v p b
    assume "decode_value data pos depth budget = ok (v, p, b)"
    then show "b < budget"
      using IH by (fastforce simp: decode_value.psimps [OF 1(1)] and_then_eq_ok split: if_splits)
  qed
next
  case (2 data pos depth budget props)
  note IH = 2(2,3)
  show ?case
  proof (intro allI impI)
    fix v p b
    assume "decode_object data pos depth budget props = ok (v, p, b)"
    then show "b \<le> budget"
      using IH by (fastforce simp: decode_object.psimps [OF 2(1)] and_then_eq_ok split: if_splits)
  qed
qed

lemma decode_total: "All decode_value_decode_object_dom"
proof (relation "measure (case_sum (\<lambda>(_, _, _, b). 2 * b) (\<lambda>(_, _, _, b, _). 2 * b + 1))",
    goal_cases)
  case 5
  then show ?case by (auto dest!: decode_budget_partial(1))
qed auto

termination decode_value
  by (rule decode_total)

declare decode_value.simps [simp del] decode_object.simps [simp del]

lemma decode_value_budget: "decode_value data pos depth budget = ok (v, p, b) \<Longrightarrow> b < budget"
  and decode_object_budget: "decode_object data pos depth budget props = ok (v, p, b) \<Longrightarrow> b \<le> budget"
  using decode_budget_partial [OF decode_total [rule_format]] by simp_all

text \<open>The loop of \<open>decode_all\<close>.\<close>

function decode_loop ::
    "bytes \<Rightarrow> nat \<Rightarrow> nat \<Rightarrow> amf0_value list \<Rightarrow> (amf0_error, amf0_value list) fallible" where
  "decode_loop data pos budget values =
     (if pos < length data then
        and_then (decode_value data pos 0 budget) (\<lambda>(val, new_pos, budget').
        decode_loop data new_pos budget' (values @ [val]))
      else ok values)"
  by pat_completeness auto

termination
  by (relation "measure (\<lambda>(_, _, b, _). b)") (auto dest: decode_value_budget)

declare decode_loop.simps [simp del]

definition decode_all :: "bytes \<Rightarrow> (amf0_error, amf0_value list) fallible" where
  "decode_all data = decode_loop data 0 MAX_AMF0_VALUES []"

end
