(* ===== verification/Amf0Facts.thy ===== *)
theory Amf0Facts
  imports Amf0
begin

text \<open>
  Facts of the AMF0 codec: lossy UTF-8 decoding is the identity on well-formed strings and always
  yields one, the big-endian fields read back, and what the decoder does at the start of an
  encoded value. The measures \<open>amf_count\<close> and \<open>amf_depth\<close> are the numbers the decoder's two
  limits bound.
\<close>

section \<open>UTF-8\<close>

lemma from_utf8_lossy_valid: "utf8_valid bs \<Longrightarrow> from_utf8_lossy bs = bs"
proof (induction bs rule: from_utf8_lossy.induct)
  case (1 bs)
  show ?case
  proof (cases "bs = []")
    case False
    with 1(2) have v: "fst (utf8_head bs)" "utf8_valid (drop (snd (utf8_head bs)) bs)"
      by (simp_all add: utf8_valid.simps [of bs] split: if_splits)
    with 1(1) [OF False] False show ?thesis by (simp add: from_utf8_lossy.simps [of bs])
  qed (simp add: from_utf8_lossy.simps)
qed

text \<open>A character is recognised by its own bytes: what follows does not matter.\<close>

lemma not_cont_zero [simp]: "\<not> is_cont 0"
  by (simp add: is_cont_def)

lemma not_second_zero [simp]: "\<not> second_ok b 0"
  by (simp add: second_ok_def)

lemma utf8_head_length:
  assumes "fst (utf8_head bs)" "bs \<noteq> []"
  shows "snd (utf8_head bs) \<le> length bs"
proof -
  have c: "is_cont (byte_at bs i) \<Longrightarrow> i < length bs" for i
    by (cases "i < length bs") (auto simp: byte_at_def)
  have d: "second_ok b (byte_at bs i) \<Longrightarrow> i < length bs" for b i
    by (cases "i < length bs") (auto simp: byte_at_def)
  have "1 \<le> length bs" using assms(2) by (cases bs) auto
  then show ?thesis
    using assms(1) c [of "Suc 0"] c [of 2] c [of 3] d [of _ "Suc 0"]
    by (auto simp: utf8_head_def Let_def split: if_splits)
qed

lemma byte_at_take_append:
  "i < n \<Longrightarrow> n \<le> length bs \<Longrightarrow> byte_at (take n bs @ ys) i = byte_at bs i"
  by (simp add: byte_at_def nth_append)

lemma utf8_head_take:
  assumes h: "utf8_head bs = (True, n)" and "bs \<noteq> []"
  shows "utf8_head (take n bs @ ys) = (True, n)"
proof -
  have n: "n \<le> length bs" using utf8_head_length [of bs] assms by simp
  have b: "i < n \<Longrightarrow> byte_at (take n bs @ ys) i = byte_at bs i" for i
    using n by (rule byte_at_take_append [rotated])
  have "0 < n" using utf8_head_pos [of bs] h by simp
  then show ?thesis
    using h b [of 0] b [of 1] b [of 2] b [of 3]
    by (auto simp: utf8_head_def Let_def split: if_splits)
qed

lemma utf8_head_replacement: "utf8_head ([0xEF, 0xBF, 0xBD] @ ys) = (True, 3)"
  by (simp add: utf8_head_def utf8_char_width_def second_ok_def is_cont_def byte_at_def)

lemma utf8_valid_lossy: "utf8_valid (from_utf8_lossy bs)"
proof (induction bs rule: from_utf8_lossy.induct)
  case (1 bs)
  show ?case
  proof (cases "bs = []")
    case True
    then show ?thesis by (simp add: from_utf8_lossy.simps utf8_valid.simps)
  next
    case False
    define rest where "rest = from_utf8_lossy (drop (snd (utf8_head bs)) bs)"
    define c where "c = (if fst (utf8_head bs) then take (snd (utf8_head bs)) bs
      else [0xEF, 0xBF, 0xBD])"
    have eq: "from_utf8_lossy bs = c @ rest"
      using False by (simp add: from_utf8_lossy.simps [of bs] rest_def c_def)
    have head: "utf8_head (c @ rest) = (True, length c)"
    proof (cases "fst (utf8_head bs)")
      case True
      then have "utf8_head bs = (True, snd (utf8_head bs))" by (cases "utf8_head bs") simp
      moreover have "snd (utf8_head bs) \<le> length bs" by (rule utf8_head_length [OF True False])
      ultimately show ?thesis
        using utf8_head_take [of bs "snd (utf8_head bs)" rest] False True by (simp add: c_def)
    qed (use utf8_head_replacement in \<open>simp add: c_def\<close>)
    have "c \<noteq> []" using utf8_head_pos [of bs] False by (auto simp: c_def)
    then show ?thesis
      unfolding eq using 1 [OF False] head by (subst utf8_valid.simps) (simp add: rest_def)
  qed
qed

section \<open>Big-endian fields\<close>

lemma length_put_u16 [simp]: "length (put_u16 w) = 2"
  by (simp add: put_u16_def)

lemma length_put_u64 [simp]: "length (put_u64 w) = 8"
  by (simp add: put_u64_def)

lemma u64_from_be_put [simp]: "u64_from_be (put_u64 w) = w"
proof (rule bit_word_eqI)
  fix n assume n: "n < LENGTH(64)"
  consider "n < 8" | "8 \<le> n" "n < 16" | "16 \<le> n" "n < 24" | "24 \<le> n" "n < 32" | "32 \<le> n" "n < 40"
    | "40 \<le> n" "n < 48" | "48 \<le> n" "n < 56" | "56 \<le> n" by linarith
  then show "bit (u64_from_be (put_u64 w)) n = bit w n"
    using n by cases (auto simp: u64_from_be_def put_u64_def bit_or_iff bit_push_bit_iff
      bit_ucast_iff bit_drop_bit_eq)
qed

lemma put_u16_zero: "put_u16 0 = [0, 0]"
  by (simp add: put_u16_def hi8_def lo8_def)

lemma put_u16_eq_zero: "hi8 w = 0 \<Longrightarrow> lo8 w = 0 \<Longrightarrow> w = 0"
  using be16_hi8_lo8 [of w] by (simp add: be16_def)

section \<open>Sizes of values\<close>

text \<open>The number of values, the depth of the nesting, and the strings the encoder can write.\<close>

fun amf_count :: "amf0_value \<Rightarrow> nat" and props_count :: "(bytes \<times> amf0_value) list \<Rightarrow> nat" where
  "amf_count (AmfObject props) = Suc (props_count props)"
| "amf_count (AmfNumber n) = 1"
| "amf_count (AmfBoolean b) = 1"
| "amf_count (AmfString s) = 1"
| "amf_count AmfNull = 1"
| "props_count [] = 0"
| "props_count ((k, v) # props) = amf_count v + props_count props"

fun amf_depth :: "amf0_value \<Rightarrow> nat" and props_depth :: "(bytes \<times> amf0_value) list \<Rightarrow> nat" where
  "amf_depth (AmfObject props) = props_depth props"
| "amf_depth (AmfNumber n) = 0"
| "amf_depth (AmfBoolean b) = 0"
| "amf_depth (AmfString s) = 0"
| "amf_depth AmfNull = 0"
| "props_depth [] = 0"
| "props_depth ((k, v) # props) = max (Suc (amf_depth v)) (props_depth props)"

definition str_ok :: "bytes \<Rightarrow> bool" where
  "str_ok s \<longleftrightarrow> utf8_valid s \<and> length s < 65536"

fun amf_ok :: "amf0_value \<Rightarrow> bool" and props_ok :: "(bytes \<times> amf0_value) list \<Rightarrow> bool" where
  "amf_ok (AmfObject props) = props_ok props"
| "amf_ok (AmfString s) = str_ok s"
| "amf_ok (AmfNumber n) = True"
| "amf_ok (AmfBoolean b) = True"
| "amf_ok AmfNull = True"
| "props_ok [] = True"
| "props_ok ((k, v) # props) = (str_ok k \<and> amf_ok v \<and> props_ok props)"

lemma props_count_append [simp]: "props_count (ps @ qs) = props_count ps + props_count qs"
  by (induction ps rule: list.induct) auto

lemma props_depth_append [simp]: "props_depth (ps @ qs) = max (props_depth ps) (props_depth qs)"
  by (induction ps rule: list.induct) auto

lemma amf_count_pos [simp]: "0 < amf_count v"
  by (cases v) auto

section \<open>Reading at a position\<close>

lemma at_append: "(pre @ x # post) ! length pre = x"
  by simp

lemma decode_raw_string_at:
  assumes "str_ok s"
  shows "decode_raw_string (pre @ encode_raw_string s @ post) (length pre) =
    ok (s, length pre + length (encode_raw_string s))"
proof -
  let ?d = "pre @ encode_raw_string s @ post"
  let ?n = "of_nat (length s) :: u16"
  have len: "unat (be16 (hi8 ?n) (lo8 ?n)) = length s"
    using assms by (simp add: str_ok_def unat_of_nat_u16)
  have d: "?d = pre @ hi8 ?n # lo8 ?n # s @ post"
    by (simp add: encode_raw_string_def put_u16_def)
  have i0: "idx ?d (length pre) = Some (hi8 ?n)"
    and i1: "idx ?d (Suc (length pre)) = Some (lo8 ?n)"
    unfolding d by (auto simp: idx_def nth_append)
  have sl: "slice ?d (Suc (Suc (length pre))) (Suc (Suc (length pre + length s))) = Some s"
    unfolding d by (auto simp: slice_def)
  have e: "ensure_remaining ?d (length pre) 2 = ok ()"
    "ensure_remaining ?d (Suc (Suc (length pre))) (length s) = ok ()"
    unfolding d by (auto simp: ensure_remaining_def)
  show ?thesis
    using assms e i0 i1 len sl
    by (simp add: decode_raw_string_def from_utf8_lossy_valid str_ok_def)
       (simp add: encode_raw_string_def)
qed

lemma at_object_end_hit: "at_object_end (pre @ 0 # 0 # MARKER_OBJECT_END # post) (length pre) = Some True"
  by (simp add: at_object_end_def idx_def nth_append)

lemma at_object_end_end: "at_object_end (pre @ put_u16 0 @ MARKER_OBJECT_END # post) (length pre) = Some True"
  using at_object_end_hit by (simp add: put_u16_zero)

lemma encode_head: "\<exists>m rest. encode v = m # rest \<and> m \<noteq> MARKER_OBJECT_END"
  by (cases v) (auto simp: encode_string_def amf0_markers)

text \<open>A property is never mistaken for the end of its object.\<close>

lemma at_object_end_prop:
  assumes "str_ok k"
  shows "at_object_end (pre @ encode_raw_string k @ encode v @ post) (length pre) = Some False"
proof -
  let ?n = "of_nat (length k) :: u16"
  obtain m rest where v: "encode v = m # rest" "m \<noteq> MARKER_OBJECT_END"
    using encode_head by blast
  have z: "hi8 ?n = 0 \<and> lo8 ?n = 0 \<Longrightarrow> k = []"
    using put_u16_eq_zero [of ?n] unat_of_nat_u16 [of "length k"] assms by (auto simp: str_ok_def)
  show ?thesis
  proof (cases k)
    case Nil
    then show ?thesis using v
      by (simp add: at_object_end_def idx_def nth_append encode_raw_string_def put_u16_def)
  next
    case (Cons c cs)
    then show ?thesis using z v
      by (auto simp: at_object_end_def idx_def nth_append encode_raw_string_def put_u16_def)
  qed
qed

end
