(* ===== verification/Amf0Correct.thy ===== *)
theory Amf0Correct
  imports Amf0Facts
begin

text \<open>
  The two halves of the AMF0 contract. What the encoder writes is read back, in any context and at
  any nesting the limits admit. On arbitrary bytes the decoder returns: it does not panic, and
  what it hands out is within the value budget and the depth limit.
\<close>

section \<open>Encoded values are read back\<close>

lemma idx_at: "idx (pre @ x # post) (length pre) = Some x"
  by (simp add: idx_def)

lemma decode_value_at:
  "amf_ok v \<Longrightarrow> depth + amf_depth v \<le> 32 \<Longrightarrow> amf_count v \<le> budget \<Longrightarrow>
     decode_value (pre @ encode v @ post) (length pre) depth budget =
       ok (v, length pre + length (encode v), budget - amf_count v)"
  and decode_object_at:
  "props_ok ps \<Longrightarrow> depth + props_depth ps \<le> 32 \<Longrightarrow> props_count ps \<le> budget \<Longrightarrow>
     decode_object (pre @ encode_props ps @ put_u16 0 @ MARKER_OBJECT_END # post)
       (length pre) depth budget acc =
     ok (AmfObject (acc @ ps), length pre + length (encode_props ps) + 3, budget - props_count ps)"
proof (induction v and ps arbitrary: pre post depth budget and pre post depth budget acc
    rule: encode_encode_props.induct)
  case (1 n)
  let ?d = "pre @ encode (AmfNumber n) @ post"
  have "slice ?d (Suc (length pre)) (length pre + 9) = Some (put_u64 n)"
    by (auto simp: slice_def)
  then show ?case using 1
    by (simp add: decode_value.simps MAX_AMF0_DEPTH_def idx_at ensure_remaining_def)
next
  case (2 b)
  have "idx (pre @ encode (AmfBoolean b) @ post) (Suc (length pre)) = Some (if b then 1 else 0)"
    by (simp add: idx_def nth_append)
  then show ?case using 2
    by (auto simp: decode_value.simps MAX_AMF0_DEPTH_def idx_at ensure_remaining_def amf0_markers)
next
  case (3 s)
  then show ?case
    using decode_raw_string_at [of s "pre @ [MARKER_STRING]" post]
    by (simp add: decode_value.simps MAX_AMF0_DEPTH_def idx_at encode_string_def)
       (simp add: amf0_markers)
next
  case (4 props)
  then show ?case
    using 4(1) [of depth "budget - 1" "pre @ [MARKER_OBJECT]" post "[]"]
    by (simp add: decode_value.simps MAX_AMF0_DEPTH_def idx_at) (simp add: amf0_markers)
next
  case 5
  then show ?case
    by (simp add: decode_value.simps MAX_AMF0_DEPTH_def idx_at) (simp add: amf0_markers)
next
  case 6
  then show ?case by (simp add: decode_object.simps at_object_end_end)
next
  case (7 key val props)
  let ?tail = "encode_props props @ put_u16 0 @ MARKER_OBJECT_END # post"
  let ?d = "pre @ encode_props ((key, val) # props) @ put_u16 0 @ MARKER_OBJECT_END # post"
  have d: "?d = pre @ encode_raw_string key @ encode val @ ?tail"
    "?d = (pre @ encode_raw_string key) @ encode val @ ?tail"
    "?d = (pre @ encode_raw_string key @ encode val) @ ?tail" by simp_all
  have e: "at_object_end ?d (length pre) = Some False"
    unfolding d(1) using 7 by (intro at_object_end_prop) simp
  have k: "decode_raw_string ?d (length pre) = ok (key, length (pre @ encode_raw_string key))"
    unfolding d(1) using 7 decode_raw_string_at [of key pre "encode val @ ?tail"] by simp
  have v: "decode_value ?d (length (pre @ encode_raw_string key)) (Suc depth) budget =
      ok (val, length (pre @ encode_raw_string key @ encode val), budget - amf_count val)"
    unfolding d(2) using 7(3-5) 7(1) [of "Suc depth" budget "pre @ encode_raw_string key" ?tail] by simp
  have o: "decode_object ?d (length (pre @ encode_raw_string key @ encode val)) depth
      (budget - amf_count val) (acc @ [(key, val)]) =
      ok (AmfObject (acc @ (key, val) # props),
        length pre + length (encode_props ((key, val) # props)) + 3,
        budget - props_count ((key, val) # props))"
    unfolding d(3) using 7(3-5)
      7(2) [of depth "budget - amf_count val" "pre @ encode_raw_string key @ encode val"
        post "acc @ [(key, val)]"] by simp
  have "\<not> length ?d \<le> length (pre @ encode_raw_string key @ encode val)" by simp
  then show ?case
    by (subst decode_object.simps) (simp only: e k v o unless_panic_Some and_then_ok with_context_of_ok
      prod.case if_False Suc_eq_plus1 [symmetric])
qed

lemma decode_loop_at:
  assumes "\<forall>v\<in>set vs. amf_ok v \<and> amf_depth v \<le> 32" "sum_list (map amf_count vs) \<le> budget"
  shows "decode_loop (pre @ encode_values vs) (length pre) budget acc = ok (acc @ vs)"
  using assms
proof (induction vs arbitrary: pre budget acc)
  case Nil
  then show ?case by (simp add: decode_loop.simps encode_values_def)
next
  case (Cons v vs)
  have d: "pre @ encode_values (v # vs) = pre @ encode v @ encode_values vs"
    by (simp add: encode_values_def)
  have ne: "encode v \<noteq> []" using encode_head [of v] by auto
  have dv: "decode_value (pre @ encode v @ encode_values vs) (length pre) 0 budget =
      ok (v, length (pre @ encode v), budget - amf_count v)"
    using decode_value_at [of v 0 budget pre "encode_values vs"] Cons.prems by simp
  have "decode_loop ((pre @ encode v) @ encode_values vs) (length (pre @ encode v))
      (budget - amf_count v) (acc @ [v]) = ok ((acc @ [v]) @ vs)"
    using Cons.prems by (intro Cons.IH) auto
  then show ?case unfolding d using ne
    by (subst decode_loop.simps) (simp add: dv)
qed

lemma decode_all_encoded:
  assumes "\<forall>v\<in>set vs. amf_ok v \<and> amf_depth v \<le> 32" "sum_list (map amf_count vs) \<le> 50000"
  shows "decode_all (encode_values vs) = ok vs"
  using decode_loop_at [OF assms, of "[]" "[]"] by (simp add: decode_all_def MAX_AMF0_VALUES_def)

section \<open>What the decoder hands out\<close>

fun amf_utf8 :: "amf0_value \<Rightarrow> bool" and props_utf8 :: "(bytes \<times> amf0_value) list \<Rightarrow> bool" where
  "amf_utf8 (AmfObject props) = props_utf8 props"
| "amf_utf8 (AmfString s) = utf8_valid s"
| "amf_utf8 (AmfNumber n) = True"
| "amf_utf8 (AmfBoolean b) = True"
| "amf_utf8 AmfNull = True"
| "props_utf8 [] = True"
| "props_utf8 ((k, v) # props) = (utf8_valid k \<and> amf_utf8 v \<and> props_utf8 props)"

lemma ensure_remaining_ok: "ensure_remaining data pos need = ok u \<longleftrightarrow> pos + need \<le> length data"
  by (auto simp: ensure_remaining_def)

lemma no_panic_ensure_remaining:
  "pos \<le> length data \<Longrightarrow> no_panic (ensure_remaining data pos need)"
  by (simp add: ensure_remaining_def)

lemma decode_raw_string_ok:
  "decode_raw_string data pos = ok (s, p) \<Longrightarrow> pos < p \<and> p \<le> length data \<and> utf8_valid s"
  by (auto simp: decode_raw_string_def and_then_eq_ok ensure_remaining_ok Let_def utf8_valid_lossy)

lemma no_panic_decode_raw_string:
  "pos \<le> length data \<Longrightarrow> no_panic (decode_raw_string data pos)"
  by (auto simp: decode_raw_string_def no_panic_simps ensure_remaining_ok Let_def
      no_panic_ensure_remaining)

lemma at_object_end_total: "\<exists>e. at_object_end data pos = Some e \<and> (e \<longrightarrow> pos + 3 \<le> length data)"
  by (auto simp: at_object_end_def)

text \<open>Each value consumes bytes, is charged to the budget, and lies within the depth limit.\<close>

definition decoded_well :: "bytes \<Rightarrow> nat \<Rightarrow> nat \<Rightarrow> nat \<Rightarrow> amf0_value \<Rightarrow> nat \<Rightarrow> nat \<Rightarrow> bool" where
  "decoded_well data pos depth budget v p b \<longleftrightarrow>
     pos < p \<and> p \<le> length data \<and> depth + amf_depth v \<le> MAX_AMF0_DEPTH \<and>
     b + amf_count v = budget \<and> amf_utf8 v"

lemma decode_sound:
  "decode_value data pos depth budget = ok (v, p, b) \<Longrightarrow>
     decoded_well data pos depth budget v p b"
  and decode_object_sound:
  "decode_object data pos depth budget props = ok (v, p, b) \<Longrightarrow> depth \<le> MAX_AMF0_DEPTH \<Longrightarrow>
     \<exists>ps. v = AmfObject (props @ ps) \<and>
       decoded_well data pos depth (Suc budget) (AmfObject ps) p b"
proof (induction data pos depth budget and data pos depth budget props arbitrary: v p b and v p b
    rule: decode_value_decode_object.induct)
  case (1 data pos depth budget)
  note IH = 1(1,2) [unfolded not_less not_le]
  have g: "depth \<le> MAX_AMF0_DEPTH" "budget \<noteq> 0" "pos < length data"
    using 1(3) by (simp_all add: decode_value.simps split: if_splits)
  have object: "decoded_well data pos depth budget v p b"
    if "\<exists>ps. v = AmfObject ([] @ ps) \<and>
      decoded_well data (pos + n) depth (Suc (budget - 1)) (AmfObject ps) p b" for n
    using that g by (auto simp: decoded_well_def)
  show ?case
    using 1(3) g IH object [of 1] object [of 5]
    by (auto simp: decode_value.simps and_then_eq_ok decoded_well_def ensure_remaining_ok
        split: if_splits dest!: decode_raw_string_ok)
next
  case (2 data pos depth budget props)
  obtain e where e: "at_object_end data pos = Some e" "e \<longrightarrow> pos + 3 \<le> length data"
    using at_object_end_total by blast
  show ?case
  proof (cases e)
    case True
    with 2(3,4) e show ?thesis
      by (auto simp: decode_object.simps [of data pos] decoded_well_def intro: exI [of _ "[]"])
  next
    case False
    with 2(3) e obtain key pos1 val pos2 b2
      where k: "decode_raw_string data pos = ok (key, pos1)"
        and v: "decode_value data pos1 (depth + 1) budget = ok (val, pos2, b2)"
        and fin: "(if pos2 \<ge> length data then ok (AmfObject (props @ [(key, val)]), pos2, b2)
          else decode_object data pos2 depth b2 (props @ [(key, val)])) = ok (v, p, b)"
      by (auto simp: decode_object.simps [of data pos] and_then_eq_ok)
    have w: "decoded_well data pos1 (depth + 1) budget val pos2 b2"
      using 2(1) [where x = e and xa = "(key, pos1)", OF _ False _ refl v] e k by simp
    have k': "pos < pos1" "utf8_valid key" using decode_raw_string_ok [OF k] by simp_all
    show ?thesis
    proof (cases "length data \<le> pos2")
      case True
      with fin w k' show ?thesis by (auto simp: decoded_well_def intro: exI [of _ "[(key, val)]"])
    next
      case False
      with fin have "decode_object data pos2 depth b2 (props @ [(key, val)]) = ok (v, p, b)" by simp
      then obtain ps where "v = AmfObject ((props @ [(key, val)]) @ ps)"
        "decoded_well data pos2 depth (Suc b2) (AmfObject ps) p b"
        using 2(2) [where x = e and xa = "(key, pos1)" and xc = "(val, pos2, b2)",
            OF _ \<open>\<not> e\<close> _ refl _ refl refl False] 2(4) e k v by auto
      with w k' show ?thesis by (auto simp: decoded_well_def intro!: exI [of _ "(key, val) # ps"])
    qed
  qed
qed

lemma decode_value_no_panic: "no_panic (decode_value data pos depth budget)"
  and decode_object_no_panic:
    "pos \<le> length data \<Longrightarrow> no_panic (decode_object data pos depth budget props)"
proof (induction data pos depth budget and data pos depth budget props
    rule: decode_value_decode_object.induct)
  case (1 data pos depth budget)
  then show ?case
    by (subst decode_value.simps)
      (auto simp: no_panic_simps ensure_remaining_ok no_panic_ensure_remaining
        no_panic_decode_raw_string split: prod.splits)
next
  case (2 data pos depth budget props)
  obtain e where e: "at_object_end data pos = Some e" using at_object_end_total by blast
  from 2 show ?case
    by (subst decode_object.simps)
      (auto simp: e no_panic_simps no_panic_decode_raw_string decoded_well_def split: prod.splits
        dest!: decode_sound)
qed

lemma decode_loop_bounded:
  "decode_loop data pos budget acc = ok vs \<Longrightarrow>
   \<exists>ws. vs = acc @ ws \<and> sum_list (map amf_count ws) \<le> budget \<and>
     (\<forall>v\<in>set ws. amf_depth v \<le> MAX_AMF0_DEPTH \<and> amf_utf8 v)"
proof (induction data pos budget acc rule: decode_loop.induct)
  case (1 data pos budget acc)
  show ?case
  proof (cases "pos < length data")
    case False
    with 1(2) show ?thesis by (simp add: decode_loop.simps [of data pos])
  next
    case True
    with 1(2) obtain v p b where v: "decode_value data pos 0 budget = ok (v, p, b)"
      and rest: "decode_loop data p b (acc @ [v]) = ok vs"
      by (auto simp: decode_loop.simps [of data pos] and_then_eq_ok)
    from 1(1) [OF True v refl refl rest] decode_sound [OF v]
    show ?thesis by (fastforce simp: decoded_well_def)
  qed
qed

lemma decode_loop_no_panic: "no_panic (decode_loop data pos budget acc)"
proof (induction data pos budget acc rule: decode_loop.induct)
  case (1 data pos budget acc)
  then show ?case
    by (subst decode_loop.simps) (auto simp: no_panic_simps decode_value_no_panic split: prod.splits)
qed

text \<open>
  Property C14.  A command sent is the command read: values whose strings are well-formed UTF-8 of
  less than 65536 bytes, at most 50000 of them in all and nested at most 32 objects deep, are
  decoded to exactly themselves from the bytes the encoder writes, whatever the property names
  (the empty name included) and whatever the numbers.
\<close>

theorem amf0_roundtrip:
  assumes "\<forall>v\<in>set vs. amf_ok v \<and> amf_depth v \<le> MAX_AMF0_DEPTH"
    and "sum_list (map amf_count vs) \<le> MAX_AMF0_VALUES"
  shows "decode_all (encode_values vs) = ok vs"
  using decode_all_encoded assms by (simp add: MAX_AMF0_DEPTH_def MAX_AMF0_VALUES_def)

theorem amf0_roundtrip_witness:
  "decode_all (encode_values
     [AmfString [0x61], AmfNumber 0x3FF0000000000000,
      AmfObject [([], AmfNull), ([0xC3, 0xA9], AmfObject [([0x62], AmfBoolean True)])]]) =
   ok [AmfString [0x61], AmfNumber 0x3FF0000000000000,
      AmfObject [([], AmfNull), ([0xC3, 0xA9], AmfObject [([0x62], AmfBoolean True)])]]"
proof (rule amf0_roundtrip)
  have "utf8_valid [0x61]" "utf8_valid [0x62]" "utf8_valid [0xC3, 0xA9]" "utf8_valid []"
    by code_simp+
  then show "\<forall>v\<in>set [AmfString [0x61], AmfNumber 0x3FF0000000000000,
      AmfObject [([], AmfNull), ([0xC3, 0xA9], AmfObject [([0x62], AmfBoolean True)])]].
      amf_ok v \<and> amf_depth v \<le> MAX_AMF0_DEPTH"
    by (simp add: str_ok_def MAX_AMF0_DEPTH_def)
qed (simp add: MAX_AMF0_VALUES_def)

text \<open>
  Property C16.  An unauthenticated peer cannot make the decoder misbehave: on every byte string it
  ends without a panic, and what it hands out has at most 50000 values over all nesting levels, no
  value below 32 objects, and only well-formed UTF-8 strings.
\<close>

theorem amf0_decoder_is_bounded:
  "decode_all data \<noteq> None \<and>
   (\<forall>vs. decode_all data = ok vs \<longrightarrow>
      sum_list (map amf_count vs) \<le> MAX_AMF0_VALUES \<and>
      (\<forall>v\<in>set vs. amf_depth v \<le> MAX_AMF0_DEPTH \<and> amf_utf8 v))"
  using decode_loop_no_panic [of data 0 MAX_AMF0_VALUES "[]"]
    decode_loop_bounded [of data 0 MAX_AMF0_VALUES "[]"]
  by (auto simp: decode_all_def no_panic_def)

theorem amf0_decoder_is_bounded_witness:
  "decode_all (encode_values [AmfObject [([], AmfNull)], AmfBoolean True]) =
     ok [AmfObject [([], AmfNull)], AmfBoolean True] \<and>
   sum_list (map amf_count [AmfObject [([], AmfNull)], AmfBoolean True]) \<le> MAX_AMF0_VALUES"
proof -
  have "decode_all (encode_values [AmfObject [([], AmfNull)], AmfBoolean True]) =
      ok [AmfObject [([], AmfNull)], AmfBoolean True]"
    by (rule decode_all_encoded) (simp_all add: str_ok_def utf8_valid.simps)
  with amf0_decoder_is_bounded show ?thesis by blast
qed

end
