(* ===== verification/RtmpChunk.thy ===== *)
theory RtmpChunk
  imports RustResult "HOL-Library.AList"
begin

text \<open>
  RTMP chunk framing (\<open>engine/rtmp/chunk.rs\<close>): \<open>ChunkWriter\<close> cuts a message into chunks,
  \<open>ChunkReader\<close> reassembles messages from the bytes of the connection. The writer's result is the
  bytes it hands to the socket; its loop is a partial function, because a chunk size of zero would
  keep it running. The reader consumes the front of a byte list, whose end is the end of the
  connection. The map of chunk streams is an association list with distinct keys.
\<close>

definition DEFAULT_CHUNK_SIZE :: u32 where "DEFAULT_CHUNK_SIZE = 128"
definition DESIRED_CHUNK_SIZE :: u32 where "DESIRED_CHUNK_SIZE = 4096"
definition MAX_RTMP_MSG_LEN :: nat where "MAX_RTMP_MSG_LEN = 16 * 1024 * 1024"
definition MAX_PREPUBLISH_MSG_LEN :: nat where "MAX_PREPUBLISH_MSG_LEN = 256 * 1024"
definition MAX_CHUNK_STREAMS :: nat where "MAX_CHUNK_STREAMS = 64"

definition SET_CHUNK_SIZE :: u8 where "SET_CHUNK_SIZE = 1"
definition WINDOW_ACK_SIZE :: u8 where "WINDOW_ACK_SIZE = 5"
definition SET_PEER_BANDWIDTH :: u8 where "SET_PEER_BANDWIDTH = 6"
definition AUDIO :: u8 where "AUDIO = 8"
definition VIDEO :: u8 where "VIDEO = 9"
definition COMMAND_AMF0 :: u8 where "COMMAND_AMF0 = 20"
definition DATA_AMF0 :: u8 where "DATA_AMF0 = 18"

lemmas msg_types = SET_CHUNK_SIZE_def WINDOW_ACK_SIZE_def SET_PEER_BANDWIDTH_def AUDIO_def
  VIDEO_def COMMAND_AMF0_def DATA_AMF0_def

section \<open>Writer\<close>

record chunk_writer =
  cw_chunk_size :: u32

definition cw_new :: chunk_writer where
  "cw_new = \<lparr> cw_chunk_size = DEFAULT_CHUNK_SIZE \<rparr>"

definition put_u24 :: "u32 \<Rightarrow> bytes" where
  "put_u24 w = [byte32 2 w, byte32 1 w, byte32 0 w]"

definition put_u32 :: "u32 \<Rightarrow> bytes" where
  "put_u32 w = [byte32 3 w, byte32 2 w, byte32 1 w, byte32 0 w]"

definition put_u32_le :: "u32 \<Rightarrow> bytes" where
  "put_u32_le w = [byte32 0 w, byte32 1 w, byte32 2 w, byte32 3 w]"

text \<open>An id below 2 makes the subtraction of the last branch overflow.\<close>

definition write_basic_header :: "u8 \<Rightarrow> u32 \<Rightarrow> bytes panics" where
  "write_basic_header fmt cs_id =
     (let fmt_bits = push_bit 6 (fmt AND 0x03) in
      if 2 \<le> cs_id \<and> cs_id \<le> 63 then Some [fmt_bits OR ucast cs_id]
      else if 64 \<le> cs_id \<and> cs_id \<le> 319 then Some [fmt_bits, ucast (cs_id - 64)]
      else if cs_id < 64 then None
      else Some [fmt_bits OR 1, byte32 0 (cs_id - 64), byte32 1 (cs_id - 64)])"

text \<open>The full header of the first chunk, and the extended timestamp of every chunk.\<close>

definition message_header :: "u8 \<Rightarrow> u32 \<Rightarrow> u32 \<Rightarrow> bytes \<Rightarrow> bytes" where
  "message_header msg_type msg_stream_id timestamp payload =
     put_u24 (if timestamp \<ge> 0x00FFFFFF then 0x00FFFFFF else timestamp) @
     put_u24 (of_nat (length payload)) @ [msg_type] @ put_u32_le msg_stream_id"

definition extended_timestamp :: "u32 \<Rightarrow> bytes" where
  "extended_timestamp timestamp = (if timestamp \<ge> 0x00FFFFFF then put_u32 timestamp else [])"

partial_function (option) write_chunks ::
    "nat \<Rightarrow> u32 \<Rightarrow> bytes \<Rightarrow> bytes \<Rightarrow> bytes \<Rightarrow> nat \<Rightarrow> bytes \<Rightarrow> bytes option" where
  "write_chunks chunk_size cs_id header ext payload offset buf =
     (if offset < length payload \<or> offset = 0 then do {
        let chunk_payload_len = min (length payload - offset) chunk_size;
        basic \<leftarrow> write_basic_header (if offset = 0 then 0 else 3) cs_id;
        part \<leftarrow> slice payload offset (offset + chunk_payload_len);
        let buf = buf @ basic @ (if offset = 0 then header else []) @ ext @ part;
        if payload = [] then Some buf
        else write_chunks chunk_size cs_id header ext payload (offset + chunk_payload_len) buf
      } else Some buf)"

definition write_message :: "chunk_writer \<Rightarrow> u32 \<Rightarrow> u8 \<Rightarrow> u32 \<Rightarrow> u32 \<Rightarrow> bytes \<Rightarrow> bytes option" where
  "write_message w cs_id msg_type msg_stream_id timestamp payload =
     write_chunks (unat (cw_chunk_size w)) cs_id
       (message_header msg_type msg_stream_id timestamp payload) (extended_timestamp timestamp)
       payload 0 []"

definition write_set_chunk_size :: "chunk_writer \<Rightarrow> u32 \<Rightarrow> (bytes \<times> chunk_writer) option" where
  "write_set_chunk_size w new_size = do {
     bytes \<leftarrow> write_message w 2 SET_CHUNK_SIZE 0 0 (put_u32 (new_size AND 0x7FFFFFFF));
     Some (bytes, w\<lparr> cw_chunk_size := new_size \<rparr>)
   }"

section \<open>Reader\<close>

record chunk_stream_state =
  ss_msg_type :: u8
  ss_msg_len :: u32
  ss_timestamp :: u32
  ss_stream_id :: u32
  ss_payload :: bytes

definition ss_default :: chunk_stream_state where
  "ss_default = \<lparr> ss_msg_type = 0, ss_msg_len = 0, ss_timestamp = 0, ss_stream_id = 0,
     ss_payload = [] \<rparr>"

record rtmp_message =
  rm_msg_type :: u8
  rm_timestamp :: u32
  rm_payload :: bytes

record chunk_reader =
  cr_chunk_size :: u32
  cr_max_command_len :: nat
  cr_streams :: "(u32 \<times> chunk_stream_state) list"

definition cr_new :: chunk_reader where
  "cr_new = \<lparr> cr_chunk_size = DEFAULT_CHUNK_SIZE, cr_max_command_len = MAX_RTMP_MSG_LEN,
     cr_streams = [] \<rparr>"

definition set_max_command_len :: "nat \<Rightarrow> chunk_reader \<Rightarrow> chunk_reader" where
  "set_max_command_len m r = r\<lparr> cr_max_command_len := m \<rparr>"

datatype chunk_error =
  ReadFailed
| PayloadFailed
| TooManyStreams
| MessageTooLong
| InvalidChunkSize

definition read_exact :: "chunk_error \<Rightarrow> nat \<Rightarrow> bytes \<Rightarrow> (chunk_error, bytes \<times> bytes) fallible" where
  "read_exact e n s = (if n \<le> length s then ok (take n s, drop n s) else err e)"

definition read_u8 :: "bytes \<Rightarrow> (chunk_error, u8 \<times> bytes) fallible" where
  "read_u8 s = and_then (read_exact ReadFailed 1 s) (\<lambda>(b, s). ok (b ! 0, s))"

definition read_u24_be :: "bytes \<Rightarrow> (chunk_error, u32 \<times> bytes) fallible" where
  "read_u24_be s = and_then (read_exact ReadFailed 3 s) (\<lambda>(b, s).
     ok (push_bit 16 (ucast (b ! 0)) OR push_bit 8 (ucast (b ! 1)) OR ucast (b ! 2), s))"

definition read_u32_be :: "bytes \<Rightarrow> (chunk_error, u32 \<times> bytes) fallible" where
  "read_u32_be s = and_then (read_exact ReadFailed 4 s) (\<lambda>(b, s).
     ok (be32 (b ! 0) (b ! 1) (b ! 2) (b ! 3), s))"

definition read_u32_le :: "bytes \<Rightarrow> (chunk_error, u32 \<times> bytes) fallible" where
  "read_u32_le s = and_then (read_exact ReadFailed 4 s) (\<lambda>(b, s).
     ok (be32 (b ! 3) (b ! 2) (b ! 1) (b ! 0), s))"

definition read_cs_id :: "u8 \<Rightarrow> bytes \<Rightarrow> (chunk_error, u32 \<times> bytes) fallible" where
  "read_cs_id first_byte s =
     (let n = first_byte AND 0x3F in
      if n = 0 then and_then (read_u8 s) (\<lambda>(b, s). ok (ucast b + 64, s))
      else if n = 1 then
        and_then (read_u8 s) (\<lambda>(lo, s).
        and_then (read_u8 s) (\<lambda>(hi, s).
        ok (push_bit 8 (ucast hi) OR (ucast lo + 64), s)))
      else ok (ucast n, s))"

definition read_message_header ::
    "u8 \<Rightarrow> chunk_stream_state \<Rightarrow> bytes \<Rightarrow> (chunk_error, chunk_stream_state \<times> bytes) fallible" where
  "read_message_header fmt state s =
     (if fmt = 0 then
        and_then (read_u24_be s) (\<lambda>(ts, s).
        and_then (read_u24_be s) (\<lambda>(msg_len, s).
        and_then (read_u8 s) (\<lambda>(msg_type, s).
        and_then (read_u32_le s) (\<lambda>(stream_id, s).
        ok (state\<lparr> ss_timestamp := ts, ss_msg_len := msg_len, ss_msg_type := msg_type,
          ss_stream_id := stream_id, ss_payload := [] \<rparr>, s)))))
      else if fmt = 1 then
        and_then (read_u24_be s) (\<lambda>(ts_delta, s).
        and_then (read_u24_be s) (\<lambda>(msg_len, s).
        and_then (read_u8 s) (\<lambda>(msg_type, s).
        ok (state\<lparr> ss_timestamp := ss_timestamp state + ts_delta, ss_msg_len := msg_len,
          ss_msg_type := msg_type, ss_payload := [] \<rparr>, s))))
      else if fmt = 2 then
        and_then (read_u24_be s) (\<lambda>(ts_delta, s).
        ok (state\<lparr> ss_timestamp := ss_timestamp state + ts_delta, ss_payload := [] \<rparr>, s))
      else ok (state, s))"

definition needs_ext :: "u8 \<Rightarrow> chunk_stream_state \<Rightarrow> bool" where
  "needs_ext fmt state =
     (if fmt = 0 then ss_timestamp state = 0x00FFFFFF
      else if fmt = 1 \<or> fmt = 2 then ss_timestamp state \<ge> 0x00FFFFFF
      else False)"

definition read_extended ::
    "u8 \<Rightarrow> chunk_stream_state \<Rightarrow> bytes \<Rightarrow> (chunk_error, chunk_stream_state \<times> bytes) fallible" where
  "read_extended fmt state s =
     (if needs_ext fmt state
      then and_then (read_u32_be s) (\<lambda>(ts, s). ok (state\<lparr> ss_timestamp := ts \<rparr>, s))
      else ok (state, s))"

definition message_cap :: "chunk_reader \<Rightarrow> u8 \<Rightarrow> nat" where
  "message_cap r msg_type =
     (if msg_type = COMMAND_AMF0 \<or> msg_type = DATA_AMF0 then cr_max_command_len r
      else MAX_RTMP_MSG_LEN)"

text \<open>The next part of the payload; the first subtraction is the one that could overflow.\<close>

definition read_payload ::
    "u32 \<Rightarrow> chunk_stream_state \<Rightarrow> bytes \<Rightarrow> (chunk_error, chunk_stream_state \<times> bytes) fallible" where
  "read_payload chunk_size state s =
     and_then (unless_panic (if length (ss_payload state) \<le> unat (ss_msg_len state)
                        then Some (unat (ss_msg_len state) - length (ss_payload state)) else None))
       (\<lambda>remaining.
     let to_read = min remaining (unat chunk_size) in
     if to_read > 0 then
       and_then (read_exact PayloadFailed to_read s) (\<lambda>(part, s).
       ok (state\<lparr> ss_payload := ss_payload state @ part \<rparr>, s))
     else ok (state, s))"

text \<open>A Set Chunk Size message updates the reader.\<close>

definition handle_set_chunk_size ::
    "rtmp_message \<Rightarrow> chunk_reader \<Rightarrow> (chunk_error, chunk_reader) fallible" where
  "handle_set_chunk_size msg r =
     (if rm_msg_type msg = SET_CHUNK_SIZE \<and> length (rm_payload msg) \<ge> 4 then
        (let p = rm_payload msg;
             new_size = be32 (p ! 0 AND 0x7F) (p ! 1) (p ! 2) (p ! 3) in
         if new_size = 0 \<or> new_size > 16777215 then err InvalidChunkSize
         else ok (r\<lparr> cr_chunk_size := new_size \<rparr>))
      else ok r)"

text \<open>The complete message, and the part of the loop behind the chunk header.\<close>

definition complete_message ::
    "chunk_reader \<Rightarrow> u32 \<Rightarrow> chunk_stream_state \<Rightarrow> (chunk_error, rtmp_message \<times> chunk_reader) fallible" where
  "complete_message r cs_id state =
     (let msg = \<lparr> rm_msg_type = ss_msg_type state, rm_timestamp = ss_timestamp state,
                  rm_payload = ss_payload state \<rparr>;
          r = r\<lparr> cr_streams := AList.update cs_id (state\<lparr> ss_payload := [] \<rparr>) (cr_streams r) \<rparr> in
      and_then (handle_set_chunk_size msg r) (\<lambda>r. ok (msg, r)))"

definition finish_chunk ::
    "chunk_reader \<Rightarrow> u32 \<Rightarrow> chunk_stream_state \<Rightarrow> bytes \<Rightarrow>
     (chunk_error, rtmp_message option \<times> chunk_reader \<times> bytes) fallible" where
  "finish_chunk r cs_id state s =
     (if unat (ss_msg_len state) > message_cap r (ss_msg_type state) then err MessageTooLong
      else
        and_then (read_payload (cr_chunk_size r) state s) (\<lambda>(state, s).
        if length (ss_payload state) \<ge> unat (ss_msg_len state)
        then and_then (complete_message r cs_id state) (\<lambda>(msg, r). ok (Some msg, r, s))
        else ok (None, r\<lparr> cr_streams := AList.update cs_id state (cr_streams r) \<rparr>, s)))"

text \<open>\<open>entry(cs_id).or_default()\<close>.\<close>

definition entry_or_default :: "chunk_reader \<Rightarrow> u32 \<Rightarrow> chunk_stream_state" where
  "entry_or_default r cs_id =
     (case map_of (cr_streams r) cs_id of None \<Rightarrow> ss_default | Some state \<Rightarrow> state)"

text \<open>One pass through the loop of \<open>read_message\<close>: one chunk, and the message when it is
  complete.\<close>

definition read_chunk ::
    "chunk_reader \<Rightarrow> bytes \<Rightarrow>
     (chunk_error, rtmp_message option \<times> chunk_reader \<times> bytes) fallible" where
  "read_chunk r s =
     and_then (read_u8 s) (\<lambda>(first_byte, s).
     let fmt = drop_bit 6 first_byte AND 0x03 in
     and_then (read_cs_id first_byte s) (\<lambda>(cs_id, s).
     if map_of (cr_streams r) cs_id = None \<and> length (cr_streams r) \<ge> MAX_CHUNK_STREAMS
     then err TooManyStreams
     else
       and_then (read_message_header fmt (entry_or_default r cs_id) s) (\<lambda>(state, s).
       and_then (read_extended fmt state s) (\<lambda>(state, s).
       finish_chunk r cs_id state s))))"

text \<open>Every chunk takes at least its first byte from the connection.\<close>

lemma read_exact_ok:
  "read_exact e n s = ok (b, s') \<longleftrightarrow> n \<le> length s \<and> b = take n s \<and> s' = drop n s"
  by (auto simp: read_exact_def)

named_theorems reads \<open>what the readers leave of their input\<close>

lemma read_u8_le [reads]: "read_u8 s = ok (b, s') \<Longrightarrow> length s' \<le> length s"
  by (auto simp: read_u8_def and_then_eq_ok read_exact_ok)

lemma read_u24_be_le [reads]: "read_u24_be s = ok (b, s') \<Longrightarrow> length s' \<le> length s"
  by (auto simp: read_u24_be_def and_then_eq_ok read_exact_ok)

lemma read_u32_be_le [reads]: "read_u32_be s = ok (b, s') \<Longrightarrow> length s' \<le> length s"
  by (auto simp: read_u32_be_def and_then_eq_ok read_exact_ok)

lemma read_u32_le_le [reads]: "read_u32_le s = ok (b, s') \<Longrightarrow> length s' \<le> length s"
  by (auto simp: read_u32_le_def and_then_eq_ok read_exact_ok)

lemma read_cs_id_le [reads]: "read_cs_id f s = ok (c, s') \<Longrightarrow> length s' \<le> length s"
  by (fastforce simp: read_cs_id_def and_then_eq_ok Let_def split: if_splits dest!: reads)

lemma read_message_header_le [reads]:
  "read_message_header fmt st s = ok (st', s') \<Longrightarrow> length s' \<le> length s"
  by (fastforce simp: read_message_header_def and_then_eq_ok split: if_splits dest!: reads)

lemma read_extended_le [reads]: "read_extended fmt st s = ok (st', s') \<Longrightarrow> length s' \<le> length s"
  by (fastforce simp: read_extended_def and_then_eq_ok split: if_splits dest!: reads)

lemma read_payload_le [reads]: "read_payload c st s = ok (st', s') \<Longrightarrow> length s' \<le> length s"
  by (auto simp: read_payload_def and_then_eq_ok read_exact_ok Let_def split: if_splits)

lemma finish_chunk_le [reads]:
  "finish_chunk r c st s = ok (m, r', s') \<Longrightarrow> length s' \<le> length s"
  by (fastforce simp: finish_chunk_def and_then_eq_ok split: if_splits dest!: reads)

lemma read_chunk_less: "read_chunk r s = ok (m, r', s') \<Longrightarrow> length s' < length s"
proof -
  assume "read_chunk r s = ok (m, r', s')"
  then obtain b s1 where "read_u8 s = ok (b, s1)" "length s' \<le> length s1"
    by (fastforce simp: read_chunk_def and_then_eq_ok Let_def split: if_splits dest!: reads)
  then show ?thesis by (auto simp: read_u8_def and_then_eq_ok read_exact_ok)
qed

function read_message ::
    "chunk_reader \<Rightarrow> bytes \<Rightarrow> (chunk_error, rtmp_message \<times> chunk_reader \<times> bytes) fallible" where
  "read_message r s =
     and_then (read_chunk r s) (\<lambda>(m, r, s).
     case m of Some msg \<Rightarrow> ok (msg, r, s) | None \<Rightarrow> read_message r s)"
  by pat_completeness auto

termination
  by (relation "measure (\<lambda>(_, s). length s)") (auto dest: read_chunk_less)

declare read_message.simps [simp del]

end
