(* ===== verification/RtmpChunkFacts.thy ===== *)
theory RtmpChunkFacts
  imports RtmpChunk
begin

text \<open>
  Facts of the chunk framing: the fields a chunk header is made of read back, the writer's loop in
  closed form, and the reader on a first chunk and on a continuation chunk.
\<close>

section \<open>Fields\<close>

lemma read_u8_Cons [simp]: "read_u8 (b # s) = ok (b, s)"
  by (simp add: read_u8_def read_exact_def)

lemma length_puts [simp]: "length (put_u24 w) = 3" "length (put_u32 w) = 4" "length (put_u32_le w) = 4"
  by (simp_all add: put_u24_def put_u32_def put_u32_le_def)

lemma read_u24_be_put [simp]:
  assumes "w < 0x1000000"
  shows "read_u24_be (put_u24 w @ s) = ok (w, s)"
proof -
  have "unat w < 2 ^ 24" using assms by (simp add: word_less_nat_alt)
  then have z: "drop_bit 24 w = 0"
    by (simp add: word_unat_eq_iff unat_drop_bit_eq drop_bit_eq_div unat_div_distrib)
  have "push_bit 16 (ucast (byte32 2 w)) OR push_bit 8 (ucast (byte32 1 w)) OR ucast (byte32 0 w) = w"
  proof (rule bit_word_eqI)
    fix n assume n: "n < LENGTH(32)"
    have "24 \<le> n \<Longrightarrow> bit (drop_bit 24 w) (n - 24) = bit w n" by (simp add: bit_drop_bit_eq)
    then have hi: "24 \<le> n \<Longrightarrow> \<not> bit w n" unfolding z by simp
    consider "n < 8" | "8 \<le> n \<and> n < 16" | "16 \<le> n \<and> n < 24" | "24 \<le> n" by linarith
    then show "bit (push_bit 16 (ucast (byte32 2 w)) OR push_bit 8 (ucast (byte32 1 w)) OR
        ucast (byte32 0 w) :: u32) n = bit w n"
      using n hi by cases (auto simp: byte32_def bit_or_iff bit_push_bit_iff bit_ucast_iff bit_drop_bit_eq)
  qed
  then show ?thesis by (simp add: read_u24_be_def read_exact_def put_u24_def)
qed

lemma read_u32_be_put [simp]: "read_u32_be (put_u32 w @ s) = ok (w, s)"
  using be32_byte32 [of w]
  by (simp add: read_u32_be_def read_exact_def put_u32_def numeral_eq_Suc del: be32_byte32)

lemma read_u32_le_put [simp]: "read_u32_le (put_u32_le w @ s) = ok (w, s)"
  using be32_byte32 [of w]
  by (simp add: read_u32_le_def read_exact_def put_u32_le_def numeral_eq_Suc del: be32_byte32)

section \<open>Basic header\<close>

lemma low_six:
  fixes u :: u8
  assumes "u < 64"
  shows "drop_bit 6 u = 0" "u AND 0x3F = u" "drop_bit 6 (0xC0 OR u) = 3" "(0xC0 OR u) AND 0x3F = u"
proof -
  show d: "drop_bit 6 u = 0"
    using assms by (simp add: word_unat_eq_iff unat_drop_bit_eq drop_bit_eq_div unat_div_distrib word_less_nat_alt)
  have "u = take_bit 6 u" using d take_bit_eq_self_iff_drop_bit_eq_0 [of 6 u] by simp
  then show a: "u AND 0x3F = u" using take_bit_eq_mask [of 6 u] by (simp add: mask_eq_exp_minus_1)
  show "drop_bit 6 (0xC0 OR u) = 3" using d by simp
  have "(0xC0 OR u) AND 0x3F = (0xC0 AND 0x3F) OR (u AND 0x3F)" by (simp add: bit.conj_disj_distrib2)
  then show "(0xC0 OR u) AND 0x3F = u" using a by simp
qed

text \<open>A basic header with an id of one or two bytes is read back.\<close>

lemma basic_header_read:
  assumes "fmt = 0 \<or> fmt = 3" "2 \<le> cs_id" "cs_id \<le> 319"
  shows "\<exists>first more. write_basic_header fmt cs_id = Some (first # more) \<and>
    drop_bit 6 first AND 0x03 = fmt \<and> (\<forall>s. read_cs_id first (more @ s) = ok (cs_id, s))"
proof (cases "cs_id \<le> 63")
  case True
  define u :: u8 where "u = ucast cs_id"
  have n: "unat cs_id \<le> 63" "2 \<le> unat cs_id" using True assms(2) by (simp_all add: word_le_nat_alt)
  then have nu: "unat u = unat cs_id" by (simp add: u_def unsigned_ucast_eq take_bit_eq_mod)
  then have u: "u < 64" "u \<noteq> 0" "u \<noteq> 1" using n by (auto simp: word_less_nat_alt)
  have c: "ucast u = cs_id" using nu n by (simp add: word_unat_eq_iff unsigned_ucast_eq take_bit_eq_mod)
  have "write_basic_header fmt cs_id = Some [push_bit 6 (fmt AND 0x03) OR u]"
    using True assms(2) by (simp add: write_basic_header_def u_def)
  then show ?thesis
    using assms(1) low_six [OF u(1)] u c by (auto simp: read_cs_id_def)
next
  case False
  have n: "64 \<le> unat cs_id" "unat cs_id \<le> 319" using False assms(3) by (simp_all add: word_le_nat_alt)
  then have d: "unat (cs_id - 64) = unat cs_id - 64" by (simp add: unat_sub_if')
  have "unat (ucast (cs_id - 64) :: u8) = unat cs_id - 64" using n d by (simp add: unsigned_ucast_eq take_bit_eq_mod)
  then have c: "ucast (ucast (cs_id - 64) :: u8) + 64 = cs_id"
    using n by (simp add: word_unat_eq_iff unat_word_ariths unsigned_ucast_eq take_bit_eq_mod)
  have "write_basic_header fmt cs_id = Some [push_bit 6 (fmt AND 0x03), ucast (cs_id - 64)]"
    using False assms(2,3) by (auto simp: write_basic_header_def word_le_nat_alt)
  then show ?thesis using assms(1) c by (auto simp: read_cs_id_def)
qed

section \<open>The writer's loop\<close>

text \<open>The chunks after the first: each is the same prefix and the next part of the payload.\<close>

function continuation :: "nat \<Rightarrow> bytes \<Rightarrow> bytes \<Rightarrow> bytes" where
  "continuation n pre p =
     (if n = 0 \<or> p = [] then [] else pre @ take n p @ continuation n pre (drop n p))"
  by pat_completeness auto

termination
  by (relation "measure (\<lambda>(_, _, p). length p)") auto

declare continuation.simps [simp del]

lemma continuation_Nil [simp]: "continuation n pre [] = []"
  by (simp add: continuation.simps)

lemma write_chunks_continues:
  assumes "write_basic_header 3 cs_id = Some b" "0 < n" "payload \<noteq> []"
  shows "0 < offset \<Longrightarrow> offset \<le> length payload \<Longrightarrow>
    write_chunks n cs_id h ext payload offset buf =
      Some (buf @ continuation n (b @ ext) (drop offset payload))"
proof (induction "length payload - offset" arbitrary: offset buf rule: less_induct)
  case less
  show ?case
  proof (cases "offset = length payload")
    case True
    with less(2) show ?thesis by (subst write_chunks.simps) simp
  next
    case False
    let ?k = "min (length payload - offset) n"
    have part: "slice payload offset (offset + ?k) = Some (take n (drop offset payload))"
      using less(3) by (auto simp: slice_def min_def)
    have rest: "drop (offset + ?k) payload = drop n (drop offset payload)"
      by (simp add: min_def add.commute)
    have "write_chunks n cs_id h ext payload offset buf =
        write_chunks n cs_id h ext payload (offset + ?k) (buf @ b @ ext @ take n (drop offset payload))"
      using False less(2,3) assms(3) by (subst write_chunks.simps) (simp add: assms(1) part)
    also have "\<dots> = Some ((buf @ b @ ext @ take n (drop offset payload)) @
        continuation n (b @ ext) (drop (offset + ?k) payload))"
      using False less(2,3) assms(2) by (intro less(1)) auto
    also have "\<dots> = Some (buf @ continuation n (b @ ext) (drop offset payload))"
      using False less(3) assms(2) unfolding rest
      by (subst (2) continuation.simps) simp
    finally show ?thesis .
  qed
qed

lemma write_message_bytes:
  assumes "write_basic_header 0 cs_id = Some b0" "write_basic_header 3 cs_id = Some b3"
    "cw_chunk_size w \<noteq> 0"
  shows "write_message w cs_id ty sid ts payload =
    Some (b0 @ message_header ty sid ts payload @ extended_timestamp ts @
      take (unat (cw_chunk_size w)) payload @
      continuation (unat (cw_chunk_size w)) (b3 @ extended_timestamp ts)
        (drop (unat (cw_chunk_size w)) payload))"
proof -
  define n where "n = unat (cw_chunk_size w)"
  have n: "0 < n" using assms(3) by (simp add: n_def unat_gt_0)
  show ?thesis
  proof (cases "payload = []")
    case True
    then show ?thesis
      unfolding write_message_def by (subst write_chunks.simps) (simp add: assms(1) slice_def)
  next
    case False
    let ?k = "min (length payload) n"
    have part: "slice payload 0 ?k = Some (take n payload)" by (simp add: slice_def min_def)
    have rest: "drop ?k payload = drop n payload" by (simp add: min_def)
    have "write_chunks n cs_id h ext payload 0 [] =
        write_chunks n cs_id h ext payload ?k (b0 @ h @ ext @ take n payload)" for h ext
      using False by (subst write_chunks.simps) (simp add: assms(1) part)
    also have "\<dots> h ext = Some ((b0 @ h @ ext @ take n payload) @
        continuation n (b3 @ ext) (drop ?k payload))" for h ext
      using False n by (intro write_chunks_continues assms) auto
    finally show ?thesis unfolding rest by (simp add: write_message_def n_def [symmetric])
  qed
qed

end
