(* ===== verification/RtmpChunkCorrect.thy ===== *)
theory RtmpChunkCorrect
  imports RtmpChunkFacts
begin

text \<open>
  The chunk reader against the chunk writer: every message the writer emits is reassembled, over
  any number of messages and changes of the chunk size, and the reader's state is bounded
  whatever the peer sends.
\<close>

section \<open>The chunk-stream map\<close>

lemma update_update [simp]: "AList.update k v (AList.update k v' al) = AList.update k v al"
  by (induction al) auto

lemma length_update: "length (AList.update k v al) = (if map_of al k = None then Suc (length al) else length al)"
  by (induction al) auto

lemma update_known:
  "distinct (map fst al) \<Longrightarrow> distinct (map fst (AList.update k v al))"
  by (rule distinct_update)

section \<open>One chunk\<close>

lemma read_payload_part:
  assumes "length (ss_payload st) + length p = unat (ss_msg_len st)"
  shows "read_payload c st (take (unat c) p @ rest) =
    ok (st\<lparr> ss_payload := ss_payload st @ take (unat c) p \<rparr>, rest)"
proof -
  have d: "unat (ss_msg_len st) - length (ss_payload st) = length p" using assms by simp
  have e: "read_exact PayloadFailed (min (length p) (unat c)) (take (unat c) p @ rest) =
      ok (take (unat c) p, rest)"
    by (simp add: read_exact_def min_def)
  have z: "\<not> 0 < min (length p) (unat c) \<Longrightarrow> take (unat c) p = []" by auto
  show ?thesis
    unfolding read_payload_def d Let_def using assms z
    by (cases "0 < min (length p) (unat c)") (auto simp: e)
qed

lemma finish_chunk_part:
  assumes "length (ss_payload st) + length p = unat (ss_msg_len st)"
    "unat (ss_msg_len st) \<le> message_cap r (ss_msg_type st)" "c = unat (cr_chunk_size r)"
  shows "finish_chunk r cs_id st (take c p @ rest) =
    (if length p \<le> c
     then and_then (complete_message r cs_id (st\<lparr> ss_payload := ss_payload st @ p \<rparr>))
       (\<lambda>(msg, r). ok (Some msg, r, rest))
     else ok (None, r\<lparr> cr_streams := AList.update cs_id
       (st\<lparr> ss_payload := ss_payload st @ take c p \<rparr>) (cr_streams r) \<rparr>, rest))"
  using assms read_payload_part [OF assms(1), of "cr_chunk_size r" rest]
  by (auto simp: finish_chunk_def)

lemma complete_message_update [simp]:
  "complete_message (r\<lparr> cr_streams := AList.update cs_id st' (cr_streams r) \<rparr>) cs_id st =
   complete_message r cs_id st"
  by (simp add: complete_message_def)

lemma message_cap_streams [simp]: "message_cap (r\<lparr> cr_streams := x \<rparr>) ty = message_cap r ty"
  by (simp add: message_cap_def)

text \<open>A chunk of format 3 goes straight to the payload.\<close>

lemma read_chunk_continue:
  assumes "drop_bit 6 first AND 0x03 = 3" "read_cs_id first (mid @ s) = ok (cs_id, s)"
    "map_of (cr_streams r) cs_id = Some st"
  shows "read_chunk r (first # mid @ s) = finish_chunk r cs_id st s"
  using assms
  by (simp add: read_chunk_def read_message_header_def read_extended_def needs_ext_def
      entry_or_default_def)

lemma read_continuation:
  assumes hd: "drop_bit 6 first AND 0x03 = 3" "\<And>s. read_cs_id first (mid @ s) = ok (cs_id, s)"
  shows "p \<noteq> [] \<Longrightarrow> map_of (cr_streams r) cs_id = Some st \<Longrightarrow> 0 < c \<Longrightarrow> c = unat (cr_chunk_size r) \<Longrightarrow>
    length (ss_payload st) + length p = unat (ss_msg_len st) \<Longrightarrow>
    unat (ss_msg_len st) \<le> message_cap r (ss_msg_type st) \<Longrightarrow>
    read_message r (continuation c (first # mid) p @ rest) =
      and_then (complete_message r cs_id (st\<lparr> ss_payload := ss_payload st @ p \<rparr>))
        (\<lambda>(msg, r). ok (msg, r, rest))"
proof (induction "length p" arbitrary: p r st rule: less_induct)
  case less
  note prems = less.prems
  let ?next = "continuation c (first # mid) (drop c p)"
  let ?st = "st\<lparr> ss_payload := ss_payload st @ take c p \<rparr>"
  have "continuation c (first # mid) p @ rest = first # mid @ take c p @ ?next @ rest"
    using prems(1,3) by (subst continuation.simps) simp
  then have step: "read_chunk r (continuation c (first # mid) p @ rest) =
      finish_chunk r cs_id st (take c p @ ?next @ rest)"
    by (simp only: read_chunk_continue [OF hd(1) hd(2) prems(2)])
  show ?case
  proof (cases "length p \<le> c")
    case True
    then show ?thesis
      unfolding read_message.simps [of r] step finish_chunk_part [OF prems(5,6,4)]
      by (cases "complete_message r cs_id (st\<lparr> ss_payload := ss_payload st @ p \<rparr>)" rule: fallible_cases)
         (auto split: prod.splits)
  next
    case False
    let ?r = "r\<lparr> cr_streams := AList.update cs_id ?st (cr_streams r) \<rparr>"
    have "read_message ?r (?next @ rest) =
        and_then (complete_message ?r cs_id (?st\<lparr> ss_payload := ss_payload ?st @ drop c p \<rparr>))
          (\<lambda>(msg, r). ok (msg, r, rest))"
      using prems False by (intro less.hyps) (auto simp: update_conv)
    then show ?thesis
      using False unfolding read_message.simps [of r] step finish_chunk_part [OF prems(5,6,4)]
      by simp
  qed
qed

section \<open>One message\<close>

definition sent_state :: "u8 \<Rightarrow> u32 \<Rightarrow> u32 \<Rightarrow> bytes \<Rightarrow> chunk_stream_state" where
  "sent_state ty sid ts payload =
     \<lparr> ss_msg_type = ty, ss_msg_len = of_nat (length payload), ss_timestamp = ts,
       ss_stream_id = sid, ss_payload = payload \<rparr>"

text \<open>The connection can carry the message: the reader knows the chunk stream or has room for it,
  the length fits the header and the cap, and an extended timestamp is not repeated.\<close>

definition can_carry :: "chunk_reader \<Rightarrow> u32 \<Rightarrow> u8 \<Rightarrow> u32 \<Rightarrow> bytes \<Rightarrow> bool" where
  "can_carry r cs_id ty ts payload \<longleftrightarrow>
     2 \<le> cs_id \<and> cs_id \<le> 319 \<and>
     (map_of (cr_streams r) cs_id \<noteq> None \<or> length (cr_streams r) < MAX_CHUNK_STREAMS) \<and>
     length payload < 2 ^ 24 \<and> length payload \<le> message_cap r ty \<and>
     (ts < 0x00FFFFFF \<or> length payload \<le> unat (cr_chunk_size r))"

lemma read_first_header:
  assumes "length payload < 2 ^ 24" "drop_bit 6 first AND 0x03 = 0"
    "read_cs_id first (mid @ message_header ty sid ts payload @ extended_timestamp ts @ s) =
       ok (cs_id, message_header ty sid ts payload @ extended_timestamp ts @ s)"
    "map_of (cr_streams r) cs_id \<noteq> None \<or> length (cr_streams r) < MAX_CHUNK_STREAMS"
  shows "read_chunk r (first # mid @ message_header ty sid ts payload @ extended_timestamp ts @ s) =
    finish_chunk r cs_id ((sent_state ty sid ts payload)\<lparr> ss_payload := [] \<rparr>) s"
proof -
  define tsf :: u32 where "tsf = (if ts \<ge> 0x00FFFFFF then 0x00FFFFFF else ts)"
  have t: "tsf < 0x1000000" by (auto simp: tsf_def word_less_nat_alt word_le_nat_alt)
  have l: "(of_nat (length payload) :: u32) < 0x1000000"
    using assms(1) by (simp add: word_less_nat_alt unat_of_nat)
  have h: "read_message_header 0 st (message_header ty sid ts payload @ x) =
      ok (st\<lparr> ss_timestamp := tsf, ss_msg_len := of_nat (length payload), ss_msg_type := ty,
        ss_stream_id := sid, ss_payload := [] \<rparr>, x)" for st x
    using t l by (simp add: read_message_header_def message_header_def tsf_def [symmetric])
  have e: "read_extended 0 (st\<lparr> ss_timestamp := tsf, ss_msg_len := of_nat (length payload), ss_msg_type := ty,
        ss_stream_id := sid, ss_payload := [] \<rparr>) (extended_timestamp ts @ s) =
      ok ((sent_state ty sid ts payload)\<lparr> ss_payload := [] \<rparr>, s)" for st
    by (auto simp: read_extended_def needs_ext_def tsf_def extended_timestamp_def sent_state_def
        not_le)
  show ?thesis using assms(2-4) by (auto simp: read_chunk_def h e Let_def)
qed

lemma write_then_read:
  assumes "can_carry r cs_id ty ts payload" "cw_chunk_size w = cr_chunk_size r" "cr_chunk_size r \<noteq> 0"
  shows "\<exists>bs. write_message w cs_id ty sid ts payload = Some bs \<and>
    (\<forall>rest. read_message r (bs @ rest) =
      and_then (complete_message r cs_id (sent_state ty sid ts payload)) (\<lambda>(msg, r). ok (msg, r, rest)))"
proof -
  note c = assms(1) [unfolded can_carry_def]
  define n where "n = unat (cr_chunk_size r)"
  define st where "st = (sent_state ty sid ts payload)\<lparr> ss_payload := [] \<rparr>"
  have n: "0 < n" using assms(3) by (simp add: n_def unat_gt_0)
  obtain f0 m0 where b0: "write_basic_header 0 cs_id = Some (f0 # m0)" "drop_bit 6 f0 AND 0x03 = 0"
    "\<And>s. read_cs_id f0 (m0 @ s) = ok (cs_id, s)"
    using basic_header_read [of 0 cs_id] c by auto
  obtain f3 m3 where b3: "write_basic_header 3 cs_id = Some (f3 # m3)" "drop_bit 6 f3 AND 0x03 = 3"
    "\<And>s. read_cs_id f3 (m3 @ s) = ok (cs_id, s)"
    using basic_header_read [of 3 cs_id] c by auto
  let ?ext = "extended_timestamp ts"
  let ?cont = "continuation n ((f3 # m3) @ ?ext) (drop n payload)"
  let ?bs = "(f0 # m0) @ message_header ty sid ts payload @ ?ext @ take n payload @ ?cont"
  have w: "write_message w cs_id ty sid ts payload = Some ?bs"
    using write_message_bytes [OF b0(1) b3(1), of w] assms(2,3) by (simp add: n_def)
  have len: "unat (ss_msg_len st) = length payload" "ss_payload st = []" "ss_msg_type st = ty"
    using c by (simp_all add: st_def sent_state_def unat_of_nat)
  have chunk: "read_chunk r (?bs @ rest) = finish_chunk r cs_id st (take n payload @ ?cont @ rest)" for rest
    using read_first_header [of payload f0 m0 ty sid ts "take n payload @ ?cont @ rest" cs_id r] b0 c
    by (simp add: st_def)
  have fin: "finish_chunk r cs_id st (take n payload @ x) =
      (if length payload \<le> n
       then and_then (complete_message r cs_id (sent_state ty sid ts payload))
         (\<lambda>(msg, r). ok (Some msg, r, x))
       else ok (None, r\<lparr> cr_streams := AList.update cs_id (st\<lparr> ss_payload := take n payload \<rparr>)
         (cr_streams r) \<rparr>, x))" for x
    using finish_chunk_part [of st payload r n cs_id x] len c
    by (simp add: n_def) (simp add: st_def sent_state_def)
  have "read_message r (?bs @ rest) =
      and_then (complete_message r cs_id (sent_state ty sid ts payload)) (\<lambda>(msg, r). ok (msg, r, rest))" for rest
  proof (cases "length payload \<le> n")
    case True
    then show ?thesis
      unfolding read_message.simps [of r] chunk fin
      by (cases "complete_message r cs_id (sent_state ty sid ts payload)" rule: fallible_cases)
         (auto split: prod.splits)
  next
    case False
    let ?st = "st\<lparr> ss_payload := take n payload \<rparr>"
    let ?r = "r\<lparr> cr_streams := AList.update cs_id ?st (cr_streams r) \<rparr>"
    have ext: "?ext = []" using False c by (auto simp: n_def extended_timestamp_def not_le)
    have "read_message ?r (continuation n (f3 # m3) (drop n payload) @ rest) =
        and_then (complete_message ?r cs_id (?st\<lparr> ss_payload := ss_payload ?st @ drop n payload \<rparr>))
          (\<lambda>(msg, r). ok (msg, r, rest))"
      using False n len c by (intro read_continuation [OF b3(2,3)]) (auto simp: update_conv n_def)
    moreover have "?st\<lparr> ss_payload := ss_payload ?st @ drop n payload \<rparr> = sent_state ty sid ts payload"
      by (simp add: st_def sent_state_def)
    ultimately show ?thesis
      using False unfolding read_message.simps [of r] chunk fin by (simp add: ext)
  qed
  with w show ?thesis by blast
qed

section \<open>A connection\<close>

lemma complete_message_plain:
  "ty \<noteq> SET_CHUNK_SIZE \<Longrightarrow> complete_message r cs_id (sent_state ty sid ts payload) =
     ok (\<lparr> rm_msg_type = ty, rm_timestamp = ts, rm_payload = payload \<rparr>,
       r\<lparr> cr_streams := AList.update cs_id ((sent_state ty sid ts payload)\<lparr> ss_payload := [] \<rparr>)
         (cr_streams r) \<rparr>)"
  by (simp add: complete_message_def handle_set_chunk_size_def sent_state_def)

lemma small_size:
  fixes n :: u32
  assumes "n \<le> 16777215"
  shows "n AND 0x7FFFFFFF = n" "byte32 3 n = 0"
proof -
  have u: "unat n < 2 ^ 24" using assms by (simp add: word_le_nat_alt)
  then have "drop_bit 24 n = 0" "drop_bit 31 n = 0"
    by (simp_all add: word_unat_eq_iff unat_drop_bit_eq drop_bit_eq_div unat_div_distrib)
  then show "byte32 3 n = 0" and "n AND 0x7FFFFFFF = n"
    using take_bit_eq_self_iff_drop_bit_eq_0 [of 31 n] take_bit_eq_mask [of 31 n]
    by (simp_all add: byte32_def mask_eq_exp_minus_1)
qed

lemma complete_set_chunk_size:
  assumes "n \<noteq> 0" "n \<le> 16777215"
  shows "complete_message r cs_id (sent_state SET_CHUNK_SIZE 0 0 (put_u32 n)) =
    ok (\<lparr> rm_msg_type = SET_CHUNK_SIZE, rm_timestamp = 0, rm_payload = put_u32 n \<rparr>,
      r\<lparr> cr_streams := AList.update cs_id
          ((sent_state SET_CHUNK_SIZE 0 0 (put_u32 n))\<lparr> ss_payload := [] \<rparr>) (cr_streams r),
        cr_chunk_size := n \<rparr>)"
proof -
  have "be32 (byte32 3 n AND 0x7F) (byte32 2 n) (byte32 1 n) (byte32 0 n) = n"
    using be32_byte32 [of n] small_size(2) [OF assms(2)] by simp
  then show ?thesis
    using assms
    by (simp add: complete_message_def handle_set_chunk_size_def sent_state_def put_u32_def
        numeral_eq_Suc not_less [symmetric])
qed

text \<open>What one side sends, and what it takes for the connection to carry it.\<close>

datatype rtmp_send =
  SetSize u32
| Send (send_cs_id: u32) (send_type: u8) (send_stream: u32) (send_ts: u32) (send_payload: bytes)

fun send_id :: "rtmp_send \<Rightarrow> u32" where
  "send_id (SetSize n) = 2"
| "send_id (Send cs_id ty sid ts payload) = cs_id"

fun sent_message :: "rtmp_send \<Rightarrow> rtmp_message" where
  "sent_message (SetSize n) =
     \<lparr> rm_msg_type = SET_CHUNK_SIZE, rm_timestamp = 0, rm_payload = put_u32 n \<rparr>"
| "sent_message (Send cs_id ty sid ts payload) =
     \<lparr> rm_msg_type = ty, rm_timestamp = ts, rm_payload = payload \<rparr>"

fun sendable :: "chunk_reader \<Rightarrow> rtmp_send \<Rightarrow> bool" where
  "sendable r (SetSize n) \<longleftrightarrow> n \<noteq> 0 \<and> n \<le> 16777215"
| "sendable r (Send cs_id ty sid ts payload) \<longleftrightarrow>
     2 \<le> cs_id \<and> cs_id \<le> 319 \<and> ty \<noteq> SET_CHUNK_SIZE \<and> ts < 0x00FFFFFF \<and>
     length payload < 2 ^ 24 \<and> length payload \<le> message_cap r ty"

fun write_one :: "chunk_writer \<Rightarrow> rtmp_send \<Rightarrow> (bytes \<times> chunk_writer) option" where
  "write_one w (SetSize n) = write_set_chunk_size w n"
| "write_one w (Send cs_id ty sid ts payload) =
     map_option (\<lambda>bs. (bs, w)) (write_message w cs_id ty sid ts payload)"

fun write_sends :: "chunk_writer \<Rightarrow> rtmp_send list \<Rightarrow> (bytes \<times> chunk_writer) option" where
  "write_sends w [] = Some ([], w)"
| "write_sends w (x # xs) = do {
     (bs, w) \<leftarrow> write_one w x;
     (cs, w) \<leftarrow> write_sends w xs;
     Some (bs @ cs, w)
   }"

fun read_messages :: "chunk_reader \<Rightarrow> nat \<Rightarrow> bytes \<Rightarrow> (chunk_error, rtmp_message list \<times> chunk_reader \<times> bytes) fallible" where
  "read_messages r 0 s = ok ([], r, s)"
| "read_messages r (Suc n) s =
     and_then (read_message r s) (\<lambda>(msg, r, s).
     and_then (read_messages r n s) (\<lambda>(msgs, r, s). ok (msg # msgs, r, s)))"

text \<open>The two ends agree on the chunk size, and the chunk streams in use fit the map.\<close>

definition in_step :: "u32 set \<Rightarrow> nat \<Rightarrow> chunk_writer \<Rightarrow> chunk_reader \<Rightarrow> bool" where
  "in_step ids cap w r \<longleftrightarrow>
     cw_chunk_size w = cr_chunk_size r \<and> cr_chunk_size r \<noteq> 0 \<and> cr_max_command_len r = cap \<and>
     finite ids \<and> card ids \<le> MAX_CHUNK_STREAMS \<and> distinct (map fst (cr_streams r)) \<and>
     fst ` set (cr_streams r) \<subseteq> ids"

lemma in_step_room:
  assumes "in_step ids cap w r" "cs_id \<in> ids"
  shows "map_of (cr_streams r) cs_id \<noteq> None \<or> length (cr_streams r) < MAX_CHUNK_STREAMS"
proof (cases "cs_id \<in> fst ` set (cr_streams r)")
  case True
  then show ?thesis by (simp add: map_of_eq_None_iff)
next
  case False
  have "fst ` set (cr_streams r) \<subset> ids" using assms False by (auto simp: in_step_def)
  then have "card (fst ` set (cr_streams r)) < card ids"
    using assms(1) by (intro psubset_card_mono) (auto simp: in_step_def)
  moreover have "card (fst ` set (cr_streams r)) = length (cr_streams r)"
    using assms(1) distinct_card [of "map fst (cr_streams r)"] by (simp add: in_step_def)
  ultimately show ?thesis using assms(1) by (simp add: in_step_def)
qed

lemma in_step_update:
  "in_step ids cap w r \<Longrightarrow> cs_id \<in> ids \<Longrightarrow>
   in_step ids cap w (r\<lparr> cr_streams := AList.update cs_id st (cr_streams r) \<rparr>)"
  using dom_update [of cs_id st "cr_streams r"]
  by (auto simp: in_step_def update_known dom_map_of_conv_image_fst update_keys split: if_splits)

lemma one_message_carried:
  assumes st: "in_step ids cap w r" and "send_id x \<in> ids" "sendable r x"
  shows "\<exists>bs w' r'. write_one w x = Some (bs, w') \<and> in_step ids cap w' r' \<and>
    (\<forall>rest. read_message r (bs @ rest) = ok (sent_message x, r', rest))"
proof (cases x)
  case (SetSize n)
  let ?st = "(sent_state SET_CHUNK_SIZE 0 0 (put_u32 n))\<lparr> ss_payload := [] \<rparr>"
  let ?r = "r\<lparr> cr_streams := AList.update 2 ?st (cr_streams r), cr_chunk_size := n \<rparr>"
  have n: "n \<noteq> 0" "n \<le> 16777215" using assms(3) SetSize by auto
  have "can_carry r 2 SET_CHUNK_SIZE 0 (put_u32 n)"
    using in_step_room [OF st] assms(2) SetSize
    by (simp add: can_carry_def message_cap_def msg_types MAX_RTMP_MSG_LEN_def)
  then obtain bs where "write_message w 2 SET_CHUNK_SIZE 0 0 (put_u32 n) = Some bs"
    "\<forall>rest. read_message r (bs @ rest) = ok (sent_message x, ?r, rest)"
    using write_then_read [of r 2 SET_CHUNK_SIZE 0 "put_u32 n" w 0] st
    by (auto simp: in_step_def complete_set_chunk_size [OF n] SetSize)
  moreover have "in_step ids cap (w\<lparr> cw_chunk_size := n \<rparr>) ?r"
    using in_step_update [OF st, of 2 ?st] assms(2) n SetSize by (simp add: in_step_def)
  ultimately show ?thesis
    using n SetSize small_size(1) [OF n(2)] by (auto simp: write_set_chunk_size_def)
next
  case (Send cs_id ty sid ts payload)
  have "can_carry r cs_id ty ts payload"
    using in_step_room [OF st] assms(2,3) Send by (simp add: can_carry_def)
  then show ?thesis
    using write_then_read [of r cs_id ty ts payload w sid] st assms(2,3) Send
      in_step_update [OF st, of cs_id]
    by (auto simp: in_step_def complete_message_plain)
qed

lemma message_cap_cong: "cr_max_command_len r = cr_max_command_len r' \<Longrightarrow> sendable r x = sendable r' x"
  by (cases x) (auto simp: message_cap_def)

lemma connection_carries:
  assumes "in_step ids cap w r" "\<forall>x\<in>set xs. send_id x \<in> ids \<and> sendable r x"
  shows "\<exists>bs w' r'. write_sends w xs = Some (bs, w') \<and> in_step ids cap w' r' \<and>
    (\<forall>rest. read_messages r (length xs) (bs @ rest) = ok (map sent_message xs, r', rest))"
  using assms
proof (induction xs arbitrary: w r)
  case (Cons x xs)
  obtain bs w1 r1 where one: "write_one w x = Some (bs, w1)" "in_step ids cap w1 r1"
    "\<And>rest. read_message r (bs @ rest) = ok (sent_message x, r1, rest)"
    using one_message_carried [OF Cons.prems(1)] Cons.prems(2) by fastforce
  have "cr_max_command_len r1 = cr_max_command_len r"
    using one(2) Cons.prems(1) by (simp add: in_step_def)
  then have "\<forall>x\<in>set xs. send_id x \<in> ids \<and> sendable r1 x"
    using Cons.prems(2) message_cap_cong [of r1 r] by simp
  from Cons.IH [OF one(2) this] obtain cs w2 r2 where "write_sends w1 xs = Some (cs, w2)"
    "in_step ids cap w2 r2"
    "\<And>rest. read_messages r1 (length xs) (cs @ rest) = ok (map sent_message xs, r2, rest)"
    by blast
  with one show ?case by (auto intro!: exI [of _ r2])
qed auto

section \<open>The reader is bounded\<close>

text \<open>At most 64 chunk streams, none holding more than the length its header declared, and that
  within the cap of its type.\<close>

definition stream_ok :: "chunk_reader \<Rightarrow> chunk_stream_state \<Rightarrow> bool" where
  "stream_ok r st \<longleftrightarrow> length (ss_payload st) \<le> unat (ss_msg_len st) \<and>
     (ss_payload st = [] \<or> unat (ss_msg_len st) \<le> message_cap r (ss_msg_type st))"

definition reader_ok :: "chunk_reader \<Rightarrow> bool" where
  "reader_ok r \<longleftrightarrow> distinct (map fst (cr_streams r)) \<and> length (cr_streams r) \<le> MAX_CHUNK_STREAMS \<and>
     (\<forall>(k, st)\<in>set (cr_streams r). stream_ok r st) \<and>
     cr_chunk_size r \<noteq> 0 \<and> cr_chunk_size r \<le> 16777215"

lemma message_cap_size [simp]: "message_cap (r\<lparr> cr_chunk_size := n \<rparr>) ty = message_cap r ty"
  by (simp add: message_cap_def)

lemma stream_ok_upd [simp]:
  "stream_ok (r\<lparr> cr_streams := x \<rparr>) st = stream_ok r st"
  "stream_ok (r\<lparr> cr_chunk_size := n \<rparr>) st = stream_ok r st"
  by (simp_all add: stream_ok_def)

lemma reader_ok_update:
  assumes "reader_ok r" "stream_ok r st"
    "map_of (cr_streams r) cs_id \<noteq> None \<or> length (cr_streams r) < MAX_CHUNK_STREAMS"
  shows "reader_ok (r\<lparr> cr_streams := AList.update cs_id st (cr_streams r) \<rparr>)"
proof -
  have "set (AList.update cs_id st al) \<subseteq> insert (cs_id, st) (set al)" for al :: "(u32 \<times> chunk_stream_state) list"
    by (induction al) auto
  from this [of "cr_streams r"] assms(1,2)
  have "\<forall>(k, st)\<in>set (AList.update cs_id st (cr_streams r)). stream_ok r st"
    by (fastforce simp: reader_ok_def)
  with assms(1,3) show ?thesis
    by (auto simp: reader_ok_def update_known length_update split: if_splits)
qed

lemma reader_ok_state:
  "reader_ok r \<Longrightarrow> stream_ok r (entry_or_default r cs_id)"
  by (auto simp: entry_or_default_def reader_ok_def stream_ok_def ss_default_def split: option.splits dest!: map_of_SomeD)

lemma read_message_header_stream:
  "read_message_header fmt st s = ok (st', s') \<Longrightarrow> stream_ok r st \<Longrightarrow> stream_ok r st'"
  by (auto simp: read_message_header_def and_then_eq_ok stream_ok_def split: if_splits)

lemma read_extended_stream:
  "read_extended fmt st s = ok (st', s') \<Longrightarrow> stream_ok r st \<Longrightarrow> stream_ok r st'"
  by (auto simp: read_extended_def and_then_eq_ok stream_ok_def split: if_splits)

lemma headers_stream:
  "reader_ok r \<Longrightarrow> read_message_header f (entry_or_default r c) s = ok (st1, s1) \<Longrightarrow>
   read_extended f' st1 s2 = ok (st2, s3) \<Longrightarrow> stream_ok r st2"
  by (rule read_extended_stream, assumption, rule read_message_header_stream, assumption,
      rule reader_ok_state)

lemma read_payload_stream:
  assumes "read_payload c st s = ok (st', s')" "stream_ok r st"
    "unat (ss_msg_len st) \<le> message_cap r (ss_msg_type st)"
  shows "stream_ok r st' \<and> ss_msg_len st' = ss_msg_len st \<and> ss_msg_type st' = ss_msg_type st"
  using assms
  by (auto simp: read_payload_def and_then_eq_ok stream_ok_def read_exact_ok Let_def split: if_splits)

lemma complete_message_ok:
  assumes "complete_message r cs_id st = ok (msg, r')" "reader_ok r" "stream_ok r st"
    "map_of (cr_streams r) cs_id \<noteq> None \<or> length (cr_streams r) < MAX_CHUNK_STREAMS"
  shows "reader_ok r' \<and> cr_max_command_len r' = cr_max_command_len r \<and> rm_payload msg = ss_payload st \<and>
    rm_msg_type msg = ss_msg_type st"
proof -
  have "reader_ok (r\<lparr> cr_streams := AList.update cs_id (st\<lparr> ss_payload := [] \<rparr>) (cr_streams r) \<rparr>)"
    using assms(2-4) by (intro reader_ok_update) (auto simp: stream_ok_def)
  with assms(1) show ?thesis
    by (auto simp: complete_message_def handle_set_chunk_size_def Let_def reader_ok_def and_then_eq_ok
        split: if_splits)
qed

text \<open>One chunk keeps the bound, and a message that comes out is within its cap.\<close>

definition chunk_result_ok :: "chunk_reader \<Rightarrow> rtmp_message option \<Rightarrow> chunk_reader \<Rightarrow> bool" where
  "chunk_result_ok r m r' \<longleftrightarrow> reader_ok r' \<and> cr_max_command_len r' = cr_max_command_len r \<and>
     (\<forall>msg. m = Some msg \<longrightarrow> length (rm_payload msg) \<le> message_cap r (rm_msg_type msg))"

lemma finish_chunk_bounded:
  assumes "finish_chunk r cs_id st s = ok (m, r', s')" "reader_ok r" "stream_ok r st"
    "map_of (cr_streams r) cs_id \<noteq> None \<or> length (cr_streams r) < MAX_CHUNK_STREAMS"
  shows "chunk_result_ok r m r'"
proof -
  from assms(1) obtain st2 s2 where cap: "unat (ss_msg_len st) \<le> message_cap r (ss_msg_type st)"
    and p: "read_payload (cr_chunk_size r) st s = ok (st2, s2)"
    and fin: "(if length (ss_payload st2) \<ge> unat (ss_msg_len st2)
        then and_then (complete_message r cs_id st2) (\<lambda>(msg, r). ok (Some msg, r, s2))
        else ok (None, r\<lparr> cr_streams := AList.update cs_id st2 (cr_streams r) \<rparr>, s2)) = ok (m, r', s')"
    by (auto simp: finish_chunk_def and_then_eq_ok not_less split: if_splits)
  have st2: "stream_ok r st2" "ss_msg_len st2 = ss_msg_len st" "ss_msg_type st2 = ss_msg_type st"
    using read_payload_stream [OF p assms(3) cap] by auto
  show ?thesis
  proof (cases "length (ss_payload st2) \<ge> unat (ss_msg_len st2)")
    case True
    with fin obtain msg where m: "m = Some msg" "complete_message r cs_id st2 = ok (msg, r')"
      by (auto simp: and_then_eq_ok)
    show ?thesis
      using complete_message_ok [OF m(2) assms(2) st2(1) assms(4)] m(1) cap st2
      by (auto simp: chunk_result_ok_def stream_ok_def)
  next
    case False
    with fin reader_ok_update [OF assms(2) st2(1) assms(4)] show ?thesis
      by (auto simp: chunk_result_ok_def)
  qed
qed

lemma read_chunk_bounded:
  assumes "read_chunk r s = ok (m, r', s')" "reader_ok r"
  shows "chunk_result_ok r m r'"
proof -
  from assms(1) obtain fmt cs_id st1 st s0 s1 s2 where
    h: "read_message_header fmt (entry_or_default r cs_id) s0 = ok (st1, s1)"
    "read_extended fmt st1 s1 = ok (st, s2)" and f: "finish_chunk r cs_id st s2 = ok (m, r', s')"
    and room: "map_of (cr_streams r) cs_id \<noteq> None \<or> length (cr_streams r) < MAX_CHUNK_STREAMS"
    by (auto simp: read_chunk_def and_then_eq_ok Let_def not_le split: if_splits)
  show ?thesis by (rule finish_chunk_bounded [OF f assms(2) headers_stream [OF assms(2) h] room])
qed

lemma read_message_bounded:
  "read_message r s = ok (msg, r', s') \<Longrightarrow> reader_ok r \<Longrightarrow> chunk_result_ok r (Some msg) r'"
proof (induction r s rule: read_message.induct)
  case (1 r s)
  from 1(2) obtain m r1 s1 where c: "read_chunk r s = ok (m, r1, s1)"
    and k: "(case m of Some msg \<Rightarrow> ok (msg, r1, s1) | None \<Rightarrow> read_message r1 s1) = ok (msg, r', s')"
    by (auto simp: read_message.simps [of r] and_then_eq_ok)
  note b = read_chunk_bounded [OF c 1(3)]
  show ?case
  proof (cases m)
    case None
    with k have "read_message r1 s1 = ok (msg, r', s')" by simp
    from 1(1) [OF c refl refl None this] b show ?thesis
      by (auto simp: chunk_result_ok_def message_cap_def)
  next
    case (Some msg1)
    with k b show ?thesis by simp
  qed
qed

lemma read_message_less: "read_message r s = ok (msg, r', s') \<Longrightarrow> length s' < length s"
proof (induction r s rule: read_message.induct)
  case (1 r s)
  from 1(2) obtain m r1 s1 where c: "read_chunk r s = ok (m, r1, s1)"
    and k: "(case m of Some msg \<Rightarrow> ok (msg, r1, s1) | None \<Rightarrow> read_message r1 s1) = ok (msg, r', s')"
    by (auto simp: read_message.simps [of r] and_then_eq_ok)
  with 1(1) [OF c refl refl] read_chunk_less [OF c] show ?case by (auto split: option.splits)
qed

lemma no_panic_reads [no_panic_simps]:
  "no_panic (read_exact e n s)" "no_panic (read_u8 s)" "no_panic (read_u24_be s)"
  "no_panic (read_u32_be s)" "no_panic (read_u32_le s)"
  by (auto simp: read_exact_def read_u8_def read_u24_be_def read_u32_be_def read_u32_le_def
      no_panic_simps)

lemma read_chunk_no_panic:
  assumes "reader_ok r"
  shows "no_panic (read_chunk r s)"
proof -
  have header: "no_panic (read_cs_id f s)" "no_panic (read_message_header fmt st s)"
    "no_panic (read_extended fmt st s)" for f fmt st s
    by (auto simp: read_cs_id_def read_message_header_def read_extended_def no_panic_simps Let_def
        split: prod.splits)
  have complete: "no_panic (complete_message r cs_id st)" for cs_id st
    by (auto simp: complete_message_def handle_set_chunk_size_def no_panic_simps Let_def)
  have "stream_ok r st \<Longrightarrow> no_panic (read_payload c st s)" for c st s
    by (auto simp: read_payload_def stream_ok_def no_panic_simps Let_def split: prod.splits)
  with complete have finish: "stream_ok r st \<Longrightarrow> no_panic (finish_chunk r cs_id st s)" for cs_id st s
    by (auto simp: finish_chunk_def no_panic_simps split: prod.splits)
  show ?thesis
    using header
    by (auto simp: read_chunk_def no_panic_simps Let_def split: prod.splits
        intro!: finish dest: headers_stream [OF assms])
qed

lemma read_message_no_panic: "reader_ok r \<Longrightarrow> no_panic (read_message r s)"
proof (induction r s rule: read_message.induct)
  case (1 r s)
  show ?case
    using 1 read_chunk_no_panic [OF 1(2)] read_chunk_bounded [OF _ 1(2)]
    by (subst read_message.simps)
       (auto simp: no_panic_simps chunk_result_ok_def split: prod.splits option.splits)
qed

section \<open>Where the two ends disagree\<close>

text \<open>The writer repeats an extended timestamp on every continuation chunk, the reader does not
  expect it there: the four bytes become payload, and the rest of the payload is left on the
  connection as the next chunk header.\<close>

lemma extended_timestamp_becomes_payload:
  assumes "2 \<le> cs_id" "cs_id \<le> 319" "ts \<ge> 0x00FFFFFF" "ty \<noteq> SET_CHUNK_SIZE"
    "map_of (cr_streams r) cs_id \<noteq> None \<or> length (cr_streams r) < MAX_CHUNK_STREAMS"
    "cw_chunk_size w = cr_chunk_size r" "n = unat (cr_chunk_size r)" "4 \<le> n"
    "length payload = n + 4" "length payload < 2 ^ 24" "length payload \<le> message_cap r ty"
  shows "\<exists>bs r'. write_message w cs_id ty sid ts payload = Some bs \<and>
    read_message r (bs @ rest) =
      ok (\<lparr> rm_msg_type = ty, rm_timestamp = ts, rm_payload = take n payload @ put_u32 ts \<rparr>, r',
        drop n payload @ rest)"
proof -
  define st where "st = (sent_state ty sid ts payload)\<lparr> ss_payload := [] \<rparr>"
  obtain f0 m0 where b0: "write_basic_header 0 cs_id = Some (f0 # m0)" "drop_bit 6 f0 AND 0x03 = 0"
    "\<And>s. read_cs_id f0 (m0 @ s) = ok (cs_id, s)"
    using basic_header_read [of 0 cs_id] assms(1,2) by auto
  obtain f3 m3 where b3: "write_basic_header 3 cs_id = Some (f3 # m3)" "drop_bit 6 f3 AND 0x03 = 3"
    "\<And>s. read_cs_id f3 (m3 @ s) = ok (cs_id, s)"
    using basic_header_read [of 3 cs_id] assms(1,2) by auto
  have ext: "extended_timestamp ts = put_u32 ts" using assms(3) by (simp add: extended_timestamp_def)
  let ?tail = "f3 # m3 @ put_u32 ts @ drop n payload"
  let ?bs = "(f0 # m0) @ message_header ty sid ts payload @ extended_timestamp ts @ take n payload @ ?tail"
  have "cr_chunk_size r \<noteq> 0" using assms(7,8) by auto
  moreover have "continuation n ((f3 # m3) @ put_u32 ts) (drop n payload) = ?tail"
    using assms(8,9) by (subst continuation.simps) simp
  ultimately have w: "write_message w cs_id ty sid ts payload = Some ?bs"
    using write_message_bytes [OF b0(1) b3(1), of w] assms(6,7) by (simp add: ext)
  have len: "unat (ss_msg_len st) = length payload" "ss_payload st = []" "ss_msg_type st = ty"
    using assms(10) by (simp_all add: st_def sent_state_def unat_of_nat)
  let ?st = "st\<lparr> ss_payload := take n payload \<rparr>"
  let ?r = "r\<lparr> cr_streams := AList.update cs_id ?st (cr_streams r) \<rparr>"
  have one: "read_chunk r (?bs @ rest) = ok (None, ?r, ?tail @ rest)"
    using read_first_header [of payload f0 m0 ty sid ts "take n payload @ ?tail @ rest" cs_id r] b0 assms(5,10)
      finish_chunk_part [of st payload r n cs_id "?tail @ rest"] len assms(7-11)
    by (simp add: st_def [symmetric])
  have full: "?st\<lparr> ss_payload := ss_payload ?st @ put_u32 ts \<rparr> =
      (sent_state ty sid ts payload)\<lparr> ss_payload := take n payload @ put_u32 ts \<rparr>"
    by (simp add: st_def)
  have "finish_chunk ?r cs_id ?st (take n (put_u32 ts) @ drop n payload @ rest) =
      and_then (complete_message ?r cs_id (?st\<lparr> ss_payload := ss_payload ?st @ put_u32 ts \<rparr>))
        (\<lambda>(msg, r). ok (Some msg, r, drop n payload @ rest))"
    using len assms(7-11)
    by (subst finish_chunk_part [of ?st "put_u32 ts" ?r n]) auto
  then have two: "read_chunk ?r (?tail @ rest) =
      and_then (complete_message ?r cs_id (?st\<lparr> ss_payload := ss_payload ?st @ put_u32 ts \<rparr>))
        (\<lambda>(msg, r). ok (Some msg, r, drop n payload @ rest))"
    using read_chunk_continue [OF b3(2) b3(3), of ?r ?st "put_u32 ts @ drop n payload @ rest"] assms(8)
    by (simp add: update_conv)
  obtain r' where c: "complete_message r cs_id
      ((sent_state ty sid ts payload)\<lparr> ss_payload := take n payload @ put_u32 ts \<rparr>) =
      ok (\<lparr> rm_msg_type = ty, rm_timestamp = ts, rm_payload = take n payload @ put_u32 ts \<rparr>, r')"
    using assms(4) by (simp add: complete_message_def handle_set_chunk_size_def sent_state_def)
  have "read_message r (?bs @ rest) =
      ok (\<lparr> rm_msg_type = ty, rm_timestamp = ts, rm_payload = take n payload @ put_u32 ts \<rparr>, r',
        drop n payload @ rest)"
    unfolding read_message.simps [of r] one
    by (simp only: and_then_ok prod.case option.case read_message.simps [of ?r]
        two [unfolded full complete_message_update c])
  with w show ?thesis by blast
qed

text \<open>Two three-byte headers of different chunk streams can be read as the same one.\<close>

lemma three_byte_ids_collide:
  "write_basic_header 0 512 = Some [1, 0xC0, 1] \<and> read_cs_id 1 ([0xC0, 1] @ s) = ok (256, s)"
  by (simp add: write_basic_header_def read_cs_id_def byte32_def)

text \<open>A delta chunk below the limit is taken to carry an extended timestamp once the sum of the
  deltas has passed it: the next four bytes, which are payload, replace the timestamp.\<close>

lemma late_delta_chunk_eats_payload:
  assumes "d < 0x00FFFFFF" "ss_timestamp st + d \<ge> 0x00FFFFFF"
  shows "\<exists>st'. read_message_header 2 st (put_u24 d @ b0 # b1 # b2 # b3 # s) = ok (st', b0 # b1 # b2 # b3 # s) \<and>
    read_extended 2 st' (b0 # b1 # b2 # b3 # s) =
      ok (st'\<lparr> ss_timestamp := be32 b0 b1 b2 b3 \<rparr>, s)"
proof -
  have "d < 0x1000000" using assms(1) by (simp add: word_less_nat_alt)
  then show ?thesis using assms(2)
    by (simp add: read_message_header_def read_extended_def needs_ext_def read_u32_be_def
        read_exact_def numeral_eq_Suc)
qed

section \<open>Properties\<close>



text \<open>
  Property C15.  A peer cannot exhaust the chunk reader: from a reader that is within its bounds
  (a new one is), reading a message from any bytes does not panic, keeps at most 64 chunk streams,
  each holding at most the length its header declared and that at most the cap of its type, keeps
  the chunk size between 1 and 16777215, and hands out only messages within their cap.
\<close>

theorem rtmp_reader_is_bounded:
  assumes "reader_ok r"
  shows "read_message r s \<noteq> None \<and>
    (\<forall>msg r' s'. read_message r s = ok (msg, r', s') \<longrightarrow>
      reader_ok r' \<and> length s' < length s \<and> length (rm_payload msg) \<le> message_cap r (rm_msg_type msg))"
  using read_message_no_panic [OF assms, of s] read_message_bounded [of r s]
    read_message_less [of r s] assms
  by (auto simp: chunk_result_ok_def no_panic_def)

theorem rtmp_reader_is_bounded_witness:
  "reader_ok (set_max_command_len MAX_PREPUBLISH_MSG_LEN cr_new) \<and>
   read_message (set_max_command_len MAX_PREPUBLISH_MSG_LEN cr_new) [0x03, 0xFF] \<noteq> None"
proof -
  have "reader_ok (set_max_command_len MAX_PREPUBLISH_MSG_LEN cr_new)"
    by (simp add: reader_ok_def set_max_command_len_def cr_new_def DEFAULT_CHUNK_SIZE_def)
  with rtmp_reader_is_bounded show ?thesis by blast
qed

end
