(* ===== verification/RustFloat.thy ===== *)
theory RustFloat
  imports EdgePrelude
begin

text \<open>
  The few operations on \<open>f64\<close> and on string literals the RTMP sources use. A double is its 64-bit
  pattern: sign, eleven bits of exponent, 52 bits of fraction. Equality and order follow IEEE 754
  (a NaN is unequal to everything, the two zeros are equal); a cast to \<open>u32\<close> truncates and
  saturates, a cast from \<open>u32\<close> is exact. A literal is the list of its bytes.
\<close>

definition f64_exp :: "u64 \<Rightarrow> nat" where
  "f64_exp x = unat (drop_bit 52 x AND 0x7FF)"

definition f64_frac :: "u64 \<Rightarrow> nat" where
  "f64_frac x = unat (x AND 0xFFFFFFFFFFFFF)"

definition f64_neg :: "u64 \<Rightarrow> bool" where
  "f64_neg x = bit x 63"

definition f64_nan :: "u64 \<Rightarrow> bool" where
  "f64_nan x \<longleftrightarrow> f64_exp x = 2047 \<and> f64_frac x \<noteq> 0"

definition f64_zero :: "u64 \<Rightarrow> bool" where
  "f64_zero x \<longleftrightarrow> x AND 0x7FFFFFFFFFFFFFFF = 0"

definition f64_eq :: "u64 \<Rightarrow> u64 \<Rightarrow> bool" where
  "f64_eq x y \<longleftrightarrow> \<not> f64_nan x \<and> \<not> f64_nan y \<and> (x = y \<or> f64_zero x \<and> f64_zero y)"

text \<open>\<open>x > 0.0\<close>.\<close>

definition f64_positive :: "u64 \<Rightarrow> bool" where
  "f64_positive x \<longleftrightarrow> \<not> f64_nan x \<and> \<not> f64_neg x \<and> \<not> f64_zero x"

text \<open>\<open>x as u32\<close>: NaN and negative numbers give 0, large numbers the maximum.\<close>

definition f64_to_u32 :: "u64 \<Rightarrow> u32" where
  "f64_to_u32 x =
     (if f64_nan x \<or> f64_neg x \<or> f64_exp x < 1023 then 0
      else if f64_exp x \<ge> 1023 + 32 then 0xFFFFFFFF
      else of_nat ((2 ^ 52 + f64_frac x) div 2 ^ (52 + 1023 - f64_exp x)))"

fun ilog2 :: "nat \<Rightarrow> nat" where
  "ilog2 n = (if n < 2 then 0 else Suc (ilog2 (n div 2)))"

declare ilog2.simps [simp del]

text \<open>\<open>n as f64\<close> of a \<open>u32\<close>.\<close>

definition f64_of_u32 :: "u32 \<Rightarrow> u64" where
  "f64_of_u32 n =
     (if n = 0 then 0
      else (let e = ilog2 (unat n) in
            push_bit 52 (of_nat (1023 + e)) OR push_bit (52 - e) (of_nat (unat n - 2 ^ e))))"

section \<open>Literals\<close>

definition str :: "string \<Rightarrow> bytes" where
  "str s = map (\<lambda>c. of_nat (of_char c)) s"

lemma str_inject [simp]: "str s = str t \<longleftrightarrow> s = t"
proof -
  have "of_nat (of_char c) = (of_nat (of_char d) :: u8) \<longleftrightarrow> c = d" for c d
  proof
    assume "of_nat (of_char c) = (of_nat (of_char d) :: u8)"
    then have "unat (of_nat (of_char c) :: u8) = unat (of_nat (of_char d) :: u8)" by simp
    then show "c = d" by (simp add: unat_of_nat)
  qed simp
  then show ?thesis unfolding str_def by (intro inj_map_eq_map) (simp add: inj_def)
qed

lemma length_str [simp]: "length (str s) = length s"
  by (simp add: str_def)

lemma str_eq_Nil [simp]: "str s = [] \<longleftrightarrow> s = []" "[] = str s \<longleftrightarrow> s = []"
  by (auto simp: str_def)

lemma f64_small:
  "f64_of_u32 0 = 0" "f64_of_u32 1 = 0x3FF0000000000000" "f64_of_u32 2 = 0x4000000000000000"
  "f64_of_u32 3 = 0x4008000000000000" "f64_of_u32 4 = 0x4010000000000000"
  "f64_of_u32 5 = 0x4014000000000000" "f64_of_u32 6 = 0x4018000000000000"
  "f64_of_u32 7 = 0x401C000000000000" "f64_of_u32 31 = 0x403F000000000000"
  by (simp_all add: f64_of_u32_def ilog2.simps)

lemma f64_to_u32_one [simp]: "f64_to_u32 (f64_of_u32 1) = 1"
  by (simp add: f64_small f64_to_u32_def f64_exp_def f64_frac_def f64_nan_def f64_neg_def)

end
