(* ===== verification/RtmpServer.thy ===== *)
theory RtmpServer
  imports RtmpChunk Amf0 RustFloat
begin

text \<open>
  The RTMP server (\<open>engine/rtmp/server.rs\<close>): the handshake, the command phase, the media phase and
  the accept loop. A connection is the list of the bytes the peer sends; a loop of the source that
  waits on a \<open>select!\<close> takes one wake-up per pass from a list, so every order of messages,
  timeouts and cancellation is one list. What the server writes, and what it sends on the media
  channel, is collected in its state. Writes to the socket succeed; the clock is an argument.
\<close>

datatype rtmp_media_message =
  MediaVideo bytes u32
| MediaAudio bytes u32
| MediaMetadata "bool option"
| MediaDisconnected

section \<open>onMetaData\<close>

definition METADATA_VIDEO_KEYS :: "bytes list" where
  "METADATA_VIDEO_KEYS = map str [''videocodecid'', ''width'', ''height'', ''framerate'',
     ''videoframerate'', ''videodatarate'']"

definition METADATA_AUDIO_KEYS :: "bytes list" where
  "METADATA_AUDIO_KEYS = map str [''audiocodecid'', ''audiosamplerate'', ''audiosamplesize'',
     ''audiodatarate'', ''audiochannels'', ''stereo'']"

definition has_value :: "amf0_value \<Rightarrow> bytes \<Rightarrow> bool" where
  "has_value props key =
     (case get_property props key of
        Some (AmfNumber n) \<Rightarrow> f64_positive n
      | Some (AmfString s) \<Rightarrow> s \<noteq> []
      | Some (AmfBoolean b) \<Rightarrow> b
      | _ \<Rightarrow> False)"

definition is_object :: "amf0_value \<Rightarrow> bool" where
  "is_object v = (case v of AmfObject _ \<Rightarrow> True | _ \<Rightarrow> False)"

text \<open>The values behind the first one that satisfies the predicate, as \<open>position\<close> and the slice
  behind it give them.\<close>

fun after_first :: "('a \<Rightarrow> bool) \<Rightarrow> 'a list \<Rightarrow> 'a list option" where
  "after_first P [] = None"
| "after_first P (x # xs) = (if P x then Some xs else after_first P xs)"

definition metadata_declares_video :: "amf0_value list \<Rightarrow> bool option" where
  "metadata_declares_video values = do {
     rest \<leftarrow> after_first (\<lambda>v. as_str v = Some (str ''onMetaData'')) values;
     props \<leftarrow> find is_object rest;
     if list_ex (has_value props) METADATA_VIDEO_KEYS then Some True
     else if list_ex (\<lambda>key. get_property props key \<noteq> None) METADATA_AUDIO_KEYS then Some False
     else None
   }"

section \<open>Handshake\<close>

datatype server_error =
  BadVersion
| HandshakeRead
| HandshakeTimeout
| ReadError chunk_error
| CommandTimeout
| DecodeError amf0_error
| AppMismatch
| KeyMismatch

definition s1_block :: "u32 \<Rightarrow> bytes" where
  "s1_block ts = put_u32 ts @ replicate 4 0 @ map (\<lambda>i. of_nat (i * 37 + 73)) [0..<1528]"

text \<open>The bytes written, and the bytes left on the connection or the error.\<close>

definition server_handshake :: "u32 \<Rightarrow> bytes \<Rightarrow> bytes \<times> (server_error + bytes)" where
  "server_handshake ts s =
     (if length s < 1 then ([], Inl HandshakeRead)
      else if s ! 0 \<noteq> 3 then ([], Inl BadVersion)
      else if length s < 1 + 1536 then ([], Inl HandshakeRead)
      else
        (let c1 = take 1536 (drop 1 s); rest = drop (1 + 1536) s;
             written = [3] @ s1_block ts @ c1 in
         if length rest < 1536 then (written, Inl HandshakeRead)
         else (written, Inr (drop 1536 rest))))"

section \<open>One connection\<close>

record rtmp_server_config =
  sc_expected_app :: bytes
  sc_expected_stream_key :: "bytes option"

record server_conn =
  sv_reader :: chunk_reader
  sv_writer :: chunk_writer
  sv_publish_stream_id :: u32
  sv_app_name :: bytes
  sv_written :: bytes
  sv_media :: "rtmp_media_message list"
  sv_publishing :: bool

text \<open>\<open>writer.write_message\<close> on the connection of the server.\<close>

definition sv_write :: "u32 \<Rightarrow> u8 \<Rightarrow> u32 \<Rightarrow> bytes \<Rightarrow> server_conn \<Rightarrow> server_conn panics" where
  "sv_write cs_id ty sid payload c = do {
     bytes \<leftarrow> write_message (sv_writer c) cs_id ty sid 0 payload;
     Some (c\<lparr> sv_written := sv_written c @ bytes \<rparr>)
   }"

definition sv_send :: "rtmp_media_message \<Rightarrow> server_conn \<Rightarrow> server_conn" where
  "sv_send m c = c\<lparr> sv_media := sv_media c @ [m] \<rparr>"

text \<open>The state behind the handshake, and the control messages that open the connection.\<close>

definition sv_new :: "bytes \<Rightarrow> server_conn" where
  "sv_new written =
     \<lparr> sv_reader = set_max_command_len MAX_PREPUBLISH_MSG_LEN cr_new, sv_writer = cw_new,
       sv_publish_stream_id = 0, sv_app_name = [], sv_written = written, sv_media = [],
       sv_publishing = False \<rparr>"

definition sv_greet :: "server_conn \<Rightarrow> server_conn panics" where
  "sv_greet c = do {
     c \<leftarrow> sv_write 2 WINDOW_ACK_SIZE 0 (put_u32 2500000) c;
     c \<leftarrow> sv_write 2 SET_PEER_BANDWIDTH 0 (put_u32 2500000 @ [2]) c;
     (bytes, w) \<leftarrow> write_set_chunk_size (sv_writer c) DESIRED_CHUNK_SIZE;
     Some (c\<lparr> sv_written := sv_written c @ bytes, sv_writer := w \<rparr>)
   }"

definition connect_rejected :: "u64 \<Rightarrow> amf0_value list" where
  "connect_rejected tx_id =
     [AmfString (str ''_error''), AmfNumber tx_id, AmfNull,
      AmfObject
        [(str ''level'', AmfString (str ''error'')),
         (str ''code'', AmfString (str ''NetConnection.Connect.Rejected'')),
         (str ''description'', AmfString (str ''Application not found''))]]"

definition connect_accepted :: "u64 \<Rightarrow> amf0_value list" where
  "connect_accepted tx_id =
     [AmfString (str ''_result''), AmfNumber tx_id,
      AmfObject
        [(str ''fmsVer'', AmfString (str ''FMS/3,5,7,7009'')),
         (str ''capabilities'', AmfNumber (f64_of_u32 31)),
         (str ''mode'', AmfNumber (f64_of_u32 1))],
      AmfObject
        [(str ''level'', AmfString (str ''status'')),
         (str ''code'', AmfString (str ''NetConnection.Connect.Success'')),
         (str ''description'', AmfString (str ''Connection succeeded.'')),
         (str ''objectEncoding'', AmfNumber (f64_of_u32 0))]]"

definition publish_status :: "string \<Rightarrow> string \<Rightarrow> string \<Rightarrow> amf0_value list" where
  "publish_status level code description =
     [AmfString (str ''onStatus''), AmfNumber (f64_of_u32 0), AmfNull,
      AmfObject
        [(str ''level'', AmfString (str level)),
         (str ''code'', AmfString (str code)),
         (str ''description'', AmfString (str description))]]"

text \<open>How the command phase goes on behind a message.\<close>

datatype command_outcome =
  NextCommand server_conn
| StartMedia server_conn
| Return server_conn
| Fail server_error server_conn

definition value_at :: "amf0_value list \<Rightarrow> nat \<Rightarrow> amf0_value option" where
  "value_at values i = (if i < length values then Some (values ! i) else None)"

definition str_at :: "amf0_value list \<Rightarrow> nat \<Rightarrow> bytes" where
  "str_at values i = (case Option.bind (value_at values i) as_str of Some s \<Rightarrow> s | None \<Rightarrow> [])"

definition f64_at :: "amf0_value list \<Rightarrow> nat \<Rightarrow> u64 \<Rightarrow> u64" where
  "f64_at values i d = (case Option.bind (value_at values i) as_f64 of Some n \<Rightarrow> n | None \<Rightarrow> d)"

definition handle_connect ::
    "rtmp_server_config \<Rightarrow> amf0_value list \<Rightarrow> u64 \<Rightarrow> server_conn \<Rightarrow> command_outcome panics" where
  "handle_connect cfg values tx_id c =
     (let app_name = (case value_at values 2 of
            Some props \<Rightarrow> (case Option.bind (get_property props (str ''app'')) as_str of
                             Some s \<Rightarrow> s | None \<Rightarrow> [])
          | None \<Rightarrow> sv_app_name c);
          c = c\<lparr> sv_app_name := app_name \<rparr> in
      if sc_expected_app cfg \<noteq> [] \<and> app_name \<noteq> sc_expected_app cfg then do {
        c \<leftarrow> sv_write 3 COMMAND_AMF0 0 (encode_values (connect_rejected tx_id)) c;
        Some (Fail AppMismatch c)
      } else do {
        c \<leftarrow> sv_write 3 COMMAND_AMF0 0 (encode_values (connect_accepted tx_id)) c;
        Some (NextCommand c)
      })"

definition handle_release :: "u64 \<Rightarrow> server_conn \<Rightarrow> command_outcome panics" where
  "handle_release tx_id c = do {
     c \<leftarrow> sv_write 3 COMMAND_AMF0 0
       (encode_values [AmfString (str ''_result''), AmfNumber tx_id, AmfNull]) c;
     Some (NextCommand c)
   }"

definition handle_create_stream :: "u64 \<Rightarrow> server_conn \<Rightarrow> command_outcome panics" where
  "handle_create_stream tx_id c = do {
     let c = c\<lparr> sv_publish_stream_id := 1 \<rparr>;
     c \<leftarrow> sv_write 3 COMMAND_AMF0 0
       (encode_values [AmfString (str ''_result''), AmfNumber tx_id, AmfNull,
          AmfNumber (f64_of_u32 (sv_publish_stream_id c))]) c;
     Some (NextCommand c)
   }"

text \<open>\<open>ct_eq\<close> of two byte slices decides their equality.\<close>

definition handle_publish ::
    "rtmp_server_config \<Rightarrow> amf0_value list \<Rightarrow> server_conn \<Rightarrow> command_outcome panics" where
  "handle_publish cfg values c =
     (let stream_key = str_at values 3 in
      if (case sc_expected_stream_key cfg of Some expected \<Rightarrow> stream_key \<noteq> expected | None \<Rightarrow> False)
      then do {
        c \<leftarrow> sv_write 3 COMMAND_AMF0 (sv_publish_stream_id c)
          (encode_values (publish_status ''error'' ''NetStream.Publish.BadName'' ''Bad stream key'')) c;
        Some (Fail KeyMismatch c)
      } else do {
        c \<leftarrow> sv_write 3 COMMAND_AMF0 (sv_publish_stream_id c)
          (encode_values (publish_status ''status'' ''NetStream.Publish.Start'' ''Publishing started'')) c;
        Some (StartMedia (c\<lparr> sv_publishing := True \<rparr>))
      })"

definition handle_message ::
    "rtmp_server_config \<Rightarrow> rtmp_message \<Rightarrow> server_conn \<Rightarrow> command_outcome panics" where
  "handle_message cfg msg c =
     (if rm_msg_type msg = COMMAND_AMF0 then
        (case decode_all (rm_payload msg) of
           None \<Rightarrow> None
         | Some (Inl e) \<Rightarrow> Some (Fail (DecodeError e) c)
         | Some (Inr values) \<Rightarrow>
             (let cmd = str_at values 0; tx_id = f64_at values 1 (f64_of_u32 0) in
              if cmd = str ''connect'' then handle_connect cfg values tx_id c
              else if cmd = str ''releaseStream'' \<or> cmd = str ''FCPublish'' then handle_release tx_id c
              else if cmd = str ''createStream'' then handle_create_stream tx_id c
              else if cmd = str ''publish'' then handle_publish cfg values c
              else if cmd = str ''FCUnpublish'' \<or> cmd = str ''deleteStream''
              then Some (Return (sv_send MediaDisconnected c))
              else Some (NextCommand c)))
      else Some (NextCommand c))"

text \<open>The media phase: what a message sends on the channel, and whether the loop goes on.\<close>

definition is_stop_command :: "bytes \<Rightarrow> bool" where
  "is_stop_command payload =
     (case decode_all payload of
        Some (Inr values) \<Rightarrow>
          (let cmd = str_at values 0 in
           cmd = str ''FCUnpublish'' \<or> cmd = str ''deleteStream'' \<or> cmd = str ''closeStream'')
      | _ \<Rightarrow> False)"

definition declares_video :: "bytes \<Rightarrow> bool option" where
  "declares_video payload =
     (case decode_all payload of Some (Inr values) \<Rightarrow> metadata_declares_video values | _ \<Rightarrow> None)"

definition media_message :: "rtmp_message \<Rightarrow> server_conn \<Rightarrow> bool \<times> server_conn" where
  "media_message msg c =
     (if rm_msg_type msg = VIDEO then (True, sv_send (MediaVideo (rm_payload msg) (rm_timestamp msg)) c)
      else if rm_msg_type msg = AUDIO then (True, sv_send (MediaAudio (rm_payload msg) (rm_timestamp msg)) c)
      else if rm_msg_type msg = DATA_AMF0 then (True, sv_send (MediaMetadata (declares_video (rm_payload msg))) c)
      else if rm_msg_type msg = COMMAND_AMF0 then (\<not> is_stop_command (rm_payload msg), c)
      else (True, c))"

section \<open>The loops\<close>

text \<open>What ends the wait of one pass: cancellation, the timeout, or a message.\<close>

datatype wake = Cancelled | TimedOut | Arrived

fun receive_media_loop :: "wake list \<Rightarrow> bytes \<Rightarrow> server_conn \<Rightarrow> (bool \<times> server_conn) panics" where
  "receive_media_loop [] s c = Some (False, c)"
| "receive_media_loop (Cancelled # ws) s c = Some (True, c)"
| "receive_media_loop (TimedOut # ws) s c = Some (True, c)"
| "receive_media_loop (Arrived # ws) s c =
     (case read_message (sv_reader c) s of
        None \<Rightarrow> None
      | Some (Inl e) \<Rightarrow> Some (True, c)
      | Some (Inr (msg, r, s)) \<Rightarrow>
          (let (goes_on, c) = media_message msg (c\<lparr> sv_reader := r \<rparr>) in
           if goes_on then receive_media_loop ws s c else Some (True, c)))"

text \<open>How a connection stands when the wake-ups are used up: still open, or ended with the result
  of \<open>handle_rtmp_client\<close>.\<close>

datatype conn_status = Open | Ended "server_error option"

fun command_loop ::
    "rtmp_server_config \<Rightarrow> wake list \<Rightarrow> bytes \<Rightarrow> server_conn \<Rightarrow> (conn_status \<times> server_conn) panics" where
  "command_loop cfg [] s c = Some (Open, c)"
| "command_loop cfg (Cancelled # ws) s c = Some (Ended None, c)"
| "command_loop cfg (TimedOut # ws) s c = Some (Ended (Some CommandTimeout), c)"
| "command_loop cfg (Arrived # ws) s c =
     (case read_message (sv_reader c) s of
        None \<Rightarrow> None
      | Some (Inl e) \<Rightarrow> Some (Ended (Some (ReadError e)), c)
      | Some (Inr (msg, r, s)) \<Rightarrow>
          (case handle_message cfg msg (c\<lparr> sv_reader := r \<rparr>) of
             None \<Rightarrow> None
           | Some (NextCommand c) \<Rightarrow> command_loop cfg ws s c
           | Some (Return c) \<Rightarrow> Some (Ended None, c)
           | Some (Fail e c) \<Rightarrow> Some (Ended (Some e), c)
           | Some (StartMedia c) \<Rightarrow>
               (case receive_media_loop ws s c of
                  None \<Rightarrow> None
                | Some (finished, c) \<Rightarrow>
                    if finished then Some (Ended None, sv_send MediaDisconnected c)
                    else Some (Open, c))))"

definition handle_rtmp_client ::
    "rtmp_server_config \<Rightarrow> u32 \<Rightarrow> bool \<Rightarrow> wake list \<Rightarrow> bytes \<Rightarrow> (conn_status \<times> server_conn) panics" where
  "handle_rtmp_client cfg ts handshake_in_time ws s =
     (case server_handshake ts s of (written, result) \<Rightarrow>
        if \<not> handshake_in_time then Some (Ended (Some HandshakeTimeout), sv_new written)
        else
          (case result of
             Inl e \<Rightarrow> Some (Ended (Some e), sv_new written)
           | Inr s \<Rightarrow> do {
               c \<leftarrow> sv_greet (sv_new written);
               command_loop cfg ws s c
             }))"

section \<open>The accept loop\<close>

definition MAX_RTMP_CONNECTIONS :: nat where "MAX_RTMP_CONNECTIONS = 8"

text \<open>The tasks that hold a permit, which of them have been let into the media phase, and the flag
  all of them share.\<close>

record rtmp_server =
  rs_clients :: "nat list"
  rs_publishers :: "nat list"
  rs_is_publishing :: bool

definition rs_new :: rtmp_server where
  "rs_new = \<lparr> rs_clients = [], rs_publishers = [], rs_is_publishing = False \<rparr>"

datatype server_event = Accept nat | Published nat | Finished nat

definition rs_step :: "server_event \<Rightarrow> rtmp_server \<Rightarrow> rtmp_server" where
  "rs_step e rs =
     (case e of
        Accept k \<Rightarrow>
          (if length (rs_clients rs) < MAX_RTMP_CONNECTIONS
           then rs\<lparr> rs_clients := rs_clients rs @ [k] \<rparr> else rs)
      | Published k \<Rightarrow>
          (if k \<in> set (rs_clients rs)
           then rs\<lparr> rs_publishers := rs_publishers rs @ [k], rs_is_publishing := True \<rparr> else rs)
      | Finished k \<Rightarrow>
          (if k \<in> set (rs_clients rs)
           then \<lparr> rs_clients = remove1 k (rs_clients rs),
                  rs_publishers = filter (\<lambda>j. j \<noteq> k) (rs_publishers rs), rs_is_publishing = False \<rparr>
           else rs))"

end
