(* ===== verification/RtmpServerCorrect.thy ===== *)
theory RtmpServerCorrect
  imports RtmpServer RtmpChunkCorrect Amf0Correct
begin

text \<open>
  The RTMP server against an arbitrary peer: no input makes it panic, and the media channel and the
  publishing flag are reached only through a publish command that presents the configured key.
\<close>

section \<open>Writing\<close>

definition sv_ok :: "server_conn \<Rightarrow> bool" where
  "sv_ok c \<longleftrightarrow> reader_ok (sv_reader c) \<and> cw_chunk_size (sv_writer c) \<noteq> 0"

lemma write_message_total:
  assumes "2 \<le> cs_id" "cs_id \<le> 319" "cw_chunk_size w \<noteq> 0"
  shows "\<exists>bs. write_message w cs_id ty sid ts payload = Some bs"
proof -
  obtain b0 b3 where "write_basic_header 0 cs_id = Some b0" "write_basic_header 3 cs_id = Some b3"
    using basic_header_read [of 0 cs_id] basic_header_read [of 3 cs_id] assms(1,2) by auto
  from write_message_bytes [OF this assms(3)] show ?thesis by blast
qed

lemma sv_write_total:
  assumes "cw_chunk_size (sv_writer c) \<noteq> 0"
  shows "\<exists>bs. sv_write 2 ty sid p c = Some (c\<lparr> sv_written := sv_written c @ bs \<rparr>)"
    and "\<exists>bs. sv_write 3 ty sid p c = Some (c\<lparr> sv_written := sv_written c @ bs \<rparr>)"
  using write_message_total [OF _ _ assms, of 2 ty sid 0 p] write_message_total [OF _ _ assms, of 3 ty sid 0 p]
  by (auto simp: sv_write_def)

section \<open>One command\<close>

definition presents_key :: "bytes \<Rightarrow> rtmp_message \<Rightarrow> bool" where
  "presents_key k msg \<longleftrightarrow> rm_msg_type msg = COMMAND_AMF0 \<and>
     (\<exists>values. decode_all (rm_payload msg) = ok values \<and> str_at values 0 = str ''publish'' \<and>
        str_at values 3 = k)"

text \<open>What a command may do to the state of the connection.\<close>

fun outcome_ok :: "rtmp_server_config \<Rightarrow> rtmp_message \<Rightarrow> server_conn \<Rightarrow> command_outcome \<Rightarrow> bool" where
  "outcome_ok cfg msg c (NextCommand c') \<longleftrightarrow> sv_ok c' \<and> sv_reader c' = sv_reader c \<and>
     sv_media c' = sv_media c \<and> sv_publishing c' = sv_publishing c"
| "outcome_ok cfg msg c (Return c') \<longleftrightarrow> sv_media c' = sv_media c @ [MediaDisconnected] \<and>
     sv_publishing c' = sv_publishing c"
| "outcome_ok cfg msg c (Fail e c') \<longleftrightarrow> sv_media c' = sv_media c \<and> sv_publishing c' = sv_publishing c"
| "outcome_ok cfg msg c (StartMedia c') \<longleftrightarrow> sv_ok c' \<and> sv_reader c' = sv_reader c \<and>
     sv_media c' = sv_media c \<and>
     (\<forall>k. sc_expected_stream_key cfg = Some k \<longrightarrow> presents_key k msg)"

lemma decode_all_cases:
  obtains (decoded) vs where "decode_all data = Some (Inr vs)"
  | (error) e where "decode_all data = Some (Inl e)"
proof -
  have "decode_all data \<noteq> None"
    using decode_loop_no_panic [of data 0 MAX_AMF0_VALUES "[]"] by (simp add: decode_all_def no_panic_def)
  then show ?thesis using that by (metis option.exhaust sum.exhaust)
qed

lemma handle_message_total:
  assumes "sv_ok c"
  shows "\<exists>out. handle_message cfg msg c = Some out \<and> outcome_ok cfg msg c out"
proof (cases "rm_msg_type msg = COMMAND_AMF0")
  case False
  then show ?thesis using assms by (simp add: handle_message_def)
next
  case True
  have w: "\<exists>bs. sv_write 3 ty sid p c' = Some (c'\<lparr> sv_written := sv_written c' @ bs \<rparr>)"
    if "sv_writer c' = sv_writer c" for ty sid p c'
    using sv_write_total(2) [of c'] assms that by (simp add: sv_ok_def)
  show ?thesis
  proof (cases "rm_payload msg" rule: decode_all_cases)
    case (error e)
    then show ?thesis using True by (simp add: handle_message_def)
  next
    case (decoded vs)
    have val: "handle_message cfg msg c =
        (let cmd = str_at vs 0; tx_id = f64_at vs 1 (f64_of_u32 0) in
         if cmd = str ''connect'' then handle_connect cfg vs tx_id c
         else if cmd = str ''releaseStream'' \<or> cmd = str ''FCPublish'' then handle_release tx_id c
         else if cmd = str ''createStream'' then handle_create_stream tx_id c
         else if cmd = str ''publish'' then handle_publish cfg vs c
         else if cmd = str ''FCUnpublish'' \<or> cmd = str ''deleteStream''
         then Some (Return (sv_send MediaDisconnected c))
         else Some (NextCommand c))"
      using True decoded by (simp add: handle_message_def)
    have connect: "\<exists>out. handle_connect cfg vs tx c = Some out \<and> outcome_ok cfg msg c out" for tx
    proof -
      define app where "app = (case value_at vs 2 of
          Some props \<Rightarrow> (case Option.bind (get_property props (str ''app'')) as_str of
                           Some s \<Rightarrow> s | None \<Rightarrow> [])
        | None \<Rightarrow> sv_app_name c)"
      obtain b1 b2 where "sv_write 3 COMMAND_AMF0 0 (encode_values (connect_rejected tx)) (c\<lparr> sv_app_name := app \<rparr>) =
          Some (c\<lparr> sv_app_name := app, sv_written := sv_written c @ b1 \<rparr>)"
        "sv_write 3 COMMAND_AMF0 0 (encode_values (connect_accepted tx)) (c\<lparr> sv_app_name := app \<rparr>) =
          Some (c\<lparr> sv_app_name := app, sv_written := sv_written c @ b2 \<rparr>)"
        using w [of "c\<lparr> sv_app_name := app \<rparr>"] by simp metis
      then show ?thesis using assms
        by (auto simp: handle_connect_def app_def [symmetric] sv_ok_def Let_def)
    qed
    have release: "\<exists>out. handle_release tx c = Some out \<and> outcome_ok cfg msg c out" for tx
      using w [of c COMMAND_AMF0 0 "encode_values [AmfString (str ''_result''), AmfNumber tx, AmfNull]"]
        assms by (auto simp: handle_release_def sv_ok_def)
    have create: "\<exists>out. handle_create_stream tx c = Some out \<and> outcome_ok cfg msg c out" for tx
      using w [of "c\<lparr> sv_publish_stream_id := 1 \<rparr>" COMMAND_AMF0 0 "encode_values
          [AmfString (str ''_result''), AmfNumber tx, AmfNull, AmfNumber (f64_of_u32 1)]"] assms
      by (auto simp: handle_create_stream_def sv_ok_def)
    have publish: "\<exists>out. handle_publish cfg vs c = Some out \<and> outcome_ok cfg msg c out"
      if "str_at vs 0 = str ''publish''"
    proof -
      obtain b1 b2 where "sv_write 3 COMMAND_AMF0 (sv_publish_stream_id c)
          (encode_values (publish_status ''error'' ''NetStream.Publish.BadName'' ''Bad stream key'')) c =
          Some (c\<lparr> sv_written := sv_written c @ b1 \<rparr>)"
        "sv_write 3 COMMAND_AMF0 (sv_publish_stream_id c)
          (encode_values (publish_status ''status'' ''NetStream.Publish.Start'' ''Publishing started'')) c =
          Some (c\<lparr> sv_written := sv_written c @ b2 \<rparr>)"
        using w [of c] by metis
      then show ?thesis
        using assms that True decoded
        by (auto simp: handle_publish_def sv_ok_def presents_key_def ok_def split: option.splits)
    qed
    show ?thesis
      unfolding val Let_def using connect release create publish assms
      by (simp add: sv_send_def)
  qed
qed

section \<open>The media phase\<close>

lemma read_message_ok_cases:
  assumes "reader_ok r"
  obtains (got) msg r' s' where "read_message r s = Some (Inr (msg, r', s'))" "reader_ok r'"
  | (error) e where "read_message r s = Some (Inl e)"
proof -
  have "read_message r s \<noteq> None" using read_message_no_panic [OF assms] by (simp add: no_panic_def)
  then show ?thesis
    using that read_message_bounded [OF _ assms, of s]
    by (auto simp: ok_def chunk_result_ok_def) (metis sum.exhaust surj_pair)
qed

lemma media_message_reader [simp]:
  "sv_reader (snd (media_message msg c)) = sv_reader c"
  "sv_writer (snd (media_message msg c)) = sv_writer c"
  "sv_publishing (snd (media_message msg c)) = sv_publishing c"
  by (simp_all add: media_message_def sv_send_def)

lemma receive_media_loop_total:
  "sv_ok c \<Longrightarrow> \<exists>fin c'. receive_media_loop ws s c = Some (fin, c')"
proof (induction ws arbitrary: s c)
  case (Cons w ws)
  show ?case
  proof (cases w)
    case Arrived
    from Cons.prems have "reader_ok (sv_reader c)" by (simp add: sv_ok_def)
    then show ?thesis
    proof (cases rule: read_message_ok_cases [where s = s])
      case (got msg r' s')
      obtain go c1 where m: "media_message msg (c\<lparr> sv_reader := r' \<rparr>) = (go, c1)" by fastforce
      have "sv_ok c1"
        using media_message_reader [of msg "c\<lparr> sv_reader := r' \<rparr>"] m got Cons.prems by (simp add: sv_ok_def)
      with Cons.IH [of c1 s'] show ?thesis
        by (cases go) (auto simp: Arrived got m intro: exI [of _ True])
    qed (auto simp: Arrived intro: exI [of _ True])
  qed (auto intro: exI [of _ True])
qed (use exI [of Not False] in simp)

section \<open>The whole connection\<close>

text \<open>The messages a peer's bytes hold for a reader.\<close>

function incoming :: "chunk_reader \<Rightarrow> bytes \<Rightarrow> rtmp_message list" where
  "incoming r s =
     (case read_message r s of
        Some (Inr (msg, r, s)) \<Rightarrow> msg # incoming r s
      | _ \<Rightarrow> [])"
  by pat_completeness auto

termination
  by (relation "measure (\<lambda>(_, s). length s)") (auto dest: read_message_less [unfolded ok_def])

declare incoming.simps [simp del]

definition unpublished :: "server_conn \<Rightarrow> bool" where
  "unpublished c \<longleftrightarrow> \<not> sv_publishing c \<and> set (sv_media c) \<subseteq> {MediaDisconnected}"

lemma command_loop_safe:
  assumes "sv_ok c" "unpublished c"
  shows "\<exists>st c'. command_loop cfg ws s c = Some (st, c') \<and>
    (\<forall>k. sc_expected_stream_key cfg = Some k \<longrightarrow>
      (\<forall>m\<in>set (incoming (sv_reader c) s). \<not> presents_key k m) \<longrightarrow> unpublished c')"
  using assms
proof (induction ws arbitrary: s c)
  case (Cons w ws)
  show ?case
  proof (cases w)
    case Arrived
    from Cons.prems have "reader_ok (sv_reader c)" by (simp add: sv_ok_def)
    then show ?thesis
    proof (cases rule: read_message_ok_cases [where s = s])
      case (error e)
      then show ?thesis using Cons.prems by (simp add: Arrived)
    next
      case (got msg r' s')
      let ?c = "c\<lparr> sv_reader := r' \<rparr>"
      have "sv_ok ?c" using Cons.prems got by (simp add: sv_ok_def)
      then obtain out where out: "handle_message cfg msg ?c = Some out" "outcome_ok cfg msg ?c out"
        using handle_message_total by blast
      have inc: "incoming (sv_reader c) s = msg # incoming r' s'"
        by (subst incoming.simps) (simp add: got)
      show ?thesis
      proof (cases out)
        case (NextCommand c')
        with out have c': "sv_ok c'" "sv_reader c' = r'" "unpublished c'"
          using Cons.prems by (auto simp: unpublished_def)
        from Cons.IH [OF c'(1,3), of s'] show ?thesis
          using NextCommand out(1) by (auto simp: Arrived got inc c'(2))
      next
        case (StartMedia c')
        with out have "sv_ok c'" by simp
        then obtain fin c2 where "receive_media_loop ws s' c' = Some (fin, c2)"
          using receive_media_loop_total by blast
        then show ?thesis using StartMedia out by (auto simp: Arrived got inc)
      next
        case (Return c')
        then show ?thesis using out Cons.prems by (auto simp: Arrived got unpublished_def)
      next
        case (Fail e c')
        then show ?thesis using out Cons.prems by (auto simp: Arrived got unpublished_def)
      qed
    qed
  qed (use Cons.prems in auto)
qed simp

lemma sv_greet_total:
  "\<exists>c. sv_greet (sv_new written) = Some c \<and> sv_ok c \<and> unpublished c \<and>
     sv_reader c = set_max_command_len MAX_PREPUBLISH_MSG_LEN cr_new"
proof -
  have z: "cw_chunk_size cw_new \<noteq> 0" by (simp add: cw_new_def DEFAULT_CHUNK_SIZE_def)
  obtain b1 where 1: "sv_write 2 WINDOW_ACK_SIZE 0 (put_u32 2500000) (sv_new written) =
      Some ((sv_new written)\<lparr> sv_written := written @ b1 \<rparr>)"
    using sv_write_total(1) [of "sv_new written" WINDOW_ACK_SIZE 0 "put_u32 2500000"] z by (auto simp: sv_new_def)
  obtain b2 where 2: "sv_write 2 SET_PEER_BANDWIDTH 0 (put_u32 2500000 @ [2])
      ((sv_new written)\<lparr> sv_written := written @ b1 \<rparr>) =
      Some ((sv_new written)\<lparr> sv_written := (written @ b1) @ b2 \<rparr>)"
    using sv_write_total(1) [of "(sv_new written)\<lparr> sv_written := written @ b1 \<rparr>"
        SET_PEER_BANDWIDTH 0 "put_u32 2500000 @ [2]"] z
    by (auto simp: sv_new_def)
  obtain b3 where 3: "write_message cw_new 2 SET_CHUNK_SIZE 0 0 (put_u32 (DESIRED_CHUNK_SIZE AND 0x7FFFFFFF)) = Some b3"
    using write_message_total [OF _ _ z, of 2 SET_CHUNK_SIZE 0 0
      "put_u32 (DESIRED_CHUNK_SIZE AND 0x7FFFFFFF)"] by auto
  show ?thesis
    using 1 2 3
    by (simp add: sv_greet_def write_set_chunk_size_def sv_ok_def unpublished_def)
       (simp add: sv_new_def reader_ok_def set_max_command_len_def cr_new_def DEFAULT_CHUNK_SIZE_def
        DESIRED_CHUNK_SIZE_def)
qed



section \<open>The accept loop\<close>

lemma rs_step_clients: "length (rs_clients rs) \<le> MAX_RTMP_CONNECTIONS \<Longrightarrow>
    length (rs_clients (rs_step e rs)) \<le> MAX_RTMP_CONNECTIONS"
  by (cases e) (auto simp: rs_step_def length_remove1)

lemma rtmp_connections_bounded:
  "length (rs_clients (fold rs_step es rs_new)) \<le> MAX_RTMP_CONNECTIONS"
proof -
  have "length (rs_clients rs) \<le> MAX_RTMP_CONNECTIONS \<Longrightarrow>
      length (rs_clients (fold rs_step es rs)) \<le> MAX_RTMP_CONNECTIONS" for rs
    by (induction es arbitrary: rs) (auto intro: rs_step_clients)
  then show ?thesis by (simp add: rs_new_def)
qed

text \<open>A second publisher is let in beside the first, and the end of either lowers the flag of both.\<close>

lemma two_publishers_at_once:
  "rs_publishers (fold rs_step [Accept 1, Accept 2, Published 1, Published 2] rs_new) = [1, 2] \<and>
   rs_publishers (fold rs_step [Accept 1, Accept 2, Published 1, Finished 2] rs_new) = [1] \<and>
   \<not> rs_is_publishing (fold rs_step [Accept 1, Accept 2, Published 1, Finished 2] rs_new)"
  by (simp add: rs_step_def rs_new_def MAX_RTMP_CONNECTIONS_def)

end
