(* ===== verification/RtmpClient.thy ===== *)
theory RtmpClient
  imports RtmpServer
begin

text \<open>
  The RTMP client (\<open>engine/rtmp/client.rs\<close>): the handshake, the commands that lead to publishing,
  the three waits for the server's answers, media and close. The answers are the bytes the server
  sends, what the client writes is collected in its state. The URL library is an argument, the
  function that splits a URL into its parts. Writes to the socket succeed.
\<close>

datatype rtmp_failure_kind = PublishRejected | ConnectRejected

datatype client_error =
  BadScheme
| InvalidUrl
| NoHost
| NoApp
| ClientHandshakeRead
| ServerVersion
| ClientRead chunk_error
| ConnectError rtmp_failure_kind "bytes option"
| CreateStreamError
| WaitExhausted

record rtmp_client =
  cl_writer :: chunk_writer
  cl_reader :: chunk_reader
  cl_stream_id :: u32
  cl_written :: bytes

definition cl_new :: rtmp_client where
  "cl_new = \<lparr> cl_writer = cw_new, cl_reader = cr_new, cl_stream_id = 0, cl_written = [] \<rparr>"

section \<open>Handshake\<close>

definition c0c1_block :: "u32 \<Rightarrow> bytes" where
  "c0c1_block ts = [3] @ put_u32 ts @ replicate 4 0 @ map (\<lambda>i. of_nat (i * 41 + 97)) [0..<1528]"

definition client_handshake :: "u32 \<Rightarrow> bytes \<Rightarrow> bytes \<times> (client_error + bytes)" where
  "client_handshake ts s =
     (if length s < 1 then (c0c1_block ts, Inl ClientHandshakeRead)
      else if s ! 0 \<noteq> 3 then (c0c1_block ts, Inl ServerVersion)
      else if length s < 1 + 1536 + 1536 then (c0c1_block ts, Inl ClientHandshakeRead)
      else (c0c1_block ts @ take 1536 (drop 1 s), Inr (drop (1 + 1536 + 1536) s)))"

section \<open>Sending\<close>

definition cl_write :: "u32 \<Rightarrow> u8 \<Rightarrow> u32 \<Rightarrow> u32 \<Rightarrow> bytes \<Rightarrow> rtmp_client \<Rightarrow> rtmp_client panics" where
  "cl_write cs_id ty sid ts payload c = do {
     bytes \<leftarrow> write_message (cl_writer c) cs_id ty sid ts payload;
     Some (c\<lparr> cl_written := cl_written c @ bytes \<rparr>)
   }"

definition cl_command :: "u32 \<Rightarrow> amf0_value list \<Rightarrow> rtmp_client \<Rightarrow> rtmp_client panics" where
  "cl_command sid values c = cl_write 3 COMMAND_AMF0 sid 0 (encode_values values) c"

definition send_video :: "bytes \<Rightarrow> u32 \<Rightarrow> rtmp_client \<Rightarrow> rtmp_client panics" where
  "send_video data timestamp_ms c = cl_write 5 VIDEO (cl_stream_id c) timestamp_ms data c"

definition send_audio :: "bytes \<Rightarrow> u32 \<Rightarrow> rtmp_client \<Rightarrow> rtmp_client panics" where
  "send_audio data timestamp_ms c = cl_write 4 AUDIO (cl_stream_id c) timestamp_ms data c"

definition cl_close :: "rtmp_client \<Rightarrow> rtmp_client panics" where
  "cl_close c = do {
     c \<leftarrow> cl_command (cl_stream_id c)
       [AmfString (str ''FCUnpublish''), AmfNumber (f64_of_u32 6), AmfNull] c;
     cl_command 0
       [AmfString (str ''deleteStream''), AmfNumber (f64_of_u32 7), AmfNull,
        AmfNumber (f64_of_u32 (cl_stream_id c))] c
   }"

section \<open>Waiting for an answer\<close>

text \<open>One pass of a wait: the values of the next message when it is a command that decodes.\<close>

definition next_command ::
    "rtmp_client \<Rightarrow> bytes \<Rightarrow> (client_error, amf0_value list option \<times> rtmp_client \<times> bytes) fallible" where
  "next_command c s =
     (case read_message (cl_reader c) s of
        None \<Rightarrow> None
      | Some (Inl e) \<Rightarrow> err (ClientRead e)
      | Some (Inr (msg, r, s)) \<Rightarrow>
          (let c = c\<lparr> cl_reader := r \<rparr> in
           if rm_msg_type msg = COMMAND_AMF0 then
             (case decode_all (rm_payload msg) of
                None \<Rightarrow> None
              | Some (Inl e) \<Rightarrow> ok (None, c, s)
              | Some (Inr values) \<Rightarrow> ok (Some values, c, s))
           else ok (None, c, s)))"

text \<open>The three waits share their loop: up to 50 messages, each judged by what the wait is for.\<close>

datatype 'a verdict = Skip | Got 'a | Refused client_error

fun wait_loop ::
    "(amf0_value list \<Rightarrow> 'a verdict) \<Rightarrow> nat \<Rightarrow> rtmp_client \<Rightarrow> bytes \<Rightarrow>
     (client_error, 'a \<times> rtmp_client \<times> bytes) fallible" where
  "wait_loop judge 0 c s = err WaitExhausted"
| "wait_loop judge (Suc n) c s =
     and_then (next_command c s) (\<lambda>(cmd, c, s).
     case cmd of
       None \<Rightarrow> wait_loop judge n c s
     | Some values \<Rightarrow>
         (case judge values of
            Skip \<Rightarrow> wait_loop judge n c s
          | Got x \<Rightarrow> ok (x, c, s)
          | Refused e \<Rightarrow> err e))"

definition judge_result :: "u64 \<Rightarrow> amf0_value list \<Rightarrow> unit verdict" where
  "judge_result expected_tx_id values =
     (let cmd = str_at values 0; tx_id = f64_at values 1 (f64_of_u32 0) in
      if cmd = str ''_result'' \<and> f64_eq tx_id expected_tx_id then Got ()
      else if cmd = str ''_error'' \<and> f64_eq tx_id expected_tx_id
      then Refused (ConnectError ConnectRejected None)
      else Skip)"

definition judge_create_stream :: "u64 \<Rightarrow> amf0_value list \<Rightarrow> u32 verdict" where
  "judge_create_stream expected_tx_id values =
     (let cmd = str_at values 0; tx_id = f64_at values 1 (f64_of_u32 0) in
      if cmd = str ''_result'' \<and> f64_eq tx_id expected_tx_id
      then Got (f64_to_u32 (f64_at values 3 (f64_of_u32 1)))
      else if cmd = str ''_error'' \<and> f64_eq tx_id expected_tx_id then Refused CreateStreamError
      else Skip)"

text \<open>\<open>str::contains\<close> on bytes.\<close>

fun is_prefix :: "bytes \<Rightarrow> bytes \<Rightarrow> bool" where
  "is_prefix [] ys = True"
| "is_prefix (x # xs) [] = False"
| "is_prefix (x # xs) (y # ys) = (x = y \<and> is_prefix xs ys)"

fun contains :: "bytes \<Rightarrow> bytes \<Rightarrow> bool" where
  "contains [] pat = (pat = [])"
| "contains (x # xs) pat = (is_prefix pat (x # xs) \<or> contains xs pat)"

definition judge_publish :: "amf0_value list \<Rightarrow> unit verdict" where
  "judge_publish values =
     (let cmd = str_at values 0 in
      if cmd = str ''onStatus'' then
        (case value_at values 3 of
           Some info \<Rightarrow>
             (let code = (case Option.bind (get_property info (str ''code'')) as_str of
                            Some s \<Rightarrow> s | None \<Rightarrow> []) in
              if code = str ''NetStream.Publish.Start'' then Got ()
              else if contains code (str ''Error'') \<or> contains code (str ''Reject'') \<or>
                      contains code (str ''BadName'')
              then Refused (ConnectError PublishRejected (Some code))
              else Got ())
         | None \<Rightarrow> Got ())
      else if cmd = str ''_error'' then Refused (ConnectError PublishRejected None)
      else Skip)"

definition wait_for_result ::
    "u64 \<Rightarrow> rtmp_client \<Rightarrow> bytes \<Rightarrow> (client_error, unit \<times> rtmp_client \<times> bytes) fallible" where
  "wait_for_result expected_tx_id c s = wait_loop (judge_result expected_tx_id) 50 c s"

definition wait_for_create_stream_result ::
    "u64 \<Rightarrow> rtmp_client \<Rightarrow> bytes \<Rightarrow> (client_error, u32 \<times> rtmp_client \<times> bytes) fallible" where
  "wait_for_create_stream_result expected_tx_id c s =
     wait_loop (judge_create_stream expected_tx_id) 50 c s"

definition wait_for_publish_start ::
    "rtmp_client \<Rightarrow> bytes \<Rightarrow> (client_error, unit \<times> rtmp_client \<times> bytes) fallible" where
  "wait_for_publish_start c s = wait_loop judge_publish 50 c s"

section \<open>Connecting\<close>

definition connect_command :: "bytes \<Rightarrow> bytes \<Rightarrow> amf0_value list" where
  "connect_command app tc_url =
     [AmfString (str ''connect''), AmfNumber (f64_of_u32 1),
      AmfObject
        [(str ''app'', AmfString app),
         (str ''type'', AmfString (str ''nonprivate'')),
         (str ''flashVer'', AmfString (str ''FMLE/3.0 (compatible; bilbycast-edge)'')),
         (str ''tcUrl'', AmfString tc_url)]]"

definition stream_command :: "string \<Rightarrow> u32 \<Rightarrow> bytes \<Rightarrow> amf0_value list" where
  "stream_command name tx_id stream_key =
     [AmfString (str name), AmfNumber (f64_of_u32 tx_id), AmfNull, AmfString stream_key]"

definition publish_command :: "bytes \<Rightarrow> amf0_value list" where
  "publish_command stream_key =
     [AmfString (str ''publish''), AmfNumber (f64_of_u32 5), AmfNull, AmfString stream_key,
      AmfString (str ''live'')]"

text \<open>Steps 2 to 4: the chunk size, the window and the connect command.\<close>

definition cl_open :: "bytes \<Rightarrow> bytes \<Rightarrow> rtmp_client \<Rightarrow> rtmp_client panics" where
  "cl_open app tc_url c = do {
     (bytes, w) \<leftarrow> write_set_chunk_size (cl_writer c) DESIRED_CHUNK_SIZE;
     let c = c\<lparr> cl_writer := w, cl_written := cl_written c @ bytes \<rparr>;
     c \<leftarrow> cl_write 2 WINDOW_ACK_SIZE 0 0 (put_u32 2500000) c;
     cl_command 0 (connect_command app tc_url) c
   }"

text \<open>Steps 6 to 8.\<close>

definition cl_create :: "bytes \<Rightarrow> rtmp_client \<Rightarrow> rtmp_client panics" where
  "cl_create stream_key c = do {
     c \<leftarrow> cl_command 0 (stream_command ''releaseStream'' 2 stream_key) c;
     c \<leftarrow> cl_command 0 (stream_command ''FCPublish'' 3 stream_key) c;
     cl_command 0 [AmfString (str ''createStream''), AmfNumber (f64_of_u32 4), AmfNull] c
   }"

definition rtmp_connect ::
    "bytes \<Rightarrow> bytes \<Rightarrow> bytes \<Rightarrow> u32 \<Rightarrow> bytes \<Rightarrow> (client_error, rtmp_client \<times> bytes) fallible" where
  "rtmp_connect app tc_url stream_key ts s =
     (case client_handshake ts s of (written, result) \<Rightarrow>
        (case result of
           Inl e \<Rightarrow> err e
         | Inr s \<Rightarrow>
             and_then (unless_panic (cl_open app tc_url (cl_new\<lparr> cl_written := written \<rparr>))) (\<lambda>c.
             and_then (wait_for_result (f64_of_u32 1) c s) (\<lambda>(_, c, s).
             and_then (unless_panic (cl_create stream_key c)) (\<lambda>c.
             and_then (wait_for_create_stream_result (f64_of_u32 4) c s) (\<lambda>(stream_id, c, s).
             and_then (unless_panic (cl_command stream_id (publish_command stream_key)
               (c\<lparr> cl_stream_id := stream_id \<rparr>))) (\<lambda>c.
             and_then (wait_for_publish_start c s) (\<lambda>(_, c, s).
             ok (c, s)))))))))"

section \<open>The URL\<close>

datatype url_host = HostDomain bytes | HostIpv4 bytes | HostIpv6 bytes

text \<open>What the URL library yields; an address is its text.\<close>

record parsed_url =
  pu_scheme :: bytes
  pu_host :: "url_host option"
  pu_port :: "u16 option"
  pu_path_segments :: "bytes list option"

text \<open>The decimal digits of a number.\<close>

fun decimal :: "nat \<Rightarrow> bytes" where
  "decimal n = (if n < 10 then [of_nat (48 + n)] else decimal (n div 10) @ [of_nat (48 + n mod 10)])"

declare decimal.simps [simp del]

definition parse_rtmp_url ::
    "(bytes \<Rightarrow> parsed_url option) \<Rightarrow> bytes \<Rightarrow> client_error + bytes \<times> u16 \<times> bytes \<times> bytes" where
  "parse_rtmp_url url_parse url =
     (if \<not> is_prefix (str ''rtmp://'') url \<and> \<not> is_prefix (str ''rtmps://'') url then Inl BadScheme
      else
        (case url_parse url of
           None \<Rightarrow> Inl InvalidUrl
         | Some parsed \<Rightarrow>
             (case pu_host parsed of
                None \<Rightarrow> Inl NoHost
              | Some h \<Rightarrow>
                  (let (host, is_ipv6) = (case h of HostDomain d \<Rightarrow> (d, False)
                         | HostIpv4 ip \<Rightarrow> (ip, False) | HostIpv6 ip \<Rightarrow> (ip, True));
                       port = (case pu_port parsed of Some p \<Rightarrow> p | None \<Rightarrow> 1935) in
                   case pu_path_segments parsed of
                     Some (app # segs) \<Rightarrow>
                       if app = [] then Inl NoApp
                       else
                         (let host_in_url = (if is_ipv6 then str ''['' @ host @ str '']'' else host) in
                          Inr (host, port, app,
                            pu_scheme parsed @ str ''://'' @ host_in_url @ str '':'' @
                            decimal (unat port) @ str ''/'' @ app))
                   | _ \<Rightarrow> Inl NoApp))))"

text \<open>\<open>RtmpClient::connect\<close>; the address it connects to is the host and port of the URL.\<close>

definition client_connect ::
    "(bytes \<Rightarrow> parsed_url option) \<Rightarrow> bytes \<Rightarrow> bytes \<Rightarrow> u32 \<Rightarrow> bytes \<Rightarrow>
     (client_error, rtmp_client \<times> bytes) fallible" where
  "client_connect url_parse url stream_key ts s =
     (case parse_rtmp_url url_parse url of
        Inl e \<Rightarrow> err e
      | Inr (host, port, app, tc_url) \<Rightarrow> rtmp_connect app tc_url stream_key ts s)"

end
