(* ===== verification/RtmpSession.thy ===== *)
theory RtmpSession
  imports RtmpServerCorrect RtmpClient
begin

text \<open>
  Client and server of the two RTMP files on one connection. The server is run on the bytes the
  client writes, the client on the bytes the server writes; both directions go through the chunk
  framing and the AMF0 codec. The lemmas take the messages one by one and leave the framing to the
  round trip of the chunk layer.
\<close>

section \<open>Literals are well-formed\<close>

lemma ascii_valid: "\<forall>b\<in>set bs. b < 0x80 \<Longrightarrow> utf8_valid bs"
proof (induction bs)
  case (Cons b bs)
  then have "utf8_head (b # bs) = (True, 1)"
    by (simp add: utf8_head_def utf8_char_width_def byte_at_def)
  with Cons show ?case by (subst utf8_valid.simps) simp
qed (simp add: utf8_valid.simps)

definition ascii :: "string \<Rightarrow> bool" where
  "ascii s \<longleftrightarrow> list_all (\<lambda>c. of_char c < (128 :: nat)) s \<and> length s < 65536"

lemma str_ok_str [simp]: "ascii s \<Longrightarrow> str_ok (str s)"
proof -
  assume "ascii s"
  then have "\<forall>b\<in>set (str s). b < 0x80"
    by (auto simp: ascii_def str_def list_all_iff word_less_nat_alt unat_of_nat)
  then show ?thesis using \<open>ascii s\<close> by (simp add: str_ok_def ascii_valid ascii_def)
qed

section \<open>Command messages\<close>

definition command :: "u32 \<Rightarrow> amf0_value list \<Rightarrow> rtmp_send" where
  "command sid vs = Send 3 COMMAND_AMF0 sid 0 (encode_values vs)"

text \<open>Values that survive the codec and fit a command message.\<close>

definition vals_ok :: "amf0_value list \<Rightarrow> bool" where
  "vals_ok vs \<longleftrightarrow> (\<forall>v\<in>set vs. amf_ok v \<and> amf_depth v \<le> 32) \<and>
     sum_list (map amf_count vs) \<le> 50000 \<and> length (encode_values vs) \<le> MAX_PREPUBLISH_MSG_LEN"

lemma decode_command: "vals_ok vs \<Longrightarrow> decode_all (encode_values vs) = Some (Inr vs)"
  using decode_all_encoded [of vs] by (simp add: vals_ok_def ok_def)

lemma sent_command [simp]:
  "sent_message (command sid vs) =
     \<lparr> rm_msg_type = COMMAND_AMF0, rm_timestamp = 0, rm_payload = encode_values vs \<rparr>"
  "send_id (command sid vs) = 3"
  by (simp_all add: command_def)

lemma sendable_command:
  "vals_ok vs \<Longrightarrow> MAX_PREPUBLISH_MSG_LEN \<le> cr_max_command_len r \<Longrightarrow> sendable r (command sid vs)"
  by (simp add: command_def vals_ok_def message_cap_def MAX_PREPUBLISH_MSG_LEN_def msg_types)

lemma length_encode_raw [simp]: "length (encode_raw_string s) = 2 + length s"
  by (simp add: encode_raw_string_def)

lemmas command_values = vals_ok_def encode_values_def encode_string_def MAX_PREPUBLISH_MSG_LEN_def ascii_def

lemma vals_connect:
  "str_ok app \<Longrightarrow> str_ok tc_url \<Longrightarrow> vals_ok (connect_command app tc_url)"
  by (auto simp: connect_command_def command_values) (auto simp: str_ok_def)

lemma vals_stream: "ascii name \<Longrightarrow> str_ok key \<Longrightarrow> vals_ok (stream_command name tx key)"
  by (auto simp: stream_command_def vals_ok_def encode_values_def encode_string_def MAX_PREPUBLISH_MSG_LEN_def)
     (auto simp: str_ok_def ascii_def)

lemma vals_create: "vals_ok [AmfString (str ''createStream''), AmfNumber (f64_of_u32 4), AmfNull]"
  by (simp add: command_values)

lemma vals_publish: "str_ok key \<Longrightarrow> vals_ok (publish_command key)"
  by (auto simp: publish_command_def command_values) (auto simp: str_ok_def)

lemma vals_answers:
  "vals_ok (connect_accepted tx)"
  "vals_ok [AmfString (str ''_result''), AmfNumber tx, AmfNull]"
  "vals_ok [AmfString (str ''_result''), AmfNumber tx, AmfNull, AmfNumber n]"
  "vals_ok (publish_status ''status'' ''NetStream.Publish.Start'' ''Publishing started'')"
  "vals_ok (publish_status ''error'' ''NetStream.Publish.BadName'' ''Bad stream key'')"
  by (simp_all add: connect_accepted_def publish_status_def command_values)

section \<open>What a side has written\<close>

lemma write_sends_append:
  "write_sends w (xs @ ys) = do {
     (bs, w1) \<leftarrow> write_sends w xs;
     (cs, w2) \<leftarrow> write_sends w1 ys;
     Some (bs @ cs, w2)
   }"
  by (induction xs arbitrary: w) (auto simp: case_prod_beta' split: option.splits)

text \<open>The writer and the bytes after some messages.\<close>

definition wrote :: "chunk_writer \<times> bytes \<Rightarrow> rtmp_send list \<Rightarrow> chunk_writer \<times> bytes \<Rightarrow> bool" where
  "wrote a xs b \<longleftrightarrow>
     (\<exists>bs. write_sends (fst a) xs = Some (bs, fst b) \<and> snd b = snd a @ bs)"

lemma wrote_Nil [simp]: "wrote a [] a"
  by (simp add: wrote_def)

lemma wrote_trans: "wrote a xs b \<Longrightarrow> wrote b ys c \<Longrightarrow> wrote a (xs @ ys) c"
  by (auto simp: wrote_def write_sends_append)

lemma wrote_command:
  assumes "write_message w 3 COMMAND_AMF0 sid 0 (encode_values vs) = Some bs"
  shows "wrote (w, out) [command sid vs] (w, out @ bs)"
  using assms by (simp add: wrote_def command_def)

abbreviation sv_out :: "server_conn \<Rightarrow> chunk_writer \<times> bytes" where
  "sv_out c \<equiv> (sv_writer c, sv_written c)"

abbreviation cl_out :: "rtmp_client \<Rightarrow> chunk_writer \<times> bytes" where
  "cl_out c \<equiv> (cl_writer c, cl_written c)"

lemma sv_write_command:
  assumes "cw_chunk_size (sv_writer c) \<noteq> 0"
  shows "\<exists>c'. sv_write 3 COMMAND_AMF0 sid (encode_values vs) c = Some c' \<and>
    c' = c\<lparr> sv_written := sv_written c' \<rparr> \<and> wrote (sv_out c) [command sid vs] (sv_out c')"
proof -
  obtain bs where "write_message (sv_writer c) 3 COMMAND_AMF0 sid 0 (encode_values vs) = Some bs"
    using write_message_total [OF _ _ assms, of 3 COMMAND_AMF0 sid 0 "encode_values vs"] by auto
  then show ?thesis
    using wrote_command [of "sv_writer c" sid vs bs "sv_written c"] by (simp add: sv_write_def)
qed

lemma cl_command_wrote:
  assumes "cw_chunk_size (cl_writer c) \<noteq> 0"
  shows "\<exists>c'. cl_command sid vs c = Some c' \<and>
    c' = c\<lparr> cl_written := cl_written c' \<rparr> \<and> wrote (cl_out c) [command sid vs] (cl_out c')"
proof -
  obtain bs where "write_message (cl_writer c) 3 COMMAND_AMF0 sid 0 (encode_values vs) = Some bs"
    using write_message_total [OF _ _ assms, of 3 COMMAND_AMF0 sid 0 "encode_values vs"] by auto
  then show ?thesis
    using wrote_command [of "cl_writer c" sid vs bs "cl_written c"]
    by (simp add: cl_command_def cl_write_def)
qed

section \<open>The server, message by message\<close>

text \<open>The commands leave the reader alone.\<close>

fun on_outcome :: "(server_conn \<Rightarrow> server_conn) \<Rightarrow> command_outcome \<Rightarrow> command_outcome" where
  "on_outcome f (NextCommand c) = NextCommand (f c)"
| "on_outcome f (StartMedia c) = StartMedia (f c)"
| "on_outcome f (Return c) = Return (f c)"
| "on_outcome f (Fail e c) = Fail e (f c)"

lemma map_option_bind_Some:
  "map_option f m \<bind> (\<lambda>x. Some (g x)) = map_option (\<lambda>x. g (f x)) m"
  "m \<bind> (\<lambda>x. Some (g x)) = map_option g m"
  by (cases m; simp)+

lemma handle_message_reader:
  "handle_message cfg msg (c\<lparr> sv_reader := r \<rparr>) =
   map_option (on_outcome (\<lambda>c. c\<lparr> sv_reader := r \<rparr>)) (handle_message cfg msg c)"
proof -
  obtain r0 w sid app out media pub where c: "c = \<lparr> sv_reader = r0, sv_writer = w,
      sv_publish_stream_id = sid, sv_app_name = app, sv_written = out, sv_media = media,
      sv_publishing = pub \<rparr>" by (cases c)
  note handlers = sv_write_def map_option_bind_Some option.map_comp comp_def Let_def c
  have 1: "handle_connect cfg vs tx (c\<lparr> sv_reader := r \<rparr>) =
      map_option (on_outcome (\<lambda>c. c\<lparr> sv_reader := r \<rparr>)) (handle_connect cfg vs tx c)" for vs tx
    by (cases "value_at vs 2") (simp_all add: handle_connect_def handlers)
  have 2: "handle_release tx (c\<lparr> sv_reader := r \<rparr>) =
      map_option (on_outcome (\<lambda>c. c\<lparr> sv_reader := r \<rparr>)) (handle_release tx c)" for tx
    by (simp add: handle_release_def handlers)
  have 3: "handle_create_stream tx (c\<lparr> sv_reader := r \<rparr>) =
      map_option (on_outcome (\<lambda>c. c\<lparr> sv_reader := r \<rparr>)) (handle_create_stream tx c)" for tx
    by (simp add: handle_create_stream_def handlers)
  have 4: "handle_publish cfg vs (c\<lparr> sv_reader := r \<rparr>) =
      map_option (on_outcome (\<lambda>c. c\<lparr> sv_reader := r \<rparr>)) (handle_publish cfg vs c)" for vs
    by (simp add: handle_publish_def handlers)
  show ?thesis
    by (simp add: handle_message_def Let_def 1 2 3 4 sv_send_def split: option.split sum.split)
qed

fun handle_all :: "rtmp_server_config \<Rightarrow> rtmp_message list \<Rightarrow> server_conn \<Rightarrow> server_conn option" where
  "handle_all cfg [] c = Some c"
| "handle_all cfg (m # ms) c =
     (case handle_message cfg m c of Some (NextCommand c) \<Rightarrow> handle_all cfg ms c | _ \<Rightarrow> None)"

lemma handle_all_reader:
  "handle_all cfg ms (c\<lparr> sv_reader := r \<rparr>) = map_option (\<lambda>c. c\<lparr> sv_reader := r \<rparr>) (handle_all cfg ms c)"
  by (induction ms arbitrary: c)
     (auto simp: handle_message_reader split: option.split command_outcome.split)

lemma handle_all_append:
  "handle_all cfg ms c = Some c1 \<Longrightarrow> handle_all cfg ns c1 = Some c2 \<Longrightarrow> handle_all cfg (ms @ ns) c = Some c2"
  by (induction ms arbitrary: c) (auto split: option.splits command_outcome.splits)

text \<open>Commands that arrive through the framing are handled one after the other.\<close>

lemma command_loop_all:
  assumes "in_step ids cap w (sv_reader c)"
    "\<forall>x\<in>set xs. send_id x \<in> ids \<and> sendable (sv_reader c) x"
    "write_sends w xs = Some (bs, w')" "handle_all cfg (map sent_message xs) c = Some c'"
  shows "\<exists>r'. in_step ids cap w' r' \<and>
    (\<forall>ws rest. command_loop cfg (replicate (length xs) Arrived @ ws) (bs @ rest) c =
      command_loop cfg ws rest (c'\<lparr> sv_reader := r' \<rparr>))"
  using assms
proof (induction xs arbitrary: w c bs c')
  case Nil
  then show ?case by (auto intro!: exI [of _ "sv_reader c'"])
next
  case (Cons x xs)
  obtain b1 w1 r1 where one: "write_one w x = Some (b1, w1)" "in_step ids cap w1 r1"
    "\<And>rest. read_message (sv_reader c) (b1 @ rest) = ok (sent_message x, r1, rest)"
    using one_message_carried [OF Cons.prems(1)] Cons.prems(2) by fastforce
  obtain b2 where b: "bs = b1 @ b2" "write_sends w1 xs = Some (b2, w')"
    using Cons.prems(3) one(1) by (auto split: Option.bind_splits)
  obtain c1 where h: "handle_message cfg (sent_message x) c = Some (NextCommand c1)"
    "handle_all cfg (map sent_message xs) c1 = Some c'"
    using Cons.prems(4) by (auto split: option.splits command_outcome.splits)
  have h1: "handle_message cfg (sent_message x) (c\<lparr> sv_reader := r1 \<rparr>) =
      Some (NextCommand (c1\<lparr> sv_reader := r1 \<rparr>))"
    by (simp add: handle_message_reader h)
  have "cr_max_command_len r1 = cr_max_command_len (sv_reader c)"
    using one(2) Cons.prems(1) by (simp add: in_step_def)
  then have "\<forall>x\<in>set xs. send_id x \<in> ids \<and> sendable (sv_reader (c1\<lparr> sv_reader := r1 \<rparr>)) x"
    using Cons.prems(2) message_cap_cong [of r1 "sv_reader c"] by simp
  moreover have "handle_all cfg (map sent_message xs) (c1\<lparr> sv_reader := r1 \<rparr>) =
      Some (c'\<lparr> sv_reader := r1 \<rparr>)"
    using h(2) by (simp add: handle_all_reader)
  ultimately obtain r' where "in_step ids cap w' r'"
    "\<And>ws rest. command_loop cfg (replicate (length xs) Arrived @ ws) (b2 @ rest) (c1\<lparr> sv_reader := r1 \<rparr>) =
      command_loop cfg ws rest (c'\<lparr> sv_reader := r1, sv_reader := r' \<rparr>)"
    using Cons.IH [of w1 "c1\<lparr> sv_reader := r1 \<rparr>" b2 "c'\<lparr> sv_reader := r1 \<rparr>"] one(2) b(2) by auto
  then show ?case
    using one(3) h1 by (auto simp: b(1) ok_def intro!: exI [of _ r'])
qed

text \<open>The server's answers.\<close>

abbreviation answer :: "u32 \<Rightarrow> rtmp_send" where
  "answer n \<equiv> command 0 [AmfString (str ''_result''), AmfNumber (f64_of_u32 n), AmfNull]"

lemma control_ignored:
  "rm_msg_type m \<noteq> COMMAND_AMF0 \<Longrightarrow> handle_message cfg m c = Some (NextCommand c)"
  by (simp add: handle_message_def)

lemma command_handled:
  assumes "vals_ok vs"
  shows "handle_message cfg (sent_message (command sid vs)) c =
     (let cmd = str_at vs 0; tx_id = f64_at vs 1 (f64_of_u32 0) in
      if cmd = str ''connect'' then handle_connect cfg vs tx_id c
      else if cmd = str ''releaseStream'' \<or> cmd = str ''FCPublish'' then handle_release tx_id c
      else if cmd = str ''createStream'' then handle_create_stream tx_id c
      else if cmd = str ''publish'' then handle_publish cfg vs c
      else if cmd = str ''FCUnpublish'' \<or> cmd = str ''deleteStream''
      then Some (Return (sv_send MediaDisconnected c))
      else Some (NextCommand c))"
  using decode_command [OF assms] by (simp add: handle_message_def)

lemmas positions = str_at_def f64_at_def value_at_def as_str_def as_f64_def get_property_def

lemma connect_answered:
  assumes "cw_chunk_size (sv_writer c) \<noteq> 0" "str_ok app" "str_ok tc_url"
    "sc_expected_app cfg = [] \<or> sc_expected_app cfg = app"
  shows "\<exists>c'. handle_message cfg (sent_message (command 0 (connect_command app tc_url))) c = Some (NextCommand c') \<and>
    c' = c\<lparr> sv_app_name := app, sv_written := sv_written c' \<rparr> \<and>
    wrote (sv_out c) [command 0 (connect_accepted (f64_of_u32 1))] (sv_out c')"
proof -
  have vs: "str_at (connect_command app tc_url) 0 = str ''connect''"
    "f64_at (connect_command app tc_url) 1 d = f64_of_u32 1" for d
    by (simp_all add: connect_command_def positions)
  have props: "value_at (connect_command app tc_url) 2 = Some (connect_command app tc_url ! 2)"
    "get_property (connect_command app tc_url ! 2) (str ''app'') \<bind> as_str = Some app"
    by (simp_all add: connect_command_def positions)
  obtain c' where "sv_write 3 COMMAND_AMF0 0 (encode_values (connect_accepted (f64_of_u32 1))) (c\<lparr> sv_app_name := app \<rparr>) = Some c'"
    "c' = c\<lparr> sv_app_name := app, sv_written := sv_written c' \<rparr>"
    "wrote (sv_out c) [command 0 (connect_accepted (f64_of_u32 1))] (sv_out c')"
    using sv_write_command [of "c\<lparr> sv_app_name := app \<rparr>" 0 "connect_accepted (f64_of_u32 1)"] assms(1) by auto
  then show ?thesis
    using assms(4) unfolding command_handled [OF vals_connect [OF assms(2,3)]] Let_def vs
    by (auto simp: handle_connect_def props)
qed

lemma release_answered:
  assumes "cw_chunk_size (sv_writer c) \<noteq> 0" "str_ok key" "name = ''releaseStream'' \<or> name = ''FCPublish''"
  shows "\<exists>c'. handle_message cfg (sent_message (command 0 (stream_command name tx key))) c = Some (NextCommand c') \<and>
    c' = c\<lparr> sv_written := sv_written c' \<rparr> \<and> wrote (sv_out c) [answer tx] (sv_out c')"
proof -
  have "ascii name" using assms(3) by (auto simp: ascii_def)
  note h = command_handled [OF vals_stream [OF this assms(2)]]
  have vs: "str_at (stream_command name tx key) 0 = str name"
    "f64_at (stream_command name tx key) 1 d = f64_of_u32 tx" for d
    by (simp_all add: stream_command_def positions)
  show ?thesis
    using sv_write_command [OF assms(1), of 0 "[AmfString (str ''_result''), AmfNumber (f64_of_u32 tx), AmfNull]"] assms(3)
    unfolding h Let_def vs by (auto simp: handle_release_def)
qed

lemma create_answered:
  assumes "cw_chunk_size (sv_writer c) \<noteq> 0"
  shows "\<exists>c'. handle_message cfg (sent_message (command 0
      [AmfString (str ''createStream''), AmfNumber (f64_of_u32 4), AmfNull])) c = Some (NextCommand c') \<and>
    c' = c\<lparr> sv_publish_stream_id := 1, sv_written := sv_written c' \<rparr> \<and>
    wrote (sv_out c) [command 0 [AmfString (str ''_result''), AmfNumber (f64_of_u32 4), AmfNull,
      AmfNumber (f64_of_u32 1)]] (sv_out c')"
proof -
  let ?vs = "[AmfString (str ''_result''), AmfNumber (f64_of_u32 4), AmfNull, AmfNumber (f64_of_u32 1)]"
  have vs: "str_at [AmfString (str ''createStream''), AmfNumber (f64_of_u32 4), AmfNull] 0 = str ''createStream''"
    "f64_at [AmfString (str ''createStream''), AmfNumber (f64_of_u32 4), AmfNull] 1 d = f64_of_u32 4" for d
    by (simp_all add: positions)
  obtain c' where "sv_write 3 COMMAND_AMF0 0 (encode_values ?vs) (c\<lparr> sv_publish_stream_id := 1 \<rparr>) = Some c'"
    "c' = c\<lparr> sv_publish_stream_id := 1, sv_written := sv_written c' \<rparr>"
    "wrote (sv_out c) [command 0 ?vs] (sv_out c')"
    using sv_write_command [of "c\<lparr> sv_publish_stream_id := 1 \<rparr>" 0 ?vs] assms by auto
  then show ?thesis
    unfolding command_handled [OF vals_create] Let_def vs by (auto simp: handle_create_stream_def)
qed

definition key_ok :: "rtmp_server_config \<Rightarrow> bytes \<Rightarrow> bool" where
  "key_ok cfg key \<longleftrightarrow> (case sc_expected_stream_key cfg of Some k \<Rightarrow> key = k | None \<Rightarrow> True)"

abbreviation "started \<equiv> publish_status ''status'' ''NetStream.Publish.Start'' ''Publishing started''"
abbreviation "bad_name \<equiv> publish_status ''error'' ''NetStream.Publish.BadName'' ''Bad stream key''"

lemma publish_answered:
  assumes "cw_chunk_size (sv_writer c) \<noteq> 0" "str_ok key"
  shows "\<exists>c'. handle_message cfg (sent_message (command sid (publish_command key))) c =
      Some (if key_ok cfg key then StartMedia (c'\<lparr> sv_publishing := True \<rparr>) else Fail KeyMismatch c') \<and>
    c' = c\<lparr> sv_written := sv_written c' \<rparr> \<and>
    wrote (sv_out c) [command (sv_publish_stream_id c) (if key_ok cfg key then started else bad_name)] (sv_out c')"
proof -
  have vs: "str_at (publish_command key) 0 = str ''publish''" "str_at (publish_command key) 3 = key"
    by (simp_all add: publish_command_def positions)
  show ?thesis
    using sv_write_command [OF assms(1), of "sv_publish_stream_id c" "if key_ok cfg key then started else bad_name"]
    unfolding command_handled [OF vals_publish [OF assms(2)]] Let_def vs
    by (auto simp: handle_publish_def vs key_ok_def split: option.splits if_splits)
qed

text \<open>The application is checked by the connect command alone: a peer that never sends it is let in
  by its key, whatever application the server is configured for.\<close>

lemma publish_without_connect:
  assumes "cw_chunk_size (sv_writer c) \<noteq> 0" "str_ok key" "sc_expected_stream_key cfg = Some key"
    "sc_expected_app cfg = str ''live''" "sv_app_name c = []"
  shows "\<exists>c'. handle_message cfg (sent_message (command 0 (publish_command key))) c = Some (StartMedia c') \<and>
    sv_publishing c' \<and> sv_app_name c' \<noteq> sc_expected_app cfg"
proof -
  have "key_ok cfg key" using assms(3) by (simp add: key_ok_def)
  with publish_answered [OF assms(1,2), of cfg 0] obtain c' where
    c': "handle_message cfg (sent_message (command 0 (publish_command key))) c =
      Some (StartMedia (c'\<lparr> sv_publishing := True \<rparr>))" "c' = c\<lparr> sv_written := sv_written c' \<rparr>" by auto
  have "sv_app_name c' = []" by (subst c'(2)) (simp add: assms(5))
  with c'(1) assms(4) show ?thesis by simp
qed

section \<open>The client's waits\<close>

text \<open>A message the wait passes over, and the one it takes.\<close>

definition skipped :: "(amf0_value list \<Rightarrow> 'a verdict) \<Rightarrow> rtmp_send \<Rightarrow> bool" where
  "skipped judge x \<longleftrightarrow>
     rm_msg_type (sent_message x) \<noteq> COMMAND_AMF0 \<or>
     (\<exists>sid vs. x = command sid vs \<and> vals_ok vs \<and> judge vs = Skip)"

lemma next_command_carried:
  assumes "in_step ids cap w (cl_reader c)" "send_id x \<in> ids" "sendable (cl_reader c) x"
    "write_one w x = Some (bs, w')"
  shows "\<exists>r'. in_step ids cap w' r' \<and> (\<forall>rest. next_command c (bs @ rest) =
    (if rm_msg_type (sent_message x) = COMMAND_AMF0 then
       (case decode_all (rm_payload (sent_message x)) of
          None \<Rightarrow> None
        | Some (Inl e) \<Rightarrow> ok (None, c\<lparr> cl_reader := r' \<rparr>, rest)
        | Some (Inr vs) \<Rightarrow> ok (Some vs, c\<lparr> cl_reader := r' \<rparr>, rest))
     else ok (None, c\<lparr> cl_reader := r' \<rparr>, rest)))"
proof -
  obtain r' where "in_step ids cap w' r'"
    "\<And>rest. read_message (cl_reader c) (bs @ rest) = ok (sent_message x, r', rest)"
    using one_message_carried [OF assms(1-3)] assms(4) by auto
  then show ?thesis by (auto simp: next_command_def ok_def Let_def intro!: exI [of _ r'])
qed

lemma wait_loop_carried:
  assumes "in_step ids cap w (cl_reader c)"
    "\<forall>x\<in>set (xs @ [command sid vs]). send_id x \<in> ids \<and> sendable (cl_reader c) x"
    "\<forall>x\<in>set xs. skipped judge x" "vals_ok vs" "judge vs \<noteq> Skip" "length xs < n"
    "write_sends w (xs @ [command sid vs]) = Some (bs, w')"
  shows "\<exists>r'. in_step ids cap w' r' \<and> (\<forall>rest. wait_loop judge n c (bs @ rest) =
    (case judge vs of Got x \<Rightarrow> ok (x, c\<lparr> cl_reader := r' \<rparr>, rest) | Refused e \<Rightarrow> err e | Skip \<Rightarrow> None))"
  using assms
proof (induction xs arbitrary: w c bs n)
  case Nil
  obtain m where n: "n = Suc m" using Nil.prems(6) by (cases n) auto
  have "write_one w (command sid vs) = Some (bs, w')"
    using Nil.prems(7) by (auto split: Option.bind_splits)
  from next_command_carried [OF Nil.prems(1) _ _ this] Nil.prems(2) obtain r' where
    "in_step ids cap w' r'" "\<And>rest. next_command c (bs @ rest) = ok (Some vs, c\<lparr> cl_reader := r' \<rparr>, rest)"
    by (auto simp: decode_command [OF Nil.prems(4)])
  then show ?case using Nil.prems(5) by (auto simp: n split: verdict.splits)
next
  case (Cons x xs)
  obtain m where n: "n = Suc m" "length xs < m" using Cons.prems(6) by (cases n) auto
  obtain b1 w1 b2 where b: "write_one w x = Some (b1, w1)" "bs = b1 @ b2"
    "write_sends w1 (xs @ [command sid vs]) = Some (b2, w')"
    using Cons.prems(7) by (auto split: Option.bind_splits)
  from next_command_carried [OF Cons.prems(1) _ _ b(1)] Cons.prems(2) obtain r1 where
    r1: "in_step ids cap w1 r1" and nc: "\<And>rest. next_command c (b1 @ rest) =
    (if rm_msg_type (sent_message x) = COMMAND_AMF0 then
       (case decode_all (rm_payload (sent_message x)) of
          None \<Rightarrow> None
        | Some (Inl e) \<Rightarrow> ok (None, c\<lparr> cl_reader := r1 \<rparr>, rest)
        | Some (Inr vs) \<Rightarrow> ok (Some vs, c\<lparr> cl_reader := r1 \<rparr>, rest))
     else ok (None, c\<lparr> cl_reader := r1 \<rparr>, rest))" by auto
  have skip: "wait_loop judge n c (b1 @ rest) = wait_loop judge m (c\<lparr> cl_reader := r1 \<rparr>) rest" for rest
    using Cons.prems(3) decode_command by (auto simp: n nc skipped_def)
  have "cr_max_command_len r1 = cr_max_command_len (cl_reader c)"
    using r1 Cons.prems(1) by (simp add: in_step_def)
  then have "\<forall>x\<in>set (xs @ [command sid vs]). send_id x \<in> ids \<and> sendable (cl_reader (c\<lparr> cl_reader := r1 \<rparr>)) x"
    using Cons.prems(2) message_cap_cong [of r1 "cl_reader c"] by simp
  from Cons.IH [OF _ this _ Cons.prems(4,5) n(2) b(3)] r1 Cons.prems(3) obtain r' where
    "in_step ids cap w' r'" "\<forall>rest. wait_loop judge m (c\<lparr> cl_reader := r1 \<rparr>) (b2 @ rest) =
      (case judge vs of Got x \<Rightarrow> ok (x, c\<lparr> cl_reader := r1, cl_reader := r' \<rparr>, rest)
       | Refused e \<Rightarrow> err e | Skip \<Rightarrow> None)" by auto
  then show ?case by (cases "judge vs") (auto simp: b(2) skip intro!: exI [of _ r'])
qed

end
