(* ===== verification/RtmpSessionCorrect.thy ===== *)
theory RtmpSessionCorrect
  imports RtmpSession
begin

text \<open>
  The publishing session as a whole: with matching application and key, client and server reach
  the publishing state and every frame the client sends arrives on the server's media channel;
  with a wrong key the client is told so and nothing arrives.
\<close>

section \<open>Handshake\<close>

lemma length_blocks [simp]: "length (s1_block ts) = 1536" "length (c0c1_block ts) = 1537"
  by (simp_all add: s1_block_def c0c1_block_def)

lemma c0c1_head: "c0c1_block ts = 3 # tl (c0c1_block ts)"
  by (simp add: c0c1_block_def)

lemma server_handshake_client:
  "server_handshake ts (c0c1_block tc @ s1_block ts @ rest) =
     ([3] @ s1_block ts @ tl (c0c1_block tc), Inr rest)"
proof -
  have "take 1536 (tl (c0c1_block tc) @ x) = tl (c0c1_block tc)" for x by simp
  then show ?thesis
    by (subst c0c1_head) (simp add: server_handshake_def Let_def del: append_Cons, simp)
qed

lemma client_handshake_server:
  "client_handshake tc ([3] @ s1_block ts @ tl (c0c1_block tc) @ rest) =
     (c0c1_block tc @ s1_block ts, Inr rest)"
  by (simp add: client_handshake_def)

section \<open>The messages of a session\<close>

abbreviation "window \<equiv> Send 2 WINDOW_ACK_SIZE 0 0 (put_u32 2500000)"
abbreviation "bandwidth \<equiv> Send 2 SET_PEER_BANDWIDTH 0 0 (put_u32 2500000 @ [2])"
abbreviation "create \<equiv> command 0 [AmfString (str ''createStream''), AmfNumber (f64_of_u32 4), AmfNull]"
abbreviation "created \<equiv> [AmfString (str ''_result''), AmfNumber (f64_of_u32 4), AmfNull, AmfNumber (f64_of_u32 1)]"

definition opening_sends :: "bytes \<Rightarrow> bytes \<Rightarrow> bytes \<Rightarrow> rtmp_send list" where
  "opening_sends app tc_url key =
     [SetSize DESIRED_CHUNK_SIZE, window, command 0 (connect_command app tc_url),
      command 0 (stream_command ''releaseStream'' 2 key),
      command 0 (stream_command ''FCPublish'' 3 key), create]"

definition greeting :: "rtmp_send list" where
  "greeting = [window, bandwidth, SetSize DESIRED_CHUNK_SIZE]"

lemma desired_size: "DESIRED_CHUNK_SIZE AND 0x7FFFFFFF = DESIRED_CHUNK_SIZE"
  by (simp add: DESIRED_CHUNK_SIZE_def)

lemma sv_greet_wrote:
  "\<exists>c. sv_greet (sv_new out) = Some c \<and> wrote (cw_new, out) greeting (sv_out c) \<and>
     cw_chunk_size (sv_writer c) = DESIRED_CHUNK_SIZE \<and>
     c = (sv_new out)\<lparr> sv_writer := sv_writer c, sv_written := sv_written c \<rparr>"
proof -
  have z: "cw_chunk_size cw_new \<noteq> 0" by (simp add: cw_new_def DEFAULT_CHUNK_SIZE_def)
  obtain b1 b2 b3 where
    "write_message cw_new 2 WINDOW_ACK_SIZE 0 0 (put_u32 2500000) = Some b1"
    "write_message cw_new 2 SET_PEER_BANDWIDTH 0 0 (put_u32 2500000 @ [2]) = Some b2"
    "write_message cw_new 2 SET_CHUNK_SIZE 0 0 (put_u32 DESIRED_CHUNK_SIZE) = Some b3"
    using write_message_total [OF _ _ z, of 2 WINDOW_ACK_SIZE 0 0 "put_u32 2500000"]
      write_message_total [OF _ _ z, of 2 SET_PEER_BANDWIDTH 0 0 "put_u32 2500000 @ [2]"]
      write_message_total [OF _ _ z, of 2 SET_CHUNK_SIZE 0 0 "put_u32 DESIRED_CHUNK_SIZE"] by auto
  then show ?thesis
    by (simp add: sv_greet_def sv_write_def sv_new_def write_set_chunk_size_def desired_size wrote_def greeting_def)
qed

text \<open>The server up to the publish command.\<close>

lemma opening_answered:
  assumes "cw_chunk_size (sv_writer c) \<noteq> 0" "str_ok app" "str_ok tc_url" "str_ok key"
    "sc_expected_app cfg = [] \<or> sc_expected_app cfg = app"
  shows "\<exists>c'. handle_all cfg (map sent_message (opening_sends app tc_url key)) c = Some c' \<and>
    c' = c\<lparr> sv_app_name := app, sv_publish_stream_id := 1, sv_written := sv_written c' \<rparr> \<and>
    wrote (sv_out c) [command 0 (connect_accepted (f64_of_u32 1)), answer 2, answer 3, command 0 created] (sv_out c')"
proof -
  obtain c1 where c1: "handle_message cfg (sent_message (command 0 (connect_command app tc_url))) c = Some (NextCommand c1)"
    "c1 = c\<lparr> sv_app_name := app, sv_written := sv_written c1 \<rparr>"
    "wrote (sv_out c) [command 0 (connect_accepted (f64_of_u32 1))] (sv_out c1)"
    using connect_answered [OF assms(1-3,5)] by blast
  have w1: "sv_writer c1 = sv_writer c" by (subst c1(2)) simp
  obtain c2 where c2: "handle_message cfg (sent_message (command 0 (stream_command ''releaseStream'' 2 key))) c1 = Some (NextCommand c2)"
    "c2 = c1\<lparr> sv_written := sv_written c2 \<rparr>" "wrote (sv_out c1) [answer 2] (sv_out c2)"
    using release_answered [of c1 key "''releaseStream''" cfg 2] assms w1 by auto
  have w2: "sv_writer c2 = sv_writer c" by (subst c2(2)) (simp add: w1)
  obtain c3 where c3: "handle_message cfg (sent_message (command 0 (stream_command ''FCPublish'' 3 key))) c2 = Some (NextCommand c3)"
    "c3 = c2\<lparr> sv_written := sv_written c3 \<rparr>" "wrote (sv_out c2) [answer 3] (sv_out c3)"
    using release_answered [of c2 key "''FCPublish''" cfg 3] assms w2 by auto
  have w3: "sv_writer c3 = sv_writer c" by (subst c3(2)) (simp add: w2)
  obtain c4 where c4: "handle_message cfg (sent_message create) c3 = Some (NextCommand c4)"
    "c4 = c3\<lparr> sv_publish_stream_id := 1, sv_written := sv_written c4 \<rparr>"
    "wrote (sv_out c3) [command 0 created] (sv_out c4)"
    using create_answered [of c3 cfg] assms(1) w3 by auto
  have h: "handle_all cfg (map sent_message (opening_sends app tc_url key)) c = Some c4"
    using c1(1) c2(1) c3(1) c4(1)
    by (simp add: opening_sends_def control_ignored msg_types del: sent_command)
  have "wrote (sv_out c) [command 0 (connect_accepted (f64_of_u32 1)), answer 2, answer 3, command 0 created] (sv_out c4)"
    using wrote_trans [OF c1(3) wrote_trans [OF c2(3) wrote_trans [OF c3(3) c4(3)]]] by simp
  moreover have "c4 = c\<lparr> sv_app_name := app, sv_publish_stream_id := 1, sv_written := sv_written c4 \<rparr>"
    by (subst c4(2), subst c3(2), subst c2(2), subst c1(2)) simp
  ultimately show ?thesis using h by blast
qed

section \<open>The client up to publishing\<close>

lemma cl_open_wrote:
  "\<exists>c. cl_open app tc_url (cl_new\<lparr> cl_written := out \<rparr>) = Some c \<and>
     wrote (cw_new, out) [SetSize DESIRED_CHUNK_SIZE, window, command 0 (connect_command app tc_url)] (cl_out c) \<and>
     cw_chunk_size (cl_writer c) = DESIRED_CHUNK_SIZE \<and>
     c = cl_new\<lparr> cl_writer := cl_writer c, cl_written := cl_written c \<rparr>"
proof -
  have z: "cw_chunk_size cw_new \<noteq> 0" by (simp add: cw_new_def DEFAULT_CHUNK_SIZE_def)
  let ?w = "cw_new\<lparr> cw_chunk_size := DESIRED_CHUNK_SIZE \<rparr>"
  have z1: "cw_chunk_size ?w \<noteq> 0" by (simp add: DESIRED_CHUNK_SIZE_def)
  obtain b1 b2 b3 where
    "write_message cw_new 2 SET_CHUNK_SIZE 0 0 (put_u32 DESIRED_CHUNK_SIZE) = Some b1"
    "write_message ?w 2 WINDOW_ACK_SIZE 0 0 (put_u32 2500000) = Some b2"
    "write_message ?w 3 COMMAND_AMF0 0 0 (encode_values (connect_command app tc_url)) = Some b3"
    using write_message_total [OF _ _ z, of 2 SET_CHUNK_SIZE 0 0 "put_u32 DESIRED_CHUNK_SIZE"]
      write_message_total [OF _ _ z1, of 2 WINDOW_ACK_SIZE 0 0 "put_u32 2500000"]
      write_message_total [OF _ _ z1, of 3 COMMAND_AMF0 0 0 "encode_values (connect_command app tc_url)"] by auto
  then show ?thesis
    by (simp add: cl_open_def cl_command_def cl_write_def cl_new_def write_set_chunk_size_def desired_size wrote_def
        command_def)
qed

lemma cl_create_wrote:
  assumes "cw_chunk_size (cl_writer c) \<noteq> 0"
  shows "\<exists>c'. cl_create key c = Some c' \<and> c' = c\<lparr> cl_written := cl_written c' \<rparr> \<and>
    wrote (cl_out c) [command 0 (stream_command ''releaseStream'' 2 key),
      command 0 (stream_command ''FCPublish'' 3 key), create] (cl_out c')"
proof -
  obtain c1 where c1: "cl_command 0 (stream_command ''releaseStream'' 2 key) c = Some c1"
    "c1 = c\<lparr> cl_written := cl_written c1 \<rparr>"
    "wrote (cl_out c) [command 0 (stream_command ''releaseStream'' 2 key)] (cl_out c1)"
    using cl_command_wrote [OF assms] by blast
  have w1: "cl_writer c1 = cl_writer c" by (subst c1(2)) simp
  obtain c2 where c2: "cl_command 0 (stream_command ''FCPublish'' 3 key) c1 = Some c2"
    "c2 = c1\<lparr> cl_written := cl_written c2 \<rparr>"
    "wrote (cl_out c1) [command 0 (stream_command ''FCPublish'' 3 key)] (cl_out c2)"
    using cl_command_wrote [of c1] assms w1 by metis
  have w2: "cl_writer c2 = cl_writer c" by (subst c2(2)) (simp add: w1)
  obtain c3 where c3: "cl_command 0 [AmfString (str ''createStream''), AmfNumber (f64_of_u32 4), AmfNull] c2 = Some c3"
    "c3 = c2\<lparr> cl_written := cl_written c3 \<rparr>" "wrote (cl_out c2) [create] (cl_out c3)"
    using cl_command_wrote [of c2] assms w2 by metis
  have "c3 = c\<lparr> cl_written := cl_written c3 \<rparr>"
    by (subst c3(2), subst c2(2), subst c1(2)) simp
  moreover have "wrote (cl_out c) [command 0 (stream_command ''releaseStream'' 2 key),
      command 0 (stream_command ''FCPublish'' 3 key), create] (cl_out c3)"
    using wrote_trans [OF c1(3) wrote_trans [OF c2(3) c3(3)]] by simp
  ultimately show ?thesis using c1(1) c2(1) c3(1) by (simp add: cl_create_def)
qed

section \<open>What the client makes of the answers\<close>

lemma f64_eq_small [simp]:
  "f64_eq (f64_of_u32 1) (f64_of_u32 1)" "f64_eq (f64_of_u32 4) (f64_of_u32 4)"
  "\<not> f64_eq (f64_of_u32 2) (f64_of_u32 4)" "\<not> f64_eq (f64_of_u32 3) (f64_of_u32 4)"
  by (simp_all add: f64_small f64_eq_def f64_nan_def f64_exp_def f64_frac_def f64_zero_def)

lemma judged:
  "judge_result (f64_of_u32 1) (connect_accepted (f64_of_u32 1)) = Got ()"
  "judge_create_stream (f64_of_u32 4) created = Got 1"
  "judge_publish started = Got ()"
  by (simp_all add: judge_result_def judge_create_stream_def judge_publish_def connect_accepted_def
      publish_status_def positions Let_def)

lemma judged_bad_name:
  "judge_publish bad_name = Refused (ConnectError PublishRejected (Some (str ''NetStream.Publish.BadName'')))"
proof -
  have "contains (str ''NetStream.Publish.BadName'') (str ''BadName'')" by code_simp
  then show ?thesis by (simp add: judge_publish_def publish_status_def positions Let_def)
qed

lemma skipped_command: "vals_ok vs \<Longrightarrow> judge vs = Skip \<Longrightarrow> skipped judge (command sid vs)"
  unfolding skipped_def by blast

lemma skipped_greeting: "x \<in> set greeting \<Longrightarrow> skipped judge x"
  by (auto simp: greeting_def skipped_def msg_types)

lemma skipped_answers:
  "skipped (judge_create_stream (f64_of_u32 4)) (answer 2)"
  "skipped (judge_create_stream (f64_of_u32 4)) (answer 3)"
  by (rule skipped_command, rule vals_answers, simp add: judge_create_stream_def positions Let_def)+

lemma sendable_answers:
  assumes "MAX_PREPUBLISH_MSG_LEN \<le> cr_max_command_len r"
  shows "x \<in> set greeting \<Longrightarrow> sendable r x" "sendable r (command sid (connect_accepted tx))"
    "sendable r (answer n)" "sendable r (command sid created)" "sendable r (command sid started)"
    "sendable r (command sid bad_name)"
  using assms sendable_command [OF _ assms] vals_answers
  by (auto simp: greeting_def message_cap_def msg_types MAX_RTMP_MSG_LEN_def DESIRED_CHUNK_SIZE_def
      word_less_nat_alt)

text \<open>The client on the server's answers.\<close>

lemma client_run:
  assumes B1: "write_sends cw_new (greeting @ [command 0 (connect_accepted (f64_of_u32 1))]) = Some (B1, w1)"
    and B2: "write_sends w1 [answer 2, answer 3, command 0 created] = Some (B2, w2)"
    and B3: "write_sends w2 [command sid fin] = Some (B3, w3)"
    and fin: "fin = started \<or> fin = bad_name"
  shows "\<exists>c. wrote (cw_new, c0c1_block tc @ s1_block ts)
      (opening_sends app tc_url key @ [command 1 (publish_command key)]) (cl_out c) \<and>
    cl_stream_id c = 1 \<and> cw_chunk_size (cl_writer c) = DESIRED_CHUNK_SIZE \<and>
    rtmp_connect app tc_url key tc ([3] @ s1_block ts @ tl (c0c1_block tc) @ B1 @ B2 @ B3) =
      (if fin = started then ok (c, [])
       else err (ConnectError PublishRejected (Some (str ''NetStream.Publish.BadName''))))"
proof -
  let ?hs = "c0c1_block tc @ s1_block ts"
  let ?ids = "{2, 3} :: u32 set"
  have step0: "in_step ?ids MAX_RTMP_MSG_LEN cw_new cr_new"
    by (simp add: in_step_def cw_new_def cr_new_def DEFAULT_CHUNK_SIZE_def MAX_CHUNK_STREAMS_def)
  have big: "MAX_PREPUBLISH_MSG_LEN \<le> MAX_RTMP_MSG_LEN"
    by (simp add: MAX_PREPUBLISH_MSG_LEN_def MAX_RTMP_MSG_LEN_def)
  have can: "MAX_PREPUBLISH_MSG_LEN \<le> cr_max_command_len r" if "in_step ?ids MAX_RTMP_MSG_LEN w r" for w r
    using that big by (simp add: in_step_def)
  have few: "length greeting < 50" by (simp add: greeting_def)
  have sk: "\<forall>x\<in>set greeting. skipped (judge_result (f64_of_u32 1)) x" using skipped_greeting by blast
  have ids: "x \<in> set greeting \<Longrightarrow> send_id x \<in> ?ids" for x by (auto simp: greeting_def)
  obtain c1 where c1: "cl_open app tc_url (cl_new\<lparr> cl_written := ?hs \<rparr>) = Some c1"
    "wrote (cw_new, ?hs) [SetSize DESIRED_CHUNK_SIZE, window, command 0 (connect_command app tc_url)] (cl_out c1)"
    "cw_chunk_size (cl_writer c1) = DESIRED_CHUNK_SIZE"
    "c1 = cl_new\<lparr> cl_writer := cl_writer c1, cl_written := cl_written c1 \<rparr>"
    using cl_open_wrote by blast
  have r1: "cl_reader c1 = cr_new" by (subst c1(4)) (simp add: cl_new_def)
  obtain q1 where q1: "in_step ?ids MAX_RTMP_MSG_LEN w1 q1"
    "\<And>rest. wait_for_result (f64_of_u32 1) c1 (B1 @ rest) = ok ((), c1\<lparr> cl_reader := q1 \<rparr>, rest)"
    using wait_loop_carried [of ?ids MAX_RTMP_MSG_LEN cw_new c1 greeting 0 "connect_accepted (f64_of_u32 1)"
        "judge_result (f64_of_u32 1)" 50 B1 w1] step0 sendable_answers(1,2) [OF can [OF step0]] ids B1
      sk vals_answers(1) judged(1) few
    by (auto simp: r1 wait_for_result_def)
  have z1: "cw_chunk_size (cl_writer (c1\<lparr> cl_reader := q1 \<rparr>)) \<noteq> 0"
    using c1(3) by (simp add: DESIRED_CHUNK_SIZE_def)
  obtain c2 where c2: "cl_create key (c1\<lparr> cl_reader := q1 \<rparr>) = Some c2"
    "c2 = c1\<lparr> cl_reader := q1, cl_written := cl_written c2 \<rparr>"
    "wrote (cl_out c1) [command 0 (stream_command ''releaseStream'' 2 key),
      command 0 (stream_command ''FCPublish'' 3 key), create] (cl_out c2)"
    using cl_create_wrote [OF z1, of key] by auto
  have r2: "cl_reader c2 = q1" "cl_writer c2 = cl_writer c1" by (subst c2(2), simp)+
  obtain q2 where q2: "in_step ?ids MAX_RTMP_MSG_LEN w2 q2"
    "\<And>rest. wait_for_create_stream_result (f64_of_u32 4) c2 (B2 @ rest) = ok (1, c2\<lparr> cl_reader := q2 \<rparr>, rest)"
    using wait_loop_carried [of ?ids MAX_RTMP_MSG_LEN w1 c2 "[answer 2, answer 3]" 0 created
        "judge_create_stream (f64_of_u32 4)" 50 B2 w2] q1(1) sendable_answers(3,4) [OF can [OF q1(1)]] B2
      skipped_answers vals_answers(3) judged(2)
    by (auto simp: r2 wait_for_create_stream_result_def)
  let ?c = "c2\<lparr> cl_reader := q2, cl_stream_id := 1 \<rparr>"
  have z2: "cw_chunk_size (cl_writer ?c) \<noteq> 0" using c1(3) by (simp add: DESIRED_CHUNK_SIZE_def r2)
  obtain c3 where c3: "cl_command 1 (publish_command key) ?c = Some c3"
    "c3 = ?c\<lparr> cl_written := cl_written c3 \<rparr>" "wrote (cl_out ?c) [command 1 (publish_command key)] (cl_out c3)"
    using cl_command_wrote [OF z2, of 1 "publish_command key"] by blast
  have r3: "cl_reader c3 = q2" "cl_writer c3 = cl_writer c1" "cl_stream_id c3 = 1"
    by (subst c3(2), simp add: r2)+
  have lv: "vals_ok fin" using fin vals_answers(4,5) by auto
  have lj: "judge_publish fin = (if fin = started then Got ()
      else Refused (ConnectError PublishRejected (Some (str ''NetStream.Publish.BadName''))))"
    using fin judged(3) judged_bad_name by auto
  then have ns: "judge_publish fin \<noteq> Skip" by simp
  obtain q3 where q3: "\<And>rest. wait_for_publish_start c3 (B3 @ rest) =
      (if fin = started then ok ((), c3\<lparr> cl_reader := q3 \<rparr>, rest)
       else err (ConnectError PublishRejected (Some (str ''NetStream.Publish.BadName''))))"
    using wait_loop_carried [of ?ids MAX_RTMP_MSG_LEN w2 c3 "[]" sid fin judge_publish 50 B3 w3] q2(1)
      sendable_command [OF lv can [OF q2(1)]] B3 lv ns
    by (auto simp: r3 wait_for_publish_start_def lj split: if_splits)
  let ?f = "c3\<lparr> cl_reader := q3 \<rparr>"
  have w: "wrote (cw_new, ?hs) (opening_sends app tc_url key @ [command 1 (publish_command key)]) (cl_out ?f)"
    using wrote_trans [OF c1(2) wrote_trans [OF c2(3)]] c3(3) by (fastforce simp: opening_sends_def)
  have run: "rtmp_connect app tc_url key tc ([3] @ s1_block ts @ tl (c0c1_block tc) @ B1 @ B2 @ B3) =
      (if fin = started then ok (?f, [])
       else err (ConnectError PublishRejected (Some (str ''NetStream.Publish.BadName''))))"
    unfolding rtmp_connect_def client_handshake_server
    using q3 [of "[]"] by (simp add: c1(1) q1(2) c2(1) q2(2) c3(1))
  show ?thesis
    using w run r3 c1(3) by (intro exI [of _ ?f] conjI) simp_all
qed

section \<open>Frames\<close>

type_synonym frame = "bool \<times> bytes \<times> u32"

fun send_frame :: "frame \<Rightarrow> rtmp_client \<Rightarrow> rtmp_client panics" where
  "send_frame (video, data, ts) c = (if video then send_video data ts c else send_audio data ts c)"

fun send_frames :: "frame list \<Rightarrow> rtmp_client \<Rightarrow> rtmp_client panics" where
  "send_frames [] c = Some c"
| "send_frames (f # fs) c = Option.bind (send_frame f c) (send_frames fs)"

fun frame_send :: "frame \<Rightarrow> rtmp_send" where
  "frame_send (video, data, ts) =
     (if video then Send 5 VIDEO 1 ts data else Send 4 AUDIO 1 ts data)"

fun frame_media :: "frame \<Rightarrow> rtmp_media_message" where
  "frame_media (video, data, ts) = (if video then MediaVideo data ts else MediaAudio data ts)"

definition frame_ok :: "frame \<Rightarrow> bool" where
  "frame_ok f \<longleftrightarrow> length (fst (snd f)) < 2 ^ 24 \<and> snd (snd f) < 0x00FFFFFF"

lemma send_frames_wrote:
  assumes "cw_chunk_size (cl_writer c) \<noteq> 0" "cl_stream_id c = 1"
  shows "\<exists>c'. send_frames fs c = Some c' \<and> wrote (cl_out c) (map frame_send fs) (cl_out c')"
  using assms
proof (induction fs arbitrary: c)
  case (Cons f fs)
  obtain v d t where f: "f = (v, d, t)" by (cases f)
  obtain bs where "write_message (cl_writer c) (if v then 5 else 4) (if v then VIDEO else AUDIO) 1 t d = Some bs"
    using write_message_total [OF _ _ Cons.prems(1), of 5 VIDEO 1 t d]
      write_message_total [OF _ _ Cons.prems(1), of 4 AUDIO 1 t d] by (cases v) auto
  then have 1: "send_frame f c = Some (c\<lparr> cl_written := cl_written c @ bs \<rparr>)"
    and 2: "wrote (cl_out c) [frame_send f] (cl_out (c\<lparr> cl_written := cl_written c @ bs \<rparr>))"
    using Cons.prems(2)
    by (auto simp: f send_video_def send_audio_def cl_write_def wrote_def split: if_splits)
  from Cons.IH [of "c\<lparr> cl_written := cl_written c @ bs \<rparr>"] Cons.prems
  obtain c' where "send_frames fs (c\<lparr> cl_written := cl_written c @ bs \<rparr>) = Some c'"
    "wrote (cl_out (c\<lparr> cl_written := cl_written c @ bs \<rparr>)) (map frame_send fs) (cl_out c')" by auto
  with 1 wrote_trans [OF 2] show ?case by simp
qed simp

lemma frame_sendable: "frame_ok f \<Longrightarrow> sendable r (frame_send f) \<and> send_id (frame_send f) \<in> {4, 5}"
  by (cases f) (auto simp: frame_ok_def message_cap_def msg_types MAX_RTMP_MSG_LEN_def)

lemma media_frame:
  "media_message (sent_message (frame_send f)) c = (True, sv_send (frame_media f) c)"
  by (cases f) (simp add: media_message_def msg_types)

lemma media_loop_carried:
  assumes "in_step ids cap w (sv_reader c)" "{4, 5} \<subseteq> ids" "\<forall>f\<in>set fs. frame_ok f"
    "write_sends w (map frame_send fs) = Some (bs, w')"
  shows "\<exists>r'. receive_media_loop (replicate (length fs) Arrived) bs c =
    Some (False, c\<lparr> sv_reader := r', sv_media := sv_media c @ map frame_media fs \<rparr>)"
  using assms
proof (induction fs arbitrary: w c bs)
  case Nil
  then show ?case by (auto intro!: exI [of _ "sv_reader c"])
next
  case (Cons f fs)
  have f: "send_id (frame_send f) \<in> ids" "sendable (sv_reader c) (frame_send f)"
    using frame_sendable [of f "sv_reader c"] Cons.prems(2,3) by auto
  obtain b1 w1 r1 where one: "write_one w (frame_send f) = Some (b1, w1)" "in_step ids cap w1 r1"
    "\<And>rest. read_message (sv_reader c) (b1 @ rest) = ok (sent_message (frame_send f), r1, rest)"
    using one_message_carried [OF Cons.prems(1) f] by auto
  obtain b2 where b: "bs = b1 @ b2" "write_sends w1 (map frame_send fs) = Some (b2, w')"
    using Cons.prems(4) one(1) by (auto split: Option.bind_splits)
  let ?c = "sv_send (frame_media f) (c\<lparr> sv_reader := r1 \<rparr>)"
  obtain r' where "receive_media_loop (replicate (length fs) Arrived) b2 ?c =
      Some (False, ?c\<lparr> sv_reader := r', sv_media := sv_media ?c @ map frame_media fs \<rparr>)"
    using Cons.IH [of w1 ?c b2] one(2) b(2) Cons.prems(2,3) by (auto simp: sv_send_def)
  then show ?case
    using one(3) by (auto simp: b(1) ok_def media_frame sv_send_def intro!: exI [of _ r'])
qed

section \<open>The server on the client's messages\<close>

lemma wrote_split:
  assumes "wrote a (xs @ ys) c"
  obtains b where "wrote a xs b" "wrote b ys c"
proof -
  from assms obtain bs w1 cs where 1: "write_sends (fst a) xs = Some (bs, w1)"
    and 2: "write_sends w1 ys = Some (cs, fst c)" and 3: "snd c = snd a @ bs @ cs"
    by (auto simp: wrote_def write_sends_append split: Option.bind_splits)
  have "wrote a xs (w1, snd a @ bs)" "wrote (w1, snd a @ bs) ys c"
    using 1 2 3 by (simp_all add: wrote_def)
  then show ?thesis by (rule that)
qed

lemma opening_sendable:
  assumes "MAX_PREPUBLISH_MSG_LEN \<le> cr_max_command_len r" "str_ok app" "str_ok tc_url" "str_ok key"
    "x \<in> set (opening_sends app tc_url key)"
  shows "sendable r x \<and> send_id x \<in> {2, 3}"
proof -
  have "ascii ''releaseStream''" "ascii ''FCPublish''" by (simp_all add: ascii_def)
  then show ?thesis
    using assms(5) sendable_command [OF _ assms(1)] vals_connect [OF assms(2,3)] vals_create
      vals_stream [OF _ assms(4)]
    by (auto simp: opening_sends_def message_cap_def msg_types MAX_RTMP_MSG_LEN_def
        DESIRED_CHUNK_SIZE_def)
qed

abbreviation replies :: "rtmp_server_config \<Rightarrow> bytes \<Rightarrow> rtmp_send list" where
  "replies cfg key \<equiv> [command 1 (if key_ok cfg key then started else bad_name)]"

lemma server_run:
  assumes ok: "str_ok app" "str_ok tc_url" "str_ok key" "sc_expected_app cfg = [] \<or> sc_expected_app cfg = app"
    and C: "write_sends cw_new (opening_sends app tc_url key) = Some (C1, w1)"
      "write_one w1 (command 1 (publish_command key)) = Some (C2, w2)"
      "write_sends w2 (map frame_send fs) = Some (C3, w3)"
    and fs: "\<forall>f\<in>set fs. frame_ok f"
  shows "\<exists>c. wrote (cw_new, [3] @ s1_block ts @ tl (c0c1_block tc))
      (greeting @ [command 0 (connect_accepted (f64_of_u32 1)), answer 2, answer 3, command 0 created] @
        replies cfg key) (sv_out c) \<and>
    sv_publishing c = key_ok cfg key \<and>
    sv_media c = (if key_ok cfg key then map frame_media fs else []) \<and>
    handle_rtmp_client cfg ts True (replicate 7 Arrived @ replicate (length fs) Arrived)
      (c0c1_block tc @ s1_block ts @ C1 @ C2 @ C3) =
      Some (if key_ok cfg key then Open else Ended (Some KeyMismatch), c)"
proof -
  let ?ids = "{2, 3, 4, 5} :: u32 set"
  let ?r0 = "set_max_command_len MAX_PREPUBLISH_MSG_LEN cr_new"
  let ?hs = "[3] @ s1_block ts @ tl (c0c1_block tc)"
  obtain c0 where c0: "sv_greet (sv_new ?hs) = Some c0" "wrote (cw_new, ?hs) greeting (sv_out c0)"
    "cw_chunk_size (sv_writer c0) = DESIRED_CHUNK_SIZE"
    "c0 = (sv_new ?hs)\<lparr> sv_writer := sv_writer c0, sv_written := sv_written c0 \<rparr>"
    using sv_greet_wrote by blast
  have f0: "sv_reader c0 = ?r0" "sv_media c0 = []" "\<not> sv_publishing c0"
    by (subst c0(4), simp add: sv_new_def)+
  have step0: "in_step ?ids MAX_PREPUBLISH_MSG_LEN cw_new (sv_reader c0)"
    by (simp add: f0 in_step_def cw_new_def cr_new_def set_max_command_len_def DEFAULT_CHUNK_SIZE_def
        MAX_CHUNK_STREAMS_def)
  have z0: "cw_chunk_size (sv_writer c0) \<noteq> 0" using c0(3) by (simp add: DESIRED_CHUNK_SIZE_def)
  obtain c1 where c1: "handle_all cfg (map sent_message (opening_sends app tc_url key)) c0 = Some c1"
    "c1 = c0\<lparr> sv_app_name := app, sv_publish_stream_id := 1, sv_written := sv_written c1 \<rparr>"
    "wrote (sv_out c0) [command 0 (connect_accepted (f64_of_u32 1)), answer 2, answer 3, command 0 created] (sv_out c1)"
    using opening_answered [OF z0 ok(1-4)] by blast
  have f1: "sv_media c1 = []" "\<not> sv_publishing c1" "sv_writer c1 = sv_writer c0" "sv_publish_stream_id c1 = 1"
    by (subst c1(2), simp add: f0)+
  have "\<forall>x\<in>set (opening_sends app tc_url key). send_id x \<in> ?ids \<and> sendable (sv_reader c0) x"
    using opening_sendable [of "sv_reader c0", OF _ ok(1-3)] by (auto simp: f0 set_max_command_len_def)
  from command_loop_all [OF step0 this C(1) c1(1)] obtain r1 where r1: "in_step ?ids MAX_PREPUBLISH_MSG_LEN w1 r1"
    and loop1: "\<And>ws rest. command_loop cfg (replicate (length (opening_sends app tc_url key)) Arrived @ ws) (C1 @ rest) c0 =
      command_loop cfg ws rest (c1\<lparr> sv_reader := r1 \<rparr>)" by blast
  let ?p = "command 1 (publish_command key)"
  have "sendable r1 ?p"
    using r1 by (intro sendable_command vals_publish ok) (simp add: in_step_def)
  then obtain r2 where r2: "in_step ?ids MAX_PREPUBLISH_MSG_LEN w2 r2"
    "\<And>rest. read_message r1 (C2 @ rest) = ok (sent_message ?p, r2, rest)"
    using one_message_carried [OF r1, of ?p] C(2) by auto
  have "cw_chunk_size (sv_writer (c1\<lparr> sv_reader := r2 \<rparr>)) \<noteq> 0" using z0 by (simp add: f1)
  from publish_answered [OF this ok(3), of cfg 1] obtain c2 where
    c2: "handle_message cfg (sent_message ?p) (c1\<lparr> sv_reader := r2 \<rparr>) =
      Some (if key_ok cfg key then StartMedia (c2\<lparr> sv_publishing := True \<rparr>) else Fail KeyMismatch c2)"
    "c2 = c1\<lparr> sv_reader := r2, sv_written := sv_written c2 \<rparr>" "wrote (sv_out c1) (replies cfg key) (sv_out c2)"
    by (auto simp: f1)
  have f2: "sv_media c2 = []" "\<not> sv_publishing c2" "sv_reader c2 = r2" by (subst c2(2), simp add: f1)+
  have w: "wrote (cw_new, ?hs) (greeting @ [command 0 (connect_accepted (f64_of_u32 1)), answer 2, answer 3,
      command 0 created] @ replies cfg key) (sv_out c2)"
    using wrote_trans [OF c0(2) wrote_trans [OF c1(3) c2(3)]] by simp
  have run: "handle_rtmp_client cfg ts True (replicate 7 Arrived @ ws) (c0c1_block tc @ s1_block ts @ C1 @ C2 @ rest) =
      command_loop cfg (Arrived # ws) (C2 @ rest) (c1\<lparr> sv_reader := r1 \<rparr>)" for ws rest
    using loop1 [of "Arrived # ws" "C2 @ rest"] server_handshake_client [of ts tc "C1 @ C2 @ rest"] c0(1)
    by (simp add: handle_rtmp_client_def opening_sends_def numeral_eq_Suc)
  show ?thesis
  proof (cases "key_ok cfg key")
    case False
    then show ?thesis using w run [of _ C3] c2(1) f2
      by (intro exI [of _ c2]) (simp add: r2(2) [unfolded ok_def])
  next
    case True
    obtain r3 where m: "receive_media_loop (replicate (length fs) Arrived) C3 (c2\<lparr> sv_publishing := True \<rparr>) =
        Some (False, c2\<lparr> sv_publishing := True, sv_reader := r3, sv_media := map frame_media fs \<rparr>)"
      using media_loop_carried [of ?ids MAX_PREPUBLISH_MSG_LEN w2 "c2\<lparr> sv_publishing := True \<rparr>" fs C3 w3]
        r2(1) fs C(3) by (auto simp: f2)
    show ?thesis using True w run [of _ C3] c2(1)
      by (intro exI [of _ "c2\<lparr> sv_publishing := True, sv_reader := r3, sv_media := map frame_media fs \<rparr>"])
         (simp add: r2(2) [unfolded ok_def] m)
  qed
qed

text \<open>Both directions exist together: the bytes of either side are the input of the other.\<close>

lemma session:
  assumes ok: "str_ok app" "str_ok tc_url" "str_ok key" "sc_expected_app cfg = [] \<or> sc_expected_app cfg = app"
    and fs: "\<forall>f\<in>set fs. frame_ok f"
  shows "\<exists>cb w client client' conn.
    write_sends cw_new (opening_sends app tc_url key @ [command 1 (publish_command key)]) = Some (cb, w) \<and>
    rtmp_connect app tc_url key tc (sv_written conn) =
      (if key_ok cfg key then ok (client, [])
       else err (ConnectError PublishRejected (Some (str ''NetStream.Publish.BadName'')))) \<and>
    cl_stream_id client = 1 \<and> cl_written client = c0c1_block tc @ s1_block ts @ cb \<and>
    send_frames fs client = Some client' \<and>
    handle_rtmp_client cfg ts True (replicate (7 + length fs) Arrived) (cl_written client') =
      Some (if key_ok cfg key then Open else Ended (Some KeyMismatch), conn) \<and>
    sv_publishing conn = key_ok cfg key \<and>
    sv_media conn = (if key_ok cfg key then map frame_media fs else [])"
proof -
  let ?ids = "{2, 3, 4, 5} :: u32 set"
  let ?r0 = "set_max_command_len MAX_PREPUBLISH_MSG_LEN cr_new"
  let ?p = "command 1 (publish_command key)"
  have step: "in_step ?ids MAX_PREPUBLISH_MSG_LEN cw_new ?r0"
    by (simp add: in_step_def cw_new_def cr_new_def set_max_command_len_def DEFAULT_CHUNK_SIZE_def
        MAX_CHUNK_STREAMS_def)
  have cap: "MAX_PREPUBLISH_MSG_LEN \<le> cr_max_command_len ?r0" by (simp add: set_max_command_len_def)
  have "\<forall>x\<in>set (opening_sends app tc_url key @ [?p] @ map frame_send fs). send_id x \<in> ?ids \<and> sendable ?r0 x"
    using opening_sendable [OF cap ok(1-3)] sendable_command [OF vals_publish [OF ok(3)] cap]
      frame_sendable fs by fastforce
  from connection_carries [OF step this] obtain C w
    where "write_sends cw_new (opening_sends app tc_url key @ [?p] @ map frame_send fs) = Some (C, w)" by blast
  then obtain C1 w1 C2 w2 C3 where C: "write_sends cw_new (opening_sends app tc_url key) = Some (C1, w1)"
    "write_one w1 ?p = Some (C2, w2)" "write_sends w2 (map frame_send fs) = Some (C3, w)"
    by (auto simp: write_sends_append split: Option.bind_splits)
  have CB: "write_sends cw_new (opening_sends app tc_url key @ [?p]) = Some (C1 @ C2, w2)"
    by (simp add: write_sends_append C)
  obtain conn where conn: "wrote (cw_new, [3] @ s1_block ts @ tl (c0c1_block tc))
      ((greeting @ [command 0 (connect_accepted (f64_of_u32 1))]) @ [answer 2, answer 3, command 0 created] @
        replies cfg key) (sv_out conn)"
    "sv_publishing conn = key_ok cfg key" "sv_media conn = (if key_ok cfg key then map frame_media fs else [])"
    "handle_rtmp_client cfg ts True (replicate 7 Arrived @ replicate (length fs) Arrived)
      (c0c1_block tc @ s1_block ts @ C1 @ C2 @ C3) =
      Some (if key_ok cfg key then Open else Ended (Some KeyMismatch), conn)"
    using server_run [OF ok C fs, of ts tc] by auto
  obtain b1 where b1: "wrote (cw_new, [3] @ s1_block ts @ tl (c0c1_block tc))
      (greeting @ [command 0 (connect_accepted (f64_of_u32 1))]) b1"
    "wrote b1 ([answer 2, answer 3, command 0 created] @ replies cfg key) (sv_out conn)"
    using conn(1) by (rule wrote_split)
  obtain b2 where b2: "wrote b1 [answer 2, answer 3, command 0 created] b2" "wrote b2 (replies cfg key) (sv_out conn)"
    using b1(2) by (rule wrote_split)
  obtain B1 B2 B3 where B: "write_sends cw_new (greeting @ [command 0 (connect_accepted (f64_of_u32 1))]) = Some (B1, fst b1)"
    "write_sends (fst b1) [answer 2, answer 3, command 0 created] = Some (B2, fst b2)"
    "write_sends (fst b2) (replies cfg key) = Some (B3, sv_writer conn)"
    "sv_written conn = [3] @ s1_block ts @ tl (c0c1_block tc) @ B1 @ B2 @ B3"
    using b1(1) b2 by (auto simp: wrote_def)
  have neq: "bad_name \<noteq> started" by (simp add: publish_status_def)
  obtain client where cl: "wrote (cw_new, c0c1_block tc @ s1_block ts)
      (opening_sends app tc_url key @ [?p]) (cl_out client)"
    "cl_stream_id client = 1" "cw_chunk_size (cl_writer client) = DESIRED_CHUNK_SIZE"
    "rtmp_connect app tc_url key tc ([3] @ s1_block ts @ tl (c0c1_block tc) @ B1 @ B2 @ B3) =
      (if (if key_ok cfg key then started else bad_name) = started then ok (client, [])
       else err (ConnectError PublishRejected (Some (str ''NetStream.Publish.BadName''))))"
    using client_run [OF B(1-3)] by fastforce
  have wr: "cl_written client = c0c1_block tc @ s1_block ts @ C1 @ C2" "cl_writer client = w2"
    using cl(1) CB by (auto simp: wrote_def)
  have "cw_chunk_size (cl_writer client) \<noteq> 0" using cl(3) by (simp add: DESIRED_CHUNK_SIZE_def)
  from send_frames_wrote [OF this cl(2), of fs] obtain client' where
    c': "send_frames fs client = Some client'" "cl_written client' = cl_written client @ C3"
    using C(3) by (auto simp: wrote_def wr)
  show ?thesis
    using CB cl(2) wr conn(2-4) c' cl(4) neq
    by (intro exI [of _ "C1 @ C2"] exI [of _ w2] exI [of _ client] exI [of _ client'] exI [of _ conn])
       (auto simp: B(4) replicate_add)
qed



text \<open>
  Property C22.  A wrong key is refused and reported: when the application matches and the key is
  not the configured one, the server ends the connection with the key error, nothing reaches its
  media channel, the publishing flag stays down, and the client that runs on the server's bytes
  fails with the publish rejection that carries the server's code, not with a connection error.
\<close>

theorem rtmp_wrong_key_is_reported:
  assumes "str_ok app" "str_ok tc_url" "str_ok key"
    "sc_expected_app cfg = [] \<or> sc_expected_app cfg = app"
    "sc_expected_stream_key cfg = Some k" "key \<noteq> k"
  shows "\<exists>cb w conn.
    write_sends cw_new (opening_sends app tc_url key @ [command 1 (publish_command key)]) = Some (cb, w) \<and>
    handle_rtmp_client cfg ts True (replicate 7 Arrived) (c0c1_block tc @ s1_block ts @ cb) =
      Some (Ended (Some KeyMismatch), conn) \<and>
    \<not> sv_publishing conn \<and> sv_media conn = [] \<and>
    rtmp_connect app tc_url key tc (sv_written conn) =
      err (ConnectError PublishRejected (Some (str ''NetStream.Publish.BadName'')))"
proof -
  have "\<not> key_ok cfg key" using assms(5,6) by (simp add: key_ok_def)
  with session [OF assms(1-4), of "[]" tc ts] show ?thesis by fastforce
qed

theorem rtmp_wrong_key_is_reported_witness:
  "\<exists>cb w conn.
    write_sends cw_new (opening_sends (str ''live'') (str ''rtmp://edge/live'') (str ''guess'') @
      [command 1 (publish_command (str ''guess''))]) = Some (cb, w) \<and>
    handle_rtmp_client \<lparr> sc_expected_app = [], sc_expected_stream_key = Some (str ''key'') \<rparr> 9 True
      (replicate 7 Arrived) (c0c1_block 7 @ s1_block 9 @ cb) = Some (Ended (Some KeyMismatch), conn) \<and>
    \<not> sv_publishing conn \<and> sv_media conn = [] \<and>
    rtmp_connect (str ''live'') (str ''rtmp://edge/live'') (str ''guess'') 7 (sv_written conn) =
      err (ConnectError PublishRejected (Some (str ''NetStream.Publish.BadName'')))"
proof -
  have "ascii ''live''" "ascii ''rtmp://edge/live''" "ascii ''guess''" by (simp_all add: ascii_def)
  then show ?thesis by (intro rtmp_wrong_key_is_reported [where k = "str ''key''"]) simp_all
qed

end
