(* ===== verification/Spec2Isabelle.thy ===== *)
theory Spec2Isabelle
  imports
    FecCorrect
    HitlessRuns
    BufferedRun
    TsPacketCorrect
    TsRenumber
    TsPsiCorrect
    TsCollector
    ByteBudgetCorrect
    NullPadder
    BondedScheduler
    ProgramFilter
    PmtEditCorrect
    PsiStageCorrect
    PidRemapperCorrect
    FixerTaskCorrect
    Amf0Correct
    RtmpChunkCorrect
    RtmpServerCorrect
    RtmpSessionCorrect
begin

text \<open>
  Verification of the data path of bilbycast-edge, a media gateway that receives, repairs, merges,
  filters and re-emits MPEG transport streams. The sources are the Rust files under \<open>src/src\<close>.

  \<^bold>\<open>Parts of the program and how they interact.\<close> A flow takes datagrams from one or two network
  legs. Forward error correction (\<open>fec/\<close>) rebuilds lost datagrams from parity packets the sender
  interleaved; two legs of one stream are merged packet by packet (\<open>redundancy/merger.rs\<close>), with an
  optional hold that accommodates their skew. What is left is a sequence of 188-byte transport
  packets. Its tables are read, reassembled and rewritten by \<open>engine/ts_parse.rs\<close> and the stages
  built on it: the program filter, the PMT editor and its PMT-PID stage, the continuity bookkeeping
  of stages that drop packets. Towards the outputs stand the null padder, the bonding scheduler and
  the byte budgets that bound the memory of all queues.

  \<^bold>\<open>Theories and what they model.\<close>
  \<^item> \<open>EdgePrelude\<close>, \<open>RustSlice\<close>: machine words, big-endian bytes, slice access with panics. A
    function of the sources that indexes or slices is a value of \<open>'a panics\<close>, \<open>None\<close> is the panic.
  \<^item> \<open>RtpParse\<close>: \<open>util/rtp_parse.rs\<close>.
  \<^item> \<open>FecMatrix\<close>, \<open>FecEncoder\<close>, \<open>FecDecoder\<close>: \<open>fec/matrix.rs\<close>, \<open>fec/encoder.rs\<close>,
    \<open>fec/decoder.rs\<close>, one record per struct and one definition per method. \<open>FecRecovery\<close> states the
    recovery sweep once for columns and rows, as a locale interpreted for both; \<open>FecLink\<close> composes
    sender, a link that loses, repeats and reorders, and receiver; \<open>FecCorrect\<close> holds the results.
  \<^item> \<open>HitlessMerge\<close>, \<open>HitlessWindow\<close>, \<open>HitlessCorrect\<close>, \<open>HitlessRuns\<close>, \<open>HitlessLaws\<close>: \<open>HitlessMerger\<close> and
    \<open>HitlessRunMerger\<close> of \<open>redundancy/merger.rs\<close>, with the two traits as locales.
    \<open>BufferedMerge\<close>, \<open>BufferedCorrect\<close>, \<open>BufferedRun\<close>: \<open>BufferedHitlessMerger\<close> over either of them.
  \<^item> \<open>TsPacket\<close>, \<open>TsPacketFacts\<close>, \<open>TsPacketCorrect\<close>: the packet helpers of \<open>engine/ts_parse.rs\<close>;
    \<open>TsRenumber\<close>: \<open>CcRenumber\<close> and its use in \<open>engine/ts_pcr_remux.rs\<close>.
  \<^item> \<open>TsPsi\<close>, \<open>TsPsiFacts\<close>, \<open>TsPsiCorrect\<close>, \<open>TsDescriptors\<close>: CRC, section walk, PAT, version stamp
    and descriptor classifiers of \<open>engine/ts_parse.rs\<close>; the three descriptor walks are
    interpretations of one locale.
  \<^item> \<open>TsAssembler\<close>, \<open>TsAssemblerCorrect\<close>, \<open>TsCollector\<close>: \<open>SectionAssembler\<close> and
    \<open>PmtUnitCollector\<close>.
  \<^item> \<open>PmtEdit\<close>, \<open>PmtEditFacts\<close>, \<open>PmtEditCorrect\<close>: the strict PMT parser, the descriptor policies,
    the section rebuild and \<open>OutVersion\<close> of \<open>engine/ts_pmt_edit.rs\<close>. \<open>PsiStage\<close>,
    \<open>PsiStagePush\<close>, \<open>PsiStageLayout\<close>, \<open>PsiStageFacts\<close>, \<open>PsiStageCorrect\<close>: \<open>PsiUnitStage\<close> of the same
    file, as a reader, as a writer and as a whole.
  \<^item> \<open>PsiStageTotal\<close>: every unit of the PMT-PID stage can be emitted after an edit. \<open>PidRemapper\<close>,
    \<open>PidRemapperFacts\<close> and \<open>PidRemapperCorrect\<close>: \<open>engine/ts_pid_remapper.rs\<close>; the table of 8192 entries is
    a list, the stages per PMT PID are a map, packets go through \<open>rm_packet\<close>.
  \<^item> \<open>ContinuityFixer\<close>, \<open>ContinuityFixerFacts\<close>, \<open>ContinuityFixerCorrect\<close>: \<open>engine/ts_continuity_fixer.rs\<close>.
    \<open>FlowFraming\<close>, \<open>FlowFramingCorrect\<close>: \<open>FlowFraming\<close> of the same file with \<open>RtpWrapState\<close> of
    \<open>engine/output_rtp.rs\<close>. \<open>FixerTask\<close>, \<open>FixerTaskCorrect\<close>: \<open>ts_fixer_task\<close> and
    \<open>spawn_input_forwarder\<close> of \<open>engine/flow.rs\<close>, which compose the two; a command is a step.
  \<^item> \<open>RustResult\<close>: results that may also panic. \<open>Amf0\<close>, \<open>Amf0Facts\<close>, \<open>Amf0Correct\<close>: the AMF0
    codec \<open>engine/rtmp/amf0.rs\<close>. \<open>RtmpChunk\<close>, \<open>RtmpChunkFacts\<close>, \<open>RtmpChunkCorrect\<close>: the chunk framing
    \<open>engine/rtmp/chunk.rs\<close>; the connection is a byte list. \<open>RtmpServer\<close> and \<open>RtmpServerCorrect\<close>:
    \<open>engine/rtmp/server.rs\<close>, a wait is one element of a list of wake-ups. \<open>RtmpClient\<close>:
    \<open>engine/rtmp/client.rs\<close>, over the URL library as a parameter. \<open>RtmpSession\<close> and
    \<open>RtmpSessionCorrect\<close> run the two against each other; \<open>RustFloat\<close> has the operations on \<open>f64\<close>.
  \<^item> \<open>ProgramFilter\<close>: \<open>engine/ts_program_filter.rs\<close>. \<open>NullPadder\<close>: \<open>engine/ts_null_padder.rs\<close>.
    \<open>BondedScheduler\<close>: \<open>engine/bonded_scheduler.rs\<close>. \<open>ByteBudget\<close>, \<open>ByteBudgetCorrect\<close>:
    \<open>util/byte_budget.rs\<close>, every atomic access one step, all interleavings.

  \<^bold>\<open>What the theorems show.\<close> The FEC receiver returns only bytes the sender sent, rebuilds every
  single loss of a group, and its recovery loop runs to its fixpoint. The mergers forward each
  sequence number once and release in order, and their counters account for every packet. No
  input makes a parser panic; sections survive being cut into packets and being laid out again; a
  rebuilt table reads back as the edit plan says and carries a valid CRC; a stage that drops or
  edits keeps the continuity counters continuous, and one that does neither is transparent. The
  program filter lets only the chosen program through, the padder stays within its rate, and the
  byte budgets hold under every interleaving.
  The remapper moves every packet and every table entry to its configured PID. A switch announces the
  new input under a fresh version, every clock gets one discontinuity indicator, nothing else of a
  datagram changes, and a flow stays in one framing.
  RTMP commands and messages are read back as they were written, and neither the AMF0 decoder nor
  the chunk reader can be made to panic or to outgrow its limits. A client with the right key
  publishes through the server, every frame arrives, and without the key nothing does.

  \<^bold>\<open>Bounds and loops.\<close> Every loop of the sources is a terminating recursion with a measure. The
  recovery sweep of the FEC decoder keeps the iteration bound of the source, and the development
  proves that the bound never cuts a cascade short. The padder's loop is bounded by
  \<open>MAX_NULL_BURST\<close>. \<open>usize\<close> positions are natural numbers; \<open>u8\<close>, \<open>u16\<close>, \<open>u32\<close> and \<open>u64\<close> values are
  words where wrapping matters, and pure event counters are natural numbers.

  \<^bold>\<open>Not modelled.\<close> Task orchestration, sockets, files, clocks and devices (the flow engine, network
  inputs and outputs, recorder, tunnels, display), codecs and other foreign libraries, the
  configuration schema and the manager API. Log lines are left out everywhere. The analysers that
  only measure (catalogues, statistics) feed nothing back into the data path.

  \<^bold>\<open>Next.\<close> The PID overrides on top of the PMT-PID stage, the timestamp rewriter, and the
  elementary-stream multiplexer.
\<close>

end
